(* ===== verification/Prelude.thy ===== *)
theory Prelude
  imports Main "HOL-Library.Word" "HOL-Library.Monad_Syntax" "HOL-Library.Signed_Division"
begin

text \<open>
  Shared vocabulary of the development: C pointers into a memory block, checked reads and
  writes of a block, C strings inside a block, the range of a C \<open>int\<close>, C division, and
  the named collections the component theories add their simplification rules to.

  Conventions used in every theory:
  \<^item> a function of type \<open>\<dots> \<Rightarrow> 'a option\<close> that models C code is \<open>None\<close> exactly where
    the C code has undefined behaviour: an access outside the object, a \<open>NULL\<close>
    dereference, a read of an indeterminate value, a signed overflow;
  \<^item> a C pointer is a \<open>ptr\<close>: \<open>NULL\<close> or \<open>At i\<close>, with \<open>i\<close> an offset into the block the
    function works on, or an address where the component manages addresses;
  \<^item> a C \<open>int\<close> used as a truth value is \<open>1\<close> or \<open>0\<close> as in the source.
\<close>

named_theorems c_mem \<open>checked reads and writes of a block\<close>
named_theorems c_arith \<open>C integer arithmetic\<close>

section \<open>Pointers and blocks\<close>

datatype ptr = NULL | At int

text \<open>A block of memory cells; \<open>rd\<close> and \<open>wr\<close> are checked accesses at an offset.\<close>

definition rd :: "'a list \<Rightarrow> int \<Rightarrow> 'a option" where
  "rd m i = (if 0 \<le> i \<and> i < int (length m) then Some (m ! nat i) else None)"

definition wr :: "'a list \<Rightarrow> int \<Rightarrow> 'a \<Rightarrow> 'a list option" where
  "wr m i x = (if 0 \<le> i \<and> i < int (length m) then Some (m[nat i := x]) else None)"

lemma rd_int [c_mem, simp]: "rd m (int k) = (if k < length m then Some (m ! k) else None)"
  by (simp add: rd_def)

lemma wr_int [c_mem, simp]:
  "wr m (int k) x = (if k < length m then Some (m[k := x]) else None)"
  by (simp add: wr_def)

lemma rd_neg [c_mem]: "i < 0 \<Longrightarrow> rd m i = None"
  by (simp add: rd_def)

lemma rd_Some_bounds: "rd m i = Some x \<Longrightarrow> 0 \<le> i \<and> i < int (length m)"
  by (auto simp: rd_def split: if_splits)

lemma rd_Some_decr: "rd m i = Some x \<Longrightarrow> nat (int (length m) - (i + 1)) < nat (int (length m) - i)"
  by (auto dest: rd_Some_bounds)

lemma wr_length: "wr m i x = Some m' \<Longrightarrow> length m' = length m"
  by (auto simp: wr_def split: if_splits)

lemma rd_append_left: "0 \<le> i \<Longrightarrow> i < int (length a) \<Longrightarrow> rd (a @ b) i = rd a i"
  by (auto simp: rd_def nth_append nat_less_iff)

section \<open>Characters and C strings\<close>

abbreviation NUL :: char where "NUL \<equiv> CHR 0x00"
abbreviation TAB :: char where "TAB \<equiv> CHR 0x09"
abbreviation LF :: char where "LF \<equiv> CHR 0x0A"
abbreviation CR :: char where "CR \<equiv> CHR 0x0D"

text \<open>The C string that starts at offset \<open>p\<close> of block \<open>m\<close>.\<close>

definition cstr :: "string \<Rightarrow> nat \<Rightarrow> string" where
  "cstr m p = takeWhile (\<lambda>c. c \<noteq> NUL) (drop p m)"

lemma cstr_at: "NUL \<notin> set s \<Longrightarrow> length a = p \<Longrightarrow> cstr (a @ s @ NUL # b) p = s"
proof -
  assume "NUL \<notin> set s" and "length a = p"
  then have "takeWhile (\<lambda>c. c \<noteq> NUL) (s @ NUL # b) = s"
    by (subst takeWhile_append2) auto
  with \<open>length a = p\<close> show ?thesis by (simp add: cstr_def)
qed

text \<open>The standard library's \<open>strlen\<close>, as the loop that looks for the terminator.\<close>

function strlen :: "string \<Rightarrow> int \<Rightarrow> int option" where
  "strlen m p = (case rd m p of None \<Rightarrow> None
     | Some c \<Rightarrow> if c = NUL then Some 0 else map_option (\<lambda>n. n + 1) (strlen m (p + 1)))"
  by pat_completeness auto
termination
  by (relation "measure (\<lambda>(m, p). nat (int (length m) - p))") (auto dest: rd_Some_decr)

declare strlen.simps [simp del]

lemma strlen_at:
  "NUL \<notin> set s \<Longrightarrow> p = int (length a) \<Longrightarrow> strlen (a @ s @ NUL # b) p = Some (int (length s))"
proof (induction s arbitrary: a p)
  case Nil
  then show ?case by (simp add: strlen.simps [of "a @ NUL # b"])
next
  case (Cons c s)
  have "strlen ((a @ [c]) @ s @ NUL # b) (p + 1) = Some (int (length s))"
    using Cons.prems by (intro Cons.IH) auto
  with Cons.prems show ?case
    by (auto simp add: strlen.simps [of "a @ c # s @ NUL # b" "int (length a)"])
qed

section \<open>The standard library's block operations\<close>

text \<open>
  \<open>bzero\<close>, \<open>memcpy\<close> and \<open>strncpy\<close> on checked blocks. A negative \<open>int\<close> length becomes a
  huge \<open>size_t\<close>, which no block can hold, so it is undefined here too.
\<close>

definition splice :: "'a list \<Rightarrow> nat \<Rightarrow> 'a list \<Rightarrow> 'a list" where
  "splice m p xs = take p m @ xs @ drop (p + length xs) m"

definition wr_block :: "'a list \<Rightarrow> int \<Rightarrow> 'a list \<Rightarrow> 'a list option" where
  "wr_block m p xs = (if 0 \<le> p \<and> nat p + length xs \<le> length m
     then Some (splice m (nat p) xs) else None)"

definition rd_block :: "'a list \<Rightarrow> int \<Rightarrow> int \<Rightarrow> 'a list option" where
  "rd_block m p n = (if 0 \<le> p \<and> 0 \<le> n \<and> p + n \<le> int (length m)
     then Some (take (nat n) (drop (nat p) m)) else None)"

definition bzero :: "string \<Rightarrow> int \<Rightarrow> int \<Rightarrow> string option" where
  "bzero m p n = (if n < 0 then None else wr_block m p (replicate (nat n) NUL))"

definition memcpy :: "'a list \<Rightarrow> int \<Rightarrow> 'a list \<Rightarrow> int \<Rightarrow> int \<Rightarrow> 'a list option" where
  "memcpy dst dp src sp n = do { xs \<leftarrow> rd_block src sp n; wr_block dst dp xs }"

text \<open>\<open>strncpy\<close> copies at most \<open>n\<close> characters of a C string and fills the rest with NUL.\<close>

definition strncpy :: "string \<Rightarrow> int \<Rightarrow> string \<Rightarrow> int \<Rightarrow> int \<Rightarrow> string option" where
  "strncpy dst dp src sp n =
     (if sp < 0 \<or> n < 0 then None
      else let s = cstr src (nat sp) in
        if nat sp + length s < length src \<or> nat n \<le> length s
        then wr_block dst dp (take (nat n) (s @ replicate (nat n) NUL))
        else None)"

text \<open>\<open>memcmp\<close> compares as unsigned bytes; only the sign of its result is specified.\<close>

fun cmp_bytes :: "string \<Rightarrow> string \<Rightarrow> int" where
  "cmp_bytes (x # xs) (y # ys) =
     (if x = y then cmp_bytes xs ys else of_char x - of_char y)"
| "cmp_bytes _ _ = 0"

definition memcmp :: "string \<Rightarrow> int \<Rightarrow> string \<Rightarrow> int \<Rightarrow> int \<Rightarrow> int option" where
  "memcmp a p b q n = do { xs \<leftarrow> rd_block a p n; ys \<leftarrow> rd_block b q n; Some (cmp_bytes xs ys) }"

lemma length_splice [simp]: "p + length xs \<le> length m \<Longrightarrow> length (splice m p xs) = length m"
  by (simp add: splice_def)

lemma wr_block_0 [simp]: "length xs \<le> length m \<Longrightarrow> wr_block m 0 xs = Some (xs @ drop (length xs) m)"
  by (simp add: wr_block_def splice_def)

lemma wr_block_length: "wr_block m p xs = Some m' \<Longrightarrow> length m' = length m"
  by (auto simp: wr_block_def split: if_splits)

lemma rd_mid: "p = int (length a) \<Longrightarrow> rd (a @ x # b) p = Some x"
  by simp

lemma wr_mid: "p = int (length a) \<Longrightarrow> wr (a @ x # b) p y = Some (a @ y # b)"
  by simp

lemma wr_append: "i < length ys \<Longrightarrow> wr (xs @ ys) (int (length xs + i)) v = Some (xs @ ys[i := v])"
  by (auto simp: list_update_append simp del: of_nat_add)

lemma rd_block_prefix: "rd_block (xs @ ys) 0 (int (length xs)) = Some xs"
  by (simp add: rd_block_def)

lemma bzero_all: "length m = nat n \<Longrightarrow> 0 \<le> n \<Longrightarrow> bzero m 0 n = Some (replicate (nat n) NUL)"
  by (simp add: bzero_def)

lemma cstr_whole: "NUL \<notin> set s \<Longrightarrow> cstr (s @ [NUL]) 0 = s"
  using cstr_at [of s "[]" 0 "[]"] by simp

lemma cstr_0_pad: "NUL \<notin> set s \<Longrightarrow> 0 < k \<Longrightarrow> cstr (s @ replicate k NUL) 0 = s"
  using cstr_at [of s "[]" 0 "replicate (k - 1) NUL"]
  by (cases k) (auto simp: cstr_def)

section \<open>C integers\<close>

definition INT_MAX :: int where "INT_MAX = 2147483647"

definition in_int :: "int \<Rightarrow> bool" where
  "in_int x \<longleftrightarrow> - INT_MAX - 1 \<le> x \<and> x \<le> INT_MAX"

text \<open>A wider signed value converted to \<open>int\<close>, and the checks for signed overflow.\<close>

definition to_int :: "int \<Rightarrow> int" where
  "to_int x = signed_take_bit 31 x"

definition in_long :: "int \<Rightarrow> bool" where
  "in_long x \<longleftrightarrow> - (2 ^ 63) \<le> x \<and> x < 2 ^ 63"

definition ck_long :: "int \<Rightarrow> int option" where
  "ck_long x = (if in_long x then Some x else None)"

definition ck_int :: "int \<Rightarrow> int option" where
  "ck_int x = (if in_int x then Some x else None)"

lemma to_int_id: "in_int x \<Longrightarrow> to_int x = x"
  by (simp add: to_int_def in_int_def INT_MAX_def signed_take_bit_int_eq_self)

text \<open>C division truncates towards zero: \<open>sdiv\<close> and \<open>smod\<close> of the library.\<close>

lemma smod_nonneg [c_arith]: "0 \<le> a \<Longrightarrow> 0 < b \<Longrightarrow> a smod b = a mod (b::int)"
  by (cases "a = 0") (auto simp: signed_modulo_int_def)

unbundle bit_operations_syntax

lemma and_not_mask: "k AND NOT (mask n) = k - k mod 2 ^ n" for k :: int
proof -
  have "k - take_bit n k = k AND NOT (take_bit n k)"
    by (rule disjunctive_diff) (auto simp: bit_take_bit_iff)
  also have "\<dots> = k AND NOT (mask n)" by (rule bit_eqI) (auto simp: bit_simps)
  finally show ?thesis by (simp add: take_bit_eq_mod)
qed

lemma sdiv_nonneg [c_arith]: "0 \<le> a \<Longrightarrow> 0 < b \<Longrightarrow> a sdiv b = a div (b::int)"
  by (cases "a = 0") (auto simp: signed_divide_int_def)

end
