(* ===== verification/Estring.thy ===== *)
theory Estring
  imports Prelude
begin

text \<open>
  The string helpers of \<open>estring.c\<close>: each works in place on a C string inside a block. The
  model passes the block and the offset of the string; an access outside the block is
  \<open>None\<close>. The lemmas relate every helper to a function on the string's characters, and show
  the input on which \<open>trim_str\<close> leaves the block.
\<close>

section \<open>Character classes\<close>

definition is_lead :: "char \<Rightarrow> bool" where
  "is_lead c \<longleftrightarrow> c = CHR '' '' \<or> c = TAB"

definition is_space4 :: "char \<Rightarrow> bool" where
  "is_space4 c \<longleftrightarrow> c = TAB \<or> c = CR \<or> c = LF \<or> c = CHR '' ''"

lemma space4_not_NUL [simp]: "\<not> is_space4 NUL" "\<not> is_lead NUL"
  by (auto simp: is_space4_def is_lead_def)

lemma lead_space4: "is_lead c \<Longrightarrow> is_space4 c"
  by (auto simp: is_space4_def is_lead_def)

section \<open>The functions\<close>

function is_comment_loop :: "string \<Rightarrow> int \<Rightarrow> char \<Rightarrow> int option" where
  "is_comment_loop m p comment_char = (case rd m p of None \<Rightarrow> None
     | Some ch \<Rightarrow>
         if ch \<noteq> NUL then
           if ch = TAB \<or> ch = CHR '' '' then is_comment_loop m (p + 1) comment_char
           else if ch = comment_char then Some 1 else Some 0
         else Some 0)"
  by pat_completeness auto
termination
  by (relation "measure (\<lambda>(m, p, c). nat (int (length m) - p))") (auto dest: rd_Some_decr)

fun is_comment :: "string \<Rightarrow> ptr \<Rightarrow> char \<Rightarrow> int option" where
  "is_comment m NULL comment_char = Some 0"
| "is_comment m (At p) comment_char = is_comment_loop m p comment_char"

function is_blank_loop :: "string \<Rightarrow> int \<Rightarrow> int option" where
  "is_blank_loop m p = (case rd m p of None \<Rightarrow> None
     | Some ch \<Rightarrow>
         if NUL \<noteq> ch then
           if CHR '' '' \<noteq> ch \<and> TAB \<noteq> ch \<and> CR \<noteq> ch \<and> LF \<noteq> ch then Some 0
           else is_blank_loop m (p + 1)
         else Some 1)"
  by pat_completeness auto
termination
  by (relation "measure (\<lambda>(m, p). nat (int (length m) - p))") (auto dest: rd_Some_decr)

fun is_blank :: "string \<Rightarrow> ptr \<Rightarrow> int option" where
  "is_blank m NULL = Some 1"
| "is_blank m (At p) = is_blank_loop m p"

text \<open>
  \<open>trim_str\<close>: \<open>trim_lead\<close> is the first loop (it only moves \<open>res\<close>), \<open>trim_tail\<close> the second
  (it overwrites trailing space with NUL and steps down, with no lower bound).
\<close>

function trim_lead :: "string \<Rightarrow> int \<Rightarrow> int option" where
  "trim_lead m res = (case rd m res of None \<Rightarrow> None
     | Some ch \<Rightarrow> if is_lead ch then trim_lead m (res + 1) else Some res)"
  by pat_completeness auto
termination
  by (relation "measure (\<lambda>(m, p). nat (int (length m) - p))") (auto dest: rd_Some_decr)

function trim_tail :: "string \<Rightarrow> int \<Rightarrow> string option" where
  "trim_tail m str = (case rd m str of None \<Rightarrow> None
     | Some ch \<Rightarrow> if is_space4 ch
         then (case wr m str NUL of None \<Rightarrow> None | Some m' \<Rightarrow> trim_tail m' (str - 1))
         else Some m)"
  by pat_completeness auto
termination
  by (relation "measure (\<lambda>(m, p). nat (p + 1))") (auto dest: rd_Some_bounds)

fun trim_str :: "string \<Rightarrow> ptr \<Rightarrow> (ptr \<times> string) option" where
  "trim_str m NULL = Some (NULL, m)"
| "trim_str m (At str) = do {
     str_len \<leftarrow> strlen m str;
     res \<leftarrow> trim_lead m str;
     m' \<leftarrow> trim_tail m (str + (str_len - 1));
     Some (At res, m')
   }"

function delete_comment_loop :: "string \<Rightarrow> int \<Rightarrow> char \<Rightarrow> string option" where
  "delete_comment_loop m str comment_char = (case rd m str of None \<Rightarrow> None
     | Some ch \<Rightarrow>
         if ch \<noteq> NUL then
           (case (if ch = comment_char then wr m str NUL else Some m) of None \<Rightarrow> None
            | Some m' \<Rightarrow> delete_comment_loop m' (str + 1) comment_char)
         else Some m)"
  by pat_completeness auto
termination
  by (relation "measure (\<lambda>(m, p, c). nat (int (length m) - p))")
     (auto dest: rd_Some_bounds wr_length split: if_splits)

fun delete_comment :: "string \<Rightarrow> ptr \<Rightarrow> char \<Rightarrow> string option" where
  "delete_comment m NULL comment_char = Some m"
| "delete_comment m (At str) comment_char = delete_comment_loop m str comment_char"

text \<open>\<open>char_at\<close> indexes from the string's start \<open>p\<close>; the result is the index, or \<open>-1\<close>.\<close>

function char_at_loop :: "string \<Rightarrow> int \<Rightarrow> char \<Rightarrow> int \<Rightarrow> int option" where
  "char_at_loop m p c i = (case rd m (p + i) of None \<Rightarrow> None
     | Some ch \<Rightarrow>
         if ch \<noteq> NUL then if ch = c then Some i else char_at_loop m p c (i + 1)
         else Some (- 1))"
  by pat_completeness auto
termination
  by (relation "measure (\<lambda>(m, p, c, i). nat (int (length m) - (p + i)))")
     (auto dest: rd_Some_bounds)

fun char_at :: "string \<Rightarrow> ptr \<Rightarrow> char \<Rightarrow> int option" where
  "char_at m NULL c = Some (- 1)"
| "char_at m (At p) c = char_at_loop m p c 0"

declare is_comment_loop.simps [simp del] is_blank_loop.simps [simp del]
  trim_lead.simps [simp del] trim_tail.simps [simp del]
  delete_comment_loop.simps [simp del] char_at_loop.simps [simp del]

text \<open>
  \<open>split_url\<close>: the backward search is \<open>split_url_loop\<close>; \<open>url\<close> and \<open>ptr\<close> are offsets into the
  URL's block, \<open>path\<close> and \<open>name\<close> are the caller's two blocks, written from offset 0.
\<close>

function split_url_loop ::
  "string \<Rightarrow> int \<Rightarrow> int \<Rightarrow> int \<Rightarrow> string \<Rightarrow> int \<Rightarrow> string \<Rightarrow> int \<Rightarrow> (string \<times> string) option" where
  "split_url_loop m url end_p ptr path path_size name name_size =
     (if url \<le> ptr then
        (case rd m ptr of None \<Rightarrow> None
         | Some ch \<Rightarrow>
           if CHR ''/'' = ch then do {
             let copy_len = ptr - url + 1;
             let copy_len = (if copy_len > path_size - 1 then path_size - 1 else copy_len);
             path' \<leftarrow> memcpy path 0 m url copy_len;
             let copy_len = end_p - (ptr + 1);
             let copy_len = (if copy_len > name_size - 1 then name_size - 1 else copy_len);
             name' \<leftarrow> memcpy name 0 m (ptr + 1) copy_len;
             Some (path', name')
           }
           else split_url_loop m url end_p (ptr - 1) path path_size name name_size)
      else do {
        name' \<leftarrow> strncpy name 0 m url (name_size - 1);
        Some (path, name')
      })"
  by pat_completeness auto
termination
  by (relation "measure (\<lambda>(m, url, e, ptr, p, ps, n, ns). nat (ptr - url + 1))") auto

declare split_url_loop.simps [simp del]

definition split_url ::
  "string \<Rightarrow> ptr \<Rightarrow> string \<Rightarrow> int \<Rightarrow> string \<Rightarrow> int \<Rightarrow> (string \<times> string) option" where
  "split_url m url_p path0 path_size name0 name_size = do {
     path \<leftarrow> bzero path0 0 path_size;
     name \<leftarrow> bzero name0 0 name_size;
     (case url_p of NULL \<Rightarrow> Some (path, name)
      | At url \<Rightarrow>
        if path_size \<le> 0 \<or> name_size \<le> 0 then Some (path, name)
        else do {
          str_len \<leftarrow> strlen m url;
          if str_len = 0 then Some (path, name)
          else do {
            let ptr = url + str_len - 1;
            let end_p = url + str_len;
            ch \<leftarrow> rd m ptr;
            if CHR ''/'' = ch then do {
              path' \<leftarrow> strncpy path 0 m url (path_size - 1);
              Some (path', name)
            }
            else split_url_loop m url end_p ptr path path_size name name_size
          }
        })
   }"

definition str_cmp :: "string \<Rightarrow> int \<Rightarrow> string \<Rightarrow> int \<Rightarrow> int option" where
  "str_cmp str1 size1 str2 size2 = do {
     let cmp_size = (if size1 < size2 then size1 else size2);
     result \<leftarrow> memcmp str1 0 str2 0 cmp_size;
     Some (if result \<noteq> 0 then (if result < 0 then - 1 else 1)
           else if size1 = size2 then 0
           else if size1 > size2 then 1
           else - 1)
   }"


section \<open>What the scanning functions compute\<close>

lemma is_comment_loop_at:
  "NUL \<notin> set s \<Longrightarrow> p = int (length a) \<Longrightarrow>
   is_comment_loop (a @ s @ NUL # b) p c
     = Some (case dropWhile is_lead s of [] \<Rightarrow> 0 | x # _ \<Rightarrow> if x = c then 1 else 0)"
proof (induction s arbitrary: a p)
  case Nil
  then show ?case by (simp add: is_comment_loop.simps [of "a @ NUL # b"])
next
  case (Cons x s)
  have "is_comment_loop ((a @ [x]) @ s @ NUL # b) (p + 1) c
      = Some (case dropWhile is_lead s of [] \<Rightarrow> 0 | x # _ \<Rightarrow> if x = c then 1 else 0)"
    using Cons.prems by (intro Cons.IH) auto
  with Cons.prems show ?case
    by (auto simp: is_comment_loop.simps [of "a @ x # s @ NUL # b" "int (length a)"] is_lead_def [abs_def])
qed

lemma is_blank_loop_at:
  "NUL \<notin> set s \<Longrightarrow> p = int (length a) \<Longrightarrow>
   is_blank_loop (a @ s @ NUL # b) p = Some (if list_all is_space4 s then 1 else 0)"
proof (induction s arbitrary: a p)
  case Nil
  then show ?case by (simp add: is_blank_loop.simps [of "a @ NUL # b"])
next
  case (Cons x s)
  have "is_blank_loop ((a @ [x]) @ s @ NUL # b) (p + 1)
      = Some (if list_all is_space4 s then 1 else 0)"
    using Cons.prems by (intro Cons.IH) auto
  with Cons.prems show ?case
    by (auto simp: is_blank_loop.simps [of "a @ x # s @ NUL # b" "int (length a)"] is_space4_def [abs_def])
qed

lemma char_at_loop_at:
  "NUL \<notin> set s \<Longrightarrow> p + i = int (length a) \<Longrightarrow>
   char_at_loop (a @ s @ NUL # b) p c i
     = Some (if c \<in> set s then i + int (length (takeWhile (\<lambda>x. x \<noteq> c) s)) else - 1)"
proof (induction s arbitrary: a i)
  case Nil
  then show ?case by (simp add: char_at_loop.simps [of "a @ NUL # b"])
next
  case (Cons x s)
  have "char_at_loop ((a @ [x]) @ s @ NUL # b) p c (i + 1)
      = Some (if c \<in> set s then i + 1 + int (length (takeWhile (\<lambda>x. x \<noteq> c) s)) else - 1)"
    using Cons.prems by (intro Cons.IH) auto
  with Cons.prems show ?case
    by (auto simp: char_at_loop.simps [of "a @ x # s @ NUL # b" p c i])
qed

lemma delete_comment_loop_at:
  "NUL \<notin> set s \<Longrightarrow> p = int (length a) \<Longrightarrow>
   delete_comment_loop (a @ s @ NUL # b) p c
     = Some (a @ map (\<lambda>x. if x = c then NUL else x) s @ NUL # b)"
proof (induction s arbitrary: a p)
  case Nil
  then show ?case by (simp add: delete_comment_loop.simps [of "a @ NUL # b"])
next
  case (Cons x s)
  let ?x = "if x = c then NUL else x"
  have "delete_comment_loop ((a @ [?x]) @ s @ NUL # b) (p + 1) c
      = Some ((a @ [?x]) @ map (\<lambda>x. if x = c then NUL else x) s @ NUL # b)"
    using Cons.prems by (intro Cons.IH) auto
  with Cons.prems show ?case
    by (auto simp: delete_comment_loop.simps [of "a @ x # s @ NUL # b" "int (length a)"]
        list_update_append)
qed

lemma trim_lead_at:
  "list_all is_lead w \<Longrightarrow> \<not> is_lead x \<Longrightarrow> p = int (length a) \<Longrightarrow>
   trim_lead (a @ w @ x # b) p = Some (p + int (length w))"
proof (induction w arbitrary: a p)
  case Nil
  then show ?case by (simp add: trim_lead.simps [of "a @ x # b"])
next
  case (Cons y w)
  have "trim_lead ((a @ [y]) @ w @ x # b) (p + 1) = Some (p + 1 + int (length w))"
    using Cons.prems by (intro Cons.IH) auto
  with Cons.prems show ?case
    by (auto simp: trim_lead.simps [of "a @ y # w @ x # b" "int (length a)"])
qed

lemma trim_tail_at:
  "list_all is_space4 w \<Longrightarrow> \<not> is_space4 x \<Longrightarrow> p = int (length a) + int (length w) \<Longrightarrow>
   trim_tail (a @ x # w @ b) p = Some (a @ x # replicate (length w) NUL @ b)"
proof (induction w arbitrary: b p rule: rev_induct)
  case Nil
  then show ?case by (simp add: trim_tail.simps [of "a @ x # b"])
next
  case (snoc y w)
  have "trim_tail (a @ x # w @ (NUL # b)) (p - 1) = Some (a @ x # replicate (length w) NUL @ (NUL # b))"
    using snoc.prems by (intro snoc.IH) auto
  moreover have p: "p = int (length (a @ x # w))" using snoc.prems by simp
  have "rd (a @ x # w @ y # b) p = Some y" and
    "wr (a @ x # w @ y # b) p NUL = Some (a @ x # w @ NUL # b)"
    by (simp_all add: p rd_def wr_def nat_add_distrib nth_append list_update_append)
  ultimately show ?case using snoc.prems
    by (subst trim_tail.simps) (simp add: replicate_app_Cons_same)
qed

lemma trim_tail_underrun:
  "list_all is_space4 w \<Longrightarrow> p = int (length w) - 1 \<Longrightarrow> trim_tail (w @ b) p = None"
proof (induction w arbitrary: b p rule: rev_induct)
  case Nil
  then show ?case by (simp add: trim_tail.simps [of b] rd_def)
next
  case (snoc y w)
  have "trim_tail (w @ (NUL # b)) (p - 1) = None"
    using snoc.prems by (intro snoc.IH) auto
  moreover have "p = int (length w)" using snoc.prems by simp
  moreover from this have "rd (w @ y # b) p = Some y" and
    "wr (w @ y # b) p NUL = Some (w @ NUL # b)"
    by (simp_all add: list_update_append)
  ultimately show ?case using snoc.prems
    by (subst trim_tail.simps) simp
qed


section \<open>Trimming\<close>

definition rtrim :: "string \<Rightarrow> string" where
  "rtrim s = rev (dropWhile is_space4 (rev s))"

definition ltrim :: "string \<Rightarrow> string" where
  "ltrim s = dropWhile is_lead s"

lemma rtrim_split:
  "s = rtrim s @ drop (length (rtrim s)) s \<and> list_all is_space4 (drop (length (rtrim s)) s)"
proof -
  have "rev s = takeWhile is_space4 (rev s) @ dropWhile is_space4 (rev s)" by simp
  then have "s = rtrim s @ rev (takeWhile is_space4 (rev s))"
    by (metis rev_append rev_rev_ident rtrim_def)
  moreover from this have "drop (length (rtrim s)) s = rev (takeWhile is_space4 (rev s))"
    by (metis append_eq_conv_conj)
  ultimately show ?thesis by (auto simp: list_all_iff dest: set_takeWhileD)
qed

lemma rtrim_last:
  assumes "\<exists>x\<in>set s. \<not> is_space4 x"
  obtains u x where "rtrim s = u @ [x]" "\<not> is_space4 x"
proof -
  from assms have "dropWhile is_space4 (rev s) \<noteq> []" by (simp add: dropWhile_eq_Nil_conv)
  then obtain x v where v: "dropWhile is_space4 (rev s) = x # v" by (cases "dropWhile is_space4 (rev s)") auto
  then have "\<not> is_space4 x" by (metis hd_dropWhile list.distinct(1) list.sel(1))
  moreover from v have "rtrim s = rev v @ [x]" by (simp add: rtrim_def)
  ultimately show ?thesis using that by blast
qed

lemma trim_tail_rtrim:
  assumes "\<exists>x\<in>set s. \<not> is_space4 x" and "p = int (length a + length s) - 1"
  shows "trim_tail (a @ s @ b) p
    = Some (a @ rtrim s @ replicate (length s - length (rtrim s)) NUL @ b)"
proof -
  obtain u x where u: "rtrim s = u @ [x]" "\<not> is_space4 x" using rtrim_last [OF assms(1)] .
  define w where "w = drop (length (rtrim s)) s"
  have s: "s = (u @ [x]) @ w" "list_all is_space4 w"
    using rtrim_split [of s] by (auto simp: w_def u)
  have "trim_tail ((a @ u) @ x # w @ b) p = Some ((a @ u) @ x # replicate (length w) NUL @ b)"
    using s u assms(2) by (intro trim_tail_at) auto
  moreover have "length s - length (rtrim s) = length w" by (simp add: w_def)
  ultimately show ?thesis using s u by simp
qed

lemma trim_lead_ltrim:
  assumes "p = int (length a)"
  shows "trim_lead (a @ s @ NUL # b) p = Some (p + int (length (takeWhile is_lead s)))"
proof (cases "dropWhile is_lead s")
  case Nil
  then have all: "takeWhile is_lead s = s" by (simp add: takeWhile_eq_all_conv dropWhile_eq_Nil_conv)
  then have "list_all is_lead s" by (metis list_all_iff set_takeWhileD)
  then show ?thesis unfolding all using trim_lead_at [of s NUL p a b] assms by simp
next
  case (Cons x v)
  have "\<not> is_lead x" by (metis Cons hd_dropWhile list.distinct(1) list.sel(1))
  moreover have "s = takeWhile is_lead s @ x # v" by (metis Cons takeWhile_dropWhile_id)
  moreover have "list_all is_lead (takeWhile is_lead s)" by (auto simp: list_all_iff dest: set_takeWhileD)
  ultimately show ?thesis
    using trim_lead_at [of "takeWhile is_lead s" x p a "v @ NUL # b"] assms
    by (metis append.assoc append_Cons)
qed

lemma trim_str_at:
  assumes "NUL \<notin> set s" and "\<exists>x\<in>set s. \<not> is_space4 x"
  shows "trim_str (a @ s @ NUL # b) (At (int (length a)))
    = Some (At (int (length a + length (takeWhile is_lead s))),
        a @ rtrim s @ replicate (length s - length (rtrim s)) NUL @ NUL # b)"
proof -
  have "strlen (a @ s @ NUL # b) (int (length a)) = Some (int (length s))"
    using assms(1) by (simp add: strlen_at)
  moreover have "trim_tail (a @ s @ NUL # b) (int (length a) + (int (length s) - 1))
      = Some (a @ rtrim s @ replicate (length s - length (rtrim s)) NUL @ NUL # b)"
    using assms(2) by (intro trim_tail_rtrim) auto
  ultimately show ?thesis by (simp add: trim_lead_ltrim)
qed

lemma takeWhile_lead_rtrim:
  assumes "\<exists>x\<in>set s. \<not> is_space4 x"
  shows "takeWhile is_lead (rtrim s) = takeWhile is_lead s"
proof -
  obtain u x where u: "rtrim s = u @ [x]" "\<not> is_space4 x" using rtrim_last [OF assms] .
  then have "\<exists>y\<in>set (rtrim s). \<not> is_lead y" using lead_space4 by auto
  then show ?thesis by (metis rtrim_split takeWhile_append1)
qed

lemma set_rtrim: "set (rtrim s) \<subseteq> set s"
  by (auto simp: rtrim_def dest: set_dropWhileD)



text \<open>On a string of white space only (the empty string included) that starts its block, the
  backward loop of \<open>trim_str\<close> steps below the string's first character and accesses memory
  outside the block.\<close>

theorem trim_str_blank_underrun:
  assumes "list_all is_space4 s"
  shows "trim_str (s @ NUL # b) (At 0) = None"
proof -
  have "NUL \<notin> set s" using assms by (auto simp: list_all_iff is_space4_def)
  then have "strlen (s @ NUL # b) 0 = Some (int (length s))" using strlen_at [of s 0 "[]" b] by simp
  moreover have "trim_tail (s @ NUL # b) (int (length s) - 1) = None"
    by (rule trim_tail_underrun [OF assms refl])
  ultimately show ?thesis using trim_lead_ltrim [of 0 "[]" s b] by simp
qed

lemma trim_str_blank_underrun_witness: "trim_str (''  '' @ [NUL]) (At 0) = None"
  by (rule trim_str_blank_underrun) (simp add: is_space4_def)

section \<open>Splitting a URL\<close>

definition dirpart :: "string \<Rightarrow> string" where
  "dirpart s = rev (dropWhile (\<lambda>c. c \<noteq> CHR ''/'') (rev s))"

definition basepart :: "string \<Rightarrow> string" where
  "basepart s = rev (takeWhile (\<lambda>c. c \<noteq> CHR ''/'') (rev s))"

text \<open>A buffer of \<open>n\<close> bytes that holds the first \<open>n - 1\<close> characters of \<open>s\<close>, zero-filled.\<close>

definition filled :: "int \<Rightarrow> string \<Rightarrow> string" where
  "filled n s = take (nat n - 1) s @ replicate (nat n - length (take (nat n - 1) s)) NUL"

lemma dirpart_basepart: "dirpart s @ basepart s = s"
  by (simp add: dirpart_def basepart_def flip: rev_append)

lemma dirpart_slash: "CHR ''/'' \<notin> set v \<Longrightarrow> dirpart (u @ CHR ''/'' # v) = u @ ''/''"
  and basepart_slash: "CHR ''/'' \<notin> set v \<Longrightarrow> basepart (u @ CHR ''/'' # v) = v"
proof -
  assume v: "CHR ''/'' \<notin> set v"
  have "takeWhile (\<lambda>c. c \<noteq> CHR ''/'') (rev v @ CHR ''/'' # rev u) = rev v"
    using v by (subst takeWhile_append2) auto
  then show "basepart (u @ CHR ''/'' # v) = v" by (simp add: basepart_def)
  then show "dirpart (u @ CHR ''/'' # v) = u @ ''/''"
    using dirpart_basepart [of "u @ CHR ''/'' # v"] by simp
qed

lemma no_slash: "CHR ''/'' \<notin> set s \<Longrightarrow> dirpart s = [] \<and> basepart s = s"
proof -
  assume "CHR ''/'' \<notin> set s"
  then have tw: "takeWhile (\<lambda>c. c \<noteq> CHR ''/'') (rev s) = rev s" by (auto simp: takeWhile_eq_all_conv)
  have "basepart s = s" unfolding basepart_def tw by simp
  then show ?thesis using dirpart_basepart [of s] by simp
qed

lemma cstr_filled: "NUL \<notin> set s \<Longrightarrow> 0 < n \<Longrightarrow> cstr (filled n s) 0 = take (nat n - 1) s"
  unfolding filled_def by (rule cstr_0_pad) (auto dest: in_set_takeD)

lemma filled_Nil [simp]: "filled n [] = replicate (nat n) NUL"
  by (simp add: filled_def)

lemma wr_block_filled:
  "wr_block (replicate (nat n) NUL) 0 (take (nat n - 1) s) = Some (filled n s)"
  by (simp add: filled_def wr_block_def splice_def min_le_iff_disj)

lemma memcpy_filled:
  assumes "0 < n" and "m = a @ s @ c" and "q = int (length a)" and "j = int (length s)"
  shows "memcpy (replicate (nat n) NUL) 0 m q (if j > n - 1 then n - 1 else j) = Some (filled n s)"
proof -
  have "rd_block m q (if j > n - 1 then n - 1 else j) = Some (take (nat n - 1) s)"
    using assms by (auto simp: rd_block_def nat_diff_distrib')
  then show ?thesis by (simp add: memcpy_def wr_block_filled [simplified])
qed

lemma strncpy_filled:
  assumes "NUL \<notin> set s" and "0 < n"
  shows "strncpy (replicate (nat n) NUL) 0 (s @ NUL # b) 0 (n - 1) = Some (filled n s)"
proof -
  have "cstr (s @ NUL # b) 0 = s" using cstr_at [OF assms(1), of "[]" 0 b] by simp
  moreover have "nat (n - 1) = nat n - 1" by (simp add: nat_diff_distrib')
  ultimately show ?thesis using assms
    by (auto simp: strncpy_def filled_def wr_block_def splice_def min_def simp flip: replicate_add)
       arith
qed

lemma split_url_loop_at:
  assumes "NUL \<notin> set (u @ v)" and "0 < ps" and "0 < ns" and "CHR ''/'' \<notin> set v"
  shows "split_url_loop ((u @ v) @ NUL # b) 0 (int (length (u @ v))) (int (length u) - 1)
      (replicate (nat ps) NUL) ps (replicate (nat ns) NUL) ns
    = Some (filled ps (dirpart (u @ v)), filled ns (basepart (u @ v)))"
  using assms
proof (induction u arbitrary: v rule: rev_induct)
  case Nil
  then show ?case
    by (subst split_url_loop.simps) (use strncpy_filled [of v ns b] in \<open>simp add: no_slash\<close>)
next
  case (snoc c u)
  let ?m = "(u @ c # v) @ NUL # b"
  show ?case
  proof (cases "c = CHR ''/''")
    case False
    then show ?thesis using snoc.IH [of "c # v"] snoc.prems
      by (subst split_url_loop.simps) simp
  next
    case True
    define j k where "j = int (length u) + 1" and "k = int (length v)"
    have "memcpy (replicate (nat ps) NUL) 0 ?m 0 (if j > ps - 1 then ps - 1 else j)
        = Some (filled ps (u @ ''/''))"
      using snoc.prems True by (intro memcpy_filled [of _ _ "[]" _ "v @ NUL # b"]) (auto simp: j_def)
    moreover have "memcpy (replicate (nat ns) NUL) 0 ?m j (if k > ns - 1 then ns - 1 else k)
        = Some (filled ns v)"
      using snoc.prems by (intro memcpy_filled [of _ _ "u @ [c]" _ "NUL # b"]) (auto simp: j_def k_def)
    moreover have "int (length (u @ [c])) - 1 = j - 1" and "int (length ((u @ [c]) @ v)) - j = k"
      and "rd ?m (j - 1) = Some c" and "j \<ge> 1"
      by (auto simp: j_def k_def rd_def nth_append)
    ultimately show ?thesis using True snoc.prems
      by (subst split_url_loop.simps) (simp add: dirpart_slash basepart_slash del: of_nat_Suc length_append)
  qed
qed



section \<open>Comparing strings\<close>

text \<open>The order of \<open>str_cmp\<close>: lexicographic on unsigned bytes, a proper prefix first.\<close>

definition byte_less :: "char \<Rightarrow> char \<Rightarrow> bool" where
  "byte_less x y \<longleftrightarrow> (of_char x :: int) < of_char y"

fun str_less :: "string \<Rightarrow> string \<Rightarrow> bool" where
  "str_less _ [] = False"
| "str_less [] (_ # _) = True"
| "str_less (x # xs) (y # ys) = (byte_less x y \<or> x = y \<and> str_less xs ys)"

lemma of_char_int_eq: "(of_char x :: int) = of_char y \<longleftrightarrow> x = y"
  by simp

lemma cmp_bytes_less:
  "cmp_bytes (take (min (length a) (length b)) a) (take (min (length a) (length b)) b) = r \<Longrightarrow>
   (r < 0 \<longrightarrow> str_less a b) \<and> (r > 0 \<longrightarrow> str_less b a) \<and>
   (r = 0 \<longrightarrow> (str_less a b \<longleftrightarrow> length a < length b) \<and> (a = b \<longleftrightarrow> length a = length b))"
proof (induction a b rule: str_less.induct)
  case (3 x xs y ys)
  then show ?case
    by (cases "x = y") (auto simp: byte_less_def of_char_int_eq)
qed auto

lemma str_less_irrefl: "\<not> str_less a a"
  by (induction a) (auto simp: byte_less_def)

lemma str_less_trans: "str_less a b \<Longrightarrow> str_less b c \<Longrightarrow> str_less a c"
proof (induction a b arbitrary: c rule: str_less.induct)
  case (2 y ys)
  then show ?case by (cases c) auto
next
  case (3 x xs y ys)
  then show ?case by (cases c) (auto simp: byte_less_def)
qed auto

lemma str_less_total: "a \<noteq> b \<Longrightarrow> str_less a b \<or> str_less b a"
proof (induction a b rule: str_less.induct)
  case (1 a)
  then show ?case by (cases a) auto
next
  case (3 x xs y ys)
  then show ?case by (auto simp: byte_less_def neq_iff of_char_int_eq)
qed auto

text \<open>\<open>str_cmp\<close> on two byte strings decides their lexicographic order (unsigned bytes, a proper
  prefix is smaller): \<open>0\<close> exactly for equal strings, otherwise the sign; the order is total.\<close>

theorem str_cmp_order:
  "str_cmp a (int (length a)) b (int (length b))
    = Some (if a = b then 0 else if str_less a b then - 1 else 1)"
proof -
  let ?n = "min (length a) (length b)"
  define r where "r = cmp_bytes (take ?n a) (take ?n b)"
  have "memcmp a 0 b 0 (int ?n) = Some r" by (simp add: memcmp_def rd_block_def r_def)
  moreover have "(if int (length a) < int (length b) then int (length a) else int (length b)) = int ?n"
    by simp
  ultimately have "str_cmp a (int (length a)) b (int (length b))
      = Some (if r \<noteq> 0 then (if r < 0 then - 1 else 1)
              else if length a = length b then 0 else if length a > length b then 1 else - 1)"
    by (simp add: str_cmp_def)
  moreover note cmp_bytes_less [of a b r, folded r_def]
  ultimately show ?thesis using str_less_irrefl str_less_trans [of a b a]
    by (auto simp: r_def [symmetric])
qed

end
