(* ===== verification/Equeue.thy ===== *)
theory Equeue
  imports Prelude
begin

text \<open>
  The ring-buffer queue of \<open>equeue.c\<close>. A queue owns an array of \<open>size\<close> slots; \<open>front\<close> is the
  slot before the first element and \<open>rear\<close> the slot of the last one, so one slot is always
  free and a full ring doubles its array on the next push. Each operation runs under the queue's
  mutex (\<open>queue_empty\<close>, \<open>queue_element_count\<close> and \<open>queue_size\<close> read one consistent state in
  the model), so a history of calls is a sequence of operations.

  The lemmas show the ring invariant for every operation and that the queue refines a list:
  push appends, pop removes the head. The interface other components rely on is the locale
  \<open>fifo\<close>, interpreted here.
\<close>

section \<open>State\<close>

text \<open>A slot is \<open>None\<close> while its contents are indeterminate (memory from \<open>malloc\<close>).
  \<open>q_q\<close> is \<open>None\<close> when the array pointer is \<open>NULL\<close>.\<close>

record queue =
  q_q :: "ptr option list option"
  q_front :: int
  q_rear :: int
  q_size :: int

definition INIT_QUEUE_SIZE :: int where "INIT_QUEUE_SIZE = 1024"

section \<open>Operations\<close>

text \<open>\<open>queue_create\<close>: the two flags say whether the two \<open>malloc\<close> calls succeed; the result
  \<open>None\<close> is the returned \<open>NULL\<close>.\<close>

definition queue_create :: "int \<Rightarrow> bool \<Rightarrow> bool \<Rightarrow> queue option" where
  "queue_create sz malloc_queue malloc_q =
     (if sz < 0 then None
      else let sz = (if sz = 0 \<or> sz = 1 then INIT_QUEUE_SIZE else sz) in
        if \<not> malloc_queue then None
        else if \<not> malloc_q then None
        else Some \<lparr>q_q = Some (replicate (nat sz) None), q_front = 0, q_rear = 0, q_size = sz\<rparr>)"

text \<open>\<open>queue_destroy (queue_t **queue)\<close>: the argument is \<open>None\<close> for a \<open>NULL\<close> argument,
  \<open>Some None\<close> for a pointer to \<open>NULL\<close>; the result is what the caller's variable holds and the
  number of blocks freed.\<close>

fun queue_destroy :: "queue option option \<Rightarrow> queue option option \<times> nat" where
  "queue_destroy None = (None, 0)"
| "queue_destroy (Some None) = (Some None, 0)"
| "queue_destroy (Some (Some queue)) =
     (Some None, (case q_q queue of None \<Rightarrow> 1 | Some _ \<Rightarrow> 2))"

definition queue_full :: "queue \<Rightarrow> int" where
  "queue_full queue =
     (if (q_rear queue + 1) smod q_size queue = q_front queue then 1 else 0)"

text \<open>The loop that moves the wrapped part \<open>q[0..rear]\<close> behind the old array's end.\<close>

function queue_tidy :: "ptr option list \<Rightarrow> int \<Rightarrow> int \<Rightarrow> int \<Rightarrow> ptr option list option" where
  "queue_tidy q org_size rear i =
     (if i \<le> rear then do {
        x \<leftarrow> rd q i;
        q' \<leftarrow> wr q (org_size + i) x;
        queue_tidy q' org_size rear (i + 1)
      }
      else Some q)"
  by pat_completeness auto
termination
  by (relation "measure (\<lambda>(q, n, rear, i). nat (rear + 1 - i))") auto

declare queue_tidy.simps [simp del]

text \<open>\<open>realloc\<close> of the slot array: the old slots are kept, the new ones indeterminate.\<close>

definition realloc_slots :: "ptr option list option \<Rightarrow> nat \<Rightarrow> ptr option list" where
  "realloc_slots q n = (case q of None \<Rightarrow> replicate n None
     | Some xs \<Rightarrow> take n xs @ replicate (n - length xs) None)"

definition queue_grow :: "bool \<Rightarrow> queue \<Rightarrow> (bool \<times> queue) option" where
  "queue_grow realloc_ok queue = do {
     let org_size = q_size queue;
     if \<not> in_int (org_size * 2) then None
     else do {
       let queue = queue\<lparr>q_size := org_size * 2\<rparr>;
       if \<not> realloc_ok then Some (False, queue\<lparr>q_q := None\<rparr>)
       else do {
         let q = realloc_slots (q_q queue) (nat (q_size queue));
         if q_rear queue < q_front queue then do {
           q' \<leftarrow> queue_tidy q org_size (q_rear queue) 0;
           Some (True, queue\<lparr>q_q := Some q', q_rear := org_size + q_rear queue\<rparr>)
         }
         else Some (True, queue\<lparr>q_q := Some q\<rparr>)
       }
     }
   }"

definition queue_push :: "bool \<Rightarrow> queue \<Rightarrow> ptr \<Rightarrow> (int \<times> queue) option" where
  "queue_push realloc_ok queue data = do {
     (ok, queue) \<leftarrow> (if queue_full queue = 1 then queue_grow realloc_ok queue
                     else Some (True, queue));
     if \<not> ok then Some (0, queue)
     else do {
       let rear = (q_rear queue + 1) smod q_size queue;
       q \<leftarrow> q_q queue;
       q' \<leftarrow> wr q rear (Some data);
       Some (1, queue\<lparr>q_rear := rear, q_q := Some q'\<rparr>)
     }
   }"

text \<open>Reading an indeterminate slot is undefined behaviour: \<open>rd_slot\<close> is \<open>None\<close> there.\<close>

definition rd_slot :: "queue \<Rightarrow> int \<Rightarrow> ptr option" where
  "rd_slot queue i = do { q \<leftarrow> q_q queue; s \<leftarrow> rd q i; s }"

definition queue_pop :: "queue \<Rightarrow> (ptr \<times> queue) option" where
  "queue_pop queue =
     (if q_front queue = q_rear queue then Some (NULL, queue)
      else do {
        let front = (q_front queue + 1) smod q_size queue;
        d \<leftarrow> rd_slot queue front;
        Some (d, queue\<lparr>q_front := front\<rparr>)
      })"

definition queue_head :: "queue \<Rightarrow> ptr option" where
  "queue_head queue = rd_slot queue ((q_front queue + 1) smod q_size queue)"

definition queue_empty :: "queue \<Rightarrow> int" where
  "queue_empty queue = (if q_front queue = q_rear queue then 1 else 0)"

definition queue_element_count :: "queue \<Rightarrow> int" where
  "queue_element_count queue =
     (q_rear queue - q_front queue + q_size queue) smod q_size queue"

definition queue_size :: "queue \<Rightarrow> int" where
  "queue_size queue = q_size queue"

section \<open>The ring invariant and the list a queue holds\<close>


definition q_count :: "queue \<Rightarrow> nat" where
  "q_count queue = nat ((q_rear queue - q_front queue) mod q_size queue)"

definition q_slot :: "queue \<Rightarrow> nat \<Rightarrow> ptr option" where
  "q_slot queue k = the (q_q queue) ! nat ((q_front queue + 1 + int k) mod q_size queue)"

definition q_bounds :: "queue \<Rightarrow> bool" where
  "q_bounds queue \<longleftrightarrow> (\<exists>q. q_q queue = Some q \<and> length q = nat (q_size queue))
     \<and> 2 \<le> q_size queue \<and> in_int (q_size queue)
     \<and> 0 \<le> q_front queue \<and> q_front queue < q_size queue
     \<and> 0 \<le> q_rear queue \<and> q_rear queue < q_size queue"

definition q_inv :: "queue \<Rightarrow> bool" where
  "q_inv queue \<longleftrightarrow> q_bounds queue \<and> (\<forall>k < q_count queue. q_slot queue k \<noteq> None)"

definition q_list :: "queue \<Rightarrow> ptr list" where
  "q_list queue = map (\<lambda>k. the (q_slot queue k)) [0..<q_count queue]"

lemma length_q_list [simp]: "length (q_list queue) = q_count queue"
  by (simp add: q_list_def)

lemma q_count_less: "q_bounds queue \<Longrightarrow> q_count queue < nat (q_size queue)"
  by (auto simp: q_bounds_def q_count_def)

lemma q_count_int: "q_bounds queue \<Longrightarrow> int (q_count queue) =
   (if q_front queue \<le> q_rear queue then q_rear queue - q_front queue
    else q_rear queue - q_front queue + q_size queue)"
proof -
  assume b: "q_bounds queue"
  show ?thesis
  proof (cases "q_front queue \<le> q_rear queue")
    case True
    then show ?thesis using b by (simp add: q_bounds_def q_count_def)
  next
    case False
    have "(q_rear queue - q_front queue) mod q_size queue
        = (q_rear queue - q_front queue + q_size queue) mod q_size queue" by simp
    also have "\<dots> = q_rear queue - q_front queue + q_size queue"
      using False b by (intro mod_pos_pos_trivial) (auto simp: q_bounds_def)
    finally show ?thesis using False b by (simp add: q_count_def q_bounds_def)
  qed
qed

lemma q_full_iff: "q_bounds queue \<Longrightarrow> queue_full queue = 1 \<longleftrightarrow> q_count queue = nat (q_size queue) - 1"
proof -
  assume b: "q_bounds queue"
  have m: "(q_rear queue + 1) smod q_size queue
      = (if q_rear queue + 1 = q_size queue then 0 else q_rear queue + 1)"
    using b by (auto simp: smod_nonneg q_bounds_def)
  have "queue_full queue = 1 \<longleftrightarrow> int (q_count queue) = q_size queue - 1"
    unfolding queue_full_def m q_count_int [OF b] using b by (auto simp: q_bounds_def)
  also have "\<dots> \<longleftrightarrow> q_count queue = nat (q_size queue) - 1"
    using b by (auto simp: q_bounds_def)
  finally show ?thesis .
qed

text \<open>Two facts about positions on a ring of \<open>n\<close> slots.\<close>

lemma ring_inj:
  assumes "j < k" and "int k < n"
  shows "(a + int j) mod n \<noteq> (a + int k) mod n"
proof
  assume "(a + int j) mod n = (a + int k) mod n"
  then have "n dvd int k - int j" by (simp add: mod_eq_dvd_iff dvd_diff_commute)
  with assms show False by (auto dest: zdvd_imp_le)
qed

lemma q_rear_eq: "q_bounds queue \<Longrightarrow> q_rear queue = (q_front queue + int (q_count queue)) mod q_size queue"
proof -
  assume b: "q_bounds queue"
  have "(q_front queue + int (q_count queue)) mod q_size queue = q_rear queue mod q_size queue"
    by (auto simp: q_count_int [OF b])
  then show ?thesis using b by (simp add: q_bounds_def)
qed

lemma q_next_eq: "q_bounds queue \<Longrightarrow>
  (q_rear queue + 1) smod q_size queue = (q_front queue + 1 + int (q_count queue)) mod q_size queue"
proof -
  assume b: "q_bounds queue"
  then have "(q_rear queue + 1) smod q_size queue = (q_rear queue + 1) mod q_size queue"
    by (intro smod_nonneg) (auto simp: q_bounds_def)
  also have "\<dots> = (q_front queue + int (q_count queue) + 1) mod q_size queue"
    using q_rear_eq [OF b] by (metis mod_add_left_eq)
  finally show ?thesis by (simp add: algebra_simps)
qed

text \<open>Two queues hold the same list when they agree on the count and on every slot in use.\<close>

lemma q_list_cong:
  "q_count a = q_count b \<Longrightarrow> (\<And>k. k < q_count b \<Longrightarrow> q_slot a k = q_slot b k) \<Longrightarrow> q_list a = q_list b"
  by (simp add: q_list_def)

section \<open>Growing\<close>

lemma queue_tidy_copies:
  assumes "0 \<le> i" and "0 \<le> rear" and "rear < n" and "n + rear < int (length q)"
  shows "\<exists>q'. queue_tidy q n rear i = Some q' \<and> length q' = length q \<and>
    (\<forall>j < length q. q' ! j =
       (if n + i \<le> int j \<and> int j \<le> n + rear then q ! nat (int j - n) else q ! j))"
  using assms
proof (induction q n rear i rule: queue_tidy.induct)
  case (1 q n rear i)
  show ?case
  proof (cases "i \<le> rear")
    case False
    then show ?thesis by (subst queue_tidy.simps) auto
  next
    case True
    let ?x = "q ! nat i" and ?q = "q[nat (n + i) := q ! nat i]"
    have rd: "rd q i = Some ?x" and wr: "wr q (n + i) ?x = Some ?q"
      using "1.prems" True by (auto simp: rd_def wr_def)
    obtain q' where q': "queue_tidy ?q n rear (i + 1) = Some q'" "length q' = length ?q"
      and nth: "\<And>j. j < length ?q \<Longrightarrow> q' ! j =
        (if n + (i + 1) \<le> int j \<and> int j \<le> n + rear then ?q ! nat (int j - n) else ?q ! j)"
      using "1.IH" [OF True rd wr] "1.prems" True by auto
    have "q' ! j = (if n + i \<le> int j \<and> int j \<le> n + rear then q ! nat (int j - n) else q ! j)"
      if "j < length q" for j
      using that "1.prems" True nth [of j] by (auto simp: nth_list_update)
    with q' show ?thesis using True rd wr by (subst queue_tidy.simps) auto
  qed
qed

lemma queue_grow_ok:
  assumes inv: "q_inv queue" and full: "queue_full queue = 1" and fit: "in_int (q_size queue * 2)"
  shows "\<exists>queue'. queue_grow True queue = Some (True, queue') \<and> q_inv queue'
    \<and> q_list queue' = q_list queue \<and> q_size queue' = q_size queue * 2"
proof -
  have b: "q_bounds queue" using inv by (simp add: q_inv_def)
  then obtain q where q: "q_q queue = Some q" "length q = nat (q_size queue)"
    by (auto simp: q_bounds_def)
  let ?n = "q_size queue" and ?f = "q_front queue" and ?r = "q_rear queue"
  let ?q2 = "q @ replicate (nat ?n) None"
  have n: "2 \<le> ?n" "0 \<le> ?f" "?f < ?n" "0 \<le> ?r" "?r < ?n" using b by (auto simp: q_bounds_def)
  have re: "realloc_slots (q_q queue) (nat (?n * 2)) = ?q2"
    using q n by (simp add: realloc_slots_def nat_mult_distrib)
  have cnt: "int (q_count queue) = ?n - 1" using full q_full_iff [OF b] n by simp
  have slot_old: "q_slot queue k = q ! nat (if ?f + 1 + int k < ?n then ?f + 1 + int k
      else ?f + 1 + int k - ?n)" if "k < q_count queue" for k
    using that cnt n q mod_pos_pos_trivial [of "?f + 1 + int k - ?n" ?n]
    by (auto simp: q_slot_def)
  show ?thesis
  proof (cases "?r < ?f")
    case False
    let ?w = "queue\<lparr>q_size := ?n * 2, q_q := Some ?q2\<rparr>"
    have fr: "?f = 0 \<and> ?r = ?n - 1" using False cnt q_count_int [OF b] n by auto
    have g: "queue_grow True queue = Some (True, ?w)"
      using False re fit by (simp add: queue_grow_def Let_def)
    have bw: "q_bounds ?w" using q n fit by (auto simp: q_bounds_def nat_mult_distrib)
    have c: "q_count ?w = q_count queue" using q_count_int [OF bw] q_count_int [OF b] fr n by auto
    have s: "q_slot ?w k = q_slot queue k" if "k < q_count queue" for k
      using that cnt fr n q by (simp add: q_slot_def nth_append)
    show ?thesis using g bw c s inv q_list_cong [of ?w queue] by (auto simp: q_inv_def)
  next
    case True
    have fr: "?f = ?r + 1" using True cnt q_count_int [OF b] n by auto
    obtain q' where q': "queue_tidy ?q2 ?n ?r 0 = Some q'" "length q' = length ?q2"
      and nth: "\<And>j. j < length ?q2 \<Longrightarrow> q' ! j =
        (if ?n + 0 \<le> int j \<and> int j \<le> ?n + ?r then ?q2 ! nat (int j - ?n) else ?q2 ! j)"
      using queue_tidy_copies [of 0 ?r ?n ?q2] n q True by auto
    let ?w = "queue\<lparr>q_size := ?n * 2, q_q := Some q', q_rear := ?n + ?r\<rparr>"
    have g: "queue_grow True queue = Some (True, ?w)"
      using True re fit q' by (simp add: queue_grow_def Let_def)
    have bw: "q_bounds ?w" using q n fit q' by (auto simp: q_bounds_def nat_mult_distrib)
    have c: "q_count ?w = q_count queue" using q_count_int [OF bw] cnt fr n by auto
    have s: "q_slot ?w k = q_slot queue k" if k: "k < q_count queue" for k
    proof -
      have "q_slot ?w k = q' ! nat (?f + 1 + int k)"
        using k cnt n fr by (simp add: q_slot_def)
      also have "\<dots> = q_slot queue k"
        unfolding slot_old [OF k] using k cnt n fr q nth [of "nat (?f + 1 + int k)"]
        by (auto simp: nth_append)
      finally show ?thesis .
    qed
    show ?thesis using g bw c s inv q_list_cong [of ?w queue] by (auto simp: q_inv_def)
  qed
qed

section \<open>Pushing and popping\<close>

lemma queue_place_ok:
  assumes inv: "q_inv queue" and room: "q_count queue < nat (q_size queue) - 1"
    and q: "q_q queue = Some q"
  defines "rear \<equiv> (q_rear queue + 1) smod q_size queue"
  shows "\<exists>q'. wr q rear (Some d) = Some q' \<and> q_inv (queue\<lparr>q_rear := rear, q_q := Some q'\<rparr>)
    \<and> q_list (queue\<lparr>q_rear := rear, q_q := Some q'\<rparr>) = q_list queue @ [d]"
proof -
  have b: "q_bounds queue" using inv by (simp add: q_inv_def)
  let ?n = "q_size queue" and ?f = "q_front queue" and ?c = "q_count queue"
  have n: "2 \<le> ?n" "0 \<le> ?f" "?f < ?n" "length q = nat ?n" using b q by (auto simp: q_bounds_def)
  have rear: "rear = (?f + 1 + int ?c) mod ?n" using q_next_eq [OF b] by (simp add: rear_def)
  have rb: "0 \<le> rear" "rear < ?n" using n by (auto simp: rear)
  let ?q = "q[nat rear := Some d]"
  let ?w = "queue\<lparr>q_rear := rear, q_q := Some ?q\<rparr>"
  have wr: "wr q rear (Some d) = Some ?q" using rb n by (simp add: wr_def)
  have bw: "q_bounds ?w" using b n rb by (auto simp: q_bounds_def)
  have "(rear - ?f) mod ?n = (1 + int ?c) mod ?n" by (simp add: rear mod_simps)
  then have "q_count ?w = nat ((1 + int ?c) mod ?n)" by (simp add: q_count_def)
  moreover have "(1 + int ?c) mod ?n = 1 + int ?c" using room by (intro mod_pos_pos_trivial) auto
  ultimately have cw: "q_count ?w = Suc ?c" by simp
  have old: "q_slot ?w k = q_slot queue k" if k: "k < ?c" for k
  proof -
    have "(?f + 1 + int k) mod ?n \<noteq> rear"
      unfolding rear using k room by (intro ring_inj) auto
    then show ?thesis using q rb n by (simp add: q_slot_def nth_list_update eq_nat_nat_iff)
  qed
  have new: "q_slot ?w ?c = Some d" using rb n by (simp add: q_slot_def flip: rear)
  have "q_inv ?w" using inv bw old new by (auto simp: q_inv_def cw less_Suc_eq)
  moreover have "q_list ?w = q_list queue @ [d]" using old new by (simp add: q_list_def cw)
  ultimately show ?thesis using wr by blast
qed

lemma queue_push_ok:
  assumes inv: "q_inv queue"
    and ok: "queue_full queue = 1 \<Longrightarrow> realloc_ok \<and> in_int (q_size queue * 2)"
  shows "\<exists>queue'. queue_push realloc_ok queue d = Some (1, queue') \<and> q_inv queue'
    \<and> q_list queue' = q_list queue @ [d]"
proof -
  have b: "q_bounds queue" using inv by (simp add: q_inv_def)
  show ?thesis
  proof (cases "queue_full queue = 1")
    case True
    then obtain w where w: "queue_grow realloc_ok queue = Some (True, w)" "q_inv w"
      "q_list w = q_list queue" "q_size w = q_size queue * 2"
      using queue_grow_ok [OF inv True] ok by auto
    obtain q where q: "q_q w = Some q" using w(2) by (auto simp: q_inv_def q_bounds_def)
    have "q_count w = q_count queue" using w(3) by (metis length_q_list)
    then have "q_count w < nat (q_size w) - 1"
      using True w(4) b by (auto simp: q_full_iff nat_mult_distrib q_bounds_def)
    from queue_place_ok [OF w(2) this q, of d] show ?thesis
      using True w q by (auto simp: queue_push_def Let_def)
  next
    case False
    then have "q_count queue < nat (q_size queue) - 1"
      using b q_full_iff [OF b] q_count_less [OF b] by auto
    moreover obtain q where q: "q_q queue = Some q" using b by (auto simp: q_bounds_def)
    ultimately show ?thesis using queue_place_ok [OF inv _ q, of d] False
      by (auto simp: queue_push_def Let_def)
  qed
qed

lemma queue_empty_iff: "q_inv queue \<Longrightarrow> queue_empty queue = 1 \<longleftrightarrow> q_list queue = []"
proof -
  assume "q_inv queue"
  then have b: "q_bounds queue" by (simp add: q_inv_def)
  have "q_list queue = [] \<longleftrightarrow> int (q_count queue) = 0"
    by (metis length_0_conv length_q_list of_nat_eq_0_iff)
  also have "\<dots> \<longleftrightarrow> q_front queue = q_rear queue"
    unfolding q_count_int [OF b] using b by (auto simp: q_bounds_def)
  finally show ?thesis by (simp add: queue_empty_def)
qed

lemma queue_pop_empty: "q_inv queue \<Longrightarrow> q_list queue = [] \<Longrightarrow> queue_pop queue = Some (NULL, queue)"
  using queue_empty_iff [of queue] by (auto simp: queue_pop_def queue_empty_def split: if_splits)

lemma rd_slot_mod: "q_bounds queue \<Longrightarrow> rd_slot queue (i mod q_size queue)
    = the (q_q queue) ! nat (i mod q_size queue)"
  by (auto simp: q_bounds_def rd_slot_def rd_def nat_less_iff)

lemma queue_head_slot:
  assumes "q_bounds queue" shows "queue_head queue = q_slot queue 0"
proof -
  have "(q_front queue + 1) smod q_size queue = (q_front queue + 1) mod q_size queue"
    using assms by (intro smod_nonneg) (auto simp: q_bounds_def)
  then show ?thesis using rd_slot_mod [OF assms] by (simp add: queue_head_def q_slot_def)
qed

lemma queue_pop_ok:
  assumes inv: "q_inv queue" and cons: "q_list queue = d # ds"
  shows "\<exists>queue'. queue_pop queue = Some (d, queue') \<and> q_inv queue' \<and> q_list queue' = ds"
proof -
  have b: "q_bounds queue" using inv by (simp add: q_inv_def)
  let ?n = "q_size queue" and ?f = "q_front queue" and ?c = "q_count queue"
  have n: "2 \<le> ?n" "0 \<le> ?f" "?f < ?n" using b by (auto simp: q_bounds_def)
  have c: "?c = Suc (length ds)" using cons by (metis length_Cons length_q_list)
  have ne: "q_front queue \<noteq> q_rear queue" using cons inv queue_empty_iff [OF inv]
    by (auto simp: queue_empty_def split: if_splits)
  let ?front = "(?f + 1) mod ?n" and ?w = "queue\<lparr>q_front := (?f + 1) mod ?n\<rparr>"
  have sm: "(?f + 1) smod ?n = ?front" using n by (intro smod_nonneg) auto
  have bw: "q_bounds ?w" using b n by (auto simp: q_bounds_def)
  have "(q_rear queue - ?front) mod ?n = (q_rear queue - ?f - 1) mod ?n"
    by (simp add: mod_simps algebra_simps)
  also have "\<dots> = ((q_rear queue - ?f) mod ?n - 1) mod ?n" by (simp add: mod_simps)
  also have "(q_rear queue - ?f) mod ?n = int ?c" using n by (simp add: q_count_def)
  also have "(int ?c - 1) mod ?n = int ?c - 1"
    using q_count_less [OF b] c n by (intro mod_pos_pos_trivial) auto
  finally have "(q_rear queue - ?front) mod ?n = int (length ds)" using c by simp
  then have cw: "q_count ?w = length ds" by (simp add: q_count_def)
  have slot: "q_slot ?w k = q_slot queue (Suc k)" for k
  proof -
    have "(?front + (1 + int k)) mod ?n = (?f + 1 + (1 + int k)) mod ?n" by (rule mod_add_left_eq)
    then show ?thesis by (simp add: q_slot_def algebra_simps)
  qed
  have "q_inv ?w" using inv bw cw c slot by (auto simp: q_inv_def)
  moreover have "[0..<Suc (length ds)] = 0 # map Suc [0..<length ds]"
    by (simp add: map_Suc_upt upt_conv_Cons del: upt_Suc)
  then have l: "the (q_slot queue 0) = d \<and> q_list ?w = ds"
    using cons by (simp add: q_list_def cw c slot o_def del: upt_Suc)
  moreover have "rd_slot queue ?front = Some d"
    using queue_head_slot [OF b] inv l c by (auto simp: queue_head_def sm q_inv_def)
  ultimately show ?thesis using ne sm by (simp add: queue_pop_def Let_def)
qed

lemma queue_element_count_ok: "q_inv queue \<Longrightarrow> queue_element_count queue = int (length (q_list queue))"
proof -
  assume "q_inv queue"
  then have b: "q_bounds queue" by (simp add: q_inv_def)
  have "queue_element_count queue = (q_rear queue - q_front queue + q_size queue) mod q_size queue"
    unfolding queue_element_count_def using b by (intro smod_nonneg) (auto simp: q_bounds_def)
  then show ?thesis using b by (simp add: q_count_def q_bounds_def)
qed

section \<open>The queue interface\<close>

text \<open>What a client of the queue relies on: while it holds fewer than \<open>cap\<close> items a push succeeds
  and appends, a pop removes the first item, and a pop of an empty queue answers \<open>nil\<close>.\<close>

datatype 'd queue_op = Push 'd | Pop

fun ops_run :: "('q \<Rightarrow> 'd \<Rightarrow> (int \<times> 'q) option) \<Rightarrow> ('q \<Rightarrow> ('d \<times> 'q) option) \<Rightarrow>
    'q \<Rightarrow> 'd queue_op list \<Rightarrow> ('d list \<times> 'q) option" where
  "ops_run enq deq q [] = Some ([], q)"
| "ops_run enq deq q (Push d # ops) = do { (_, q') \<leftarrow> enq q d; ops_run enq deq q' ops }"
| "ops_run enq deq q (Pop # ops) = do {
     (d, q') \<leftarrow> deq q;
     (ds, q'') \<leftarrow> ops_run enq deq q' ops;
     Some (d # ds, q'')
   }"

text \<open>The same history on a list: what the pops answer and what is left.\<close>

fun list_run :: "'d \<Rightarrow> 'd list \<Rightarrow> 'd queue_op list \<Rightarrow> 'd list \<times> 'd list" where
  "list_run nil xs [] = ([], xs)"
| "list_run nil xs (Push d # ops) = list_run nil (xs @ [d]) ops"
| "list_run nil [] (Pop # ops) = (let (ds, ys) = list_run nil [] ops in (nil # ds, ys))"
| "list_run nil (x # xs) (Pop # ops) = (let (ds, ys) = list_run nil xs ops in (x # ds, ys))"

locale fifo =
  fixes enq :: "'q \<Rightarrow> 'd \<Rightarrow> (int \<times> 'q) option"
    and deq :: "'q \<Rightarrow> ('d \<times> 'q) option"
    and items :: "'q \<Rightarrow> 'd list"
    and inv :: "'q \<Rightarrow> bool"
    and cap :: nat
    and nil :: 'd
  assumes enq: "inv q \<Longrightarrow> length (items q) < cap \<Longrightarrow>
      \<exists>q'. enq q d = Some (1, q') \<and> inv q' \<and> items q' = items q @ [d]"
    and deq_Cons: "inv q \<Longrightarrow> items q = d # ds \<Longrightarrow>
      \<exists>q'. deq q = Some (d, q') \<and> inv q' \<and> items q' = ds"
    and deq_Nil: "inv q \<Longrightarrow> items q = [] \<Longrightarrow> deq q = Some (nil, q)"
begin

lemma run_refines:
  "inv q \<Longrightarrow> length (items q) + length ops \<le> cap \<Longrightarrow>
   \<exists>q'. ops_run enq deq q ops = Some (fst (list_run nil (items q) ops), q')
     \<and> inv q' \<and> items q' = snd (list_run nil (items q) ops)"
proof (induction ops arbitrary: q)
  case Nil
  then show ?case by simp
next
  case (Cons op ops)
  show ?case
  proof (cases op)
    case (Push d)
    with Cons.prems obtain q' where "enq q d = Some (1, q')" "inv q'" "items q' = items q @ [d]"
      using enq [of q d] by auto
    then show ?thesis using Cons.IH [of q'] Cons.prems Push by auto
  next
    case Pop
    show ?thesis
    proof (cases "items q")
      case Nil
      then show ?thesis using Cons.IH [of q] Cons.prems Pop deq_Nil [of q]
        by (auto simp: split: prod.split)
    next
      case (Cons d ds)
      then obtain q' where "deq q = Some (d, q')" "inv q'" "items q' = ds"
        using deq_Cons Cons.prems by blast
      then show ?thesis using Cons.IH [of q'] Cons.prems Pop Cons
        by (auto simp: split: prod.split)
    qed
  qed
qed

lemma enq_all:
  "inv q \<Longrightarrow> length (items q) + length ds \<le> cap \<Longrightarrow>
   \<exists>q'. ops_run enq deq q (map Push ds) = Some ([], q') \<and> inv q' \<and> items q' = items q @ ds"
proof (induction ds arbitrary: q)
  case (Cons d ds)
  then obtain q' where "enq q d = Some (1, q')" "inv q'" "items q' = items q @ [d]"
    using enq [of q d] by auto
  then show ?case using Cons.IH [of q'] Cons.prems by auto
qed simp

end

text \<open>A full ring of fewer than \<open>2^30\<close> slots can still double its size as a C \<open>int\<close>.\<close>

definition queue_cap :: nat where "queue_cap = 2 ^ 30 - 1"

lemma queue_room: "q_inv queue \<Longrightarrow> length (q_list queue) < queue_cap \<Longrightarrow> queue_full queue = 1 \<Longrightarrow>
  in_int (q_size queue * 2)"
  by (auto simp: q_inv_def q_full_iff queue_cap_def in_int_def INT_MAX_def q_bounds_def)

interpretation ring: fifo "queue_push True" queue_pop q_list q_inv queue_cap NULL
  by unfold_locales
    (use queue_push_ok queue_room queue_pop_ok queue_pop_empty in \<open>blast\<close>)+

section \<open>Properties\<close>

lemma queue_create_ok:
  assumes "queue_create sz True True = Some queue" and "in_int sz"
  shows "q_inv queue \<and> q_list queue = [] \<and> queue_empty queue = 1
    \<and> queue_size queue = (if sz \<le> 1 then INIT_QUEUE_SIZE else sz)"
  using assms
  by (auto simp: queue_create_def q_inv_def q_bounds_def q_count_def q_list_def queue_empty_def
      queue_size_def in_int_def INT_MAX_def INIT_QUEUE_SIZE_def Let_def split: if_splits)



text \<open>A single push on a queue that satisfies the ring invariant, full or not, appends its
  datum, keeps the invariant and reports \<open>1\<close>; a full ring is doubled first.\<close>

theorem queue_push_appends:
  assumes "q_inv queue" and "queue_full queue = 1 \<Longrightarrow> realloc_ok \<and> in_int (q_size queue * 2)"
  shows "\<exists>queue'. queue_push realloc_ok queue d = Some (1, queue') \<and> q_inv queue'
    \<and> q_list queue' = q_list queue @ [d]"
  using assms by (rule queue_push_ok)

definition full_ring :: queue where
  "full_ring = \<lparr>q_q = Some [Some (At 8), Some (At 9), Some (At 7)], q_front = 2, q_rear = 1, q_size = 3\<rparr>"

lemma full_ring_ok: "q_inv full_ring \<and> queue_full full_ring = 1 \<and> q_list full_ring = [At 8, At 9]"
proof -
  have c: "q_count full_ring = 2" by (simp add: full_ring_def q_count_def)
  have "q_slot full_ring 0 = Some (At 8)" "q_slot full_ring (Suc 0) = Some (At 9)"
    by (simp_all add: full_ring_def q_slot_def)
  then show ?thesis
    by (auto simp: q_inv_def q_bounds_def q_list_def c less_Suc_eq numeral_2_eq_2 upt_conv_Cons)
       (simp_all add: full_ring_def in_int_def INT_MAX_def queue_full_def signed_modulo_int_def)
qed

lemma queue_push_appends_witness:
  "\<exists>queue'. queue_push True full_ring (At 5) = Some (1, queue') \<and> q_list queue' = [At 8, At 9, At 5]"
proof -
  have "q_inv full_ring" and "in_int (q_size full_ring * 2)"
    using full_ring_ok by (auto simp: full_ring_def in_int_def INT_MAX_def)
  from queue_push_appends [OF this(1), of True "At 5"] this show ?thesis using full_ring_ok by auto
qed

text \<open>When \<open>realloc\<close> fails on a full queue, the push reports \<open>0\<close> but leaves the array pointer
  \<open>NULL\<close> with the doubled size: the items are lost and the next pop dereferences \<open>NULL\<close>.\<close>

theorem queue_push_realloc_failure:
  assumes "q_inv queue" and "queue_full queue = 1" and "in_int (q_size queue * 2)"
  shows "\<exists>queue'. queue_push False queue d = Some (0, queue')
    \<and> q_q queue' = None \<and> queue_size queue' = 2 * queue_size queue
    \<and> queue_element_count queue' \<noteq> 0 \<and> queue_pop queue' = None"
proof -
  let ?w = "queue\<lparr>q_size := q_size queue * 2, q_q := None\<rparr>"
  have b: "q_bounds queue" using assms(1) by (simp add: q_inv_def)
  then have n: "2 \<le> q_size queue" "0 \<le> q_front queue" "q_front queue < q_size queue"
    "0 \<le> q_rear queue" "q_rear queue < q_size queue" by (auto simp: q_bounds_def)
  have "int (q_count queue) = q_size queue - 1" using assms(2) q_full_iff [OF b] n by simp
  then have ne: "q_front queue \<noteq> q_rear queue" using q_count_int [OF b] n by auto
  have "queue_push False queue d = Some (0, ?w)"
    using assms(2,3) by (simp add: queue_push_def queue_grow_def Let_def)
  moreover have "queue_pop ?w = None" using ne by (simp add: queue_pop_def rd_slot_def Let_def)
  moreover have "queue_element_count ?w \<noteq> 0"
  proof -
    let ?x = "q_rear queue - q_front queue"
    have "queue_element_count ?w = (?x + q_size queue * 2) mod (q_size queue * 2)"
      unfolding queue_element_count_def using n by (simp add: smod_nonneg)
    also have "\<dots> = ?x mod (q_size queue * 2)" by simp
    also have "\<dots> \<noteq> 0"
      using ne n dvd_imp_le_int [of ?x "q_size queue * 2"] by (auto simp: dvd_eq_mod_eq_0 [symmetric])
    finally show ?thesis .
  qed
  ultimately show ?thesis by (auto simp: queue_size_def)
qed

lemma queue_push_realloc_failure_witness:
  "\<exists>queue'. queue_push False full_ring (At 5) = Some (0, queue') \<and> queue_pop queue' = None"
  using queue_push_realloc_failure [of full_ring "At 5"] full_ring_ok
  by (auto simp: full_ring_def in_int_def INT_MAX_def)

end
