(* ===== verification/EmemPool.thy ===== *)
theory EmemPool
  imports Prelude "HOL-Library.Sublist"
begin

unbundle bit_operations_syntax

text \<open>
  The page-based memory pool of \<open>emem_pool.c\<close>, built without \<open>MEM_POOL_LOCK\<close>. A pool is a
  chain of pages of one fixed size; each page carries its own header at its start (the first
  page also the pool's header) and hands out memory from \<open>last\<close> upwards. The chain is the list
  \<open>pages\<close> in link order: its first element is \<open>head\<close>, its last \<open>tail\<close>, and the \<open>current\<close>
  pointer is an index into it (\<open>None\<close> for \<open>NULL\<close>). Addresses are \<open>int\<close>; the sizes of the two
  headers are those of an LP64 platform.

  \<open>posix_memalign\<close> is outside the repository: its answer is an argument of each operation
  (\<open>NULL\<close> when it fails), and what the code relies on, an aligned block disjoint from the pages
  in use, is the hypothesis \<open>fresh_page\<close>.

  The lemmas show that the allocator hands out aligned, pairwise disjoint regions that never
  touch a header or leave their page, when it fails, and that destroying the pool frees every
  page exactly once.
\<close>

section \<open>State\<close>

record mem_page =
  pg_start :: int
  pg_last :: int
  pg_end :: int
  pg_failed :: int

record mem_pool =
  page_size :: int
  page_count :: int
  current :: "nat option"
  pages :: "mem_page list"

definition sizeof_mem_pool_t :: int where "sizeof_mem_pool_t = 32"
definition sizeof_mem_page_t :: int where "sizeof_mem_page_t = 40"
definition MAX_FAILED_COUNT :: int where "MAX_FAILED_COUNT = 4"
definition PLATFORM_ALIGNMENT :: int where "PLATFORM_ALIGNMENT = 8"

definition ALIGN_PTR :: "int \<Rightarrow> int \<Rightarrow> int" where
  "ALIGN_PTR p align = (p + (align - 1)) AND NOT (align - 1)"

section \<open>Operations\<close>

fun mem_pool_create :: "int \<Rightarrow> ptr \<Rightarrow> mem_pool option" where
  "mem_pool_create pagesize NULL = None"
| "mem_pool_create pagesize (At addr) =
     Some \<lparr>page_size = pagesize, page_count = 1, current = Some 0,
       pages = [\<lparr>pg_start = addr,
                 pg_last = addr + sizeof_mem_pool_t + sizeof_mem_page_t,
                 pg_end = addr + pagesize,
                 pg_failed = 0\<rparr>]\<rparr>"

text \<open>The pointer to the page after the one at index \<open>i\<close>.\<close>

definition page_next :: "mem_pool \<Rightarrow> nat \<Rightarrow> nat option" where
  "page_next mp i = (if Suc i < length (pages mp) then Some (Suc i) else None)"

text \<open>One failure counted on page \<open>i\<close>, with the move of \<open>current\<close> past it at the fourth.\<close>

definition count_failure :: "mem_pool \<Rightarrow> nat \<Rightarrow> mem_pool" where
  "count_failure mp i =
     (let pg' = (pages mp ! i)\<lparr>pg_failed := pg_failed (pages mp ! i) + 1\<rparr>;
          mp1 = mp\<lparr>pages := (pages mp)[i := pg']\<rparr>
      in if pg_failed pg' \<ge> MAX_FAILED_COUNT then mp1\<lparr>current := page_next mp1 i\<rparr> else mp1)"

lemma length_count_failure [simp]: "length (pages (count_failure mp i)) = length (pages mp)"
  by (simp add: count_failure_def Let_def)

text \<open>The loop over the existing pages, from the page at index \<open>i\<close>.\<close>

function alloc_scan :: "mem_pool \<Rightarrow> nat \<Rightarrow> int \<Rightarrow> ptr \<times> mem_pool" where
  "alloc_scan mp i sz =
     (if i < length (pages mp) then
        let pg = pages mp ! i; p = ALIGN_PTR (pg_last pg) PLATFORM_ALIGNMENT in
        if pg_end pg - p \<ge> sz then
          (At p, mp\<lparr>pages := (pages mp)[i := pg\<lparr>pg_last := p + sz\<rparr>]\<rparr>)
        else alloc_scan (count_failure mp i) (Suc i) sz
      else (NULL, mp))"
  by pat_completeness auto
termination
  by (relation "measure (\<lambda>(mp, i, sz). length (pages mp) - i)") auto

declare alloc_scan.simps [simp del]

text \<open>The new page appended at the tail when no existing page has room.\<close>

definition alloc_new_page :: "mem_pool \<Rightarrow> int \<Rightarrow> int \<Rightarrow> ptr \<times> mem_pool" where
  "alloc_new_page mp sz addr =
     (let p = ALIGN_PTR (addr + sizeof_mem_page_t) PLATFORM_ALIGNMENT;
          new_page = \<lparr>pg_start = addr, pg_last = p + sz, pg_end = addr + page_size mp, pg_failed = 0\<rparr>
      in (At p, mp\<lparr>page_count := page_count mp + 1, pages := pages mp @ [new_page],
                  current := (case current mp of None \<Rightarrow> Some (length (pages mp)) | Some c \<Rightarrow> Some c)\<rparr>))"

fun mem_pool_alloc :: "mem_pool option \<Rightarrow> int \<Rightarrow> ptr \<Rightarrow> ptr \<times> mem_pool option" where
  "mem_pool_alloc None sz memalign = (NULL, None)"
| "mem_pool_alloc (Some mp) sz memalign =
     (if sz > page_size mp - sizeof_mem_page_t then (NULL, Some mp)
      else
        let (p, mp1) = (case current mp of None \<Rightarrow> (NULL, mp) | Some i \<Rightarrow> alloc_scan mp i sz) in
        case p of
          At a \<Rightarrow> (At a, Some mp1)
        | NULL \<Rightarrow> (case memalign of
              NULL \<Rightarrow> (NULL, Some mp1)
            | At addr \<Rightarrow> (let (q, mp2) = alloc_new_page mp1 sz addr in (q, Some mp2))))"

text \<open>\<open>bzero\<close> on the process's memory; a negative length is a huge \<open>size_t\<close>.\<close>

type_synonym memory = "int \<Rightarrow> char"

definition mem_zero :: "memory \<Rightarrow> int \<Rightarrow> int \<Rightarrow> memory option" where
  "mem_zero m a n = (if n < 0 then None else Some (\<lambda>x. if a \<le> x \<and> x < a + n then NUL else m x))"

definition mem_pool_calloc ::
  "memory \<Rightarrow> mem_pool option \<Rightarrow> int \<Rightarrow> ptr \<Rightarrow> (ptr \<times> mem_pool option \<times> memory) option" where
  "mem_pool_calloc m mem_pool sz memalign =
     (case mem_pool_alloc mem_pool sz memalign of
        (NULL, mp) \<Rightarrow> Some (NULL, mp, m)
      | (At a, mp) \<Rightarrow> do { m' \<leftarrow> mem_zero m a sz; Some (At a, mp, m') })"

text \<open>\<open>mem_pool_destroy (mem_pool_t **mem_pool)\<close>: what the caller's variable holds afterwards and
  the addresses freed, in order.\<close>

fun mem_pool_destroy :: "mem_pool option option \<Rightarrow> mem_pool option option \<times> int list" where
  "mem_pool_destroy None = (None, [])"
| "mem_pool_destroy (Some None) = (Some None, [])"
| "mem_pool_destroy (Some (Some pool)) = (Some None, map pg_start (pages pool))"

text \<open>\<open>mem_pool_dump\<close>: the page count and, for each page, its number, failure count and the bytes
  left, as printed.\<close>

definition dump_page :: "nat \<Rightarrow> mem_page \<Rightarrow> nat \<times> int \<times> int" where
  "dump_page i pg = (i, pg_failed pg, pg_end pg - pg_last pg)"

fun mem_pool_dump :: "mem_pool option \<Rightarrow> (int \<times> (nat \<times> int \<times> int) list) option" where
  "mem_pool_dump None = None"
| "mem_pool_dump (Some mp) =
     Some (page_count mp, map (\<lambda>(i, pg). dump_page i pg) (enumerate 0 (pages mp)))"

section \<open>Alignment\<close>

lemma ALIGN_PTR_8: "ALIGN_PTR p PLATFORM_ALIGNMENT = p + 7 - (p + 7) mod 8"
  using and_not_mask [of "p + 7" 3]
  by (simp add: ALIGN_PTR_def PLATFORM_ALIGNMENT_def mask_eq_exp_minus_1)

lemma align_props: "p \<le> ALIGN_PTR p PLATFORM_ALIGNMENT" "ALIGN_PTR p PLATFORM_ALIGNMENT < p + 8"
  "ALIGN_PTR p PLATFORM_ALIGNMENT mod 8 = 0"
proof -
  have "0 \<le> (p + 7) mod 8" "(p + 7) mod 8 < 8" by auto
  then show "p \<le> ALIGN_PTR p PLATFORM_ALIGNMENT" "ALIGN_PTR p PLATFORM_ALIGNMENT < p + 8"
    unfolding ALIGN_PTR_8 by linarith+
  show "ALIGN_PTR p PLATFORM_ALIGNMENT mod 8 = 0" unfolding ALIGN_PTR_8 by (simp add: mod_diff_right_eq)
qed

lemma align_aligned: "p mod 8 = 0 \<Longrightarrow> ALIGN_PTR p PLATFORM_ALIGNMENT = p"
proof -
  assume "p mod 8 = 0"
  then have "(p + 7) mod 8 = 7" by presburger
  then show ?thesis by (simp add: ALIGN_PTR_8)
qed

section \<open>The pool invariant\<close>

definition page_ok :: "int \<Rightarrow> mem_page \<Rightarrow> bool" where
  "page_ok P pg \<longleftrightarrow> pg_start pg mod 8 = 0 \<and> pg_end pg = pg_start pg + P
     \<and> pg_start pg + sizeof_mem_page_t \<le> pg_last pg \<and> pg_last pg \<le> pg_end pg"

definition page_disj :: "mem_page \<Rightarrow> mem_page \<Rightarrow> bool" where
  "page_disj a b \<longleftrightarrow> pg_end a \<le> pg_start b \<or> pg_end b \<le> pg_start a"

text \<open>Every page from \<open>current\<close> on has failed fewer than \<open>MAX_FAILED_COUNT\<close> times.\<close>

definition current_ok :: "mem_pool \<Rightarrow> bool" where
  "current_ok mp \<longleftrightarrow> (\<forall>c. current mp = Some c \<longrightarrow> c < length (pages mp)
     \<and> (\<forall>j. c \<le> j \<longrightarrow> j < length (pages mp) \<longrightarrow> pg_failed (pages mp ! j) < MAX_FAILED_COUNT))"

definition pool_inv :: "mem_pool \<Rightarrow> bool" where
  "pool_inv mp \<longleftrightarrow> page_size mp mod 8 = 0 \<and> sizeof_mem_pool_t + sizeof_mem_page_t \<le> page_size mp
     \<and> pages mp \<noteq> [] \<and> page_count mp = int (length (pages mp))
     \<and> list_all (page_ok (page_size mp)) (pages mp) \<and> sorted_wrt page_disj (pages mp)
     \<and> current_ok mp"

text \<open>What the caller of \<open>posix_memalign\<close> may rely on when it returns \<open>At addr\<close>.\<close>

fun fresh_page :: "mem_pool \<Rightarrow> ptr \<Rightarrow> bool" where
  "fresh_page mp NULL = True"
| "fresh_page mp (At addr) \<longleftrightarrow> addr mod page_size mp = 0 \<and>
     list_all (\<lambda>pg. addr + page_size mp \<le> pg_start pg \<or> pg_end pg \<le> addr) (pages mp)"

text \<open>The bytes in use: headers and everything handed out.\<close>

definition pool_used :: "mem_pool \<Rightarrow> int set" where
  "pool_used mp = (\<Union>pg\<in>set (pages mp). {pg_start pg..<pg_last pg})"

definition pool_bytes :: "mem_pool \<Rightarrow> int set" where
  "pool_bytes mp = (\<Union>pg\<in>set (pages mp). {pg_start pg..<pg_end pg})"

lemma pool_inv_page: "pool_inv mp \<Longrightarrow> i < length (pages mp) \<Longrightarrow> page_ok (page_size mp) (pages mp ! i)"
  by (auto simp: pool_inv_def list_all_length)

text \<open>Replacing a page by one with the same bounds keeps the disjointness of the chain.\<close>

lemma sorted_wrt_update_page:
  assumes "sorted_wrt page_disj ps" and "i < length ps"
    and "pg_start pg = pg_start (ps ! i)" and "pg_end pg = pg_end (ps ! i)"
  shows "sorted_wrt page_disj (ps[i := pg])"
  using assms by (auto simp: sorted_wrt_iff_nth_less nth_list_update page_disj_def)

lemma list_all_update: "list_all Q xs \<Longrightarrow> Q x \<Longrightarrow> list_all Q (xs[i := x])"
  by (cases "i < length xs") (auto simp: list_all_length nth_list_update list_update_beyond)

text \<open>A state reached by counting failures only: the same pages but for the counters.\<close>

definition same_layout :: "mem_pool \<Rightarrow> mem_pool \<Rightarrow> bool" where
  "same_layout mp mp' \<longleftrightarrow> page_size mp' = page_size mp \<and> page_count mp' = page_count mp
     \<and> map pg_start (pages mp') = map pg_start (pages mp)
     \<and> map pg_last (pages mp') = map pg_last (pages mp)
     \<and> map pg_end (pages mp') = map pg_end (pages mp)"

lemma same_layout_nth:
  assumes "same_layout mp mp'" and "j < length (pages mp)"
  shows "length (pages mp') = length (pages mp)" "pg_start (pages mp' ! j) = pg_start (pages mp ! j)"
    "pg_last (pages mp' ! j) = pg_last (pages mp ! j)" "pg_end (pages mp' ! j) = pg_end (pages mp ! j)"
proof -
  show l: "length (pages mp') = length (pages mp)"
    using assms(1) by (metis same_layout_def length_map)
  show "pg_start (pages mp' ! j) = pg_start (pages mp ! j)"
    "pg_last (pages mp' ! j) = pg_last (pages mp ! j)" "pg_end (pages mp' ! j) = pg_end (pages mp ! j)"
    using assms l by (auto simp: same_layout_def list_eq_iff_nth_eq)
qed

lemma same_layout_refl: "same_layout mp mp"
  by (simp add: same_layout_def)

lemma same_layout_trans: "same_layout a b \<Longrightarrow> same_layout b c \<Longrightarrow> same_layout a c"
  by (simp add: same_layout_def)

lemma same_layout_used: "same_layout mp mp' \<Longrightarrow> pool_used mp' = pool_used mp \<and> pool_bytes mp' = pool_bytes mp"
proof -
  assume s: "same_layout mp mp'"
  then have l: "length (pages mp') = length (pages mp)" by (metis same_layout_def length_map)
  have e: "(\<Union>pg\<in>set ps. F (pg :: mem_page)) = (\<Union>j\<in>{..<length ps}. F (ps ! j))"
    for ps and F :: "mem_page \<Rightarrow> int set"
    by (auto simp: set_conv_nth)
  show ?thesis unfolding pool_used_def pool_bytes_def e l using same_layout_nth [OF s] by simp
qed

lemma count_failure_layout: "i < length (pages mp) \<Longrightarrow> same_layout mp (count_failure mp i)"
  by (auto simp: count_failure_def same_layout_def Let_def map_update list_update_same_conv)

lemma count_failure_current:
  assumes "current_ok mp" and "i < length (pages mp)" and "\<And>c. current mp = Some c \<Longrightarrow> c \<le> i"
    and "current mp \<noteq> None"
  shows "current_ok (count_failure mp i) \<and>
    (\<forall>c. current (count_failure mp i) = Some c \<longrightarrow> c \<le> Suc i)"
proof -
  obtain c where c: "current mp = Some c" "c \<le> i" using assms(3,4) by auto
  then have f: "pg_failed (pages mp ! j) < MAX_FAILED_COUNT" if "c \<le> j" "j < length (pages mp)" for j
    using that assms(1) by (auto simp: current_ok_def)
  show ?thesis
  proof (cases "MAX_FAILED_COUNT \<le> pg_failed (pages mp ! i) + 1")
    case True
    then show ?thesis using c f
      by (auto simp: count_failure_def current_ok_def Let_def page_next_def)
  next
    case False
    then show ?thesis using c f assms(2)
      by (auto simp: count_failure_def current_ok_def Let_def nth_list_update)
  qed
qed

lemma same_layout_inv:
  assumes "same_layout mp mp'" and "pool_inv mp" and "current_ok mp'"
  shows "pool_inv mp'"
proof -
  have l: "length (pages mp') = length (pages mp)" by (metis assms(1) same_layout_def length_map)
  then have "pages mp' \<noteq> []" using assms(2) by (auto simp: pool_inv_def)
  moreover have "list_all (page_ok (page_size mp)) (pages mp')"
    using assms(2) l same_layout_nth [OF assms(1)]
    by (auto simp: pool_inv_def list_all_length page_ok_def)
  moreover have "sorted_wrt page_disj (pages mp')"
    using assms(2) l same_layout_nth [OF assms(1)]
    by (auto simp: pool_inv_def sorted_wrt_iff_nth_less page_disj_def)
  ultimately show ?thesis using assms l by (auto simp: pool_inv_def same_layout_def)
qed

section \<open>Allocation\<close>

text \<open>What a successful allocation guarantees of the region \<open>[p, p + sz)\<close>.\<close>

definition alloc_region :: "mem_pool \<Rightarrow> mem_pool \<Rightarrow> int \<Rightarrow> int \<Rightarrow> bool" where
  "alloc_region mp mp' p sz \<longleftrightarrow> p mod 8 = 0 \<and> {p..<p + sz} \<inter> pool_used mp = {}
     \<and> {p..<p + sz} \<subseteq> pool_used mp' \<and> pool_used mp \<subseteq> pool_used mp'
     \<and> pool_used mp' \<subseteq> pool_bytes mp'"

lemma page_disj_nth:
  "sorted_wrt page_disj ps \<Longrightarrow> j < length ps \<Longrightarrow> k < length ps \<Longrightarrow> j \<noteq> k \<Longrightarrow> page_disj (ps ! j) (ps ! k)"
  by (cases j k rule: linorder_cases) (auto simp: sorted_wrt_iff_nth_less page_disj_def)

lemma pool_used_bytes: "pool_inv mp \<Longrightarrow> pool_used mp \<subseteq> pool_bytes mp"
  by (fastforce simp: pool_used_def pool_bytes_def pool_inv_def list_all_iff page_ok_def)

lemma pool_used_nth: "pool_used mp = (\<Union>j\<in>{..<length (pages mp)}. {pg_start (pages mp ! j)..<pg_last (pages mp ! j)})"
  by (auto simp: pool_used_def set_conv_nth)

lemma alloc_hit:
  assumes inv: "pool_inv mp" and j: "j < length (pages mp)" and sz: "0 \<le> sz"
    and p: "p = ALIGN_PTR (pg_last (pages mp ! j)) PLATFORM_ALIGNMENT"
    and room: "sz \<le> pg_end (pages mp ! j) - p"
    and mp': "mp' = mp\<lparr>pages := (pages mp)[j := (pages mp ! j)\<lparr>pg_last := p + sz\<rparr>]\<rparr>"
  shows "pool_inv mp' \<and> alloc_region mp mp' p sz"
proof -
  let ?pg = "pages mp ! j"
  have ok: "page_ok (page_size mp) ?pg" using inv j by (rule pool_inv_page)
  have le: "pg_last ?pg \<le> p" and al: "p mod 8 = 0" by (simp_all add: p align_props)
  have inv': "pool_inv mp'"
    using inv ok le room sz j
    by (auto simp: mp' pool_inv_def page_ok_def current_ok_def nth_list_update
        intro!: list_all_update sorted_wrt_update_page)
  have disj: "x \<notin> pool_used mp" if "p \<le> x" "x < p + sz" for x
  proof
    assume "x \<in> pool_used mp"
    then obtain k where k: "k < length (pages mp)" "pg_start (pages mp ! k) \<le> x" "x < pg_last (pages mp ! k)"
      by (auto simp: pool_used_nth)
    then have "k \<noteq> j" using that le by auto
    then have "page_disj ?pg (pages mp ! k)" using inv j k by (auto simp: pool_inv_def intro: page_disj_nth)
    moreover have "pg_last (pages mp ! k) \<le> pg_end (pages mp ! k)"
      using pool_inv_page [OF inv k(1)] by (simp add: page_ok_def)
    ultimately show False using k that room le ok by (auto simp: page_disj_def page_ok_def sizeof_mem_page_t_def)
  qed
  have mono: "pool_used mp \<subseteq> pool_used mp'" and new: "{p..<p + sz} \<subseteq> pool_used mp'"
    using j le sz ok
    by (fastforce simp: pool_used_nth mp' nth_list_update page_ok_def sizeof_mem_page_t_def)+
  show ?thesis using inv' al disj mono new pool_used_bytes [OF inv'] by (auto simp: alloc_region_def)
qed

lemma alloc_scan_result:
  assumes "pool_inv mp" and "\<And>c. current mp = Some c \<Longrightarrow> c \<le> i"
    and "current mp \<noteq> None \<or> length (pages mp) \<le> i"
  shows "(fst (alloc_scan mp i sz) = NULL \<and> same_layout mp (snd (alloc_scan mp i sz))
        \<and> current_ok (snd (alloc_scan mp i sz))
        \<and> (\<forall>j<length (pages mp). i \<le> j \<longrightarrow>
             pg_end (pages mp ! j) - ALIGN_PTR (pg_last (pages mp ! j)) PLATFORM_ALIGNMENT < sz))
    \<or> (\<exists>m j p. same_layout mp m \<and> pool_inv m \<and> i \<le> j \<and> j < length (pages m)
        \<and> p = ALIGN_PTR (pg_last (pages m ! j)) PLATFORM_ALIGNMENT \<and> sz \<le> pg_end (pages m ! j) - p
        \<and> alloc_scan mp i sz = (At p, m\<lparr>pages := (pages m)[j := (pages m ! j)\<lparr>pg_last := p + sz\<rparr>]\<rparr>))"
    (is "?none mp i sz \<or> ?hit mp i sz")
  using assms
proof (induction mp i sz rule: alloc_scan.induct)
  case (1 mp i sz)
  let ?pg = "pages mp ! i" and ?m = "count_failure mp i"
  let ?p = "ALIGN_PTR (pg_last ?pg) PLATFORM_ALIGNMENT"
  consider (past) "length (pages mp) \<le> i" | (room) "i < length (pages mp)" "sz \<le> pg_end ?pg - ?p"
    | (fail) "i < length (pages mp)" "\<not> sz \<le> pg_end ?pg - ?p" by linarith
  then show ?case
  proof cases
    case past
    then show ?thesis using "1.prems"(1)
      by (subst (1 2 3) alloc_scan.simps) (auto simp: same_layout_refl pool_inv_def)
  next
    case room
    then show ?thesis using "1.prems"(1)
      by (intro disjI2 exI [of _ mp] exI [of _ i] exI [of _ ?p])
        (auto simp: same_layout_refl alloc_scan.simps [of mp i sz] Let_def)
  next
    case fail
    have eq: "alloc_scan mp i sz = alloc_scan ?m (Suc i) sz"
      using fail by (subst alloc_scan.simps) (simp add: Let_def)
    have lay: "same_layout mp ?m" using fail(1) by (rule count_failure_layout)
    have "current mp \<noteq> None" using "1.prems"(3) fail(1) by auto
    then have cur: "current_ok ?m" "\<And>c. current ?m = Some c \<Longrightarrow> c \<le> Suc i"
      using count_failure_current [of mp i] "1.prems" fail(1) by (auto simp: pool_inv_def)
    have inv: "pool_inv ?m" using same_layout_inv [OF lay "1.prems"(1) cur(1)] .
    have nn: "current ?m \<noteq> None \<or> length (pages ?m) \<le> Suc i"
      using "1.prems"(3) fail(1) by (auto simp: count_failure_def Let_def page_next_def)
    from "1.IH" [OF fail(1) refl refl fail(2) inv cur(2) nn]
    show ?thesis
    proof (rule disjE)
      assume n: "?none ?m (Suc i) sz"
      note n1 = n [THEN conjunct1] n [THEN conjunct2, THEN conjunct1]
        n [THEN conjunct2, THEN conjunct2, THEN conjunct1]
      note n4 = n [THEN conjunct2, THEN conjunct2, THEN conjunct2]
      have "pg_end (pages mp ! j) - ALIGN_PTR (pg_last (pages mp ! j)) PLATFORM_ALIGNMENT < sz"
        if "j < length (pages mp)" "i \<le> j" for j
      proof (cases "j = i")
        case False
        then have a: "Suc i \<le> j" using that by simp
        have "j < length (pages ?m)" using that(1) by (simp only: length_count_failure)
        from n4 [rule_format, OF this a] show ?thesis unfolding same_layout_nth [OF lay that(1)] .
      qed (use fail in simp)
      then show ?thesis unfolding eq
        by (intro disjI1 conjI n1 allI impI same_layout_trans [OF lay n1(2)])
    next
      assume "?hit ?m (Suc i) sz"
      then obtain m j p where "same_layout ?m m" "pool_inv m" "Suc i \<le> j" "j < length (pages m)"
        "p = ALIGN_PTR (pg_last (pages m ! j)) PLATFORM_ALIGNMENT" "sz \<le> pg_end (pages m ! j) - p"
        "alloc_scan ?m (Suc i) sz = (At p, m\<lparr>pages := (pages m)[j := (pages m ! j)\<lparr>pg_last := p + sz\<rparr>]\<rparr>)"
        by blast
      then show ?thesis unfolding eq using same_layout_trans [OF lay]
        by (intro disjI2 exI [of _ m] exI [of _ j] exI [of _ p]) auto
    qed
  qed
qed

lemma alloc_new_page_ok:
  assumes inv: "pool_inv mp" and fresh: "fresh_page mp (At addr)"
    and sz: "0 \<le> sz" "sz \<le> page_size mp - sizeof_mem_page_t"
  shows "\<exists>p mp'. alloc_new_page mp sz addr = (At p, mp') \<and> pool_inv mp' \<and> alloc_region mp mp' p sz
    \<and> page_size mp' = page_size mp \<and> map pg_start (pages mp') = map pg_start (pages mp) @ [addr]"
proof -
  let ?P = "page_size mp"
  have P: "?P mod 8 = 0" "addr mod ?P = 0" using inv fresh by (auto simp: pool_inv_def)
  then have "8 dvd addr" by (meson dvd_trans mod_0_imp_dvd)
  then have a8: "addr mod 8 = 0" by simp
  then have "(addr + 40) mod 8 = 0" by presburger
  then have p: "ALIGN_PTR (addr + sizeof_mem_page_t) PLATFORM_ALIGNMENT = addr + 40"
    by (simp add: align_aligned sizeof_mem_page_t_def)
  let ?pg = "\<lparr>pg_start = addr, pg_last = addr + 40 + sz, pg_end = addr + ?P, pg_failed = 0\<rparr>"
  let ?mp = "mp\<lparr>page_count := page_count mp + 1, pages := pages mp @ [?pg],
      current := (case current mp of None \<Rightarrow> Some (length (pages mp)) | Some c \<Rightarrow> Some c)\<rparr>"
  have eq: "alloc_new_page mp sz addr = (At (addr + 40), ?mp)"
    by (simp add: alloc_new_page_def p Let_def)
  have cur: "current_ok ?mp"
    using inv by (auto simp: pool_inv_def current_ok_def nth_append MAX_FAILED_COUNT_def
        less_Suc_eq split: option.splits)
  have "list_all (\<lambda>pg. page_disj pg ?pg) (pages mp)"
    using fresh by (auto simp: page_disj_def list_all_iff)
  then have inv': "pool_inv ?mp" using inv a8 sz cur
    by (auto simp: pool_inv_def page_ok_def sizeof_mem_page_t_def sorted_wrt_append list_all_iff)
  have "x \<notin> pool_used mp" if "addr + 40 \<le> x" "x < addr + 40 + sz" for x
  proof
    assume "x \<in> pool_used mp"
    then obtain pg where "pg \<in> set (pages mp)" "pg_start pg \<le> x" "x < pg_end pg"
      using pool_used_bytes [OF inv] by (auto simp: pool_bytes_def)
    then show False using fresh that sz by (auto simp: list_all_iff sizeof_mem_page_t_def)
  qed
  moreover have "(addr + 40) mod 8 = 0" using a8 by presburger
  moreover have "pool_used ?mp = pool_used mp \<union> {addr..<addr + 40 + sz}"
    by (auto simp: pool_used_def)
  ultimately have "alloc_region mp ?mp (addr + 40) sz"
    using pool_used_bytes [OF inv'] by (auto simp: alloc_region_def)
  then show ?thesis using eq inv' by auto
qed

section \<open>Properties\<close>

text \<open>Whether some page from \<open>current\<close> on still has room for \<open>sz\<close> bytes.\<close>

definition has_room :: "mem_pool \<Rightarrow> int \<Rightarrow> bool" where
  "has_room mp sz \<longleftrightarrow> (\<exists>j\<in>{..<length (pages mp)}.
     (case current mp of None \<Rightarrow> False | Some c \<Rightarrow> c \<le> j) \<and>
     sz \<le> pg_end (pages mp ! j) - ALIGN_PTR (pg_last (pages mp ! j)) PLATFORM_ALIGNMENT)"

lemma alloc_region_layout:
  "same_layout mp m \<Longrightarrow> alloc_region m mp' p sz \<Longrightarrow> alloc_region mp mp' p sz"
  using same_layout_used by (simp add: alloc_region_def)

lemma fresh_page_layout: "same_layout mp m \<Longrightarrow> fresh_page mp a \<Longrightarrow> fresh_page m a"
proof (cases a)
  case (At addr)
  assume s: "same_layout mp m" and "fresh_page mp a"
  moreover have "length (pages m) = length (pages mp)" using s by (metis same_layout_def length_map)
  ultimately show ?thesis using At same_layout_nth [OF s]
    by (auto simp: list_all_length same_layout_def)
qed simp

text \<open>What one request does to a pool that satisfies the invariant: it returns \<open>NULL\<close> and
  changes no region in use, or it returns the region and the grown pool.\<close>

text \<open>What the scan from the current page gives: nothing, with the counters moved, or the end of a page that has room.\<close>

lemma scan_cases:
  assumes inv: "pool_inv mp"
  obtains (none) m where "(case current mp of None \<Rightarrow> (NULL, mp) | Some i \<Rightarrow> alloc_scan mp i sz) = (NULL, m)" "same_layout mp m" "current_ok m" "\<not> has_room mp sz"
    | (hit) m j p where "same_layout mp m" "pool_inv m" "j < length (pages m)"
        "p = ALIGN_PTR (pg_last (pages m ! j)) PLATFORM_ALIGNMENT" "sz \<le> pg_end (pages m ! j) - p"
        "(case current mp of None \<Rightarrow> (NULL, mp) | Some i \<Rightarrow> alloc_scan mp i sz) = (At p, m\<lparr>pages := (pages m)[j := (pages m ! j)\<lparr>pg_last := p + sz\<rparr>]\<rparr>)"
        "has_room mp sz"
proof (cases "current mp")
  case None
  with inv show thesis
    by (intro none [of mp]) (simp_all add: same_layout_refl pool_inv_def has_room_def)
next
  case (Some c)
  then have c: "c < length (pages mp)" using inv by (simp add: pool_inv_def current_ok_def)
  have "current mp \<noteq> None \<or> length (pages mp) \<le> c" using Some by simp
  from alloc_scan_result [OF inv _ this, of sz] Some
  consider (a) "fst (alloc_scan mp c sz) = NULL" "same_layout mp (snd (alloc_scan mp c sz))"
      "current_ok (snd (alloc_scan mp c sz))" "\<not> has_room mp sz"
    | (b) m j p where "same_layout mp m" "pool_inv m" "c \<le> j" "j < length (pages m)"
      "p = ALIGN_PTR (pg_last (pages m ! j)) PLATFORM_ALIGNMENT" "sz \<le> pg_end (pages m ! j) - p"
      "alloc_scan mp c sz = (At p, m\<lparr>pages := (pages m)[j := (pages m ! j)\<lparr>pg_last := p + sz\<rparr>]\<rparr>)"
    by (fastforce simp: has_room_def not_le)
  then show thesis
  proof cases
    case a
    then show thesis using Some by (intro none [of "snd (alloc_scan mp c sz)"]) (auto simp: prod_eq_iff)
  next
    case b
    have l: "j < length (pages mp)" using b(1,4) by (metis same_layout_def length_map)
    have "has_room mp sz"
      unfolding has_room_def Some using b(3,5,6) l same_layout_nth(3,4) [OF b(1) l]
      by (intro bexI [of _ j]) simp_all
    then show thesis using b Some by (intro hit [of m j p]) simp_all
  qed
qed

lemma mem_pool_alloc_cases:
  assumes inv: "pool_inv mp" and fresh: "fresh_page mp memalign" and sz: "0 \<le> sz"
  shows "(\<exists>mp'. mem_pool_alloc (Some mp) sz memalign = (NULL, Some mp') \<and> pool_inv mp' \<and> same_layout mp mp'
            \<and> (page_size mp - sizeof_mem_page_t < sz \<or> memalign = NULL \<and> \<not> has_room mp sz))
       \<or> (\<exists>p mp'. mem_pool_alloc (Some mp) sz memalign = (At p, Some mp') \<and> pool_inv mp'
            \<and> alloc_region mp mp' p sz \<and> sz \<le> page_size mp - sizeof_mem_page_t
            \<and> page_size mp' = page_size mp
            \<and> (has_room mp sz \<and> map pg_start (pages mp') = map pg_start (pages mp)
               \<or> (\<exists>a. memalign = At a \<and> map pg_start (pages mp') = map pg_start (pages mp) @ [a])))"
    (is "?fail \<or> ?ok")
proof (cases "page_size mp - sizeof_mem_page_t < sz")
  case True
  then show ?thesis using inv by (simp add: same_layout_refl)
next
  case small: False
  show ?thesis
    using inv
  proof (cases rule: scan_cases [where sz = sz])
    case (none m)
    then have inv': "pool_inv m" using same_layout_inv inv by blast
    show ?thesis
    proof (cases memalign)
      case NULL
      then show ?thesis using none inv' small by simp
    next
      case (At addr)
      have "page_size m = page_size mp" "map pg_start (pages m) = map pg_start (pages mp)"
        using none(2) by (simp_all add: same_layout_def)
      then obtain p mp' where a: "alloc_new_page m sz addr = (At p, mp')" "pool_inv mp'" "alloc_region m mp' p sz"
        "page_size mp' = page_size mp" "map pg_start (pages mp') = map pg_start (pages mp) @ [addr]"
        using alloc_new_page_ok [OF inv', of addr sz] fresh_page_layout [OF none(2) fresh] sz small At
        by auto
      then have ?ok using At none small alloc_region_layout [OF none(2)] by simp
      then show ?thesis ..
    qed
  next
    case (hit m j p)
    define mp' where "mp' = m\<lparr>pages := (pages m)[j := (pages m ! j)\<lparr>pg_last := p + sz\<rparr>]\<rparr>"
    have a: "pool_inv mp' \<and> alloc_region m mp' p sz" using hit sz by (intro alloc_hit [OF _ _ _ _ _ mp'_def]) auto
    have "map pg_start (pages mp') = map pg_start (pages m)" "page_size mp' = page_size m"
      using hit(3) by (simp_all add: mp'_def map_update list_update_same_conv)
    moreover have "mem_pool_alloc (Some mp) sz memalign = (At p, Some mp')"
      using hit(6) small by (simp add: mp'_def)
    ultimately have ?ok using a hit(1,7) small alloc_region_layout [OF hit(1)]
      by (simp add: same_layout_def)
    then show ?thesis ..
  qed
qed

lemma mem_pool_create_inv:
  assumes "P mod 8 = 0" and "72 \<le> P" and "addr mod P = 0"
    and "mem_pool_create P (At addr) = Some mp"
  shows "pool_inv mp \<and> page_size mp = P \<and> map pg_start (pages mp) = [addr]"
proof -
  have "8 dvd addr" using assms(1,3) by (meson dvd_trans mod_0_imp_dvd)
  then show ?thesis using assms
    by (auto simp: pool_inv_def page_ok_def current_ok_def MAX_FAILED_COUNT_def
        sizeof_mem_pool_t_def sizeof_mem_page_t_def)
qed

text \<open>The two outcomes in one shape: the page addresses grow by at most the new page.\<close>

lemma mem_pool_alloc_step:
  assumes "pool_inv mp" and "fresh_page mp memalign" and "0 \<le> sz"
  shows "\<exists>r mp' new. mem_pool_alloc (Some mp) sz memalign = (r, Some mp') \<and> pool_inv mp'
    \<and> page_size mp' = page_size mp
    \<and> (case r of NULL \<Rightarrow> pool_used mp' = pool_used mp | At p \<Rightarrow> alloc_region mp mp' p sz)
    \<and> map pg_start (pages mp') = map pg_start (pages mp) @ new
    \<and> (new = [] \<or> (\<exists>a. memalign = At a \<and> new = [a]))"
  using mem_pool_alloc_cases [OF assms]
proof (elim disjE exE conjE, goal_cases)
  case (1 mp')
  then show ?case using same_layout_used [OF 1(3)] by (simp add: same_layout_def)
next
  case (2 mp')
  then show ?case using same_layout_used [OF 2(3)] by (simp add: same_layout_def)
next
  case (3 p mp')
  then show ?case by simp
next
  case (4 p mp' a)
  then show ?case by simp
qed

text \<open>A non-negative request to a well-formed pool keeps the pool well-formed. If it returns
  \<open>NULL\<close>, no byte became used; otherwise the region returned is aligned to 8, disjoint from every
  header and every region handed out before, and lies inside the pool's pages.\<close>

theorem mem_pool_alloc_region:
  assumes "pool_inv mp" and "fresh_page mp memalign" and "0 \<le> sz"
  shows "case mem_pool_alloc (Some mp) sz memalign of
      (NULL, Some mp') \<Rightarrow> pool_inv mp' \<and> pool_used mp' = pool_used mp
    | (At p, Some mp') \<Rightarrow> pool_inv mp' \<and> alloc_region mp mp' p sz
    | (_, None) \<Rightarrow> False"
proof -
  obtain r mp' where s: "mem_pool_alloc (Some mp) sz memalign = (r, Some mp')" "pool_inv mp'"
      "case r of NULL \<Rightarrow> pool_used mp' = pool_used mp | At p \<Rightarrow> alloc_region mp mp' p sz"
    using mem_pool_alloc_step [OF assms] by blast
  show ?thesis unfolding s(1) using s(2,3) by (cases r) simp_all
qed

text \<open>A pool used by the witnesses: one page of 4096 bytes at 8192 with one region of 3000 bytes.\<close>

definition small_pool :: mem_pool where
  "small_pool = \<lparr>page_size = 4096, page_count = 1, current = Some 0,
     pages = [\<lparr>pg_start = 8192, pg_last = 11264, pg_end = 12288, pg_failed = 0\<rparr>]\<rparr>"

lemma small_pool_inv: "pool_inv small_pool" "fresh_page small_pool (At 16384)"
  by (auto simp: small_pool_def pool_inv_def page_ok_def current_ok_def MAX_FAILED_COUNT_def
      sizeof_mem_pool_t_def sizeof_mem_page_t_def)

lemma small_pool_full: "\<not> has_room small_pool 2000"
  by (simp add: has_room_def small_pool_def ALIGN_PTR_8 sizeof_mem_page_t_def)

theorem mem_pool_alloc_region_witness:
  "\<exists>p mp'. mem_pool_alloc (Some small_pool) 2000 (At 16384) = (At p, Some mp') \<and> pool_inv mp'
     \<and> alloc_region small_pool mp' p 2000"
proof -
  have "mem_pool_alloc (Some small_pool) 2000 (At 16384) \<noteq> (NULL, x)" for x
    by (simp add: small_pool_def alloc_scan.simps count_failure_def Let_def alloc_new_page_def
        sizeof_mem_page_t_def ALIGN_PTR_8 MAX_FAILED_COUNT_def)
  then show ?thesis
    using mem_pool_alloc_region [OF small_pool_inv, of 2000]
    by (auto split: prod.splits ptr.splits option.splits)
qed

text \<open>A non-negative request fails exactly when it is larger than a page less its header, or
  when no page from \<open>current\<close> on has room and \<open>posix_memalign\<close> fails.\<close>

theorem mem_pool_alloc_fails_iff:
  assumes "pool_inv mp" and "fresh_page mp memalign" and "0 \<le> sz"
  shows "fst (mem_pool_alloc (Some mp) sz memalign) = NULL \<longleftrightarrow>
    page_size mp - sizeof_mem_page_t < sz \<or> memalign = NULL \<and> \<not> has_room mp sz"
  using mem_pool_alloc_cases [OF assms] by auto

theorem mem_pool_alloc_fails_iff_witness:
  "fst (mem_pool_alloc (Some small_pool) 2000 NULL) = NULL"
  using mem_pool_alloc_fails_iff [of small_pool NULL 2000] small_pool_inv(1) small_pool_full by simp

section \<open>Histories\<close>

text \<open>A history of requests on a pool, each with the answer of \<open>posix_memalign\<close> it would get;
  the result lists the regions handed out, \<open>(address, length)\<close>.\<close>

fun pool_run :: "mem_pool \<Rightarrow> (int \<times> ptr) list \<Rightarrow> (int \<times> int) list \<times> mem_pool option" where
  "pool_run mp [] = ([], Some mp)"
| "pool_run mp ((sz, memalign) # rs) =
     (case mem_pool_alloc (Some mp) sz memalign of
        (_, None) \<Rightarrow> ([], None)
      | (NULL, Some mp') \<Rightarrow> pool_run mp' rs
      | (At p, Some mp') \<Rightarrow> (let (regions, mp'') = pool_run mp' rs in ((p, sz) # regions, mp'')))"

text \<open>Every request of the history is non-negative and the system's pages are fresh when given.\<close>

fun requests_ok :: "mem_pool \<Rightarrow> (int \<times> ptr) list \<Rightarrow> bool" where
  "requests_ok mp [] = True"
| "requests_ok mp ((sz, memalign) # rs) \<longleftrightarrow> 0 \<le> sz \<and> fresh_page mp memalign \<and>
     (case mem_pool_alloc (Some mp) sz memalign of (_, None) \<Rightarrow> True | (_, Some mp') \<Rightarrow> requests_ok mp' rs)"

definition region :: "int \<times> int \<Rightarrow> int set" where
  "region r = {fst r..<fst r + snd r}"

definition pages_growth :: "mem_pool \<Rightarrow> mem_pool \<Rightarrow> (int \<times> ptr) list \<Rightarrow> bool" where
  "pages_growth mp mp' rs \<longleftrightarrow> (\<exists>new. map pg_start (pages mp') = map pg_start (pages mp) @ new
     \<and> subseq new [a. (_, At a) \<leftarrow> rs])"

lemma pool_run_ok:
  assumes "pool_inv mp" and "requests_ok mp rs"
  shows "\<exists>regions mp'. pool_run mp rs = (regions, Some mp') \<and> pool_inv mp' \<and> page_size mp' = page_size mp
    \<and> sorted_wrt (\<lambda>a b. region a \<inter> region b = {}) regions
    \<and> (\<forall>r\<in>set regions. fst r mod 8 = 0 \<and> region r \<inter> pool_used mp = {} \<and> region r \<subseteq> pool_used mp')
    \<and> pool_used mp \<subseteq> pool_used mp' \<and> pages_growth mp mp' rs"
  using assms
proof (induction rs arbitrary: mp)
  case Nil
  then show ?case by (simp add: pages_growth_def)
next
  case (Cons r rs)
  obtain sz memalign where r: "r = (sz, memalign)" by force
  have pre: "0 \<le> sz" "fresh_page mp memalign" using Cons.prems r by auto
  obtain q mp1 new where step: "mem_pool_alloc (Some mp) sz memalign = (q, Some mp1)" "pool_inv mp1"
      "page_size mp1 = page_size mp"
      "case q of NULL \<Rightarrow> pool_used mp1 = pool_used mp | At p \<Rightarrow> alloc_region mp mp1 p sz"
      "map pg_start (pages mp1) = map pg_start (pages mp) @ new"
      "new = [] \<or> (\<exists>a. memalign = At a \<and> new = [a])"
    using mem_pool_alloc_step [OF Cons.prems(1) pre(2,1)] by blast
  have "requests_ok mp1 rs" using Cons.prems(2) r step(1) by simp
  from Cons.IH [OF step(2) this] obtain regions mp2 where
    ih: "pool_run mp1 rs = (regions, Some mp2)" "pool_inv mp2" "page_size mp2 = page_size mp1"
      "sorted_wrt (\<lambda>a b. region a \<inter> region b = {}) regions"
      "\<forall>r\<in>set regions. fst r mod 8 = 0 \<and> region r \<inter> pool_used mp1 = {} \<and> region r \<subseteq> pool_used mp2"
      "pool_used mp1 \<subseteq> pool_used mp2" "pages_growth mp1 mp2 rs"
    by blast
  have grow: "pages_growth mp mp2 (r # rs)"
  proof -
    obtain new2 where "map pg_start (pages mp2) = map pg_start (pages mp1) @ new2"
      "subseq new2 [a. (_, At a) \<leftarrow> rs]" using ih(7) by (auto simp: pages_growth_def)
    then show ?thesis using step(5,6) r unfolding pages_growth_def
      by (intro exI [of _ "new @ new2"]) (auto split: ptr.splits)
  qed
  show ?case
  proof (cases q)
    case NULL
    then show ?thesis using ih(1-6) step(1,3,4) r grow by simp
  next
    case (At p)
    then have reg: "p mod 8 = 0" "region (p, sz) \<inter> pool_used mp = {}" "region (p, sz) \<subseteq> pool_used mp1"
        "pool_used mp \<subseteq> pool_used mp1"
      using step(4) by (auto simp: alloc_region_def region_def)
    have "\<forall>b\<in>set regions. region (p, sz) \<inter> region b = {} \<and> region b \<inter> pool_used mp = {}"
      using ih(5) reg by blast
    then show ?thesis using ih reg step(1,3) r At grow
      by (auto intro!: exI [of _ "(p, sz) # regions"] exI [of _ mp2])
  qed
qed

lemma pool_starts_distinct:
  assumes "pool_inv mp"
  shows "distinct (map pg_start (pages mp))"
  unfolding distinct_conv_nth
proof (intro allI impI)
  fix j k assume jk: "j < length (map pg_start (pages mp))" "k < length (map pg_start (pages mp))" "j \<noteq> k"
  then have "page_disj (pages mp ! j) (pages mp ! k)"
    using assms by (auto simp: pool_inv_def intro: page_disj_nth)
  moreover have "page_ok (page_size mp) (pages mp ! j)" "page_ok (page_size mp) (pages mp ! k)"
    using assms jk by (simp_all add: pool_inv_page)
  moreover have "0 < page_size mp"
    using assms by (simp add: pool_inv_def sizeof_mem_pool_t_def sizeof_mem_page_t_def)
  ultimately show "map pg_start (pages mp) ! j \<noteq> map pg_start (pages mp) ! k"
    using jk by (auto simp: page_disj_def page_ok_def)
qed

text \<open>C3. From creation to destruction: on a pool created on a page-aligned block, any history of
  non-negative requests hands out regions that are aligned to 8, pairwise disjoint and inside the
  pool's pages, clear of the pool's header; destroying the pool then frees the first page and the
  pages obtained from the system on the way, each exactly once, and clears the caller's pointer.\<close>

theorem pool_history:
  assumes "P mod 8 = 0" and "72 \<le> P" and "addr mod P = 0"
    and "mem_pool_create P (At addr) = Some mp" and "requests_ok mp rs"
  shows "\<exists>regions mp' new. pool_run mp rs = (regions, Some mp')
    \<and> sorted_wrt (\<lambda>a b. region a \<inter> region b = {}) regions
    \<and> list_all (\<lambda>r. fst r mod 8 = 0 \<and> region r \<inter> {addr..<addr + 72} = {} \<and> region r \<subseteq> pool_bytes mp') regions
    \<and> mem_pool_destroy (Some (Some mp')) = (Some None, addr # new)
    \<and> distinct (addr # new) \<and> subseq new [a. (_, At a) \<leftarrow> rs]"
proof -
  note c = mem_pool_create_inv [OF assms(1-4)]
  obtain regions mp' where r: "pool_run mp rs = (regions, Some mp')" "pool_inv mp'"
      "sorted_wrt (\<lambda>a b. region a \<inter> region b = {}) regions"
      "\<forall>r\<in>set regions. fst r mod 8 = 0 \<and> region r \<inter> pool_used mp = {} \<and> region r \<subseteq> pool_used mp'"
      "pages_growth mp mp' rs"
    using pool_run_ok [of mp rs] c assms(5) by blast
  obtain new where new: "map pg_start (pages mp') = addr # new" "subseq new [a. (_, At a) \<leftarrow> rs]"
    using r(5) c by (auto simp: pages_growth_def)
  have "pool_used mp = {addr..<addr + 72}"
    using assms(4) by (auto simp: pool_used_def sizeof_mem_pool_t_def sizeof_mem_page_t_def)
  then have "list_all (\<lambda>r. fst r mod 8 = 0 \<and> region r \<inter> {addr..<addr + 72} = {} \<and> region r \<subseteq> pool_bytes mp') regions"
    using r(4) pool_used_bytes [OF r(2)] by (simp add: list_all_iff) blast
  moreover have "distinct (addr # new)" using pool_starts_distinct [OF r(2)] new(1) by simp
  ultimately show ?thesis using r(1,3) new by (intro exI [of _ regions] exI [of _ mp'] exI [of _ new]) simp
qed

definition first_pool :: mem_pool where
  "first_pool = \<lparr>page_size = 4096, page_count = 1, current = Some 0,
     pages = [\<lparr>pg_start = 8192, pg_last = 8264, pg_end = 12288, pg_failed = 0\<rparr>]\<rparr>"

definition page_requests :: "(int \<times> ptr) list" where
  "page_requests = [(3000, NULL), (2000, At 16384), (10, NULL), (5000, NULL)]"

lemma page_requests_run:
  "pool_run first_pool page_requests = ([(8264, 3000), (16424, 2000), (11264, 10)], Some
     \<lparr>page_size = 4096, page_count = 2, current = Some 0, pages =
       [\<lparr>pg_start = 8192, pg_last = 11274, pg_end = 12288, pg_failed = 1\<rparr>,
        \<lparr>pg_start = 16384, pg_last = 18424, pg_end = 20480, pg_failed = 0\<rparr>]\<rparr>)"
  "requests_ok first_pool page_requests"
  by (simp_all add: first_pool_def page_requests_def alloc_scan.simps count_failure_def Let_def alloc_new_page_def
      sizeof_mem_page_t_def ALIGN_PTR_8 MAX_FAILED_COUNT_def)

theorem pool_history_witness:
  "fst (pool_run first_pool page_requests) = [(8264, 3000), (16424, 2000), (11264, 10)]
   \<and> sorted_wrt (\<lambda>a b. region a \<inter> region b = {}) (fst (pool_run first_pool page_requests))"
proof -
  have "mem_pool_create 4096 (At 8192) = Some first_pool"
    by (simp add: first_pool_def sizeof_mem_page_t_def sizeof_mem_pool_t_def)
  then show ?thesis
    using pool_history [of 4096 8192 first_pool page_requests] page_requests_run by auto
qed

text \<open>\<open>mem_pool_calloc\<close> returns what \<open>mem_pool_alloc\<close> returns, with the region zeroed and every
  other byte of memory unchanged; in particular no region handed out before changes.\<close>

theorem mem_pool_calloc_zeroes:
  assumes "pool_inv mp" and "fresh_page mp memalign" and "0 \<le> sz"
  shows "\<exists>r mp' m'. mem_pool_calloc m (Some mp) sz memalign = Some (r, Some mp', m')
    \<and> mem_pool_alloc (Some mp) sz memalign = (r, Some mp')
    \<and> (\<forall>x\<in>pool_used mp. m' x = m x)
    \<and> (case r of NULL \<Rightarrow> m' = m
       | At p \<Rightarrow> m' = (\<lambda>x. if x \<in> {p..<p + sz} then NUL else m x))"
proof -
  obtain r mp' where s: "mem_pool_alloc (Some mp) sz memalign = (r, Some mp')"
      "case r of NULL \<Rightarrow> pool_used mp' = pool_used mp | At p \<Rightarrow> alloc_region mp mp' p sz"
    using mem_pool_alloc_step [OF assms] by blast
  show ?thesis
  proof (cases r)
    case NULL
    then show ?thesis using s(1) unfolding mem_pool_calloc_def s(1) by simp
  next
    case (At p)
    then have "\<forall>x\<in>pool_used mp. x \<notin> {p..<p + sz}" using s(2) by (auto simp: alloc_region_def)
    then show ?thesis using At assms(3) unfolding mem_pool_calloc_def s(1)
      by (intro exI [of _ r] exI [of _ mp'] exI [of _ "\<lambda>x. if x \<in> {p..<p + sz} then NUL else m x"])
        (auto simp: mem_zero_def)
  qed
qed

theorem mem_pool_calloc_zeroes_witness:
  "\<exists>r mp' m'. mem_pool_calloc (\<lambda>_. TAB) (Some small_pool) 2000 (At 16384) = Some (r, Some mp', m')
     \<and> m' 8192 = TAB"
proof -
  have "8192 \<in> pool_used small_pool" by (simp add: small_pool_def pool_used_def)
  moreover obtain r mp' m' where
    "mem_pool_calloc (\<lambda>_. TAB) (Some small_pool) 2000 (At 16384) = Some (r, Some mp', m')"
    "\<forall>x\<in>pool_used small_pool. m' x = TAB"
    using mem_pool_calloc_zeroes [OF small_pool_inv, of 2000 "\<lambda>_. TAB"] by fastforce
  ultimately show ?thesis by blast
qed

lemma alloc_from_current:
  assumes "current mp = Some c" and "c < length (pages mp)" and "pg_last (pages mp ! c) mod 8 = 0"
    and "pg_last (pages mp ! c) + sz \<le> pg_end (pages mp ! c)" and "sz \<le> page_size mp - sizeof_mem_page_t"
  shows "mem_pool_alloc (Some mp) sz e = (At (pg_last (pages mp ! c)),
    Some (mp\<lparr>pages := (pages mp)[c := (pages mp ! c)\<lparr>pg_last := pg_last (pages mp ! c) + sz\<rparr>]\<rparr>))"
  using assms by (simp add: alloc_scan.simps [of mp c] Let_def align_aligned)

text \<open>A negative size passes the size check: after a request of \<open>sz\<close> bytes served from the
  current page, a request of \<open>- sz\<close> moves \<open>last\<close> back and the next request of \<open>sz\<close> bytes
  returns the same region a second time.\<close>

theorem mem_pool_alloc_negative_overlap:
  assumes "pool_inv mp" and "current mp = Some c" and "0 < sz" and "sz mod 8 = 0"
    and "pg_last (pages mp ! c) mod 8 = 0" and "pg_last (pages mp ! c) + sz \<le> pg_end (pages mp ! c)"
    and "sz \<le> page_size mp - sizeof_mem_page_t"
    and "mem_pool_alloc (Some mp) sz e1 = (p, mp1)"
    and "mem_pool_alloc mp1 (- sz) e2 = (q, mp2)"
    and "mem_pool_alloc mp2 sz e3 = (r, mp3)"
  shows "p \<noteq> NULL \<and> r = p \<and> mp2 = Some mp"
proof -
  let ?l = "pg_last (pages mp ! c)"
  have c: "c < length (pages mp)" using assms(1,2) by (simp add: pool_inv_def current_ok_def)
  have al: "(?l + sz) mod 8 = 0" using assms(4,5) by presburger
  have s: "sizeof_mem_page_t = 40" by (simp add: sizeof_mem_page_t_def)
  have p: "p = At ?l" "mp1 = Some (mp\<lparr>pages := (pages mp)[c := (pages mp ! c)\<lparr>pg_last := ?l + sz\<rparr>]\<rparr>)"
    using assms(8) alloc_from_current [OF assms(2) c assms(5-7), of e1] by simp_all
  have "mp2 = Some mp"
    using assms(9) unfolding p(2)
    by (subst (asm) alloc_from_current [of _ c]) (use assms(2,3,6,7) c al s in auto)
  then show ?thesis using assms(10) p alloc_from_current [OF assms(2) c assms(5-7), of e3] by simp
qed

theorem mem_pool_alloc_negative_overlap_witness:
  "fst (mem_pool_alloc (Some first_pool) 16 NULL) \<noteq> NULL"
proof -
  obtain p mp1 q mp2 r mp3 where "mem_pool_alloc (Some first_pool) 16 NULL = (p, mp1)"
    "mem_pool_alloc mp1 (- 16) NULL = (q, mp2)" "mem_pool_alloc mp2 16 NULL = (r, mp3)"
    by (metis prod.exhaust)
  moreover have "pool_inv first_pool"
    by (auto simp: first_pool_def pool_inv_def page_ok_def current_ok_def MAX_FAILED_COUNT_def
      sizeof_mem_pool_t_def sizeof_mem_page_t_def)
  ultimately show ?thesis
    using mem_pool_alloc_negative_overlap [of first_pool 0 16 NULL p mp1 NULL q mp2 NULL r mp3]
    by (simp add: first_pool_def sizeof_mem_page_t_def)
qed

end
