(* ===== verification/Ebuffer.thy ===== *)
theory Ebuffer
  imports EmemPool
begin

text \<open>
  The growing byte buffer of \<open>ebuffer.c\<close>. The block from \<open>start\<close> to \<open>end\<close> is the list \<open>b_blk\<close>;
  \<open>pos\<close>, \<open>last\<close> and \<open>end\<close> are offsets from \<open>start\<close>. A buffer takes its memory from \<open>malloc\<close> or,
  when its \<open>pool\<close> is set, from the memory pool of \<open>EmemPool\<close>; what the allocator would answer at
  each call is the argument \<open>env\<close>. The file fields of \<open>buffer_t\<close> are used by no function. The
  lemmas show that a buffer is a byte stream: what was written comes out in order, once.
\<close>

section \<open>State\<close>

record buffer =
  b_pool :: "mem_pool option"
  b_blk :: string
  b_pos :: int
  b_last :: int
  b_end :: int

text \<open>The allocator's answers: the block \<open>malloc\<close> returns (with its indeterminate contents, as
  long as asked for), the page \<open>posix_memalign\<close> returns, and the memory behind the pool's pages.\<close>

record alloc_env =
  malloc_block :: "int \<Rightarrow> string option"
  memalign_page :: ptr
  pool_memory :: memory

section \<open>Operations\<close>

fun buffer_eof :: "buffer option \<Rightarrow> int" where
  "buffer_eof None = 0"
| "buffer_eof (Some b) = (if b_pos b \<ge> b_last b then 1 else 0)"

text \<open>\<open>buffer_read\<close>: the result, the buffer and the caller's block afterwards.\<close>

fun buffer_read :: "buffer option \<Rightarrow> string option \<Rightarrow> int \<Rightarrow> (int \<times> buffer option \<times> string option) option" where
  "buffer_read (Some b) (Some buf) buf_size =
     (if buf_size \<le> 0 then Some (-1, Some b, Some buf)
      else
        let read_len = (if b_last b - b_pos b < buf_size then b_last b - b_pos b else buf_size)
        in do {
          buf' \<leftarrow> memcpy buf 0 (b_blk b) (b_pos b) read_len;
          Some (read_len, Some (b\<lparr>b_pos := b_pos b + read_len\<rparr>), Some buf')
        })"
| "buffer_read b buf buf_size = Some (-1, b, buf)"

text \<open>The loop of \<open>buffer_read_line\<close>.\<close>

function read_line_loop ::
  "buffer \<Rightarrow> string \<Rightarrow> int \<Rightarrow> int \<Rightarrow> int \<Rightarrow> (int \<times> buffer \<times> string) option" where
  "read_line_loop b buf buf_size start_pos read_len =
     (if b_pos b < b_last b then
        if read_len \<ge> buf_size then Some (-1, b\<lparr>b_pos := start_pos\<rparr>, buf)
        else do {
          c \<leftarrow> rd (b_blk b) (b_pos b);
          if c = CR then do {
            buf1 \<leftarrow> memcpy buf 0 (b_blk b) start_pos read_len;
            buf2 \<leftarrow> wr buf1 read_len NUL;
            Some (read_len, b\<lparr>b_pos := b_pos b + 2\<rparr>, buf2)
          }
          else if c = LF then do {
            buf1 \<leftarrow> memcpy buf 0 (b_blk b) start_pos read_len;
            buf2 \<leftarrow> wr buf1 read_len NUL;
            Some (read_len, b\<lparr>b_pos := b_pos b + 1\<rparr>, buf2)
          }
          else read_line_loop (b\<lparr>b_pos := b_pos b + 1\<rparr>) buf buf_size start_pos (read_len + 1)
        }
      else Some (read_len, b, buf))"
  by pat_completeness auto
termination
  by (relation "measure (\<lambda>(b, _). nat (b_last b - b_pos b))") auto

declare read_line_loop.simps [simp del]

text \<open>The source reads \<open>buffer->pos\<close> before it tests \<open>buffer\<close> for \<open>NULL\<close>.\<close>

fun buffer_read_line :: "buffer option \<Rightarrow> string option \<Rightarrow> int \<Rightarrow> (int \<times> buffer \<times> string option) option" where
  "buffer_read_line None buf buf_size = None"
| "buffer_read_line (Some b) None buf_size = Some (-1, b, None)"
| "buffer_read_line (Some b) (Some buf) buf_size =
     (if buf_size \<le> 0 then Some (-1, b, Some buf)
      else map_option (\<lambda>(r, b', buf'). (r, b', Some buf')) (read_line_loop b buf buf_size (b_pos b) 0))"

text \<open>The block the allocator gives for \<open>dst_size\<close> bytes, and the pool afterwards.\<close>

definition enlarge_alloc ::
  "alloc_env \<Rightarrow> mem_pool option \<Rightarrow> int \<Rightarrow> (string option \<times> mem_pool option) option" where
  "enlarge_alloc env pool dst_size =
     (case pool of
        None \<Rightarrow> Some (malloc_block env dst_size, None)
      | Some mp \<Rightarrow> do {
          (p, mp', m) \<leftarrow> mem_pool_calloc (pool_memory env) (Some mp) dst_size (memalign_page env);
          Some (case p of NULL \<Rightarrow> None | At a \<Rightarrow> Some (map m [a..a + dst_size - 1]), mp')
        })"

definition buffer_enlarge :: "alloc_env \<Rightarrow> buffer \<Rightarrow> int \<Rightarrow> (int \<times> buffer) option" where
  "buffer_enlarge env b dst_size =
     (if b_end b \<ge> dst_size then Some (0, b)
      else do {
        (blk, pool) \<leftarrow> enlarge_alloc env (b_pool b) dst_size;
        case blk of
          None \<Rightarrow> Some (0, b\<lparr>b_pool := pool\<rparr>)
        | Some new \<Rightarrow> do {
            new' \<leftarrow> (if b_last b > 0 then memcpy new 0 (b_blk b) 0 (b_last b) else Some new);
            Some (1, b\<lparr>b_pool := pool, b_blk := new', b_end := dst_size\<rparr>)
          }
      })"

definition buffer_write :: "alloc_env \<Rightarrow> buffer \<Rightarrow> string \<Rightarrow> int \<Rightarrow> (int \<times> buffer) option" where
  "buffer_write env b buf sz = do {
     (ok, b1) \<leftarrow> (if b_end b - b_last b < sz then buffer_enlarge env b (to_int (b_end b + sz))
                   else Some (1, b));
     if ok = 0 then Some (-1, b1)
     else do {
       blk \<leftarrow> memcpy (b_blk b1) (b_last b1) buf 0 sz;
       Some (sz, b1\<lparr>b_blk := blk, b_last := b_last b1 + sz\<rparr>)
     }
   }"

section \<open>Invariant\<close>

definition buffer_inv :: "buffer \<Rightarrow> bool" where
  "buffer_inv b \<longleftrightarrow> 0 \<le> b_pos b \<and> b_pos b \<le> b_last b \<and> b_last b \<le> b_end b
     \<and> b_end b = int (length (b_blk b)) \<and> (\<forall>mp. b_pool b = Some mp \<longrightarrow> pool_inv mp)"

text \<open>The bytes written and not yet read.\<close>

definition unread :: "buffer \<Rightarrow> string" where
  "unread b = drop (nat (b_pos b)) (take (nat (b_last b)) (b_blk b))"

text \<open>What the allocators promise: a \<open>malloc\<close> block has the size asked for, a page is fresh.\<close>

definition env_ok :: "alloc_env \<Rightarrow> buffer \<Rightarrow> bool" where
  "env_ok env b \<longleftrightarrow> (\<forall>n blk. malloc_block env n = Some blk \<longrightarrow> length blk = nat n)
     \<and> (\<forall>mp. b_pool b = Some mp \<longrightarrow> fresh_page mp (memalign_page env))"

lemma rd_block_take: "0 \<le> n \<Longrightarrow> n \<le> int (length m) \<Longrightarrow> rd_block m 0 n = Some (take (nat n) m)"
  by (simp add: rd_block_def)

lemma enlarge_alloc_ok:
  assumes "env_ok env b" and "buffer_inv b" and "0 \<le> n"
  shows "\<exists>blk pool. enlarge_alloc env (b_pool b) n = Some (blk, pool)
    \<and> (\<forall>new. blk = Some new \<longrightarrow> int (length new) = n)
    \<and> (\<forall>mp. pool = Some mp \<longrightarrow> pool_inv mp) \<and> (pool = None \<longleftrightarrow> b_pool b = None)
    \<and> (blk = None \<longleftrightarrow> (case b_pool b of None \<Rightarrow> malloc_block env n = None
         | Some mp \<Rightarrow> fst (mem_pool_alloc (Some mp) n (memalign_page env)) = NULL))"
proof (cases "b_pool b")
  case None
  then show ?thesis using assms by (auto simp: enlarge_alloc_def env_ok_def)
next
  case (Some mp)
  then have "pool_inv mp" "fresh_page mp (memalign_page env)" using assms by (auto simp: buffer_inv_def env_ok_def)
  from mem_pool_alloc_step [OF this assms(3)] obtain r mp' where
    s: "mem_pool_alloc (Some mp) n (memalign_page env) = (r, Some mp')" "pool_inv mp'" by blast
  show ?thesis unfolding enlarge_alloc_def mem_pool_calloc_def Some option.case s(1)
    using s(2) assms(3) by (cases r) (auto simp: mem_zero_def)
qed

text \<open>Enlarging keeps the unread bytes and the read position, and either makes room or fails.\<close>

lemma buffer_enlarge_ok:
  assumes "env_ok env b" and "buffer_inv b" and "b_end b < n"
  shows "\<exists>r b'. buffer_enlarge env b n = Some (r, b') \<and> buffer_inv b' \<and> unread b' = unread b
    \<and> b_pos b' = b_pos b \<and> b_last b' = b_last b \<and> (b_pool b' = None \<longleftrightarrow> b_pool b = None)
    \<and> take (nat (b_last b)) (b_blk b') = take (nat (b_last b)) (b_blk b)
    \<and> (r = 1 \<and> b_end b' = n \<or> r = 0 \<and> b_blk b' = b_blk b \<and> b_end b' = b_end b)
    \<and> (r = 0 \<longleftrightarrow> (case b_pool b of None \<Rightarrow> malloc_block env n = None
         | Some mp \<Rightarrow> fst (mem_pool_alloc (Some mp) n (memalign_page env)) = NULL))"
proof -
  have n: "0 \<le> n" using assms by (simp add: buffer_inv_def)
  obtain blk pool where e: "enlarge_alloc env (b_pool b) n = Some (blk, pool)"
    "\<forall>new. blk = Some new \<longrightarrow> int (length new) = n" "\<forall>mp. pool = Some mp \<longrightarrow> pool_inv mp"
    "pool = None \<longleftrightarrow> b_pool b = None"
    "blk = None \<longleftrightarrow> (case b_pool b of None \<Rightarrow> malloc_block env n = None
         | Some mp \<Rightarrow> fst (mem_pool_alloc (Some mp) n (memalign_page env)) = NULL)"
    using enlarge_alloc_ok [OF assms(1,2) n] by (elim exE conjE) (rule that; assumption)
  show ?thesis
  proof (cases blk)
    case None
    have "buffer_enlarge env b n = Some (0, b\<lparr>b_pool := pool\<rparr>)"
      using assms(3) e(1) None by (simp add: buffer_enlarge_def)
    then show ?thesis using None assms(2) e(3-5) by (simp add: buffer_inv_def unread_def)
  next
    case (Some new)
    let ?new = "take (nat (b_last b)) (b_blk b) @ drop (nat (b_last b)) new"
    have l: "nat (b_last b) \<le> length (b_blk b)" "nat (b_last b) \<le> length new" "0 \<le> b_last b"
      using assms(2,3) e(2) Some by (auto simp: buffer_inv_def)
    have "(if b_last b > 0 then memcpy new 0 (b_blk b) 0 (b_last b) else Some new) = Some ?new"
      using l by (simp add: memcpy_def rd_block_take)
    then have "buffer_enlarge env b n = Some (1, b\<lparr>b_pool := pool, b_blk := ?new, b_end := n\<rparr>)"
      using assms(3) e(1) Some by (simp add: buffer_enlarge_def)
    then show ?thesis using Some assms(2,3) e l by (auto simp: buffer_inv_def unread_def)
  qed
qed

lemma write_in_place:
  assumes "buffer_inv b" and "0 \<le> sz" and "sz \<le> b_end b - b_last b" and "sz \<le> int (length buf)"
  shows "\<exists>blk. memcpy (b_blk b) (b_last b) buf 0 sz = Some blk
    \<and> buffer_inv (b\<lparr>b_blk := blk, b_last := b_last b + sz\<rparr>)
    \<and> unread (b\<lparr>b_blk := blk, b_last := b_last b + sz\<rparr>) = unread b @ take (nat sz) buf"
proof -
  let ?l = "nat (b_last b)" and ?n = "nat sz"
  have b: "nat (b_pos b) \<le> ?l" "?l + ?n \<le> length (b_blk b)" "?n \<le> length buf" "nat (b_last b + sz) = ?l + ?n"
    using assms by (auto simp: buffer_inv_def)
  have "memcpy (b_blk b) (b_last b) buf 0 sz = Some (splice (b_blk b) ?l (take ?n buf))"
    using assms b by (simp add: memcpy_def rd_block_take wr_block_def buffer_inv_def)
  then show ?thesis using assms b by (auto simp: buffer_inv_def unread_def splice_def)
qed

text \<open>The size the block must have for a write to fit, and whether the allocator refuses it.\<close>

definition enlarge_refused :: "alloc_env \<Rightarrow> buffer \<Rightarrow> int \<Rightarrow> bool" where
  "enlarge_refused env b sz \<longleftrightarrow> b_end b - b_last b < sz \<and>
     (case b_pool b of None \<Rightarrow> malloc_block env (b_end b + sz) = None
      | Some mp \<Rightarrow> fst (mem_pool_alloc (Some mp) (b_end b + sz) (memalign_page env)) = NULL)"

text \<open>Writing \<open>sz\<close> bytes to a well-formed buffer never has undefined behaviour while its size
  stays an \<open>int\<close>: it returns \<open>-1\<close> and leaves the unread bytes alone exactly when the block must
  grow and the allocator refuses, and otherwise returns \<open>sz\<close> with the bytes appended to the
  unread ones; the buffer stays well-formed.\<close>

theorem buffer_write_appends:
  assumes "buffer_inv b" and "env_ok env b" and "0 \<le> sz" and "sz \<le> int (length buf)"
    and "in_int (b_end b + sz)"
  shows "\<exists>r b'. buffer_write env b buf sz = Some (r, b') \<and> buffer_inv b'
    \<and> b_pos b' = b_pos b
    \<and> (if enlarge_refused env b sz then r = -1 \<and> unread b' = unread b
       else r = sz \<and> unread b' = unread b @ take (nat sz) buf)"
proof (cases "b_end b - b_last b < sz")
  case False
  then have nr: "\<not> enlarge_refused env b sz" by (simp add: enlarge_refused_def)
  obtain blk where w: "memcpy (b_blk b) (b_last b) buf 0 sz = Some blk"
      "buffer_inv (b\<lparr>b_blk := blk, b_last := b_last b + sz\<rparr>)"
      "unread (b\<lparr>b_blk := blk, b_last := b_last b + sz\<rparr>) = unread b @ take (nat sz) buf"
    using write_in_place [of b sz buf] assms False by auto
  then show ?thesis using False nr by (simp add: buffer_write_def)
next
  case True
  then have n: "b_end b < b_end b + sz" using assms(1) by (simp add: buffer_inv_def)
  obtain r b1 where e: "buffer_enlarge env b (b_end b + sz) = Some (r, b1)" "buffer_inv b1" "unread b1 = unread b"
    "b_pos b1 = b_pos b" "b_last b1 = b_last b" "r = 1 \<and> b_end b1 = b_end b + sz \<or> r = 0"
    "r = 0 \<longleftrightarrow> enlarge_refused env b sz"
    using buffer_enlarge_ok [OF assms(2,1) n] True unfolding enlarge_refused_def by blast
  show ?thesis
  proof (cases "r = 0")
    case True
    then show ?thesis using \<open>b_end b - b_last b < sz\<close> e to_int_id [OF assms(5)] by (simp add: buffer_write_def)
  next
    case False
    then have "sz \<le> b_end b1 - b_last b1" using e(5,6) assms(1) by (simp add: buffer_inv_def)
    then obtain blk where "memcpy (b_blk b1) (b_last b1) buf 0 sz = Some blk"
        "buffer_inv (b1\<lparr>b_blk := blk, b_last := b_last b1 + sz\<rparr>)"
        "unread (b1\<lparr>b_blk := blk, b_last := b_last b1 + sz\<rparr>) = unread b1 @ take (nat sz) buf"
      using write_in_place [of b1 sz buf] e(2) assms(3,4) by auto
    then show ?thesis using \<open>b_end b - b_last b < sz\<close> e False to_int_id [OF assms(5)]
      by (simp add: buffer_write_def)
  qed
qed

definition empty_buffer :: "mem_pool option \<Rightarrow> buffer" where
  "empty_buffer pool = \<lparr>b_pool = pool, b_blk = [], b_pos = 0, b_last = 0, b_end = 0\<rparr>"

definition good_env :: alloc_env where
  "good_env = \<lparr>malloc_block = (\<lambda>n. Some (replicate (nat n) TAB)), memalign_page = NULL, pool_memory = (\<lambda>_. TAB)\<rparr>"

theorem buffer_write_appends_witness:
  "\<exists>b'. buffer_write good_env (empty_buffer None) ''abcd'' 3 = Some (3, b') \<and> unread b' = ''abc''"
  using buffer_write_appends [of "empty_buffer None" good_env 3 "''abcd''"]
  by (auto simp: empty_buffer_def good_env_def buffer_inv_def env_ok_def in_int_def INT_MAX_def
      enlarge_refused_def unread_def)

lemma buffer_read_ok:
  assumes "buffer_inv b" and "0 < n" and "n \<le> int (length buf)"
  shows "\<exists>r b' buf'. buffer_read (Some b) (Some buf) n = Some (r, Some b', Some buf') \<and> buffer_inv b'
    \<and> b_pool b' = b_pool b \<and> b_end b' = b_end b
    \<and> r = min n (int (length (unread b))) \<and> unread b = take (nat r) buf' @ unread b'
    \<and> buf' = take (nat r) (unread b) @ drop (nat r) buf"
proof -
  have u: "int (length (unread b)) = b_last b - b_pos b" using assms(1) by (auto simp: buffer_inv_def unread_def)
  define r where "r = (if b_last b - b_pos b < n then b_last b - b_pos b else n)"
  have r: "r = min n (int (length (unread b)))" "0 \<le> r" "r \<le> n" "r \<le> b_last b - b_pos b"
    using assms(1,2) u by (auto simp: r_def buffer_inv_def)
  have p: "nat (b_pos b + r) = nat (b_pos b) + nat r" "nat (b_pos b) + nat r \<le> nat (b_last b)"
      "nat (b_last b) \<le> length (b_blk b)"
    using assms(1) r(2,4) by (auto simp: buffer_inv_def)
  have t: "take (nat r) (drop (nat (b_pos b)) (b_blk b)) = take (nat r) (unread b)"
  proof -
    have "min (nat r) (nat (b_last b) - nat (b_pos b)) = nat r" using p by linarith
    then show ?thesis by (simp add: unread_def drop_take)
  qed
  have "rd_block (b_blk b) (b_pos b) r = Some (take (nat r) (unread b))"
    unfolding t [symmetric] using assms(1) r(2,4) by (simp add: rd_block_def buffer_inv_def)
  moreover have len: "length (take (nat r) (unread b)) = nat r" "nat r \<le> length buf" using r assms(3) by auto
  ultimately have "memcpy buf 0 (b_blk b) (b_pos b) r = Some (take (nat r) (unread b) @ drop (nat r) buf)"
    by (simp only: memcpy_def bind.bind_lunit wr_block_0)
  moreover have "unread (b\<lparr>b_pos := b_pos b + r\<rparr>) = drop (nat r) (unread b)"
    using p(1) by (simp add: unread_def add.commute)
  moreover have "buffer_inv (b\<lparr>b_pos := b_pos b + r\<rparr>)"
    using assms(1) r(2,4) by (auto simp: buffer_inv_def)
  ultimately show ?thesis using assms(2) r u by (auto simp: r_def [symmetric] Let_def)
qed

section \<open>The buffer as a stream\<close>

text \<open>A history of writes (data, size, allocator answers) and reads (caller's block, size) on a
  buffer: the bytes written successfully, the bytes read, and the buffer at the end.\<close>

datatype buffer_op = BWrite alloc_env string int | BRead string int

fun buffer_run :: "buffer \<Rightarrow> buffer_op list \<Rightarrow> (string \<times> string \<times> buffer) option" where
  "buffer_run b [] = Some ([], [], b)"
| "buffer_run b (BWrite env data sz # ops) = do {
     (r, b1) \<leftarrow> buffer_write env b data sz;
     (ws, rs, b2) \<leftarrow> buffer_run b1 ops;
     Some (take (nat r) data @ ws, rs, b2) }"
| "buffer_run b (BRead buf n # ops) = do {
     (r, b1, buf1) \<leftarrow> buffer_read (Some b) (Some buf) n;
     b1 \<leftarrow> b1;
     buf1 \<leftarrow> buf1;
     (ws, rs, b2) \<leftarrow> buffer_run b1 ops;
     Some (ws, take (nat r) buf1 @ rs, b2) }"

text \<open>The caller's side of the contract: sizes within the caller's blocks, the buffer below
  \<open>INT_MAX\<close> bytes, allocators that keep their promise.\<close>

fun buffer_ops_ok :: "buffer \<Rightarrow> buffer_op list \<Rightarrow> bool" where
  "buffer_ops_ok b [] = True"
| "buffer_ops_ok b (BWrite env data sz # ops) \<longleftrightarrow> env_ok env b \<and> 0 \<le> sz \<and> sz \<le> int (length data)
     \<and> in_int (b_end b + sz)
     \<and> (case buffer_write env b data sz of None \<Rightarrow> True | Some (_, b1) \<Rightarrow> buffer_ops_ok b1 ops)"
| "buffer_ops_ok b (BRead buf n # ops) \<longleftrightarrow> 0 < n \<and> n \<le> int (length buf)
     \<and> (case buffer_read (Some b) (Some buf) n of Some (_, Some b1, _) \<Rightarrow> buffer_ops_ok b1 ops | _ \<Rightarrow> True)"

text \<open>C11. A buffer is a byte stream: over any history of writes and reads, nothing undefined
  happens, and the bytes read followed by the bytes still unread are exactly the bytes unread at
  the start followed by the bytes written, in order, across every enlargement.\<close>

theorem buffer_stream:
  assumes "buffer_inv b" and "buffer_ops_ok b ops"
  shows "\<exists>ws rs b'. buffer_run b ops = Some (ws, rs, b') \<and> buffer_inv b'
    \<and> rs @ unread b' = unread b @ ws"
  using assms
proof (induction ops arbitrary: b)
  case (Cons op ops)
  show ?case
  proof (cases op)
    case (BWrite env data sz)
    then obtain r b1 where w: "buffer_write env b data sz = Some (r, b1)" "buffer_inv b1"
      "if enlarge_refused env b sz then r = -1 \<and> unread b1 = unread b
       else r = sz \<and> unread b1 = unread b @ take (nat sz) data"
      using buffer_write_appends [OF Cons.prems(1), of env sz data] Cons.prems(2) by auto
    then have "unread b1 = unread b @ take (nat r) data" by (auto split: if_splits)
    moreover have "buffer_ops_ok b1 ops" using Cons.prems(2) BWrite w(1) by simp
    ultimately show ?thesis using Cons.IH [OF w(2)] BWrite w(1) by fastforce
  next
    case (BRead buf n)
    then have n: "0 < n" "n \<le> int (length buf)" using Cons.prems(2) by auto
    obtain r b1 buf1 where w: "buffer_read (Some b) (Some buf) n = Some (r, Some b1, Some buf1)" "buffer_inv b1"
      "unread b = take (nat r) buf1 @ unread b1"
      using buffer_read_ok [OF Cons.prems(1) n] by blast
    have "buffer_ops_ok b1 ops" using Cons.prems(2) w(1) unfolding BRead buffer_ops_ok.simps w(1) by simp
    from Cons.IH [OF w(2) this] obtain ws rs b' where
      "buffer_run b1 ops = Some (ws, rs, b')" "buffer_inv b'" "rs @ unread b' = unread b1 @ ws" by blast
    then show ?thesis unfolding BRead buffer_run.simps w(1) using w(3) by simp
  qed
qed simp

definition stream_ops :: "buffer_op list" where
  "stream_ops = [BWrite good_env ''hello'' 5, BRead [NUL, NUL] 2, BWrite good_env '' you'' 4]"

theorem buffer_stream_witness:
  "\<exists>ws rs b'. buffer_run (empty_buffer None) stream_ops = Some (ws, rs, b') \<and> rs @ unread b' = ws"
proof -
  have "buffer_ops_ok (empty_buffer None) stream_ops"
    by (auto simp: stream_ops_def empty_buffer_def good_env_def env_ok_def in_int_def INT_MAX_def
        buffer_write_def buffer_enlarge_def enlarge_alloc_def to_int_id memcpy_def rd_block_def
        wr_block_def splice_def numeral_eq_Suc)
  moreover have "buffer_inv (empty_buffer None)" "unread (empty_buffer None) = []"
    by (simp_all add: buffer_inv_def empty_buffer_def unread_def)
  ultimately show ?thesis using buffer_stream [of "empty_buffer None" stream_ops] by auto
qed

text \<open>A buffer whose memory comes from a pool cannot grow past a page less the page header:
  a write that needs more fails, whatever the system has left.\<close>

theorem buffer_pool_limit:
  assumes "buffer_inv b" and "env_ok env b" and "b_pool b = Some mp" and "0 \<le> sz" and "sz \<le> int (length buf)"
    and "in_int (b_end b + sz)" and "b_end b - b_last b < sz" and "page_size mp - sizeof_mem_page_t < b_end b + sz"
  shows "\<exists>b'. buffer_write env b buf sz = Some (-1, b') \<and> unread b' = unread b"
proof -
  have "enlarge_refused env b sz" using assms(3,7,8) by (simp add: enlarge_refused_def)
  then show ?thesis using buffer_write_appends [OF assms(1,2,4-6)] by auto
qed

theorem buffer_pool_limit_witness:
  "\<exists>b'. buffer_write good_env (empty_buffer (Some small_pool)) (replicate 4057 TAB) 4057 = Some (-1, b')"
proof -
  have "buffer_inv (empty_buffer (Some small_pool))" "env_ok good_env (empty_buffer (Some small_pool))"
    using small_pool_inv by (auto simp: buffer_inv_def empty_buffer_def good_env_def env_ok_def)
  then show ?thesis
    using buffer_pool_limit [of "empty_buffer (Some small_pool)" good_env small_pool 4057 "replicate 4057 TAB"]
    by (auto simp: empty_buffer_def small_pool_def in_int_def INT_MAX_def sizeof_mem_page_t_def)
qed

section \<open>Lines\<close>

lemma unread_nth:
  "buffer_inv b \<Longrightarrow> k < length (unread b) \<Longrightarrow> rd (b_blk b) (b_pos b + int k) = Some (unread b ! k)"
  by (auto simp: buffer_inv_def unread_def rd_def nth_append nat_add_distrib)

lemma length_unread: "buffer_inv b \<Longrightarrow> int (length (unread b)) = b_last b - b_pos b"
  by (auto simp: buffer_inv_def unread_def)

text \<open>The loop steps over the characters before the end of the line.\<close>

lemma read_line_loop_steps:
  assumes "buffer_inv b" and "k + j \<le> length (unread b)" and "int (k + j) \<le> n"
    and "\<And>i. k \<le> i \<Longrightarrow> i < k + j \<Longrightarrow> unread b ! i \<noteq> CR \<and> unread b ! i \<noteq> LF"
  shows "read_line_loop (b\<lparr>b_pos := b_pos b + int k\<rparr>) buf n s (int k) =
    read_line_loop (b\<lparr>b_pos := b_pos b + int (k + j)\<rparr>) buf n s (int (k + j))"
  using assms(2-4)
proof (induction j arbitrary: k)
  case (Suc j)
  have lt: "k < length (unread b)" "\<not> n \<le> int k" using Suc.prems(1,2) by auto
  then have p: "b_pos b + int k < b_last b" using length_unread [OF assms(1)] by linarith
  have "unread b ! k \<noteq> CR" "unread b ! k \<noteq> LF" using Suc.prems(3) [of k] by auto
  then have "read_line_loop (b\<lparr>b_pos := b_pos b + int k\<rparr>) buf n s (int k) =
      read_line_loop (b\<lparr>b_pos := b_pos b + int (Suc k)\<rparr>) buf n s (int (Suc k))"
    using lt p unread_nth [OF assms(1) lt(1)]
    by (subst read_line_loop.simps) (simp add: add.assoc add.commute [of 1])
  also have "\<dots> = read_line_loop (b\<lparr>b_pos := b_pos b + int (Suc k + j)\<rparr>) buf n s (int (Suc k + j))"
    using Suc.prems by (intro Suc.IH) auto
  finally show ?case by simp
qed simp

lemma read_line_loop_skip:
  assumes "buffer_inv b" and "unread b = line @ t" and "set line \<inter> {CR, LF} = {}" and "int (length line) \<le> n"
  shows "read_line_loop b buf n (b_pos b) 0 =
    read_line_loop (b\<lparr>b_pos := b_pos b + int (length line)\<rparr>) buf n (b_pos b) (int (length line))"
proof -
  have "unread b ! i \<noteq> CR \<and> unread b ! i \<noteq> LF" if "i < 0 + length line" for i
  proof -
    have "line ! i \<in> set line" using that by simp
    then have "line ! i \<noteq> CR \<and> line ! i \<noteq> LF" using assms(3) by auto
    then show ?thesis using that by (simp add: assms(2) nth_append)
  qed
  then have "read_line_loop (b\<lparr>b_pos := b_pos b + int 0\<rparr>) buf n (b_pos b) (int 0) =
    read_line_loop (b\<lparr>b_pos := b_pos b + int (0 + length line)\<rparr>) buf n (b_pos b) (int (0 + length line))"
    by (intro read_line_loop_steps [OF assms(1)]) (use assms(2,4) in auto)
  then show ?thesis by simp
qed

text \<open>The end of a line in the loop: the line is copied and terminated.\<close>

lemma read_line_loop_end:
  assumes "buffer_inv b" and "unread b = line @ e # rest" and "e = LF \<or> e = CR"
    and "int (length line) < n" and "n \<le> int (length buf)"
  shows "read_line_loop (b\<lparr>b_pos := b_pos b + int (length line)\<rparr>) buf n (b_pos b) (int (length line)) =
    Some (int (length line),
      b\<lparr>b_pos := b_pos b + int (length line) + (if e = CR then 2 else 1)\<rparr>,
      line @ NUL # drop (Suc (length line)) buf)"
proof -
  let ?k = "length line"
  have k: "?k < length (unread b)" "unread b ! ?k = e" using assms(2) by auto
  then have p: "b_pos b + int ?k < b_last b" using length_unread [OF assms(1)] by linarith
  have "rd_block (b_blk b) (b_pos b) (int ?k) = Some (take ?k (unread b))"
    using p assms(1) by (auto simp: rd_block_def buffer_inv_def unread_def drop_take min_absorb1)
  then have "memcpy buf 0 (b_blk b) (b_pos b) (int ?k) = Some (line @ drop ?k buf)"
    using assms(2,4,5) by (simp add: memcpy_def)
  moreover have "wr (line @ drop ?k buf) (int ?k) NUL = Some (line @ NUL # drop (Suc ?k) buf)"
    using assms(4,5) by (auto simp: list_update_append Cons_nth_drop_Suc [symmetric] simp del: drop_Suc)
  ultimately show ?thesis using p k assms(3,4) unread_nth [OF assms(1) k(1)]
    by (subst read_line_loop.simps) auto
qed

text \<open>When the unread bytes start with a line that ends in LF, or in CR LF, and the line is
  shorter than the caller's block, \<open>buffer_read_line\<close> returns its length, leaves it as a C string
  in the caller's block and consumes the line with its terminator.\<close>

theorem buffer_read_line_ok:
  assumes "buffer_inv b" and "unread b = line @ eol @ rest" and "eol = [LF] \<or> eol = [CR, LF]"
    and "set line \<inter> {CR, LF, NUL} = {}" and "int (length line) < n" and "n \<le> int (length buf)"
  shows "\<exists>b' buf'. buffer_read_line (Some b) (Some buf) n = Some (int (length line), b', Some buf')
    \<and> cstr buf' 0 = line \<and> buffer_inv b' \<and> unread b' = rest"
proof -
  let ?k = "length line" and ?b = "b\<lparr>b_pos := b_pos b + int (length line + length eol)\<rparr>"
  obtain e rest' where e: "eol @ rest = e # rest'" "e = LF \<or> e = CR" using assms(3) by auto
  have steps: "read_line_loop b buf n (b_pos b) 0 =
      read_line_loop (b\<lparr>b_pos := b_pos b + int ?k\<rparr>) buf n (b_pos b) (int ?k)"
    using assms(2,4,5) by (intro read_line_loop_skip [OF assms(1)]) auto
  also have "\<dots> = Some (int ?k, ?b, line @ NUL # drop (Suc ?k) buf)"
    using read_line_loop_end [OF assms(1) _ e(2) assms(5,6), of rest'] assms(2,3) e(1)
    by (auto simp: add.assoc add.commute)
  finally have "buffer_read_line (Some b) (Some buf) n = Some (int ?k, ?b, Some (line @ NUL # drop (Suc ?k) buf))"
    using assms(5) by simp
  moreover have "buffer_inv ?b"
    using assms(1,2) length_unread [OF assms(1)] by (auto simp: buffer_inv_def)
  moreover have "unread ?b = drop (?k + length eol) (unread b)"
    using assms(1) by (simp add: unread_def buffer_inv_def nat_add_distrib add.commute)
  moreover have "cstr (line @ NUL # drop (Suc ?k) buf) 0 = line"
    using assms(4) cstr_at [of line "[]" 0] by auto
  ultimately show ?thesis using assms(2) by auto
qed

definition two_lines :: buffer where
  "two_lines = \<lparr>b_pool = None, b_blk = ''ab'' @ [CR, LF] @ ''c'' @ [CR], b_pos = 0, b_last = 6, b_end = 6\<rparr>"

lemma two_lines_inv: "buffer_inv two_lines" "unread two_lines = ''ab'' @ [CR, LF] @ ''c'' @ [CR]"
  by (simp_all add: two_lines_def buffer_inv_def unread_def)

theorem buffer_read_line_ok_witness:
  "\<exists>b' buf'. buffer_read_line (Some two_lines) (Some (replicate 8 TAB)) 8 = Some (2, b', Some buf')
     \<and> unread b' = ''c'' @ [CR]"
  using buffer_read_line_ok [of two_lines "''ab''" "[CR, LF]" "''c'' @ [CR]" 8 "replicate 8 TAB"]
    two_lines_inv by auto

text \<open>A carriage return is taken for CR LF without a look at the next byte: when it is the last
  unread byte, the read position ends up past \<open>last\<close>, and the next \<open>buffer_read\<close> passes a negative
  length to \<open>memcpy\<close>.\<close>

theorem buffer_read_line_overrun:
  assumes "buffer_inv b" and "unread b = line @ [CR]" and "set line \<inter> {CR, LF} = {}"
    and "int (length line) < n" and "n \<le> int (length buf)" and "0 < n'"
  shows "\<exists>b' buf'. buffer_read_line (Some b) (Some buf) n = Some (int (length line), b', Some buf')
    \<and> b_last b' < b_pos b' \<and> buffer_read (Some b') (Some buf'') n' = None"
proof -
  let ?k = "length line" and ?b = "b\<lparr>b_pos := b_pos b + int (length line) + 2\<rparr>"
  have "read_line_loop b buf n (b_pos b) 0 =
      read_line_loop (b\<lparr>b_pos := b_pos b + int ?k\<rparr>) buf n (b_pos b) (int ?k)"
    using assms(2,3,4) by (intro read_line_loop_skip [OF assms(1)]) auto
  also have "\<dots> = Some (int ?k, ?b, line @ NUL # drop (Suc ?k) buf)"
    using read_line_loop_end [OF assms(1), of line CR "[]" n buf] assms(2,4,5) by simp
  finally have "buffer_read_line (Some b) (Some buf) n = Some (int ?k, ?b, Some (line @ NUL # drop (Suc ?k) buf))"
    using assms(4) by simp
  moreover have "b_last ?b < b_pos ?b" using length_unread [OF assms(1)] assms(2) by simp
  moreover from this have "buffer_read (Some ?b) (Some buf'') n' = None"
    using assms(6) by (simp add: memcpy_def rd_block_def)
  ultimately show ?thesis by blast
qed

theorem buffer_read_line_overrun_witness:
  "\<exists>b' buf'. buffer_read_line (Some (two_lines\<lparr>b_pos := 4\<rparr>)) (Some (replicate 8 TAB)) 8 = Some (1, b', Some buf')
     \<and> buffer_read (Some b') (Some ''xyz'') 3 = None"
  using buffer_read_line_overrun [of "two_lines\<lparr>b_pos := 4\<rparr>" "''c''" 8 "replicate 8 TAB" 3 "''xyz''"]
  by (auto simp: two_lines_def buffer_inv_def unread_def)

text \<open>Without a terminator in the unread bytes the line is lost: the bytes are consumed and
  counted, and nothing is copied to the caller's block.\<close>

theorem buffer_read_line_unterminated:
  assumes "buffer_inv b" and "set (unread b) \<inter> {CR, LF} = {}" and "int (length (unread b)) \<le> n" and "0 < n"
  shows "\<exists>b'. buffer_read_line (Some b) (Some buf) n = Some (int (length (unread b)), b', Some buf)
    \<and> unread b' = []"
proof -
  let ?k = "length (unread b)"
  have l: "b_pos b + int ?k = b_last b" using length_unread [OF assms(1)] by simp
  have "read_line_loop b buf n (b_pos b) 0 =
      read_line_loop (b\<lparr>b_pos := b_pos b + int ?k\<rparr>) buf n (b_pos b) (int ?k)"
    using assms(2,3) by (intro read_line_loop_skip [OF assms(1), of _ "[]"]) auto
  also have "\<dots> = Some (int ?k, b\<lparr>b_pos := b_last b\<rparr>, buf)"
    unfolding l by (subst read_line_loop.simps) simp
  finally show ?thesis using assms(4) by (simp add: unread_def)
qed

theorem buffer_read_line_unterminated_witness:
  "\<exists>b'. buffer_read_line (Some (two_lines\<lparr>b_last := 2\<rparr>)) (Some ''xyz'') 3 = Some (2, b', Some ''xyz'')"
  using buffer_read_line_unterminated [of "two_lines\<lparr>b_last := 2\<rparr>" 3 "''xyz''"]
  by (auto simp: two_lines_def buffer_inv_def unread_def)

end
