(* ===== verification/Etime.thy ===== *)
theory Etime
  imports Prelude
begin

text \<open>
  The \<open>struct timeval\<close> helpers of \<open>etime.c\<close>: differences in milliseconds, comparison, and
  addition of milliseconds. Seconds and microseconds are 64-bit signed; \<open>None\<close> is a signed
  overflow. \<open>strftime\<close> applied to \<open>localtime\<close> of a time is a parameter of the two functions
  that print a time. The lemmas relate each operation to the number of microseconds a time stands for.
\<close>

record timeval =
  tv_sec :: int
  tv_usec :: int

section \<open>Operations\<close>

text \<open>The difference both delta functions compute, before it is stored into an \<open>int\<close>.\<close>

definition delta_ms :: "timeval \<Rightarrow> timeval \<Rightarrow> int option" where
  "delta_ms t1 t2 = do {
     ds \<leftarrow> ck_long (tv_sec t1 - tv_sec t2);
     du \<leftarrow> ck_long (tv_usec t1 - tv_usec t2);
     ms \<leftarrow> ck_long (ds * 1000);
     ck_long (ms + du sdiv 1000)
   }"

definition time_delta :: "timeval \<Rightarrow> timeval \<Rightarrow> int option" where
  "time_delta t1 t2 = do {
     d \<leftarrow> delta_ms t1 t2;
     let delta = to_int d;
     if delta < 0 then ck_int (- delta) else Some delta
   }"

definition time_signed_delta :: "timeval \<Rightarrow> timeval \<Rightarrow> int option" where
  "time_signed_delta t1 t2 = do { d \<leftarrow> delta_ms t1 t2; Some (to_int d) }"

definition time_great :: "timeval \<Rightarrow> timeval \<Rightarrow> int" where
  "time_great t1 t2 =
     (if tv_sec t1 > tv_sec t2 then 1
      else if tv_sec t1 = tv_sec t2 then
        (if tv_usec t1 > tv_usec t2 then 1
         else if tv_usec t1 = tv_usec t2 then 0
         else -1)
      else -1)"

definition time_less :: "timeval \<Rightarrow> timeval \<Rightarrow> int" where
  "time_less t1 t2 = time_great t2 t1"

text \<open>The 64-bit millisecond count both \<open>time_add\<close> and \<open>time_subtract\<close> start from.\<close>

definition to_ms :: "timeval \<Rightarrow> int option" where
  "to_ms t1 = do { s \<leftarrow> ck_long (tv_sec t1 * 1000); ck_long (s + tv_usec t1 sdiv 1000) }"

definition time_add :: "timeval \<Rightarrow> int \<Rightarrow> timeval option" where
  "time_add t1 increment = do {
     t0 \<leftarrow> to_ms t1;
     t \<leftarrow> ck_long (t0 + increment);
     Some (t1\<lparr>tv_sec := t sdiv 1000, tv_usec := t smod 1000 * 1000\<rparr>)
   }"

definition time_subtract :: "timeval \<Rightarrow> int \<Rightarrow> timeval option" where
  "time_subtract t1 decrement = do {
     t0 \<leftarrow> to_ms t1;
     t \<leftarrow> ck_long (t0 - decrement);
     Some (t1\<lparr>tv_sec := t sdiv 1000, tv_usec := t smod 1000 * 1000\<rparr>)
   }"

text \<open>\<open>strftime (buf, max, format, localtime (&t))\<close> as a parameter: the formatted text. It is written with
  its terminator when that fits in \<open>max\<close> bytes; otherwise the contents are indeterminate, which
  the model leaves as the zeroes of \<open>bzero\<close>.\<close>

definition time_str_by_time :: "(int \<Rightarrow> string) \<Rightarrow> string \<Rightarrow> int \<Rightarrow> int \<Rightarrow> string option" where
  "time_str_by_time strftime time_buffer buffer_size t = do {
     buf \<leftarrow> bzero time_buffer 0 buffer_size;
     if int (length (strftime t)) < buffer_size then wr_block buf 0 (strftime t @ [NUL]) else Some buf
   }"

definition time_str :: "(int \<Rightarrow> string) \<Rightarrow> int \<Rightarrow> string \<Rightarrow> int \<Rightarrow> string option" where
  "time_str strftime now time_buffer buffer_size = time_str_by_time strftime time_buffer buffer_size now"

section \<open>Properties\<close>

text \<open>A normalised time: microseconds within a second, seconds within 32 unsigned bits.\<close>

definition time_ok :: "timeval \<Rightarrow> bool" where
  "time_ok t \<longleftrightarrow> 0 \<le> tv_sec t \<and> tv_sec t < 2 ^ 32 \<and> 0 \<le> tv_usec t \<and> tv_usec t < 1000000"

definition usecs :: "timeval \<Rightarrow> int" where
  "usecs t = tv_sec t * 1000000 + tv_usec t"

definition msecs :: "timeval \<Rightarrow> int" where
  "msecs t = usecs t div 1000"

text \<open>On normalised times \<open>time_great\<close> is the sign of the difference of the two instants, and
  \<open>time_less\<close> its mirror image: the two functions decide one total order.\<close>

theorem time_great_order:
  assumes "time_ok t1" and "time_ok t2"
  shows "time_great t1 t2 = sgn (usecs t1 - usecs t2) \<and> time_less t1 t2 = - time_great t1 t2"
proof (cases "tv_sec t1" "tv_sec t2" rule: linorder_cases)
  case less
  then have "tv_sec t1 + 1 \<le> tv_sec t2" by simp
  then have "usecs t1 < usecs t2" using assms by (simp add: time_ok_def usecs_def)
  then show ?thesis using less by (simp add: time_great_def time_less_def)
next
  case equal
  then show ?thesis by (simp add: time_great_def time_less_def usecs_def sgn_if)
next
  case greater
  then have "tv_sec t2 + 1 \<le> tv_sec t1" by simp
  then have "usecs t2 < usecs t1" using assms by (simp add: time_ok_def usecs_def)
  then show ?thesis using greater by (simp add: time_great_def time_less_def)
qed

theorem time_great_order_witness:
  "time_great \<lparr>tv_sec = 5, tv_usec = 1\<rparr> \<lparr>tv_sec = 4, tv_usec = 999999\<rparr> = sgn 2"
  using time_great_order [of "\<lparr>tv_sec = 5, tv_usec = 1\<rparr>" "\<lparr>tv_sec = 4, tv_usec = 999999\<rparr>"]
  by (simp add: time_ok_def usecs_def)

lemma trunc_div_bounds: "\<bar>x - 1000 * (x sdiv 1000)\<bar> < (1000 :: int)"
proof (cases "0 \<le> x")
  case True
  then show ?thesis by (simp add: sdiv_nonneg)
next
  case False
  then have "x sdiv 1000 = - ((- x) div 1000)" by (simp add: signed_divide_int_def sgn_if)
  then show ?thesis using False by simp
qed

text \<open>For two normalised times whose seconds differ by less than 2000000, the signed delta is the
  difference of the two instants in milliseconds with an error below one millisecond, and
  \<open>time_delta\<close> is its absolute value; neither overflows.\<close>

theorem time_delta_exact:
  assumes "time_ok t1" and "time_ok t2" and "\<bar>tv_sec t1 - tv_sec t2\<bar> < 2000000"
  shows "\<exists>d. time_signed_delta t1 t2 = Some d \<and> time_delta t1 t2 = Some \<bar>d\<bar>
    \<and> \<bar>1000 * d - (usecs t1 - usecs t2)\<bar> < 1000"
proof -
  let ?du = "tv_usec t1 - tv_usec t2"
  let ?d = "(tv_sec t1 - tv_sec t2) * 1000 + ?du sdiv 1000"
  have du: "\<bar>?du - 1000 * (?du sdiv 1000)\<bar> < 1000" by (rule trunc_div_bounds)
  have us: "\<bar>?du\<bar> < 1000000" using assms by (auto simp: time_ok_def)
  have "in_int ?d" "in_int (- ?d)" using du us assms(3) by (auto simp: in_int_def INT_MAX_def)
  moreover have "delta_ms t1 t2 = Some ?d"
    using assms du us by (auto simp: delta_ms_def ck_long_def in_long_def time_ok_def)
  moreover have "\<bar>1000 * ?d - (usecs t1 - usecs t2)\<bar> < 1000" using du by (simp add: usecs_def algebra_simps)
  ultimately show ?thesis
    by (auto simp: time_signed_delta_def time_delta_def to_int_id ck_int_def Let_def)
qed

theorem time_delta_exact_witness:
  "\<exists>d. time_signed_delta \<lparr>tv_sec = 5, tv_usec = 0\<rparr> \<lparr>tv_sec = 7, tv_usec = 500\<rparr> = Some d
     \<and> \<bar>1000 * d + 2000500\<bar> < 1000"
  using time_delta_exact [of "\<lparr>tv_sec = 5, tv_usec = 0\<rparr>" "\<lparr>tv_sec = 7, tv_usec = 500\<rparr>"]
  by (auto simp: time_ok_def usecs_def)

lemma to_ms_ok: "time_ok t \<Longrightarrow> to_ms t = Some (msecs t) \<and> 0 \<le> msecs t \<and> msecs t < 2 ^ 32 * 1000"
  by (auto simp: to_ms_def msecs_def usecs_def ck_long_def in_long_def time_ok_def sdiv_nonneg)

text \<open>Adding milliseconds to a normalised time gives, when the sum is not before the epoch, the
  normalised time of that many milliseconds, with the microseconds below a millisecond dropped;
  subtracting the same amount gives back the original time cut to milliseconds.\<close>

theorem time_add_subtract:
  assumes "time_ok t" and "in_int n" and "0 \<le> msecs t + n" and "msecs t + n < 2 ^ 32 * 1000"
  shows "\<exists>t'. time_add t n = Some t' \<and> time_ok t' \<and> usecs t' = 1000 * (msecs t + n)
    \<and> time_subtract t' n = Some (t\<lparr>tv_usec := tv_usec t - tv_usec t mod 1000\<rparr>)"
proof -
  let ?m = "msecs t + n" let ?t = "t\<lparr>tv_sec := ?m div 1000, tv_usec := ?m mod 1000 * 1000\<rparr>"
  have n: "in_long ?m" using assms to_ms_ok [OF assms(1)] by (auto simp: in_long_def)
  have add: "time_add t n = Some ?t"
    using assms n to_ms_ok [OF assms(1)] by (simp add: time_add_def ck_long_def sdiv_nonneg smod_nonneg)
  have "0 \<le> ?m mod 1000" "?m mod 1000 < 1000" "?m div 1000 * 1000 + ?m mod 1000 = ?m" by auto
  then have ok: "time_ok ?t" using assms(3,4) by (auto simp: time_ok_def)
  have e: "x * 1000000 + y * 1000 = 1000 * (x * 1000 + y)" for x y :: int by simp
  have "usecs ?t = 1000 * (?m div 1000 * 1000 + ?m mod 1000)" unfolding e [symmetric] by (simp add: usecs_def)
  then have us: "usecs ?t = 1000 * ?m" by (simp only: div_mult_mod_eq)
  have m: "msecs ?t = ?m" using us by (simp add: msecs_def)
  have "msecs t = tv_sec t * 1000 + tv_usec t div 1000" by (simp add: msecs_def usecs_def)
  moreover have "0 \<le> tv_usec t div 1000" "tv_usec t div 1000 < 1000"
    using assms(1) by (auto simp: time_ok_def)
  ultimately have b: "msecs t div 1000 = tv_sec t" "msecs t mod 1000 = tv_usec t div 1000" by auto
  have "time_subtract ?t n = Some (t\<lparr>tv_sec := msecs t div 1000, tv_usec := msecs t mod 1000 * 1000\<rparr>)"
    using to_ms_ok [OF ok] to_ms_ok [OF assms(1)] m
    by (simp add: time_subtract_def ck_long_def in_long_def sdiv_nonneg smod_nonneg)
  also have "\<dots> = Some (t\<lparr>tv_usec := tv_usec t - tv_usec t mod 1000\<rparr>)"
    unfolding b by (simp add: minus_mod_eq_div_mult)
  finally show ?thesis using add ok us by blast
qed

theorem time_add_subtract_witness:
  "\<exists>t'. time_add \<lparr>tv_sec = 1, tv_usec = 999500\<rparr> 2 = Some t' \<and> usecs t' = 2001000"
  using time_add_subtract [of "\<lparr>tv_sec = 1, tv_usec = 999500\<rparr>" 2]
  by (auto simp: time_ok_def usecs_def msecs_def in_int_def INT_MAX_def)

end
