(* ===== verification/Eproperty.thy ===== *)
theory Eproperty
  imports Estring
begin

text \<open>
  The property-file reader of \<open>eproperty.c\<close>: it reads a file line by line into a buffer of 2048
  bytes and hands each \<open>key = value\<close> to a callback, with the string helpers of \<open>Estring\<close>. The file is
  the text that remains to be read; the callback is a function from the key, the value and the
  user data to its result and the user data afterwards. The lemmas show that reading a rendered
  file gives the callback its entries in order, and where the reader leaves the buffer.
\<close>

section \<open>The reader\<close>

definition LINE_BUFFER :: int where "LINE_BUFFER = 2048"

text \<open>The standard library's \<open>fgets (buf, n, fp)\<close>: the line read (\<open>None\<close> for \<open>NULL\<close>), what remains of the file,
  and whether the end-of-file flag is set afterwards.\<close>

definition fgets :: "int \<Rightarrow> string \<Rightarrow> string option \<times> string \<times> bool" where
  "fgets n file =
     (let k = min (length (takeWhile (\<lambda>c. c \<noteq> LF) file) + 1) (nat (n - 1));
          line = take k file; rest = drop k file
      in if file = [] then (None, [], True)
         else (Some line, rest, rest = [] \<and> int (length line) < n - 1 \<and> last line \<noteq> LF))"

text \<open>The last part of the loop body: from the trimmed line to key and value.\<close>

definition split_item :: "string \<Rightarrow> (ptr \<times> ptr \<times> string) option" where
  "split_item m = do {
     (line, m1) \<leftarrow> trim_str m (At 0);
     offset \<leftarrow> char_at m1 line (CHR ''='');
     case line of NULL \<Rightarrow> None
     | At l \<Rightarrow> do {
         m2 \<leftarrow> wr m1 (l + offset) NUL;
         (value, m3) \<leftarrow> trim_str m2 (At (l + offset + 1));
         (key, m4) \<leftarrow> trim_str m3 (At l);
         Some (key, value, m4)
       }
   }"

text \<open>One line in the buffer: \<open>Some None\<close> when the loop goes on to the next line.\<close>

definition line_item :: "char \<Rightarrow> string \<Rightarrow> (ptr \<times> ptr \<times> string) option option" where
  "line_item comment_char m = do {
     blank \<leftarrow> is_blank m (At 0);
     if blank \<noteq> 0 then Some None
     else if comment_char \<noteq> NUL then do {
       comment \<leftarrow> is_comment m (At 0) comment_char;
       if comment \<noteq> 0 then Some None
       else do {
         m' \<leftarrow> delete_comment m (At 0) comment_char;
         item \<leftarrow> split_item m';
         Some (Some item)
       }
     }
     else do { item \<leftarrow> split_item m; Some (Some item) }
   }"

fun deref_str :: "string \<Rightarrow> ptr \<Rightarrow> string" where
  "deref_str m NULL = []"
| "deref_str m (At p) = cstr m (nat p)"

type_synonym 'u item_cb = "string \<Rightarrow> string \<Rightarrow> 'u \<Rightarrow> int \<times> 'u"

lemma fgets_rest: "(Some line, y) = fgets n file \<Longrightarrow> 1 < n \<Longrightarrow> length (fst y) < length file"
  by (auto simp: fgets_def Let_def split: if_splits)

text \<open>The \<open>while (!feof (fp))\<close> loop; \<open>result\<close> is what the last callback returned.\<close>

function property_loop ::
  "char \<Rightarrow> 'u item_cb \<Rightarrow> bool \<Rightarrow> string \<Rightarrow> int \<Rightarrow> 'u \<Rightarrow> (int \<times> 'u) option" where
  "property_loop comment_char cb eof file result userp =
     (if eof then Some (result, userp)
      else case fgets LINE_BUFFER file of
        (None, rest, eof') \<Rightarrow> if eof' then Some (result, userp) else None
      | (Some line, rest, eof') \<Rightarrow>
          (case wr_block (replicate (nat LINE_BUFFER) NUL) 0 (line @ [NUL]) of
             None \<Rightarrow> None
           | Some buffer \<Rightarrow>
             (case line_item comment_char buffer of
                None \<Rightarrow> None
              | Some None \<Rightarrow> property_loop comment_char cb eof' rest result userp
              | Some (Some (key, val, m)) \<Rightarrow>
                  (case cb (deref_str m key) (deref_str m val) userp of
                     (result', userp') \<Rightarrow>
                       if result' = 0 then Some (result', userp')
                       else property_loop comment_char cb eof' rest result' userp'))))"
  by pat_completeness auto
termination
proof (relation "measure (\<lambda>(c, cb, eof, file, r, u). length file)", goal_cases)
  case (2 cc cb eof fl result userp x y x2 xa ya)
  then show ?case using fgets_rest [of x2 y LINE_BUFFER fl] by (cases y) (auto simp: LINE_BUFFER_def)
next
  case (3 cc cb eof fl result userp x y x2 xa ya)
  then show ?case using fgets_rest [of x2 y LINE_BUFFER fl] by (cases y) (auto simp: LINE_BUFFER_def)
qed simp

declare property_loop.simps [simp del]

text \<open>\<open>property_read\<close>: \<open>fopen\<close> of the file name gives its text, or fails; a \<open>NULL\<close> callback is
  replaced by the default one, which prints and returns 1.\<close>

definition default_item_process_cb :: "'u item_cb" where
  "default_item_process_cb key val userp = (1, userp)"

definition property_read ::
  "char \<Rightarrow> (string \<Rightarrow> string option) \<Rightarrow> string option \<Rightarrow> 'u item_cb option \<Rightarrow> 'u \<Rightarrow> (int \<times> 'u) option" where
  "property_read comment_char fopen file_name item_process_cb userp =
     (let cb = (case item_process_cb of Some f \<Rightarrow> f | None \<Rightarrow> default_item_process_cb) in
      case file_name of
        None \<Rightarrow> Some (0, userp)
      | Some name \<Rightarrow> (case fopen name of
            None \<Rightarrow> Some (0, userp)
          | Some file \<Rightarrow> property_loop comment_char cb False file 0 userp))"

definition property_set_comment_char :: "char \<Rightarrow> char \<Rightarrow> char" where
  "property_set_comment_char c comment_char = c"

section \<open>Reading one line\<close>

lemma fgets_line:
  "LF \<notin> set s \<Longrightarrow> int (length s) + 1 < n \<Longrightarrow> fgets n (s @ LF # rest) = (Some (s @ [LF]), rest, False)"
proof -
  assume "LF \<notin> set s" and n: "int (length s) + 1 < n"
  then have "takeWhile (\<lambda>c. c \<noteq> LF) (s @ LF # rest) = s" by (subst takeWhile_append2) auto
  moreover have "min (length s + 1) (nat (n - 1)) = length s + 1" using n by simp
  ultimately show ?thesis by (simp add: fgets_def)
qed

text \<open>The tail left after \<open>trim_str\<close> on an empty string whose preceding byte is not white space.\<close>

lemma trim_str_empty:
  "\<not> is_space4 x \<Longrightarrow> trim_str (a @ x # NUL # b) (At (int (length a) + 1)) = Some (At (int (length a) + 1), a @ x # NUL # b)"
  using trim_lead_at [of "[]" NUL "int (length a) + 1" "a @ [x]" b] trim_tail_at [of "[]" x "int (length a)" a "NUL # b"]
    strlen_at [of "[]" "int (length a) + 1" "a @ [x]" b]
  by simp

lemma rtrim_last_char: "s \<noteq> [] \<Longrightarrow> \<not> is_space4 (last s) \<Longrightarrow> rtrim s = s"
  by (cases s rule: rev_cases) (auto simp: rtrim_def)

lemma rtrim_append: "s \<noteq> [] \<Longrightarrow> \<not> is_space4 (last s) \<Longrightarrow> list_all is_space4 w \<Longrightarrow> rtrim (s @ w) = s"
proof -
  assume s: "s \<noteq> []" "\<not> is_space4 (last s)" and w: "list_all is_space4 w"
  have "rtrim (s @ w) = rev (dropWhile is_space4 (rev s))"
    unfolding rtrim_def rev_append using w by (subst dropWhile_append2) (auto simp: list_all_iff)
  also have "\<dots> = s" using rtrim_last_char [OF s] by (simp add: rtrim_def)
  finally show ?thesis .
qed

lemma takeWhile_lead: "list_all is_lead w \<Longrightarrow> s \<noteq> [] \<Longrightarrow> \<not> is_lead (hd s) \<Longrightarrow> takeWhile is_lead (w @ s) = w"
  by (cases s) (auto simp: takeWhile_append2 list_all_iff)

text \<open>\<open>trim_str\<close> on leading blanks, a word, and trailing white space.\<close>

lemma trim_str_word:
  assumes "list_all is_lead w" and "s \<noteq> []" and "\<not> is_lead (hd s)" and "\<not> is_space4 (last s)"
    and "list_all is_space4 u" and "NUL \<notin> set s" and "p = int (length a)"
  shows "trim_str (a @ w @ s @ u @ NUL # b) (At p)
    = Some (At (p + int (length w)), a @ w @ s @ replicate (length u) NUL @ NUL # b)"
proof -
  let ?s = "w @ s @ u"
  have n: "NUL \<notin> set ?s" using assms(1,5,6) by (auto simp: list_all_iff)
  have x: "\<exists>x\<in>set ?s. \<not> is_space4 x" using assms(2,4) by (auto intro: last_in_set)
  have r: "rtrim ?s = w @ s" using rtrim_append [of "w @ s" u] assms(2,4,5) by simp
  have l: "takeWhile is_lead ?s = w" using takeWhile_lead [of w "s @ u"] assms(1-3) by simp
  show ?thesis using trim_str_at [OF n x, of a b] unfolding r l assms(7) by simp
qed

text \<open>A key: not empty, white space at neither end, no equals sign, no terminator.\<close>

definition key_ok :: "string \<Rightarrow> bool" where
  "key_ok k \<longleftrightarrow> k \<noteq> [] \<and> \<not> is_lead (hd k) \<and> \<not> is_space4 (last k) \<and> CHR ''='' \<notin> set k \<and> NUL \<notin> set k"

definition value_ok :: "string \<Rightarrow> bool" where
  "value_ok v \<longleftrightarrow> (v \<noteq> [] \<longrightarrow> \<not> is_lead (hd v) \<and> \<not> is_space4 (last v)) \<and> NUL \<notin> set v"

lemma space_chars:
  "list_all is_space4 u \<Longrightarrow> NUL \<notin> set u" "list_all is_space4 u \<Longrightarrow> CHR ''='' \<notin> set u"
  "list_all is_lead u \<Longrightarrow> NUL \<notin> set u" "list_all is_lead u \<Longrightarrow> list_all is_space4 u"
  by (induction u) (auto simp: is_space4_def is_lead_def)

text \<open>The line without the white space at its end, as the first \<open>trim_str\<close> leaves it.\<close>

lemma split_item_trimmed:
  assumes k: "key_ok k" and v: "value_ok v" and w: "list_all is_lead w" and u1: "list_all is_space4 u1"
    and u2: "list_all is_lead u2" "v = [] \<Longrightarrow> u2 = []"
    and line: "trim_str m (At 0) = Some (At (int (length w)), w @ k @ u1 @ CHR ''='' # u2 @ v @ NUL # b)"
  shows "\<exists>key val m'. split_item m = Some (At key, At val, m') \<and> cstr m' (nat key) = k \<and> cstr m' (nat val) = v"
proof -
  let ?o = "int (length (k @ u1))" and ?l = "int (length w)"
  have nn: "NUL \<notin> set (k @ u1 @ CHR ''='' # u2 @ v)" "CHR ''='' \<notin> set (k @ u1)"
    using k v space_chars(1,2) [OF u1] space_chars(3) [OF u2(1)] by (simp_all add: key_ok_def value_ok_def)
  then have "takeWhile (\<lambda>x. x \<noteq> CHR ''='') (k @ u1 @ CHR ''='' # u2 @ v) = k @ u1"
    unfolding append_assoc [symmetric] by (subst takeWhile_append2) auto
  then have at: "char_at (w @ k @ u1 @ CHR ''='' # u2 @ v @ NUL # b) (At ?l) (CHR ''='') = Some ?o"
    using char_at_loop_at [OF nn(1), of ?l 0 w b "CHR ''=''"] by simp
  have w2: "wr (w @ k @ u1 @ CHR ''='' # u2 @ v @ NUL # b) (?l + ?o) NUL = Some (w @ k @ u1 @ NUL # u2 @ v @ NUL # b)"
    using wr_int [of "w @ k @ u1 @ CHR ''='' # u2 @ v @ NUL # b" "length w + length (k @ u1)" NUL]
    by (simp add: list_update_append)
  let ?a = "w @ k @ u1"
  have val: "trim_str (w @ k @ u1 @ NUL # u2 @ v @ NUL # b) (At (?l + ?o + 1))
      = Some (At (?l + ?o + 1 + int (length u2)), w @ k @ u1 @ NUL # u2 @ v @ NUL # b)"
  proof (cases "v = []")
    case True
    then show ?thesis using u2(2) trim_str_empty [of NUL ?a b] by simp
  next
    case False
    then show ?thesis
      using trim_str_word [of u2 v "[]" "?l + ?o + 1" "?a @ [NUL]" b] u2 v
      by (simp add: value_ok_def)
  qed
  have key: "trim_str (w @ k @ u1 @ NUL # u2 @ v @ NUL # b) (At ?l)
      = Some (At ?l, w @ k @ replicate (length u1) NUL @ NUL # u2 @ v @ NUL # b)"
    using trim_str_word [of "[]" k u1 ?l w "u2 @ v @ NUL # b"] k u1 by (simp add: key_ok_def)
  let ?m = "w @ k @ replicate (length u1) NUL @ NUL # u2 @ v @ NUL # b"
  have "?m = w @ k @ NUL # (replicate (length u1) NUL @ u2 @ v @ NUL # b)"
    by (simp add: replicate_app_Cons_same)
  then have "cstr ?m (length w) = k" using cstr_at [OF _ refl, of k w] k unfolding key_ok_def by metis
  moreover have "cstr ?m (nat (?l + ?o + 1 + int (length u2))) = v"
    using cstr_at [of v "w @ k @ replicate (length u1) NUL @ NUL # u2" "length w + length k + length u1 + 1 + length u2" b] v
    by (simp add: value_ok_def nat_add_distrib add.assoc)
  moreover have "split_item m = Some (At ?l, At (?l + ?o + 1 + int (length u2)), ?m)"
    unfolding split_item_def line bind.bind_lunit prod.case at ptr.case w2 val key ..
  ultimately show ?thesis
    by (intro exI [of _ ?l] exI [of _ "?l + ?o + 1 + int (length u2)"] exI [of _ ?m]) simp
qed

lemma split_item_ok:
  assumes k: "key_ok k" and v: "value_ok v" and w: "list_all is_lead w" and u1: "list_all is_space4 u1"
    and u2: "list_all is_lead u2" and u3: "list_all is_space4 u3"
  shows "\<exists>key val m'. split_item (w @ k @ u1 @ CHR ''='' # u2 @ v @ u3 @ NUL # b) = Some (At key, At val, m')
    \<and> cstr m' (nat key) = k \<and> cstr m' (nat val) = v"
proof (cases "v = []")
  case True
  let ?s = "k @ u1 @ [CHR ''='']"
  have "list_all is_space4 (u2 @ u3)" using space_chars(4) [OF u2] u3 by simp
  moreover have "NUL \<notin> set ?s" "?s \<noteq> []" "\<not> is_lead (hd ?s)" "\<not> is_space4 (last ?s)"
    using k space_chars(1) [OF u1] by (simp_all add: key_ok_def is_space4_def)
  ultimately have "trim_str (w @ ?s @ (u2 @ u3) @ NUL # b) (At 0)
    = Some (At (0 + int (length w)), w @ ?s @ replicate (length (u2 @ u3)) NUL @ NUL # b)"
    using trim_str_word [of w ?s "u2 @ u3" 0 "[]" b] w by simp
  then show ?thesis using True split_item_trimmed [OF k v w u1, of "[]"]
    by (simp add: replicate_app_Cons_same)
next
  case False
  let ?s = "k @ u1 @ CHR ''='' # u2 @ v"
  have "NUL \<notin> set ?s" using k v space_chars(1) [OF u1] space_chars(3) [OF u2]
    by (simp add: key_ok_def value_ok_def)
  then have "trim_str (w @ ?s @ u3 @ NUL # b) (At 0)
    = Some (At (0 + int (length w)), w @ ?s @ replicate (length u3) NUL @ NUL # b)"
    using trim_str_word [of w ?s u3 0 "[]" b] k w u3 v False by (simp add: key_ok_def value_ok_def)
  then show ?thesis using False split_item_trimmed [OF k v w u1 u2]
    by (simp add: replicate_app_Cons_same)
qed

section \<open>Reading a file\<close>

text \<open>The lines of a property file: a line without an entry, or an entry with white space around key
  and value and a comment at its end (empty, or starting with the comment character).\<close>

datatype prop_line = Skip string | Item string string string string string string string

fun render_text :: "prop_line \<Rightarrow> string" where
  "render_text (Skip s) = s"
| "render_text (Item w k u1 u2 v u3 cm) = w @ k @ u1 @ CHR ''='' # u2 @ v @ u3 @ cm"

definition render :: "prop_line list \<Rightarrow> string" where
  "render ls = concat (map (\<lambda>l. render_text l @ [LF]) ls)"

fun entries :: "prop_line list \<Rightarrow> (string \<times> string) list" where
  "entries [] = []"
| "entries (Skip s # ls) = entries ls"
| "entries (Item w k u1 u2 v u3 cm # ls) = (k, v) # entries ls"

fun line_kind_ok :: "char \<Rightarrow> prop_line \<Rightarrow> bool" where
  "line_kind_ok cc (Skip s) \<longleftrightarrow> list_all is_space4 s \<or> cc \<noteq> NUL \<and> take 1 (dropWhile is_lead s) = [cc]"
| "line_kind_ok cc (Item w k u1 u2 v u3 cm) \<longleftrightarrow> key_ok k \<and> value_ok v \<and> list_all is_lead w
     \<and> list_all is_space4 u1 \<and> list_all is_lead u2 \<and> list_all is_space4 u3
     \<and> cc \<notin> set (w @ k @ u1 @ CHR ''='' # u2 @ v @ u3) \<and> (cm = [] \<or> cc \<noteq> NUL \<and> hd cm = cc)"

definition line_ok :: "char \<Rightarrow> prop_line \<Rightarrow> bool" where
  "line_ok cc l \<longleftrightarrow> line_kind_ok cc l \<and> LF \<notin> set (render_text l) \<and> NUL \<notin> set (render_text l)
     \<and> int (length (render_text l)) + 1 < LINE_BUFFER"

text \<open>Handing the entries to the callback until it returns 0.\<close>

fun feed :: "'u item_cb \<Rightarrow> (string \<times> string) list \<Rightarrow> int \<Rightarrow> 'u \<Rightarrow> int \<times> 'u" where
  "feed cb [] result userp = (result, userp)"
| "feed cb ((k, v) # es) result userp =
     (case cb k v userp of (result', userp') \<Rightarrow> if result' = 0 then (0, userp') else feed cb es result' userp')"


lemma line_item_skip:
  assumes "line_kind_ok cc (Skip s)" and "NUL \<notin> set s"
  shows "line_item cc ((s @ [LF]) @ NUL # b) = Some None"
proof -
  have n: "NUL \<notin> set (s @ [LF])" using assms(2) by simp
  note bl = is_blank_loop_at [OF n, of 0 "[]" b] and cm = is_comment_loop_at [OF n, of 0 "[]" b cc]
  show ?thesis
  proof (cases "list_all is_space4 s")
    case True
    then show ?thesis using bl by (simp add: line_item_def is_space4_def)
  next
    case False
    then obtain t where c: "cc \<noteq> NUL" "dropWhile is_lead s = cc # t"
      using assms(1) by (cases "dropWhile is_lead s") auto
    moreover have "\<exists>x\<in>set s. \<not> is_lead x" using c(2) by (metis dropWhile_eq_Nil_conv list.distinct(1))
    ultimately have "dropWhile is_lead (s @ [LF]) = cc # t @ [LF]"
      by (simp add: dropWhile_append)
    then show ?thesis using bl cm c(1) False by (simp add: line_item_def)
  qed
qed

lemma line_item_entry:
  assumes "line_kind_ok cc (Item w k u1 u2 v u3 cm)" and n: "NUL \<notin> set (render_text (Item w k u1 u2 v u3 cm))"
    and cc: "cc \<noteq> LF"
  shows "\<exists>key val m'. line_item cc ((render_text (Item w k u1 u2 v u3 cm) @ [LF]) @ NUL # b)
      = Some (Some (At key, At val, m')) \<and> cstr m' (nat key) = k \<and> cstr m' (nat val) = v"
proof -
  let ?t = "w @ k @ u1 @ CHR ''='' # u2 @ v @ u3" and ?r = "render_text (Item w k u1 u2 v u3 cm)"
  let ?l = "?r @ [LF]"
  have nl: "NUL \<notin> set ?l" using n by simp
  have ok: "key_ok k" "value_ok v" "list_all is_lead w" "list_all is_space4 u1" "list_all is_lead u2"
      "list_all is_space4 u3" "cc \<notin> set ?t" "cm = [] \<or> cc \<noteq> NUL \<and> hd cm = cc"
    using assms(1) by auto
  have lf: "list_all is_space4 (u3 @ [LF])" using ok(6) by (simp add: is_space4_def)
  have r: "?l = ?t @ cm @ [LF]" by simp
  have blank: "is_blank (?l @ NUL # b) (At 0) = Some 0"
    using is_blank_loop_at [OF nl, of 0 "[]" b] by (simp add: is_space4_def [of "CHR ''=''"])
  show ?thesis
  proof (cases "cc = NUL")
    case True
    then have "?l @ NUL # b = w @ k @ u1 @ CHR ''='' # u2 @ v @ (u3 @ [LF]) @ NUL # b" using ok(8) by simp
    then show ?thesis using split_item_ok [OF ok(1-5) lf, of b] blank True by (auto simp: line_item_def)
  next
    case False
    have "dropWhile is_lead ?l = k @ drop (length (w @ k)) ?l"
      using ok(1,3) unfolding key_ok_def by (cases k) (auto simp: dropWhile_append2 list_all_iff)
    then have cmt: "is_comment (?l @ NUL # b) (At 0) cc = Some 0"
      using is_comment_loop_at [OF nl, of 0 "[]" b cc] ok(1,7) by (cases k) (auto simp: key_ok_def)
    have del: "delete_comment (?l @ NUL # b) (At 0) cc
        = Some (?t @ map (\<lambda>x. if x = cc then NUL else x) (cm @ [LF]) @ NUL # b)"
    proof -
      have "map (\<lambda>x. if x = cc then NUL else x) ?t = ?t" using ok(7) by (intro map_idI) auto
      then show ?thesis using delete_comment_loop_at [OF nl, of 0 "[]" b cc] unfolding r map_append
        by simp
    qed
    obtain u b' where ub: "?t @ map (\<lambda>x. if x = cc then NUL else x) (cm @ [LF]) @ NUL # b
        = w @ k @ u1 @ CHR ''='' # u2 @ v @ u @ NUL # b'" "list_all is_space4 u"
    proof (cases cm)
      case Nil
      then show ?thesis using that [of "u3 @ [LF]" b] lf cc by simp
    next
      case (Cons c cm')
      then show ?thesis using ok(6,8) by (intro that [of u3]) auto
    qed
    obtain key val m' where sp: "split_item (w @ k @ u1 @ CHR ''='' # u2 @ v @ u @ NUL # b') = Some (At key, At val, m')"
      "cstr m' (nat key) = k" "cstr m' (nat val) = v"
      using split_item_ok [OF ok(1-5) ub(2), of b'] by blast
    have "line_item cc (?l @ NUL # b) = Some (Some (At key, At val, m'))"
      unfolding line_item_def blank bind.bind_lunit cmt del ub(1) sp(1) using False by simp
    then show ?thesis using sp(2,3) by blast
  qed
qed

text \<open>C24. Reading a property file of well-formed lines, none of them longer than the line buffer,
  calls the callback on its entries in order, each with exactly the key and the value, until
  the callback returns 0, and returns the last result: blank lines, comment lines, comments at the
  end of a line and the white space around keys and values leave no trace.\<close>

theorem property_read_entries:
  assumes "list_all (line_ok cc) ls" and "cc \<noteq> LF" and "fopen name = Some (render ls)"
  shows "property_read cc fopen (Some name) (Some cb) userp = Some (feed cb (entries ls) 0 userp)"
proof -
  have "property_loop cc cb False (render ls) result userp = Some (feed cb (entries ls) result userp)" for result
    using assms(1)
  proof (induction ls arbitrary: result userp)
    case Nil
    then show ?case by (subst property_loop.simps) (simp add: render_def fgets_def)
  next
    case (Cons l ls)
    let ?t = "render_text l" and ?b = "replicate (nat LINE_BUFFER - length (render_text l) - 2) NUL"
    have l: "line_kind_ok cc l" "LF \<notin> set ?t" "NUL \<notin> set ?t" "int (length ?t) + 1 < LINE_BUFFER"
      using Cons.prems by (auto simp: line_ok_def)
    have "fgets LINE_BUFFER (render (l # ls)) = (Some (?t @ [LF]), render ls, False)"
      using fgets_line [OF l(2,4), of "render ls"] by (simp add: render_def)
    moreover have "wr_block (replicate (nat LINE_BUFFER) NUL) 0 ((?t @ [LF]) @ [NUL]) = Some ((?t @ [LF]) @ NUL # ?b)"
      using l(4) by (subst wr_block_0) auto
    ultimately have step: "property_loop cc cb False (render (l # ls)) result userp =
      (case line_item cc ((?t @ [LF]) @ NUL # ?b) of
         None \<Rightarrow> None
       | Some None \<Rightarrow> property_loop cc cb False (render ls) result userp
       | Some (Some (key, val, m)) \<Rightarrow> (case cb (deref_str m key) (deref_str m val) userp of
           (result', userp') \<Rightarrow> if result' = 0 then Some (result', userp')
             else property_loop cc cb False (render ls) result' userp'))"
      by (subst property_loop.simps) simp
    show ?case
    proof (cases l)
      case (Skip s)
      then show ?thesis using step line_item_skip [of cc s] l Cons.prems Cons.IH by simp
    next
      case (Item w k u1 u2 v u3 cm)
      obtain key val m' where "line_item cc ((?t @ [LF]) @ NUL # ?b) = Some (Some (At key, At val, m'))"
        "cstr m' (nat key) = k" "cstr m' (nat val) = v"
        using line_item_entry [OF l(1) [unfolded Item] l(3) [unfolded Item] assms(2), of ?b, folded Item] by blast
      then show ?thesis unfolding step using Item Cons.prems Cons.IH by (auto split: prod.splits)
    qed
  qed
  then show ?thesis using assms(3) by (simp add: property_read_def)
qed

definition sample_lines :: "prop_line list" where
  "sample_lines = [Skip ''# sample'', Item '' '' ''port'' '' '' '' '' ''80'' '' '' ''# web'', Skip '''',
     Item '''' ''dir'' '''' '''' ''/a=b'' '''' '''']"

definition collect :: "(string \<times> string) list item_cb" where
  "collect k v acc = (1, acc @ [(k, v)])"

theorem property_read_entries_witness:
  "property_read (CHR ''#'') (\<lambda>_. Some (render sample_lines)) (Some ''f'') (Some collect) []
     = Some (1, [(''port'', ''80''), (''dir'', ''/a=b'')])"
proof -
  have "list_all (line_ok (CHR ''#'')) sample_lines"
    by (simp add: sample_lines_def line_ok_def LINE_BUFFER_def key_ok_def value_ok_def is_lead_def [abs_def]
        is_space4_def [abs_def])
  then show ?thesis
    using property_read_entries [of "CHR ''#''" sample_lines "\<lambda>_. Some (render sample_lines)" "''f''" collect "[]"]
    by (simp add: sample_lines_def collect_def)
qed

text \<open>A line without an equals sign is not rejected: \<open>char_at\<close> returns \<open>-1\<close> and the reader writes at
  offset \<open>-1\<close> of the line. For a line that starts with a character other than white space and the
  comment character this is the byte before the line buffer.\<close>

theorem property_read_no_equals:
  assumes "s \<noteq> []" and "\<not> is_space4 (hd s)" and "set s \<inter> {CHR ''='', cc, NUL, LF} = {}" and "cc \<noteq> LF"
    and "int (length s) + 1 < LINE_BUFFER" and "fopen name = Some (s @ LF # rest)"
  shows "property_read cc fopen (Some name) cb userp = None"
proof -
  let ?b = "replicate (nat LINE_BUFFER - length s - 2) NUL" and ?l = "s @ [LF]"
  have n: "NUL \<notin> set ?l" "LF \<notin> set s" "CHR ''='' \<notin> set s" "cc \<notin> set ?l" using assms(3,4) by auto
  have hd: "\<exists>x v. s = x # v \<and> \<not> is_space4 x" using assms(1,2) by (cases s) auto
  have blank: "is_blank (?l @ NUL # ?b) (At 0) = Some 0"
    using is_blank_loop_at [OF n(1), of 0 "[]" ?b] hd by auto
  have comment: "is_comment (?l @ NUL # ?b) (At 0) cc = Some 0"
    using is_comment_loop_at [OF n(1), of 0 "[]" ?b cc] hd n(4) lead_space4 by (cases s) auto
  have "map (\<lambda>x. if x = cc then NUL else x) ?l = ?l" using n(4) by (intro map_idI) auto
  then have delete: "delete_comment (?l @ NUL # ?b) (At 0) cc = Some (?l @ NUL # ?b)"
    using delete_comment_loop_at [OF n(1), of 0 "[]" ?b cc] unfolding delete_comment.simps append_Nil by simp
  define t where "t = replicate (length ?l - length (rtrim ?l)) NUL @ ?b"
  have t: "rtrim ?l @ replicate (length ?l - length (rtrim ?l)) NUL @ NUL # ?b = rtrim ?l @ NUL # t"
    unfolding t_def replicate_app_Cons_same ..
  have "\<exists>x\<in>set ?l. \<not> is_space4 x" using hd by auto
  moreover have "takeWhile is_lead ?l = []" using hd lead_space4 by auto
  ultimately have trim: "trim_str (?l @ NUL # ?b) (At 0) = Some (At 0, rtrim ?l @ NUL # t)"
    using trim_str_at [OF n(1), of "[]" ?b] unfolding append_Nil t by simp
  have "NUL \<notin> set (rtrim ?l)" "CHR ''='' \<notin> set (rtrim ?l)" using n(1,3) set_rtrim [of ?l] by auto
  then have "char_at (rtrim ?l @ NUL # t) (At 0) (CHR ''='') = Some (- 1)"
    using char_at_loop_at [of "rtrim ?l" 0 0 "[]" t "CHR ''=''"] by simp
  then have split: "split_item (?l @ NUL # ?b) = None"
    unfolding split_item_def trim bind.bind_lunit prod.case ptr.case by (simp add: wr_def)
  have "line_item cc (?l @ NUL # ?b) = None"
    unfolding line_item_def blank bind.bind_lunit comment delete split by simp
  moreover have "fgets LINE_BUFFER (s @ LF # rest) = (Some ?l, rest, False)" using fgets_line n(2) assms(5) by blast
  moreover have "wr_block (replicate (nat LINE_BUFFER) NUL) 0 (?l @ [NUL]) = Some (?l @ NUL # ?b)"
    using assms(5) by (subst wr_block_0) auto
  ultimately have "property_loop cc f False (s @ LF # rest) 0 userp = None" for f
    by (subst property_loop.simps) simp
  then show ?thesis using assms(6) by (simp add: property_read_def)
qed

theorem property_read_no_equals_witness:
  "property_read (CHR ''#'') (\<lambda>_. Some (''oops!'' @ LF # [])) (Some ''f'') None () = None"
  by (rule property_read_no_equals [where s = "''oops!''"]) (auto simp: is_space4_def LINE_BUFFER_def)

end
