(* ===== verification/Cprintf.thy ===== *)
theory Cprintf
  imports Prelude
begin

text \<open>
  The part of the standard library's \<open>printf\<close> family the source uses: \<open>%s\<close>, \<open>%d\<close> with a zero flag
  and a width, and \<open>%%\<close>. \<open>vfmt\<close> produces the text of a format and its arguments, \<open>None\<close> when an
  argument is missing or of the wrong type or the conversion is another one; \<open>snprintf\<close> writes it
  into a block, cut to the size given, and returns the length of the whole text.
\<close>

datatype carg = AInt int | AStr string

section \<open>Decimal numbers\<close>

fun show_nat :: "nat \<Rightarrow> string" where
  "show_nat n = (if n < 10 then [char_of (48 + n)] else show_nat (n div 10) @ [char_of (48 + n mod 10)])"

declare show_nat.simps [simp del]

definition show_int :: "int \<Rightarrow> string" where
  "show_int i = (if i < 0 then CHR ''-'' # show_nat (nat (- i)) else show_nat (nat i))"

definition is_digit :: "char \<Rightarrow> bool" where
  "is_digit c \<longleftrightarrow> 48 \<le> (of_char c :: nat) \<and> (of_char c :: nat) \<le> 57"

text \<open>Padding to a width on the left, with zeroes after the sign or with blanks.\<close>

definition pad :: "bool \<Rightarrow> nat \<Rightarrow> string \<Rightarrow> string" where
  "pad zero width s =
     (if zero then (case s of
          c # cs \<Rightarrow> if c = CHR ''-'' then c # replicate (width - length s) CHR ''0'' @ cs
                    else replicate (width - length s) CHR ''0'' @ s
        | [] \<Rightarrow> replicate width CHR ''0'')
      else replicate (width - length s) CHR '' '' @ s)"

section \<open>Formats\<close>

text \<open>The scan of a format: \<open>None\<close> between conversions, \<open>Some (zero, width)\<close> inside one.\<close>

fun vfmt :: "(bool \<times> nat) option \<Rightarrow> string \<Rightarrow> carg list \<Rightarrow> string option" where
  "vfmt None [] args = Some []"
| "vfmt None (c # cs) args =
     (if c = CHR ''%'' then vfmt (Some (False, 0)) cs args
      else map_option (\<lambda>t. c # t) (vfmt None cs args))"
| "vfmt (Some spec) [] args = None"
| "vfmt (Some (zero, width)) (c # cs) args =
     (if c = CHR ''0'' \<and> width = 0 then vfmt (Some (True, 0)) cs args
      else if is_digit c then vfmt (Some (zero, width * 10 + (of_char c - 48))) cs args
      else if c = CHR ''%'' then map_option (\<lambda>t. CHR ''%'' # t) (vfmt None cs args)
      else (case args of
          AInt i # args' \<Rightarrow> if c = CHR ''d'' then map_option (\<lambda>t. pad zero width (show_int i) @ t) (vfmt None cs args')
                             else None
        | AStr s # args' \<Rightarrow> if c = CHR ''s'' then map_option (\<lambda>t. pad False width s @ t) (vfmt None cs args') else None
        | [] \<Rightarrow> None))"

definition snprintf :: "string \<Rightarrow> int \<Rightarrow> int \<Rightarrow> string \<Rightarrow> carg list \<Rightarrow> (int \<times> string) option" where
  "snprintf buf off n fmt args = do {
     text \<leftarrow> vfmt None fmt args;
     buf' \<leftarrow> (if n \<le> 0 then Some buf else wr_block buf off (take (nat (n - 1)) text @ [NUL]));
     Some (int (length text), buf')
   }"

section \<open>What a format produces\<close>

lemma vfmt_plain: "CHR ''%'' \<notin> set p \<Longrightarrow> vfmt None (p @ f) args = map_option (\<lambda>t. p @ t) (vfmt None f args)"
  by (induction p) (auto simp: map_option_case split: option.split)

lemma vfmt_literal: "CHR ''%'' \<notin> set p \<Longrightarrow> vfmt None p args = Some p"
  using vfmt_plain [of p "[]" args] by simp

lemma length_show_nat: "n < 10 ^ k \<Longrightarrow> 0 < k \<Longrightarrow> length (show_nat n) \<le> k"
proof (induction k arbitrary: n)
  case (Suc k)
  show ?case
  proof (cases "n < 10")
    case False
    then have "0 < k" using Suc.prems by (cases k) auto
    moreover have "n div 10 < 10 ^ k" using Suc.prems by (simp add: less_mult_imp_div_less)
    ultimately show ?thesis using Suc.IH [of "n div 10"] False by (simp add: show_nat.simps [of n])
  qed (simp add: show_nat.simps [of n])
qed simp

lemma show_nat_digits: "set (show_nat n) \<subseteq> {c. is_digit c}"
proof (induction n rule: show_nat.induct)
  case (1 n)
  have d: "is_digit (char_of (48 + m))" if "m < 10" for m :: nat using that by (simp add: is_digit_def)
  show ?case using 1 d [of n] d [of "n mod 10"] by (subst show_nat.simps) auto
qed

lemma length_pad: "length (pad z w s) = max w (length s)"
  by (auto simp: pad_def split: list.split)

lemma snprintf_whole:
  assumes "vfmt None fmt args = Some text" and "0 \<le> off" and "0 < n" and "int (length text) < n"
    and "nat off + length text < length buf"
  shows "snprintf buf off n fmt args = Some (int (length text), splice buf (nat off) (text @ [NUL]))"
  using assms by (simp add: snprintf_def wr_block_def)

lemma snprintf_at_0:
  assumes "vfmt None fmt args = Some text" and "0 < n" and "n \<le> int (length buf)"
  shows "\<exists>t. snprintf buf 0 n fmt args
    = Some (int (length text), take (nat (n - 1)) text @ NUL # t)"
  using assms by (auto simp: snprintf_def)

end
