(* ===== verification/Esyslog.thy ===== *)
theory Esyslog
  imports Cprintf
begin

text \<open>
  The syslog client of \<open>esyslog.c\<close>: the module's static variables are the record \<open>syslog_state\<close>, the
  system's answers (\<open>inet_aton\<close>, \<open>socket\<close>, the broken-down local time, the process id, \<open>sendto\<close>) are the
  record \<open>syslog_env\<close>, and the datagram sent is a result. Strings passed in are C strings without
  their terminator. The lemmas give the datagram byte by byte and its bounds.
\<close>

section \<open>State\<close>

definition SYSLOG_EMERG :: int where "SYSLOG_EMERG = 0"
definition SYSLOG_ERR :: int where "SYSLOG_ERR = 3"
definition SYSLOG_WARNING :: int where "SYSLOG_WARNING = 4"
definition SYSLOG_INFO :: int where "SYSLOG_INFO = 6"
definition SYSLOG_DEBUG :: int where "SYSLOG_DEBUG = 7"
definition SYSLOG_KERN :: int where "SYSLOG_KERN = 0"
definition SYSLOG_LOCAL0 :: int where "SYSLOG_LOCAL0 = 128"
definition SYSLOG_LOCAL7 :: int where "SYSLOG_LOCAL7 = 184"

unbundle bit_operations_syntax

definition SYSLOG_MAKEPRI :: "int \<Rightarrow> int \<Rightarrow> int" where
  "SYSLOG_MAKEPRI fac pri = fac OR pri"

definition months :: "string list" where
  "months = [''Jan'', ''Feb'', ''Mar'', ''Apr'', ''May'', ''Jun'', ''Jul'', ''Aug'', ''Sep'', ''Oct'', ''Nov'', ''Dec'']"

record syslog_state =
  syslog_ip :: string
  syslog_port :: int
  syslog_sock_fd :: int
  syslog_facility :: int
  syslog_hostname :: string
  syslog_program :: string
  syslog_addr :: "int \<times> int"

definition syslog_init :: syslog_state where
  "syslog_init = \<lparr>syslog_ip = replicate 32 NUL, syslog_port = 0, syslog_sock_fd = -1, syslog_facility = -1,
     syslog_hostname = replicate 32 NUL, syslog_program = replicate 32 NUL, syslog_addr = (0, 0)\<rparr>"

record tm =
  tm_mon :: int
  tm_mday :: int
  tm_hour :: int
  tm_min :: int
  tm_sec :: int

record syslog_env =
  inet_aton :: "string \<Rightarrow> int \<times> int"
  socket_fd :: int
  localtime :: tm
  getpid :: int
  sendto_result :: int

section \<open>Operations\<close>

text \<open>\<open>bzero (buf, 32); strncpy (buf, s, 31)\<close> on one of the static buffers.\<close>

definition set_field :: "string \<Rightarrow> string \<Rightarrow> string option" where
  "set_field buf s = do { b \<leftarrow> bzero buf 0 32; strncpy b 0 (s @ [NUL]) 0 31 }"

text \<open>\<open>syslog_addr\<close> is the address and the port modulo \<open>2 ^ 16\<close> (\<open>htons\<close>), in host order.\<close>

definition syslog_open ::
  "syslog_env \<Rightarrow> syslog_state \<Rightarrow> string option \<Rightarrow> int \<Rightarrow> int \<Rightarrow> string option \<Rightarrow> string option
   \<Rightarrow> (int \<times> syslog_state) option" where
  "syslog_open env st ip port facility hostname program =
     (case (ip, program) of
        (None, _) \<Rightarrow> Some (0, st)
      | (_, None) \<Rightarrow> Some (0, st)
      | (Some ip, Some program) \<Rightarrow> do {
          ipb \<leftarrow> set_field (syslog_ip st) ip;
          let (r, a) = inet_aton env (cstr ipb 0);
          let st1 = st\<lparr>syslog_ip := ipb, syslog_port := port, syslog_addr := (a, port mod 2 ^ 16)\<rparr>;
          if r < 0 then Some (-1, st1)
          else do {
            let st2 = st1\<lparr>syslog_sock_fd := socket_fd env\<rparr>;
            if syslog_sock_fd st2 < 0 then Some (-1, st2)
            else if facility < SYSLOG_KERN \<or> facility > SYSLOG_LOCAL7 then Some (-1, st2)
            else do {
              host \<leftarrow> (case hostname of None \<Rightarrow> bzero (syslog_hostname st2) 0 32
                       | Some h \<Rightarrow> set_field (syslog_hostname st2) h);
              prog \<leftarrow> set_field (syslog_program st2) program;
              Some (1, st2\<lparr>syslog_facility := facility, syslog_hostname := host, syslog_program := prog\<rparr>)
            }
          }
        })"

text \<open>The result, the datagram given to \<open>sendto\<close> (if any).\<close>

definition syslog_write ::
  "syslog_env \<Rightarrow> syslog_state \<Rightarrow> int \<Rightarrow> string \<Rightarrow> int \<Rightarrow> (int \<times> string option) option" where
  "syslog_write env st level msg len =
     (if level < SYSLOG_EMERG \<or> level > SYSLOG_DEBUG then Some (0, None)
      else if syslog_sock_fd st < 0 then Some (0, None)
      else do {
        let tm = localtime env;
        (r1, b1) \<leftarrow> snprintf (replicate 1024 NUL) 0 1024 ''<%d>''
           [AInt (SYSLOG_MAKEPRI (syslog_facility st) level)];
        let off1 = r1;
        month \<leftarrow> rd months (tm_mon tm - 1);
        (r2, b2) \<leftarrow> snprintf b1 off1 (1024 - off1) ''%s %2d %02d:%02d:%02d %s ''
           [AStr month, AInt (tm_mday tm), AInt (tm_hour tm), AInt (tm_min tm), AInt (tm_sec tm),
            AStr (cstr (syslog_hostname st) 0)];
        let off2 = off1 + r2;
        (r3, b3) \<leftarrow> snprintf b2 off2 (1024 - off2) ''%s[%d]: ''
           [AStr (cstr (syslog_program st) 0), AInt (getpid env)];
        let off3 = off2 + r3;
        (b4, offset) \<leftarrow> (if 1024 - off3 > len \<and> 0 \<le> len
           then do { b \<leftarrow> memcpy b3 off3 msg 0 len; Some (b, off3 + len) }
           else do { b \<leftarrow> memcpy b3 off3 msg 0 (1024 - off3); Some (b, 1024) });
        packet \<leftarrow> rd_block b4 0 offset;
        Some (if sendto_result env < 0 then 0 else 1, Some packet)
      })"

definition syslog_close :: "syslog_state \<Rightarrow> int \<times> syslog_state \<times> int list" where
  "syslog_close st =
     (if syslog_sock_fd st \<ge> 0 then (1, st\<lparr>syslog_sock_fd := -1\<rparr>, [syslog_sock_fd st]) else (1, st, []))"

section \<open>The datagram\<close>

text \<open>The sizes \<open>syslog_open\<close> leaves in the static buffers, and the values the system promises.\<close>

definition syslog_ok :: "syslog_state \<Rightarrow> bool" where
  "syslog_ok st \<longleftrightarrow> length (cstr (syslog_hostname st) 0) < 32 \<and> length (cstr (syslog_program st) 0) < 32
     \<and> 0 \<le> syslog_facility st \<and> syslog_facility st < 192"

definition env_ok :: "syslog_env \<Rightarrow> bool" where
  "env_ok env \<longleftrightarrow> (let tm = localtime env in
     0 \<le> tm_mon tm \<and> tm_mon tm < 12 \<and> 0 < tm_mday tm \<and> tm_mday tm < 32 \<and> 0 \<le> tm_hour tm \<and> tm_hour tm < 24
     \<and> 0 \<le> tm_min tm \<and> tm_min tm < 60 \<and> 0 \<le> tm_sec tm \<and> tm_sec tm < 61) \<and> 0 < getpid env \<and> getpid env < 2 ^ 31"

definition two_digits :: "int \<Rightarrow> string" where
  "two_digits i = pad True 2 (show_int i)"

definition pri_part :: "syslog_state \<Rightarrow> int \<Rightarrow> string" where
  "pri_part st level = ''<'' @ show_int (SYSLOG_MAKEPRI (syslog_facility st) level) @ ''>''"

definition header_part :: "syslog_env \<Rightarrow> syslog_state \<Rightarrow> string \<Rightarrow> string" where
  "header_part env st month = (let tm = localtime env in
     month @ '' '' @ pad False 2 (show_int (tm_mday tm)) @ '' '' @ two_digits (tm_hour tm) @ '':''
       @ two_digits (tm_min tm) @ '':'' @ two_digits (tm_sec tm) @ '' '' @ cstr (syslog_hostname st) 0 @ '' '')"

definition tag_part :: "syslog_env \<Rightarrow> syslog_state \<Rightarrow> string" where
  "tag_part env st = cstr (syslog_program st) 0 @ ''['' @ show_int (getpid env) @ '']: ''"

lemma length_show_int: "0 \<le> i \<Longrightarrow> i < 10 ^ k \<Longrightarrow> 0 < k \<Longrightarrow> length (show_int i) \<le> k"
  using length_show_nat [of "nat i" k] by (simp add: show_int_def nat_less_iff)

lemma pad_0 [simp]: "pad False 0 s = s"
  by (simp add: pad_def)

lemma vfmt_parts:
  "vfmt None ''<%d>'' [AInt i] = Some (''<'' @ show_int i @ ''>'')"
  "vfmt None ''%s[%d]: '' [AStr s, AInt i] = Some (s @ ''['' @ show_int i @ '']: '')"
  "vfmt None ''%s %2d %02d:%02d:%02d %s '' [AStr a, AInt b, AInt c, AInt d, AInt e, AStr f]
     = Some (a @ '' '' @ pad False 2 (show_int b) @ '' '' @ two_digits c @ '':'' @ two_digits d @ '':''
         @ two_digits e @ '' '' @ f @ '' '')"
  by (simp_all add: is_digit_def two_digits_def numeral_2_eq_2)

text \<open>Printing at the end of what is in a zeroed buffer.\<close>

lemma snprintf_append:
  assumes "vfmt None fmt args = Some text" and "length text < k" and "off = int (length p)" and "n = int k"
  shows "snprintf (p @ replicate k NUL) off n fmt args =
    Some (int (length text), (p @ text) @ replicate (k - length text) NUL)"
proof -
  have "replicate (k - length text) NUL = NUL # replicate (k - Suc (length text)) NUL"
    using assms(2) by (metis Suc_diff_Suc replicate_Suc)
  then show ?thesis
    using assms by (simp add: snprintf_def wr_block_def splice_def)
qed

lemma length_months: "m \<in> set months \<Longrightarrow> length m = 3"
  by (auto simp: months_def)

lemma part_lengths:
  assumes "syslog_ok st" and "env_ok env" and "0 \<le> level" and "level \<le> 7" and "month \<in> set months"
  shows "length (pri_part st level) \<le> 5" and "length (header_part env st month) \<le> 48"
    and "length (tag_part env st) \<le> 45"
proof -
  have "0 \<le> syslog_facility st OR level" "syslog_facility st OR level < 2 ^ 8"
    using assms OR_upper [of "syslog_facility st" 8 level] by (auto simp: syslog_ok_def)
  then show "length (pri_part st level) \<le> 5"
    using length_show_int [of "syslog_facility st OR level" 3] by (simp add: pri_part_def SYSLOG_MAKEPRI_def)
  have two: "length (two_digits i) \<le> 2" "length (pad False 2 (show_int i)) \<le> 2" if "0 \<le> i" "i < 100" for i
    using that length_show_int [of i 2] by (simp_all add: two_digits_def length_pad)
  show "length (header_part env st month) \<le> 48"
    using assms two(1) [of "tm_hour (localtime env)"] two(1) [of "tm_min (localtime env)"]
      two(1) [of "tm_sec (localtime env)"] two(2) [of "tm_mday (localtime env)"] length_months
    by (simp add: header_part_def Let_def env_ok_def syslog_ok_def)
  show "length (tag_part env st) \<le> 45"
    using assms length_show_int [of "getpid env" 10] by (simp add: tag_part_def env_ok_def syslog_ok_def)
qed

text \<open>The message after the three parts: what the copy leaves in the buffer, what is sent of it, and that this is the packet cut to the size of the buffer.\<close>

lemma packet_sent:
  assumes "length q \<le> 98" and "off = int (length q)" and "0 \<le> len" and "len \<le> int (length msg)"
    and "n = (if 1024 - off > len then len else 1024 - off)"
  obtains b where "memcpy (q @ replicate (1024 - length q) NUL) off msg 0 n = Some b" and "rd_block b 0 (off + n) = Some (take 1024 (q @ take (nat len) msg))"
proof -
  have n: "0 \<le> n" "n \<le> int (length msg)" "length q + nat n \<le> 1024" using assms by auto
  have "memcpy (q @ replicate (1024 - length q) NUL) off msg 0 n = Some (q @ take (nat n) msg @ replicate (1024 - length q - nat n) NUL)"
    using n assms(2) unfolding memcpy_def rd_block_def wr_block_def splice_def by simp
  moreover have "take 1024 (q @ take (nat len) msg) = q @ take (nat n) msg"
    using assms(1-3,5) n(1) by (cases "1024 - off > len") (simp_all add: min_def nat_diff_distrib)
  moreover have "off + n = int (length q + nat n)" using n assms(2) by simp
  then have "rd_block (q @ take (nat n) msg @ replicate (1024 - length q - nat n) NUL) 0 (off + n) = Some (q @ take (nat n) msg)"
    using n by (simp add: rd_block_def nat_add_distrib)
  ultimately show thesis using that by simp
qed

text \<open>The three parts printed one after the other.\<close>

lemma parts_printed:
  assumes "syslog_ok st" and "env_ok env" and "0 \<le> level" and "level \<le> 7" and "month \<in> set months"
  defines "p \<equiv> pri_part st level" and "h \<equiv> header_part env st month" and "t \<equiv> tag_part env st"
  shows "snprintf (replicate 1024 NUL) 0 1024 ''<%d>'' [AInt (SYSLOG_MAKEPRI (syslog_facility st) level)]
      = Some (int (length p), p @ replicate (1024 - length p) NUL)"
    and "snprintf (p @ replicate (1024 - length p) NUL) (int (length p)) (1024 - int (length p)) ''%s %2d %02d:%02d:%02d %s ''
      [AStr month, AInt (tm_mday (localtime env)), AInt (tm_hour (localtime env)), AInt (tm_min (localtime env)),
       AInt (tm_sec (localtime env)), AStr (cstr (syslog_hostname st) 0)]
      = Some (int (length h), (p @ h) @ replicate (1024 - length p - length h) NUL)"
    and "snprintf ((p @ h) @ replicate (1024 - length p - length h) NUL) (int (length p) + int (length h))
      (1024 - (int (length p) + int (length h))) ''%s[%d]: '' [AStr (cstr (syslog_program st) 0), AInt (getpid env)]
      = Some (int (length t), (p @ h @ t) @ replicate (1024 - length (p @ h @ t)) NUL)"
    and "length (p @ h @ t) \<le> 98"
proof -
  note len = part_lengths [OF assms(1-5), folded assms(6-8)]
  show "snprintf (replicate 1024 NUL) 0 1024 ''<%d>'' [AInt (SYSLOG_MAKEPRI (syslog_facility st) level)]
      = Some (int (length p), p @ replicate (1024 - length p) NUL)"
    using snprintf_append [OF vfmt_parts(1), of _ 1024 0 "[]" 1024] len(1) by (simp add: p_def pri_part_def)
  show "snprintf (p @ replicate (1024 - length p) NUL) (int (length p)) (1024 - int (length p)) ''%s %2d %02d:%02d:%02d %s ''
      [AStr month, AInt (tm_mday (localtime env)), AInt (tm_hour (localtime env)), AInt (tm_min (localtime env)),
       AInt (tm_sec (localtime env)), AStr (cstr (syslog_hostname st) 0)]
      = Some (int (length h), (p @ h) @ replicate (1024 - length p - length h) NUL)"
    unfolding h_def header_part_def Let_def
    by (rule snprintf_append [OF vfmt_parts(3)]) (use len(1,2) in \<open>simp_all add: h_def header_part_def Let_def\<close>)
  have "snprintf ((p @ h) @ replicate (1024 - length p - length h) NUL) (int (length p) + int (length h))
      (1024 - (int (length p) + int (length h))) ''%s[%d]: '' [AStr (cstr (syslog_program st) 0), AInt (getpid env)]
      = Some (int (length t), ((p @ h) @ t) @ replicate (1024 - length p - length h - length t) NUL)"
    unfolding t_def tag_part_def
    by (rule snprintf_append [OF vfmt_parts(2)]) (use len in \<open>simp_all add: t_def tag_part_def\<close>)
  then show "snprintf ((p @ h) @ replicate (1024 - length p - length h) NUL) (int (length p) + int (length h))
      (1024 - (int (length p) + int (length h))) ''%s[%d]: '' [AStr (cstr (syslog_program st) 0), AInt (getpid env)]
      = Some (int (length t), (p @ h @ t) @ replicate (1024 - length (p @ h @ t)) NUL)" by (simp add: add.assoc)
  show "length (p @ h @ t) \<le> 98" using len by simp
qed

text \<open>C35. With an open socket, a valid level and a month from February on, \<open>syslog_write\<close> sends one
  datagram: the priority, the time stamp with the name of the month before the current one, the
  host, the tag and the message, cut to 1024 bytes; no write leaves the buffer.\<close>

theorem syslog_write_packet:
  assumes "syslog_ok st" and "env_ok env" and "0 \<le> syslog_sock_fd st" and "0 \<le> level" and "level \<le> 7"
    and "1 \<le> tm_mon (localtime env)" and "0 \<le> len" and "len \<le> int (length msg)"
  shows "syslog_write env st level msg len = Some (if sendto_result env < 0 then 0 else 1,
    Some (take 1024 (pri_part st level @ header_part env st (months ! nat (tm_mon (localtime env) - 1))
      @ tag_part env st @ take (nat len) msg)))"
proof -
  let ?month = "months ! nat (tm_mon (localtime env) - 1)"
  have l: "length months = 12" "nat (tm_mon (localtime env) - 1) < 12" using assms(2,6) by (simp_all add: months_def env_ok_def Let_def nat_less_iff)
  then have m: "rd months (tm_mon (localtime env) - 1) = Some ?month" "?month \<in> set months" using assms(6) by (simp_all add: rd_def)
  define p h t where d: "p = pri_part st level" "h = header_part env st ?month" "t = tag_part env st"
  define q where q: "q = p @ h @ t"
  define n where "n = (if 1024 - (int (length p) + int (length h) + int (length t)) > len then len else 1024 - (int (length p) + int (length h) + int (length t)))"
  note s = parts_printed [OF assms(1,2,4,5) m(2), folded d, folded q]
  have off: "int (length p) + int (length h) + int (length t) = int (length q)" by (simp add: q)
  obtain b where "memcpy (q @ replicate (1024 - length q) NUL) (int (length q)) msg 0 n = Some b"
    "rd_block b 0 (int (length q) + n) = Some (take 1024 (q @ take (nat len) msg))"
    using packet_sent [OF s(4) refl assms(7,8)] unfolding n_def off by blast
  then have "syslog_write env st level msg len = Some (if sendto_result env < 0 then 0 else 1, Some (take 1024 (q @ take (nat len) msg)))"
    unfolding syslog_write_def Let_def SYSLOG_EMERG_def SYSLOG_DEBUG_def
    using assms(3-5,7) s(1-3) m(1) off by (simp add: n_def split: if_splits del: take_append)
  then show ?thesis by (simp add: q d)
qed

definition sample_state :: syslog_state where
  "sample_state = syslog_init\<lparr>syslog_sock_fd := 4, syslog_facility := SYSLOG_LOCAL0,
     syslog_hostname := ''www'' @ replicate 29 NUL, syslog_program := ''test'' @ replicate 28 NUL\<rparr>"

definition sample_env :: syslog_env where
  "sample_env = \<lparr>inet_aton = (\<lambda>_. (1, 2130706433)), socket_fd = 4,
     localtime = \<lparr>tm_mon = 2, tm_mday = 7, tm_hour = 9, tm_min = 5, tm_sec = 0\<rparr>, getpid = 42, sendto_result = 0\<rparr>"

lemma sample_ok: "syslog_ok sample_state" "env_ok sample_env"
  by (simp_all add: sample_state_def sample_env_def syslog_ok_def env_ok_def cstr_def SYSLOG_LOCAL0_def
      syslog_init_def)

lemma sample_parts:
  "pri_part sample_state 6 = ''<134>''" "tag_part sample_env sample_state = ''test[42]: ''"
  "header_part sample_env sample_state ''Feb'' = ''Feb  7 09:05:00 www ''"
  by code_simp+

theorem syslog_write_packet_witness:
  "syslog_write sample_env sample_state 6 ''hello'' 5 = Some (1, Some ''<134>Feb  7 09:05:00 www test[42]: hello'')"
proof -
  have "1 \<le> tm_mon (localtime sample_env)" "0 \<le> syslog_sock_fd sample_state"
    "months ! nat (tm_mon (localtime sample_env) - 1) = ''Feb''" "sendto_result sample_env = 0"
    by (simp_all add: sample_env_def sample_state_def months_def)
  then show ?thesis
    using syslog_write_packet [OF sample_ok, of 6 5 "''hello''"] by (simp add: sample_parts)
qed

text \<open>In January \<open>tm_mon\<close> is 0 and the month's name is read before the start of its table.\<close>

theorem syslog_write_january:
  assumes "0 \<le> syslog_sock_fd st" and "0 \<le> level" and "level \<le> 7" and "tm_mon (localtime env) = 0"
  shows "syslog_write env st level msg len = None"
proof -
  have "rd months (tm_mon (localtime env) - 1) = None" using assms(4) by (simp add: rd_def)
  then show ?thesis
    using assms(1-3)
    by (cases "snprintf (replicate 1024 NUL) 0 1024 ''<%d>'' [AInt (SYSLOG_MAKEPRI (syslog_facility st) level)]")
      (auto simp: syslog_write_def Let_def SYSLOG_EMERG_def SYSLOG_DEBUG_def)
qed

theorem syslog_write_january_witness:
  "syslog_write (sample_env\<lparr>localtime := (localtime sample_env)\<lparr>tm_mon := 0\<rparr>\<rparr>) sample_state 6 ''hello'' 5 = None"
  by (rule syslog_write_january) (simp_all add: sample_state_def)

lemma set_field_ok:
  assumes "length buf = 32" and "NUL \<notin> set s"
  shows "\<exists>b. set_field buf s = Some b \<and> length b = 32 \<and> cstr b 0 = take 31 s"
proof -
  let ?t = "take 31 (s @ replicate 31 NUL)"
  have "cstr (s @ [NUL]) 0 = s" by (rule cstr_whole [OF assms(2)])
  then have "set_field buf s = wr_block (replicate 32 NUL) 0 ?t"
    using assms(1) bzero_all [of buf 32] by (simp add: set_field_def strncpy_def Let_def)
  also have "\<dots> = Some (?t @ replicate 1 NUL)"
  proof -
    have "length ?t = 31" by simp
    moreover have "32 - 31 = (1 :: nat)" by simp
    ultimately have "length ?t \<le> length (replicate 32 NUL)" "drop (length ?t) (replicate 32 NUL) = replicate 1 NUL"
      by (simp_all only: drop_replicate length_replicate)
    then show ?thesis by (simp only: wr_block_0)
  qed
  also have "?t @ replicate 1 NUL = take 31 s @ replicate ((31 - length s) + 1) NUL"
    unfolding replicate_add take_append take_replicate by (simp add: min_def)
  finally show ?thesis
    using assms(2) cstr_0_pad [of "take 31 s" "(31 - length s) + 1"]
    by (auto dest: in_set_takeD simp del: replicate_add)
qed

text \<open>Opening with an address and a program name: when the address function and \<open>socket\<close> succeed
  and the facility is in range the result is 1 and the state is ready for \<open>syslog_write\<close>, with the
  host and program names cut to 31 characters; with a facility out of range the result is \<open>-1\<close>
  although the socket stays open.\<close>

theorem syslog_open_result:
  assumes "NUL \<notin> set ip" and "NUL \<notin> set host" and "NUL \<notin> set prog"
    and "length (syslog_ip st) = 32" and "length (syslog_hostname st) = 32" and "length (syslog_program st) = 32"
    and "0 \<le> fst (inet_aton env (take 31 ip))" and "0 \<le> socket_fd env"
  shows "\<exists>r st'. syslog_open env st (Some ip) port facility (Some host) (Some prog) = Some (r, st')
    \<and> syslog_sock_fd st' = socket_fd env
    \<and> syslog_addr st' = (snd (inet_aton env (take 31 ip)), port mod 2 ^ 16)
    \<and> (if 0 \<le> facility \<and> facility \<le> 184
       then r = 1 \<and> syslog_ok st' \<and> syslog_facility st' = facility
         \<and> cstr (syslog_hostname st') 0 = take 31 host \<and> cstr (syslog_program st') 0 = take 31 prog
       else r = -1 \<and> syslog_facility st' = syslog_facility st)"
proof -
  obtain ipb hb pb where f: "set_field (syslog_ip st) ip = Some ipb" "cstr ipb 0 = take 31 ip"
      "set_field (syslog_hostname st) host = Some hb" "cstr hb 0 = take 31 host"
      "set_field (syslog_program st) prog = Some pb" "cstr pb 0 = take 31 prog"
    using set_field_ok [OF assms(4,1)] set_field_ok [OF assms(5,2)] set_field_ok [OF assms(6,3)] by blast
  obtain r a where a: "inet_aton env (take 31 ip) = (r, a)" by force
  show ?thesis using f a assms(7,8)
    by (simp add: syslog_open_def Let_def SYSLOG_KERN_def SYSLOG_LOCAL7_def syslog_ok_def min_less_iff_disj)
qed

theorem syslog_open_result_witness:
  "\<exists>st'. syslog_open sample_env syslog_init (Some ''127.0.0.1'') 514 128 (Some ''www'') (Some ''test'') = Some (1, st')
     \<and> syslog_ok st'"
  using syslog_open_result [of "''127.0.0.1''" "''www''" "''test''" syslog_init sample_env 514 128]
  by (auto simp: syslog_init_def sample_env_def)

end
