(* ===== verification/Elog.thy ===== *)
theory Elog
  imports Esyslog
begin

text \<open>
  The logger of \<open>elog.c\<close>. Its static variables are the record \<open>log_state\<close>, together with the syslog
  client's state and the descriptors the process has open; what the system answers is the record
  \<open>log_env\<close>; what a call writes or sends is a list of \<open>log_event\<close>. The four functions with a fixed level
  repeat the body of \<open>log_by_level\<close>; the repeated part is \<open>log_line\<close>. The lemmas give the line written,
  its bounds, the level names, and what a failed change of the log file leaves behind.
\<close>

section \<open>State\<close>

definition LOG_LEVEL_DEBUG :: int where "LOG_LEVEL_DEBUG = 0"
definition LOG_LEVEL_INFO :: int where "LOG_LEVEL_INFO = 1"
definition LOG_LEVEL_WARN :: int where "LOG_LEVEL_WARN = 2"
definition LOG_LEVEL_ERROR :: int where "LOG_LEVEL_ERROR = 3"

lemmas level_defs = LOG_LEVEL_DEBUG_def LOG_LEVEL_INFO_def LOG_LEVEL_WARN_def LOG_LEVEL_ERROR_def

definition STDOUT_FILENO :: int where "STDOUT_FILENO = 1"

datatype log_destination = DST_CONSOLE | DST_FILE | DST_SYSLOG

definition log_level_map :: "string list" where
  "log_level_map = [''DEBUG'', ''INFO'', ''WARN'', ''ERROR'']"

definition syslog_level_map :: "int list" where
  "syslog_level_map = [SYSLOG_DEBUG, SYSLOG_INFO, SYSLOG_WARNING, SYSLOG_ERR]"

record log_state =
  log_level :: int
  log_fd :: int
  log_dst :: log_destination
  log_syslog :: syslog_state
  open_fds :: "int set"

definition log_init :: log_state where
  "log_init = \<lparr>log_level = LOG_LEVEL_INFO, log_fd = STDOUT_FILENO, log_dst = DST_CONSOLE,
     log_syslog = syslog_init, open_fds = {0, 1, 2}\<rparr>"

record log_env =
  strftime_now :: "string \<Rightarrow> string"
  opened_fd :: int
  syslog_sys :: syslog_env

datatype log_event = LogWrite int string | LogSend string

section \<open>Operations\<close>

definition log_set_file :: "log_env \<Rightarrow> log_state \<Rightarrow> int \<times> log_state" where
  "log_set_file env st =
     (let st1 = (if log_fd st \<noteq> STDOUT_FILENO then st\<lparr>open_fds := open_fds st - {log_fd st}\<rparr> else st);
          fd = opened_fd env
      in if fd = -1 then (0, st1)
         else (1, st1\<lparr>open_fds := insert fd (open_fds st1), log_dst := DST_FILE, log_fd := fd\<rparr>))"

definition log_set_syslog ::
  "log_env \<Rightarrow> log_state \<Rightarrow> string option \<Rightarrow> int \<Rightarrow> int \<Rightarrow> string option \<Rightarrow> string option \<Rightarrow> (int \<times> log_state) option" where
  "log_set_syslog env st ip port facility hostname program = do {
     (result, sys) \<leftarrow> syslog_open (syslog_sys env) (log_syslog st) ip port facility hostname program;
     let st1 = st\<lparr>log_syslog := sys\<rparr>;
     Some (result, if result \<noteq> 0 then st1\<lparr>log_dst := DST_SYSLOG\<rparr> else st1)
   }"

definition log_close :: "log_state \<Rightarrow> int \<times> log_state" where
  "log_close st =
     (case log_dst st of
        DST_SYSLOG \<Rightarrow> (let (r, sys, closed) = syslog_close (log_syslog st)
                        in (1, st\<lparr>log_syslog := sys, open_fds := open_fds st - set closed\<rparr>))
      | _ \<Rightarrow> (if log_fd st \<ge> 3
               then (1, st\<lparr>open_fds := open_fds st - {log_fd st}, log_fd := STDOUT_FILENO\<rparr>) else (1, st)))"

text \<open>The source tests the static \<open>log_level\<close>, not its parameter.\<close>

definition log_set_level :: "log_state \<Rightarrow> int \<Rightarrow> log_state" where
  "log_set_level st level =
     (if log_level st < LOG_LEVEL_DEBUG then st\<lparr>log_level := LOG_LEVEL_DEBUG\<rparr>
      else if log_level st > LOG_LEVEL_ERROR then st\<lparr>log_level := LOG_LEVEL_ERROR\<rparr>
      else st\<lparr>log_level := level\<rparr>)"

text \<open>\<open>strftime\<close> leaves the buffer indeterminate when the text does not fit; the model then keeps it.\<close>

definition format_cur_time :: "(string \<Rightarrow> string) \<Rightarrow> string \<Rightarrow> int \<Rightarrow> string option \<Rightarrow> string option" where
  "format_cur_time strftime time_buffer time_buffer_size format =
     (let text = strftime (case format of None \<Rightarrow> ''%Y-%m-%d %H:%M:%S'' | Some f \<Rightarrow> f)
      in if int (length text) < time_buffer_size then wr_block time_buffer 0 (text @ [NUL]) else Some time_buffer)"

text \<open>The end both branches share: the newline after the (cut) line, and the bytes handed on.\<close>

definition finish_line :: "int \<Rightarrow> string \<Rightarrow> string option" where
  "finish_line line_size line_buffer =
     (let n = (if line_size > 8096 - 2 then 8096 - 2 else line_size) in do {
        b \<leftarrow> wr line_buffer n LF;
        rd_block b 0 (n + 1)
      })"

definition log_line :: "log_env \<Rightarrow> log_state \<Rightarrow> int \<Rightarrow> string \<Rightarrow> carg list \<Rightarrow> (int \<times> log_event list) option" where
  "log_line env st level fmt args =
     (if log_dst st \<noteq> DST_SYSLOG then do {
        time_buffer \<leftarrow> format_cur_time (strftime_now env) (replicate 32 NUL) 32 None;
        name \<leftarrow> rd log_level_map level;
        (_, format_buffer) \<leftarrow> snprintf (replicate 1024 NUL) 0 (1024 - 1) ''[%s] [%s] %s''
          [AStr name, AStr (cstr time_buffer 0), AStr fmt];
        (line_size, line_buffer) \<leftarrow> snprintf (replicate 8096 NUL) 0 (8096 - 2) (cstr format_buffer 0) args;
        if line_size \<le> 0 then Some (0, [])
        else do { line \<leftarrow> finish_line line_size line_buffer; Some (1, [LogWrite (log_fd st) line]) }
      }
      else do {
        (line_size, line_buffer) \<leftarrow> snprintf (replicate 8096 NUL) 0 (8096 - 2) fmt args;
        if line_size \<le> 0 then Some (0, [])
        else do {
          line \<leftarrow> finish_line line_size line_buffer;
          pri \<leftarrow> rd syslog_level_map level;
          (r, packet) \<leftarrow> syslog_write (syslog_sys env) (log_syslog st) pri line (int (length line));
          Some (if r = 0 then 0 else 1, case packet of None \<Rightarrow> [] | Some p \<Rightarrow> [LogSend p])
        }
      })"

definition log_by_level :: "log_env \<Rightarrow> log_state \<Rightarrow> int \<Rightarrow> string \<Rightarrow> carg list \<Rightarrow> (int \<times> log_event list) option" where
  "log_by_level env st level fmt args =
     (if level < log_level st then Some (1, [])
      else log_line env st (if level > LOG_LEVEL_ERROR then LOG_LEVEL_ERROR else level) fmt args)"

definition log_debug :: "log_env \<Rightarrow> log_state \<Rightarrow> string \<Rightarrow> carg list \<Rightarrow> (int \<times> log_event list) option" where
  "log_debug env st fmt args = (let level = LOG_LEVEL_DEBUG in
     if level < log_level st then Some (1, [])
     else log_line env st (if level > LOG_LEVEL_ERROR then LOG_LEVEL_ERROR else level) fmt args)"

definition log_info :: "log_env \<Rightarrow> log_state \<Rightarrow> string \<Rightarrow> carg list \<Rightarrow> (int \<times> log_event list) option" where
  "log_info env st fmt args = (let level = LOG_LEVEL_INFO in
     if level < log_level st then Some (1, [])
     else log_line env st (if level > LOG_LEVEL_ERROR then LOG_LEVEL_ERROR else level) fmt args)"

definition log_warn :: "log_env \<Rightarrow> log_state \<Rightarrow> string \<Rightarrow> carg list \<Rightarrow> (int \<times> log_event list) option" where
  "log_warn env st fmt args = (let level = LOG_LEVEL_WARN in
     if level < log_level st then Some (1, [])
     else log_line env st (if level > LOG_LEVEL_ERROR then LOG_LEVEL_ERROR else level) fmt args)"

definition log_error :: "log_env \<Rightarrow> log_state \<Rightarrow> string \<Rightarrow> carg list \<Rightarrow> (int \<times> log_event list) option" where
  "log_error env st fmt args = (let level = LOG_LEVEL_ERROR in
     if level < log_level st then Some (1, [])
     else log_line env st (if level > LOG_LEVEL_ERROR then LOG_LEVEL_ERROR else level) fmt args)"

text \<open>The name of a level, and what the error message for an unknown one wrote.\<close>

definition log_level_str :: "log_env \<Rightarrow> log_state \<Rightarrow> int \<Rightarrow> (string option \<times> log_event list) option" where
  "log_level_str env st level =
     (if level < 0 \<or> level > 3 then do {
        (_, ev) \<leftarrow> log_error env st (''log_level should be 0, 1, 2, 3, %d is illegal'' @ [LF]) [AInt level];
        Some (None, ev)
      }
      else do { name \<leftarrow> rd log_level_map level; Some (Some name, []) })"

definition lower :: "char \<Rightarrow> char" where
  "lower c = (let n = (of_char c :: nat) in if 65 \<le> n \<and> n \<le> 90 then char_of (n + 32) else c)"

definition strcasecmp_eq :: "string \<Rightarrow> string \<Rightarrow> bool" where
  "strcasecmp_eq a b \<longleftrightarrow> map lower a = map lower b"

definition log_level_int :: "string \<Rightarrow> int" where
  "log_level_int level_str =
     (if strcasecmp_eq level_str ''debug'' then LOG_LEVEL_DEBUG
      else if strcasecmp_eq level_str ''info'' then LOG_LEVEL_INFO
      else if strcasecmp_eq level_str ''warn'' then LOG_LEVEL_WARN
      else if strcasecmp_eq level_str ''error'' then LOG_LEVEL_ERROR
      else - 1)"

section \<open>The line written\<close>

text \<open>The format handed to the second \<open>vsnprintf\<close>, at most 1022 characters of it.\<close>

definition line_format :: "log_env \<Rightarrow> int \<Rightarrow> string \<Rightarrow> string" where
  "line_format env level fmt = take 1022 (''['' @ log_level_map ! nat level @ ''] [''
     @ strftime_now env ''%Y-%m-%d %H:%M:%S'' @ ''] '' @ fmt)"

text \<open>The line cut to the buffer: from 8094 characters on, the last byte before the newline is the
  terminator \<open>vsnprintf\<close> wrote.\<close>

definition cut_line :: "string \<Rightarrow> string" where
  "cut_line text = take 8093 text @ (if 8093 < length text then [NUL] else []) @ [LF]"

lemma finish_line_cut:
  assumes "snprintf (replicate 8096 NUL) 0 (8096 - 2) f args = Some (n, b)" and "vfmt None f args = Some text"
  shows "finish_line n b = Some (cut_line text)" and "n = int (length text)"
proof -
  let ?t = "take 8093 text"
  define k where "k = length ?t"
  have k: "k \<le> 8093" by (simp add: k_def)
  have l: "length (?t @ [NUL]) = k + 1" by (simp add: k_def)
  have "wr_block (replicate 8096 NUL) 0 (?t @ [NUL])
      = Some ((?t @ [NUL]) @ drop (length (?t @ [NUL])) (replicate 8096 NUL))"
  proof (rule wr_block_0)
    show "length (?t @ [NUL]) \<le> length (replicate 8096 NUL)" unfolding l length_replicate using k by simp
  qed
  then have "snprintf (replicate 8096 NUL) 0 (8096 - 2) f args
      = Some (int (length text), (?t @ [NUL]) @ replicate (8096 - (k + 1)) NUL)"
    using assms(2) unfolding l drop_replicate by (simp add: snprintf_def)
  then have n: "n = int (length text)" and b: "b = (?t @ [NUL]) @ replicate (8095 - k) NUL"
    using assms(1) by auto
  show "n = int (length text)" by (rule n)
  show "finish_line n b = Some (cut_line text)"
  proof (cases "8093 < length text")
    case True
    then have kk: "k = 8093" by (simp add: k_def)
    have r: "replicate (8095 - k) NUL = [NUL] @ [NUL]" by (simp add: kk numeral_2_eq_2)
    have m: "(if n > 8096 - 2 then 8096 - 2 else n) = int (length (?t @ [NUL]) + 0)"
      unfolding l kk using True n by auto
    have w: "wr b (int (length (?t @ [NUL]) + 0)) LF = Some ((?t @ [NUL, LF]) @ [NUL])"
      unfolding b r using wr_append [of 0 "[NUL] @ [NUL]" "?t @ [NUL]" LF] by simp
    have e: "int (length (?t @ [NUL]) + 0) + 1 = int (length (?t @ [NUL, LF]))" by simp
    show ?thesis
      using True unfolding finish_line_def Let_def m w bind.bind_lunit e rd_block_prefix by (simp add: cut_line_def)
  next
    case False
    then have kk: "k = length text" and t: "?t = text" by (simp_all add: k_def)
    have m: "(if n > 8096 - 2 then 8096 - 2 else n) = int (length text + 0)" using False n by auto
    have w: "wr b (int (length text + 0)) LF = Some ((text @ [LF]) @ replicate (8095 - k) NUL)"
      unfolding b t using wr_append [of 0 "NUL # replicate (8095 - k) NUL" "text" LF] by simp
    have e: "int (length text + 0) + 1 = int (length (text @ [LF]))" by simp
    show ?thesis
      using False unfolding finish_line_def Let_def m w bind.bind_lunit e rd_block_prefix by (simp add: cut_line_def)
  qed
qed


definition demo_env :: log_env where
  "demo_env = \<lparr>strftime_now = (\<lambda>_. ''2026-01-01 00:00:00''), opened_fd = 5, syslog_sys = sample_env\<rparr>"


text \<open>The five entry points agree: each function with a fixed level is \<open>log_by_level\<close> at that level.\<close>

theorem log_levels_agree:
  "log_debug env st fmt args = log_by_level env st LOG_LEVEL_DEBUG fmt args
   \<and> log_info env st fmt args = log_by_level env st LOG_LEVEL_INFO fmt args
   \<and> log_warn env st fmt args = log_by_level env st LOG_LEVEL_WARN fmt args
   \<and> log_error env st fmt args = log_by_level env st LOG_LEVEL_ERROR fmt args"
  by (simp add: log_debug_def log_info_def log_warn_def log_error_def log_by_level_def)

lemma log_level_names:
  "log_level_str env st 0 = Some (Some ''DEBUG'', [])" "log_level_str env st 1 = Some (Some ''INFO'', [])"
  "log_level_str env st 2 = Some (Some ''WARN'', [])" "log_level_str env st 3 = Some (Some ''ERROR'', [])"
  by (simp_all add: log_level_str_def log_level_map_def rd_def)

lemma level_range: "0 \<le> (level :: int) \<Longrightarrow> level \<le> 3 \<Longrightarrow> level = 0 \<or> level = 1 \<or> level = 2 \<or> level = 3"
  by presburger

text \<open>Level names round-trip: for a valid level \<open>log_level_str\<close> gives a name without logging
  anything, and \<open>log_level_int\<close> of that name, in any mix of cases, is the level again.\<close>

theorem log_level_roundtrip:
  assumes "0 \<le> level" and "level \<le> 3"
  shows "\<exists>name. log_level_str env st level = Some (Some name, [])
    \<and> (\<forall>s. map lower s = map lower name \<longleftrightarrow> log_level_int s = level)"
proof -
  have l: "map lower ''DEBUG'' = ''debug''" "map lower ''INFO'' = ''info''" "map lower ''WARN'' = ''warn''"
    "map lower ''ERROR'' = ''error''" "map lower ''debug'' = ''debug''" "map lower ''info'' = ''info''"
    "map lower ''warn'' = ''warn''" "map lower ''error'' = ''error''"
    by code_simp+
  have i: "log_level_int s = (if map lower s = ''debug'' then 0 else if map lower s = ''info'' then 1
      else if map lower s = ''warn'' then 2 else if map lower s = ''error'' then 3 else -1)" for s
    unfolding log_level_int_def strcasecmp_eq_def l level_defs ..
  from level_range [OF assms] show ?thesis
  proof (elim disjE)
    assume "level = 0"
    then show ?thesis using i l(1) log_level_names(1) by (intro exI [of _ "''DEBUG''"]) simp
  next
    assume "level = 1"
    then show ?thesis using i l(2) log_level_names(2) by (intro exI [of _ "''INFO''"]) simp
  next
    assume "level = 2"
    then show ?thesis using i l(3) log_level_names(3) by (intro exI [of _ "''WARN''"]) simp
  next
    assume "level = 3"
    then show ?thesis using i l(4) log_level_names(4) by (intro exI [of _ "''ERROR''"]) simp
  qed
qed

theorem log_level_roundtrip_witness: "log_level_int ''WaRn'' = 2"
proof -
  have "(0 :: int) \<le> 2" "(2 :: int) \<le> 3" by simp_all
  from log_level_roundtrip [OF this, of demo_env log_init]
  obtain name where n: "log_level_str demo_env log_init 2 = Some (Some name, [])"
    "\<And>s. map lower s = map lower name \<longleftrightarrow> log_level_int s = 2"
    by blast
  from n(1) have "name = ''WARN''" using log_level_names(3) [of demo_env log_init] by simp
  moreover have "map lower ''WaRn'' = map lower ''WARN''" by code_simp
  ultimately show ?thesis using n(2) by blast
qed

text \<open>\<open>log_set_level\<close> does not check its argument: from a valid level it takes any value, and with
  a negative one a message of a negative level indexes the table of level names out of bounds.\<close>

theorem log_set_level_unchecked:
  assumes "0 \<le> log_level st" and "log_level st \<le> 3" and "new \<le> level" and "level < 0" and "log_dst st \<noteq> DST_SYSLOG"
  shows "log_level (log_set_level st new) = new
    \<and> log_by_level env (log_set_level st new) level fmt args = None"
proof -
  have "rd log_level_map level = None" using assms(4) by (simp add: rd_neg)
  then have "log_line env (log_set_level st new) level fmt args = None"
    using assms(5) by (cases "format_cur_time (strftime_now env) (replicate 32 NUL) 32 None")
      (simp_all add: log_line_def log_set_level_def)
  then show ?thesis using assms by (simp add: log_set_level_def log_by_level_def level_defs)
qed

theorem log_set_level_unchecked_witness:
  "log_by_level demo_env (log_set_level log_init (- 2)) (- 1) ''hi'' [] = None"
  using log_set_level_unchecked [of log_init "- 2" "- 1" demo_env "''hi''" "[]"]
  by (simp add: log_init_def LOG_LEVEL_INFO_def)

text \<open>Changing the log file closes the old descriptor before the new file is opened: when \<open>open\<close>
  fails, the logger keeps the closed descriptor and its destination, so its next line goes to
  whatever that number refers to; when it succeeds, exactly the new descriptor replaces the old.\<close>

theorem log_set_file_descriptors:
  assumes "log_fd st \<in> open_fds st" and "log_fd st \<noteq> STDOUT_FILENO" and "opened_fd env \<noteq> -1 \<Longrightarrow> opened_fd env \<notin> open_fds st - {log_fd st}"
    and "log_set_file env st = (r, st')"
  shows "if opened_fd env = -1
    then r = 0 \<and> log_fd st' = log_fd st \<and> log_dst st' = log_dst st \<and> log_fd st' \<notin> open_fds st'
    else r = 1 \<and> log_dst st' = DST_FILE \<and> log_fd st' = opened_fd env \<and> log_fd st' \<in> open_fds st'
      \<and> open_fds st' - {log_fd st'} = open_fds st - {log_fd st}"
  using assms by (auto simp: log_set_file_def Let_def split: if_splits)

theorem log_set_file_descriptors_witness:
  "\<exists>st'. log_set_file (demo_env\<lparr>opened_fd := -1\<rparr>) (log_init\<lparr>log_fd := 5, open_fds := {0, 1, 2, 5}\<rparr>) = (0, st')
     \<and> log_fd st' \<notin> open_fds st'"
  using log_set_file_descriptors [of "log_init\<lparr>log_fd := 5, open_fds := {0, 1, 2, 5}\<rparr>" "demo_env\<lparr>opened_fd := -1\<rparr>"]
  by (auto simp: STDOUT_FILENO_def log_set_file_def)

end
