(* ===== verification/Eother.thy ===== *)
theory Eother
  imports Cprintf
begin

text \<open>
  The file-system and system helpers of \<open>eother.c\<close>. System calls are parameters: \<open>access\<close> and \<open>mkdir\<close> over an
  arbitrary file-system state for \<open>create_dir\<close>, answers for the rest; \<open>list_dir\<close> and \<open>get_ip\<close> get the entries
  and interfaces the system lists. A file's contents matter only by their length. The lemmas give the
  suffix of a file name and show that \<open>create_dir\<close> makes every directory on the path.
\<close>

section \<open>File names\<close>

function file_suffix_loop :: "string \<Rightarrow> int \<Rightarrow> int \<Rightarrow> ptr option" where
  "file_suffix_loop m file_name p =
     (if file_name \<le> p then
        (case rd m p of None \<Rightarrow> None
         | Some c \<Rightarrow> if CHR ''.'' = c then Some (At (p + 1)) else file_suffix_loop m file_name (p - 1))
      else Some NULL)"
  by pat_completeness auto
termination
  by (relation "measure (\<lambda>(m, f, p). nat (p - f + 1))") auto

declare file_suffix_loop.simps [simp del]

fun file_suffix :: "string \<Rightarrow> ptr \<Rightarrow> ptr option" where
  "file_suffix m NULL = Some NULL"
| "file_suffix m (At file_name) = do {
     str_len \<leftarrow> strlen m file_name;
     if str_len = 0 then Some NULL
     else do {
       c \<leftarrow> rd m (file_name + str_len - 1);
       if CHR ''.'' = c then Some NULL else file_suffix_loop m file_name (file_name + str_len - 1)
     }
   }"

section \<open>Files\<close>

text \<open>A file system as the lengths of its files; \<open>r_ok\<close> says which files the process may read.\<close>

type_synonym file_sizes = "string \<Rightarrow> int option"

definition file_get_length :: "file_sizes \<Rightarrow> string \<Rightarrow> int" where
  "file_get_length fs file_name = (case fs file_name of Some n \<Rightarrow> n | None \<Rightarrow> -1)"

definition file_exist :: "(string \<Rightarrow> bool) \<Rightarrow> file_sizes \<Rightarrow> string \<Rightarrow> int" where
  "file_exist r_ok fs file_name = (if fs file_name \<noteq> None \<and> r_ok file_name then 1 else 0)"

definition create_file :: "bool \<Rightarrow> bool \<Rightarrow> file_sizes \<Rightarrow> string \<Rightarrow> int \<Rightarrow> int \<times> file_sizes" where
  "create_file fopen_ok truncate_ok fs file_name sz =
     (if \<not> fopen_ok then (0, fs)
      else let fs1 = fs(file_name \<mapsto> 0) in
        if \<not> truncate_ok then (0, fs1) else (1, fs1(file_name \<mapsto> sz)))"

definition create_file_if_not_existed ::
  "(string \<Rightarrow> bool) \<Rightarrow> bool \<Rightarrow> file_sizes \<Rightarrow> string \<Rightarrow> int \<times> file_sizes" where
  "create_file_if_not_existed r_ok fopen_ok fs file_name =
     (if file_exist r_ok fs file_name = 1 then (1, fs)
      else if \<not> fopen_ok then (0, fs) else (1, fs(file_name \<mapsto> 0)))"

definition remove_file :: "(string \<Rightarrow> bool) \<Rightarrow> bool \<Rightarrow> file_sizes \<Rightarrow> string \<Rightarrow> int \<times> file_sizes" where
  "remove_file r_ok unlink_ok fs file_name =
     (if file_exist r_ok fs file_name = 0 then (1, fs)
      else if \<not> unlink_ok then (0, fs) else (1, fs(file_name := None)))"

section \<open>Directories\<close>

text \<open>The paths handed to the callback, in order; \<open>entries\<close> is \<open>None\<close> when \<open>opendir\<close> fails.\<close>

fun list_dir_loop :: "string \<Rightarrow> string list \<Rightarrow> string list option" where
  "list_dir_loop path [] = Some []"
| "list_dir_loop path (d_name # entries) =
     (if d_name = ''.'' \<or> d_name = ''..'' then list_dir_loop path entries
      else do {
        (_, file_path) \<leftarrow> snprintf (replicate 128 NUL) 0 127 ''%s%s'' [AStr path, AStr d_name];
        rest \<leftarrow> list_dir_loop path entries;
        Some (cstr file_path 0 # rest)
      })"

definition list_dir :: "string list option \<Rightarrow> string \<Rightarrow> (int \<times> string list) option" where
  "list_dir entries path =
     (case entries of None \<Rightarrow> Some (0, [])
      | Some es \<Rightarrow> map_option (\<lambda>l. (1, l)) (list_dir_loop path es))"

text \<open>\<open>if (access (str, F_OK) != 0) mkdir (str, 0777)\<close>: whether to go on, and the file system.\<close>

definition ensure_dir :: "('f \<Rightarrow> string \<Rightarrow> int) \<Rightarrow> ('f \<Rightarrow> string \<Rightarrow> int \<times> 'f) \<Rightarrow> 'f \<Rightarrow> string \<Rightarrow> bool \<times> 'f" where
  "ensure_dir access mkdir fs str =
     (if access fs str \<noteq> 0 then (let (r, fs') = mkdir fs str in (r \<noteq> -1, fs')) else (True, fs))"

text \<open>The loop over the copied path; \<open>Inl\<close> is the early return.\<close>

function create_dir_loop ::
  "('f \<Rightarrow> string \<Rightarrow> int) \<Rightarrow> ('f \<Rightarrow> string \<Rightarrow> int \<times> 'f) \<Rightarrow> 'f \<Rightarrow> string \<Rightarrow> int \<Rightarrow> int \<Rightarrow> ('f + 'f \<times> string) option" where
  "create_dir_loop access mkdir fs str len i =
     (if i < len then
        (case rd str i of None \<Rightarrow> None
         | Some c \<Rightarrow>
           if c = CHR ''/'' \<and> i > 0 then do {
             str1 \<leftarrow> wr str i NUL;
             let (go, fs1) = ensure_dir access mkdir fs (cstr str1 0);
             if \<not> go then Some (Inl fs1)
             else do {
               str2 \<leftarrow> wr str1 i (CHR ''/'');
               create_dir_loop access mkdir fs1 str2 len (i + 1)
             }
           }
           else create_dir_loop access mkdir fs str len (i + 1))
      else Some (Inr (fs, str)))"
  by pat_completeness auto
termination
  by (relation "measure (\<lambda>(a, mk, fs, s, len, i). nat (len - i))") auto

declare create_dir_loop.simps [simp del]

definition create_dir ::
  "('f \<Rightarrow> string \<Rightarrow> int) \<Rightarrow> ('f \<Rightarrow> string \<Rightarrow> int \<times> 'f) \<Rightarrow> 'f \<Rightarrow> string \<Rightarrow> (int \<times> 'f) option" where
  "create_dir access mkdir fs path_name = do {
     str \<leftarrow> strncpy (replicate 1024 NUL) 0 (path_name @ [NUL]) 0 (1024 - 1);
     len \<leftarrow> strlen str 0;
     r \<leftarrow> create_dir_loop access mkdir fs str len 0;
     case r of
       Inl fs1 \<Rightarrow> Some (0, fs1)
     | Inr (fs1, str1) \<Rightarrow>
         if len > 0 then
           let (go, fs2) = ensure_dir access mkdir fs1 (cstr str1 0)
           in Some (if go then 1 else 0, fs2)
         else Some (1, fs1)
   }"

section \<open>System\<close>

text \<open>\<open>random ()\<close> after \<open>srand\<close> is the argument, a value below \<open>2 ^ 31\<close>; a remainder by zero is undefined.\<close>

definition create_random :: "int \<Rightarrow> int \<Rightarrow> int option" where
  "create_random random max_val = (if max_val = 0 then None else Some (random smod max_val))"

text \<open>An interface: its name, address family, and the bytes of its \<open>sockaddr\<close> after the family. Both branches
  read the bytes at the place of the IPv4 address, two bytes after the family.\<close>

record ifaddr =
  ifa_name :: string
  ifa_addr :: "(int \<times> nat list) option"

definition AF_INET :: int where "AF_INET = 2"
definition AF_INET6 :: int where "AF_INET6 = 10"

fun get_ip :: "(int \<Rightarrow> nat list \<Rightarrow> string) \<Rightarrow> ifaddr list \<Rightarrow> string \<Rightarrow> (int \<times> string option) option" where
  "get_ip inet_ntop [] version = Some (0, None)"
| "get_ip inet_ntop (i # is) version =
     (case ifa_addr i of None \<Rightarrow> None
      | Some (family, data) \<Rightarrow>
        if family = AF_INET then
          if (ifa_name i = ''en0'' \<or> ifa_name i = ''eth0'') \<and> version = ''v4''
          then Some (1, Some (inet_ntop AF_INET (take 4 (drop 2 data))))
          else get_ip inet_ntop is version
        else if family = AF_INET6 then
          if (ifa_name i = ''en0'' \<or> ifa_name i = ''eth0'') \<and> version = ''v6''
          then Some (1, Some (inet_ntop AF_INET6 (take 16 (drop 2 data))))
          else get_ip inet_ntop is version
        else get_ip inet_ntop is version)"

section \<open>The suffix of a file name\<close>

lemma file_suffix_loop_found:
  "CHR ''.'' \<notin> set v \<Longrightarrow> f \<le> int (length a) \<Longrightarrow> p = int (length a) + int (length v) \<Longrightarrow>
   file_suffix_loop (a @ CHR ''.'' # v @ b) f p = Some (At (int (length a) + 1))"
proof (induction v arbitrary: b p rule: rev_induct)
  case Nil
  then show ?case by (subst file_suffix_loop.simps) simp
next
  case (snoc x v)
  have "rd (a @ CHR ''.'' # v @ x # b) p = Some x"
    using rd_mid [of p "a @ CHR ''.'' # v" x b] snoc.prems by simp
  moreover have "file_suffix_loop (a @ CHR ''.'' # v @ (x # b)) f (p - 1) = Some (At (int (length a) + 1))"
    using snoc.prems by (intro snoc.IH) auto
  ultimately show ?case using snoc.prems by (subst file_suffix_loop.simps) auto
qed

lemma file_suffix_loop_none:
  "CHR ''.'' \<notin> set v \<Longrightarrow> f = int (length a) \<Longrightarrow> p = int (length a) + int (length v) - 1 \<Longrightarrow>
   file_suffix_loop (a @ v @ b) f p = Some NULL"
proof (induction v arbitrary: b p rule: rev_induct)
  case Nil
  then show ?case by (subst file_suffix_loop.simps) simp
next
  case (snoc x v)
  have "rd (a @ v @ x # b) p = Some x"
    using rd_mid [of p "a @ v" x b] snoc.prems by simp
  moreover have "file_suffix_loop (a @ v @ (x # b)) f (p - 1) = Some NULL"
    using snoc.prems by (intro snoc.IH) auto
  ultimately show ?case using snoc.prems by (subst file_suffix_loop.simps) auto
qed

text \<open>\<open>file_suffix\<close> returns a pointer to what follows the last dot of the name, wherever that dot is;
  \<open>NULL\<close> when there is no dot or the name ends with one.\<close>

theorem file_suffix_last_dot:
  assumes "NUL \<notin> set s"
  shows "(\<forall>u v. s = u @ CHR ''.'' # v \<longrightarrow> CHR ''.'' \<notin> set v \<longrightarrow> v \<noteq> [] \<longrightarrow>
      (\<exists>p. file_suffix (a @ s @ NUL # b) (At (int (length a))) = Some (At (int p)) \<and> cstr (a @ s @ NUL # b) p = v))
    \<and> (CHR ''.'' \<notin> set s \<or> last s = CHR ''.'' \<longrightarrow>
      file_suffix (a @ s @ NUL # b) (At (int (length a))) = Some NULL)"
proof -
  let ?m = "a @ s @ NUL # b" and ?f = "int (length a)"
  have len: "strlen ?m ?f = Some (int (length s))" using assms by (simp add: strlen_at)
  have lst: "rd ?m (?f + int (length s) - 1) = Some (last s)" if "s \<noteq> []"
    using that rd_mid [of "?f + int (length s) - 1" "a @ butlast s" "last s" "NUL # b"] by (cases s rule: rev_cases) auto
  have "\<exists>p. file_suffix ?m (At ?f) = Some (At (int p)) \<and> cstr ?m p = v"
    if s: "s = u @ CHR ''.'' # v" and v: "CHR ''.'' \<notin> set v" "v \<noteq> []" for u v
  proof -
    have "file_suffix_loop ((a @ u) @ CHR ''.'' # v @ NUL # b) ?f (?f + int (length s) - 1)
        = Some (At (int (length (a @ u)) + 1))"
      using s v(1) by (intro file_suffix_loop_found) auto
    moreover have "last v \<noteq> CHR ''.''" using last_in_set [OF v(2)] v(1) by metis
    then have "last s \<noteq> CHR ''.''" "s \<noteq> []" using s v(2) by auto
    ultimately have "file_suffix ?m (At ?f) = Some (At (int (length (a @ u @ ''.''))))"
      using len lst s by simp
    moreover have "cstr ?m (length (a @ u @ ''.'')) = v"
      using cstr_at [of v "a @ u @ ''.''" _ b] assms s by simp
    ultimately show ?thesis by blast
  qed
  moreover have "file_suffix ?m (At ?f) = Some NULL" if "CHR ''.'' \<notin> set s \<or> last s = CHR ''.''"
  proof (cases "s = [] \<or> last s = CHR ''.''")
    case True
    then show ?thesis using len lst by auto
  next
    case False
    then show ?thesis using len lst that file_suffix_loop_none [of s ?f a "?f + int (length s) - 1" "NUL # b"] by simp
  qed
  ultimately show ?thesis by blast
qed

theorem file_suffix_last_dot_witness:
  "\<exists>p. file_suffix (''a.tar.gz'' @ [NUL]) (At 0) = Some (At (int p)) \<and> cstr (''a.tar.gz'' @ [NUL]) p = ''gz''"
proof -
  have "NUL \<notin> set ''a.tar.gz''" "''a.tar.gz'' = ''a.tar'' @ CHR ''.'' # ''gz''" "CHR ''.'' \<notin> set ''gz''" "''gz'' \<noteq> []"
    by simp_all
  from file_suffix_last_dot [OF this(1), THEN conjunct1, rule_format, OF this(2-4), of "[]" "[]"]
  show ?thesis by (simp only: append_Nil append.simps list.size int_ops(1))
qed

section \<open>Creating a path\<close>

text \<open>The directories on the way to a path: what precedes each slash but a leading one, and the path.\<close>

definition dir_prefixes :: "string \<Rightarrow> string list" where
  "dir_prefixes s = map (\<lambda>i. take i s) (filter (\<lambda>i. s ! i = CHR ''/'') [1..<length s]) @ (if s = [] then [] else [s])"

fun make_dirs :: "('f \<Rightarrow> string \<Rightarrow> int) \<Rightarrow> ('f \<Rightarrow> string \<Rightarrow> int \<times> 'f) \<Rightarrow> 'f \<Rightarrow> string list \<Rightarrow> bool \<times> 'f" where
  "make_dirs access mkdir fs [] = (True, fs)"
| "make_dirs access mkdir fs (p # ps) =
     (let (go, fs1) = ensure_dir access mkdir fs p in if go then make_dirs access mkdir fs1 ps else (False, fs1))"

lemma make_dirs_append:
  "make_dirs access mkdir fs (ps @ qs) =
     (let (go, fs1) = make_dirs access mkdir fs ps in if go then make_dirs access mkdir fs1 qs else (False, fs1))"
  by (induction ps arbitrary: fs) (auto simp: Let_def split: prod.split)

lemma create_dir_loop_prefixes:
  assumes "NUL \<notin> set s" and "i \<le> length s"
  shows "create_dir_loop access mkdir fs (s @ NUL # b) (int (length s)) (int i) =
    Some (let (go, fs1) = make_dirs access mkdir fs
              (map (\<lambda>j. take j s) (filter (\<lambda>j. s ! j = CHR ''/'' \<and> 0 < j) [i..<length s]))
          in if go then Inr (fs1, s @ NUL # b) else Inl fs1)"
  using assms(2)
proof (induction "length s - i" arbitrary: i fs)
  case 0
  then show ?case by (subst create_dir_loop.simps) simp
next
  case (Suc n)
  then have i: "i < length s" by simp
  then have up: "[i..<length s] = i # [Suc i..<length s]" by (rule upt_conv_Cons)
  have ih: "create_dir_loop access mkdir fs' (s @ NUL # b) (int (length s)) (int i + 1) =
    Some (let (go, fs1) = make_dirs access mkdir fs'
              (map (\<lambda>j. take j s) (filter (\<lambda>j. s ! j = CHR ''/'' \<and> 0 < j) [Suc i..<length s]))
          in if go then Inr (fs1, s @ NUL # b) else Inl fs1)" for fs'
    using Suc(1) [of "Suc i" fs'] Suc(2) i by (simp add: add.commute)
  have split: "s @ NUL # b = take i s @ s ! i # (drop (Suc i) s @ NUL # b)"
    using i by (simp add: id_take_nth_drop [symmetric])
  have len: "int i = int (length (take i s))" using i by simp
  have rd: "rd (s @ NUL # b) (int i) = Some (s ! i)" unfolding split by (rule rd_mid [OF len])
  show ?case
  proof (cases "s ! i = CHR ''/'' \<and> 0 < i")
    case True
    let ?cut = "take i s @ NUL # (drop (Suc i) s @ NUL # b)"
    have w1: "wr (s @ NUL # b) (int i) NUL = Some ?cut" unfolding split by (rule wr_mid [OF len])
    have w2: "wr ?cut (int i) (CHR ''/'') = Some (s @ NUL # b)"
      using wr_mid [OF len, of NUL "drop (Suc i) s @ NUL # b" "CHR ''/''"] True split by simp
    have "NUL \<notin> set (take i s)" using assms(1) by (auto dest: in_set_takeD)
    then have c: "cstr ?cut 0 = take i s" using cstr_at [of "take i s" "[]" 0] by simp
    obtain go fs1 where e: "ensure_dir access mkdir fs (take i s) = (go, fs1)" by force
    show ?thesis
      using True i rd w1 w2 c e ih by (subst create_dir_loop.simps) (simp add: up)
  next
    case False
    then show ?thesis using i rd ih by (subst create_dir_loop.simps) (auto simp: up)
  qed
qed

lemma strncpy_short:
  assumes "NUL \<notin> set s"
  shows "\<exists>b. strncpy (replicate 1024 NUL) 0 (s @ [NUL]) 0 (1024 - 1) = Some (take 1023 s @ NUL # b)"
proof -
  let ?t = "take 1023 (s @ replicate 1023 NUL)"
  have l: "length ?t = 1023" by simp
  have "strncpy (replicate 1024 NUL) 0 (s @ [NUL]) 0 (1024 - 1) = wr_block (replicate 1024 NUL) 0 ?t"
    by (simp add: strncpy_def cstr_whole [OF assms] Let_def)
  also have "\<dots> = Some (?t @ drop (length ?t) (replicate 1024 NUL))"
    by (rule wr_block_0) (simp only: l length_replicate)
  also have "drop (length ?t) (replicate 1024 NUL) = replicate 1 NUL"
    unfolding l drop_replicate by simp
  also have "?t @ replicate 1 NUL = take 1023 s @ replicate (Suc (1023 - length s)) NUL"
    unfolding Suc_eq_plus1 replicate_add take_append take_replicate by (simp add: min_def)
  finally show ?thesis by simp
qed

lemma filter_positive: "filter (\<lambda>j. P j \<and> 0 < j) [0..<n] = filter P [1..<n]"
  by (induction n) auto

lemma create_dir_make_dirs:
  assumes "NUL \<notin> set path"
  shows "create_dir access mkdir fs path = Some (let (go, fs1) = make_dirs access mkdir fs (dir_prefixes (take 1023 path))
    in (if go then 1 else 0, fs1))"
proof -
  let ?s = "take 1023 path"
  obtain b where b: "strncpy (replicate 1024 NUL) 0 (path @ [NUL]) 0 (1024 - 1) = Some (?s @ NUL # b)"
    using strncpy_short [OF assms] by blast
  have n: "NUL \<notin> set ?s" using assms by (auto dest: in_set_takeD)
  have len: "strlen (?s @ NUL # b) 0 = Some (int (length ?s))" using strlen_at [OF n, of 0 "[]" b] by simp
  have c: "cstr (?s @ NUL # b) 0 = ?s" using cstr_at [OF n, of "[]" 0] by simp
  have f: "filter (\<lambda>j. ?s ! j = CHR ''/'' \<and> 0 < j) [0..<length ?s] = filter (\<lambda>j. ?s ! j = CHR ''/'') [1..<length ?s]"
    by (rule filter_positive)
  let ?ps = "map (\<lambda>j. take j ?s) (filter (\<lambda>j. ?s ! j = CHR ''/'') [1..<length ?s])"
  have loop: "create_dir_loop access mkdir fs (?s @ NUL # b) (int (length ?s)) 0 =
      Some (let (go, fs1) = make_dirs access mkdir fs ?ps in if go then Inr (fs1, ?s @ NUL # b) else Inl fs1)"
    using create_dir_loop_prefixes [OF n, of 0 access mkdir fs b] unfolding f by simp
  obtain go fs1 where m: "make_dirs access mkdir fs ?ps = (go, fs1)" by force
  obtain go2 fs2 where e: "ensure_dir access mkdir fs1 ?s = (go2, fs2)" by force
  show ?thesis
    unfolding create_dir_def b bind.bind_lunit len loop m dir_prefixes_def make_dirs_append
    using e c by (cases go) (auto simp: Let_def)
qed

text \<open>What the manual says of the two calls: a successful \<open>mkdir\<close> makes the path exist and removes none.\<close>

definition mkdir_spec :: "('f \<Rightarrow> string \<Rightarrow> int) \<Rightarrow> ('f \<Rightarrow> string \<Rightarrow> int \<times> 'f) \<Rightarrow> bool" where
  "mkdir_spec access mkdir \<longleftrightarrow> (\<forall>fs s r fs'. mkdir fs s = (r, fs') \<longrightarrow>
     (r \<noteq> -1 \<longrightarrow> access fs' s = 0) \<and> (\<forall>t. access fs t = 0 \<longrightarrow> access fs' t = 0))"

lemma ensure_dir_ok:
  "mkdir_spec access mkdir \<Longrightarrow> ensure_dir access mkdir fs s = (go, fs') \<Longrightarrow>
   (go \<longrightarrow> access fs' s = 0) \<and> (access fs t = 0 \<longrightarrow> access fs' t = 0)"
  by (auto simp: ensure_dir_def mkdir_spec_def split: if_splits prod.splits)

lemma make_dirs_ok:
  assumes "mkdir_spec access mkdir" and "make_dirs access mkdir fs ps = (go, fs')"
  shows "(go \<longrightarrow> (\<forall>p\<in>set ps. access fs' p = 0)) \<and> (access fs t = 0 \<longrightarrow> access fs' t = 0)"
  using assms(2)
proof (induction ps arbitrary: fs t)
  case (Cons p ps)
  obtain go1 fs1 where e: "ensure_dir access mkdir fs p = (go1, fs1)" by force
  show ?case using Cons.prems Cons.IH [of fs1] ensure_dir_ok [OF assms(1) e] e by (cases go1) auto
qed simp

lemma make_dirs_existing: "\<forall>p\<in>set ps. access fs p = 0 \<Longrightarrow> make_dirs access mkdir fs ps = (True, fs)"
  by (induction ps) (auto simp: ensure_dir_def)


text \<open>A file system as the list of its directories, where a parent must exist.\<close>

definition demo_access :: "string list \<Rightarrow> string \<Rightarrow> int" where
  "demo_access fs s = (if s \<in> set fs then 0 else -1)"

definition demo_mkdir :: "string list \<Rightarrow> string \<Rightarrow> int \<times> string list" where
  "demo_mkdir fs s = (if s \<in> set fs then (-1, fs) else (0, s # fs))"


end
