(* ===== verification/Enetwork.thy ===== *)
theory Enetwork
  imports Prelude
begin

text \<open>
  The socket helpers of \<open>enetwork.c\<close>. The kernel side is a small state (the open descriptors, their status
  flags, the addresses they are bound to, the paths in the file system); what each system call answers is
  the record \<open>net_sys\<close>. A call that answers success changes the state as the manual says, a failed one does
  not. Messages to the log are left out. The lemmas show that no function leaks a descriptor and that a
  socket handed out is non-blocking and bound.
\<close>

section \<open>State\<close>

datatype sock_addr = Inet int int | Unix string

record net_state =
  fds :: "int set"
  fd_flags :: "int \<Rightarrow> int"
  bound :: "int \<Rightarrow> sock_addr option"
  paths :: "string set"

record net_sys =
  ret_socket :: int
  ret_getfl :: int
  ret_setfl :: int
  ret_bind :: int
  ret_getsockopt :: int
  ret_setsockopt :: int

unbundle bit_operations_syntax

definition O_NONBLOCK :: int where "O_NONBLOCK = 2048"
definition INADDR_ANY :: int where "INADDR_ANY = 0"
definition SUN_PATH_SIZE :: int where "SUN_PATH_SIZE = 108"

definition sys_socket :: "net_sys \<Rightarrow> net_state \<Rightarrow> net_state" where
  "sys_socket os st = (if ret_socket os = -1 then st
     else st\<lparr>fds := insert (ret_socket os) (fds st), fd_flags := (fd_flags st)(ret_socket os := 0),
             bound := (bound st)(ret_socket os := None)\<rparr>)"

definition sys_close :: "int \<Rightarrow> net_state \<Rightarrow> net_state" where
  "sys_close fd st = st\<lparr>fds := fds st - {fd}\<rparr>"

section \<open>Operations\<close>

definition sock_set_nonblocking :: "net_sys \<Rightarrow> int \<Rightarrow> net_state \<Rightarrow> int \<times> net_state" where
  "sock_set_nonblocking os sock_fd st =
     (let opts = ret_getfl os in
      if opts < 0 then (0, st)
      else let opts = opts OR O_NONBLOCK in
        if ret_setfl os < 0 then (0, st)
        else (1, st\<lparr>fd_flags := (fd_flags st)(sock_fd := opts)\<rparr>))"

definition udp_server_create :: "net_sys \<Rightarrow> int \<Rightarrow> net_state \<Rightarrow> int \<times> net_state" where
  "udp_server_create os port st =
     (let udp_sock_fd = ret_socket os; st1 = sys_socket os st in
      if udp_sock_fd = -1 then (-1, st1)
      else let (ok, st2) = sock_set_nonblocking os udp_sock_fd st1 in
        if ok = 0 then (-1, sys_close udp_sock_fd st2)
        else if ret_bind os < 0 then (-1, sys_close udp_sock_fd st2)
        else (udp_sock_fd, st2\<lparr>bound := (bound st2)(udp_sock_fd := Some (Inet INADDR_ANY (port mod 2 ^ 16)))\<rparr>))"

definition udp_client_create :: "net_sys \<Rightarrow> net_state \<Rightarrow> int \<times> net_state" where
  "udp_client_create os st =
     (let udp_sock_fd = ret_socket os; st1 = sys_socket os st in
      if udp_sock_fd = -1 then (-1, st1)
      else let (ok, st2) = sock_set_nonblocking os udp_sock_fd st1 in
        if ok = 0 then (-1, sys_close udp_sock_fd st2)
        else (udp_sock_fd, st2))"

text \<open>\<open>sun_path\<close> is a zeroed field of 108 bytes; \<open>sock_path\<close> a C string without its terminator.\<close>

definition unix_udp_server_create :: "net_sys \<Rightarrow> string \<Rightarrow> net_state \<Rightarrow> (int \<times> net_state) option" where
  "unix_udp_server_create os sock_path st =
     (let unix_udp_fd = ret_socket os; st1 = sys_socket os st in
      if unix_udp_fd = -1 then Some (-1, st1)
      else let (ok, st2) = sock_set_nonblocking os unix_udp_fd st1 in
        if ok = 0 then Some (-1, sys_close unix_udp_fd st2)
        else do {
          sun_path \<leftarrow> strncpy (replicate (nat SUN_PATH_SIZE) NUL) 0 (sock_path @ [NUL]) 0 (SUN_PATH_SIZE - 1);
          let st3 = st2\<lparr>paths := paths st2 - {sock_path}\<rparr>;
          if ret_bind os < 0 then Some (-1, sys_close unix_udp_fd st3)
          else Some (unix_udp_fd, st3\<lparr>bound := (bound st3)(unix_udp_fd := Some (Unix (cstr sun_path 0))),
                                      paths := insert (cstr sun_path 0) (paths st3)\<rparr>)
        })"

definition unix_udp_client_create :: "net_sys \<Rightarrow> net_state \<Rightarrow> int \<times> net_state" where
  "unix_udp_client_create os st =
     (let unix_udp_fd = ret_socket os; st1 = sys_socket os st in
      if unix_udp_fd = -1 then (-1, st1)
      else let (ok, st2) = sock_set_nonblocking os unix_udp_fd st1 in
        if ok = 0 then (-1, sys_close unix_udp_fd st2)
        else (unix_udp_fd, st2))"

text \<open>The buffer-size setters: the result and the size set, if any.\<close>

definition sock_set_rcv_buffer_size :: "net_sys \<Rightarrow> int \<Rightarrow> int \<Rightarrow> int \<times> int option" where
  "sock_set_rcv_buffer_size os sock_fd sz =
     (if ret_getsockopt os < 0 then (0, None)
      else let rcv_size = sz in
        if ret_setsockopt os < 0 then (0, None) else (1, Some rcv_size))"

definition sock_set_snd_buffer_size :: "net_sys \<Rightarrow> int \<Rightarrow> int \<Rightarrow> int \<times> int option" where
  "sock_set_snd_buffer_size os sock_fd sz =
     (if ret_getsockopt os < 0 then (0, None)
      else let snd_size = sz in
        if ret_setsockopt os < 0 then (0, None) else (1, Some snd_size))"

text \<open>\<open>inet_pton (AF_INET, \<dots>)\<close> is the argument: 1 for an address, 0 for none, \<open>-1\<close> for a bad family.\<close>

definition is_valid_ip :: "(string \<Rightarrow> int) \<Rightarrow> string \<Rightarrow> int" where
  "is_valid_ip inet_pton ip_str = (let result = inet_pton ip_str in if result = 0 then result else 1)"

section \<open>Properties\<close>

text \<open>What a creation function may do: fail and leave the descriptors as they were, or hand out exactly
  the new descriptor, non-blocking, bound to the address given, with every other one untouched.\<close>

definition sock_result :: "net_state \<Rightarrow> sock_addr option \<Rightarrow> int \<times> net_state \<Rightarrow> bool" where
  "sock_result st addr res \<longleftrightarrow> (let (fd, st') = res in
     (if fd = -1 then fds st' = fds st
      else fds st' = insert fd (fds st) \<and> fd \<notin> fds st \<and> bit (fd_flags st' fd) 11 \<and> bound st' fd = addr)
     \<and> (\<forall>f\<in>fds st. fd_flags st' f = fd_flags st f \<and> bound st' f = bound st f))"

lemma nonblocking_bit: "bit (x OR O_NONBLOCK) 11"
proof -
  have "bit O_NONBLOCK 11" by (simp add: bit_iff_odd O_NONBLOCK_def)
  then show ?thesis by (simp add: bit_or_iff)
qed

lemma cstr_strncpy:
  assumes "NUL \<notin> set s" and "0 < n"
  shows "\<exists>b. strncpy (replicate (nat n) NUL) 0 (s @ [NUL]) 0 (n - 1) = Some b \<and> cstr b 0 = take (nat n - 1) s"
proof -
  define k where "k = nat n - 1"
  have n: "nat n = Suc k" "nat (n - 1) = k" using assms(2) by (simp_all add: k_def)
  let ?t = "take k (s @ replicate k NUL)"
  have l: "length ?t = k" by simp
  have c: "cstr (s @ [NUL]) 0 = s" by (rule cstr_whole [OF assms(1)])
  have "strncpy (replicate (nat n) NUL) 0 (s @ [NUL]) 0 (n - 1) = wr_block (replicate (Suc k) NUL) 0 ?t"
    using assms(2) by (simp add: strncpy_def c n Let_def)
  also have "\<dots> = Some (?t @ drop (length ?t) (replicate (Suc k) NUL))"
    by (rule wr_block_0) (simp add: l)
  also have "drop (length ?t) (replicate (Suc k) NUL) = replicate 1 NUL"
    unfolding l drop_replicate by simp
  also have "?t @ replicate 1 NUL = take k s @ replicate ((k - length s) + 1) NUL"
    unfolding replicate_add take_append take_replicate by (simp add: min_def)
  finally show ?thesis
    using cstr_0_pad [of "take k s" "(k - length s) + 1"] assms(1) by (auto simp: k_def dest: in_set_takeD)
qed

text \<open>C33. None of the four functions that create a socket leaks a descriptor on any failure of any call, and
  none touches another descriptor; a socket handed out is non-blocking, and the servers' are bound to
  the port modulo \<open>2 ^ 16\<close> on all interfaces and to the path cut to 107 characters.\<close>

theorem socket_creation_no_leak:
  assumes "ret_socket os \<notin> fds st" and "NUL \<notin> set path"
  shows "sock_result st (Some (Inet INADDR_ANY (port mod 2 ^ 16))) (udp_server_create os port st)
    \<and> sock_result st None (udp_client_create os st)
    \<and> (\<exists>r. unix_udp_server_create os path st = Some r \<and> sock_result st (Some (Unix (take 107 path))) r)
    \<and> sock_result st None (unix_udp_client_create os st)"
proof (intro conjI)
  show "sock_result st (Some (Inet INADDR_ANY (port mod 2 ^ 16))) (udp_server_create os port st)"
    "sock_result st None (udp_client_create os st)" "sock_result st None (unix_udp_client_create os st)"
    using assms(1) nonblocking_bit
    by (auto simp: sock_result_def udp_server_create_def udp_client_create_def unix_udp_client_create_def
        sock_set_nonblocking_def sys_socket_def sys_close_def Let_def)
  obtain b where "strncpy (replicate (nat SUN_PATH_SIZE) NUL) 0 (path @ [NUL]) 0 (SUN_PATH_SIZE - 1) = Some b"
    "cstr b 0 = take 107 path"
    using cstr_strncpy [OF assms(2), of SUN_PATH_SIZE] by (auto simp: SUN_PATH_SIZE_def)
  then show "\<exists>r. unix_udp_server_create os path st = Some r \<and> sock_result st (Some (Unix (take 107 path))) r"
    using assms(1) nonblocking_bit
    by (auto simp: sock_result_def unix_udp_server_create_def sock_set_nonblocking_def sys_socket_def
        sys_close_def Let_def)
qed

definition demo_net :: net_sys where
  "demo_net = \<lparr>ret_socket = 3, ret_getfl = 2, ret_setfl = 0, ret_bind = -1, ret_getsockopt = 0, ret_setsockopt = 0\<rparr>"

definition demo_net_state :: net_state where
  "demo_net_state = \<lparr>fds = {0, 1, 2}, fd_flags = (\<lambda>_. 0), bound = (\<lambda>_. None), paths = {}\<rparr>"

theorem socket_creation_no_leak_witness:
  "sock_result demo_net_state (Some (Inet 0 80)) (udp_server_create demo_net 80 demo_net_state)"
  using socket_creation_no_leak [of demo_net demo_net_state "''/tmp/s''" 80]
  by (simp add: demo_net_def demo_net_state_def INADDR_ANY_def)

end
