(* ===== verification/Eshm.thy ===== *)
theory Eshm
  imports Prelude
begin

text \<open>
  The shared-memory wrapper of \<open>eshm.c\<close>. What the System V calls answer is the record \<open>shm_sys\<close>; what a
  call does to the system is a list of \<open>shm_event\<close>. Messages to the log are left out. The pointer
  \<open>(void *) -1\<close> of a failed \<open>shmat\<close> is \<open>At (-1)\<close>. The lemmas follow a segment from creation to
  destruction and list what is left behind when creation fails.
\<close>

section \<open>State\<close>

record shm =
  shm_key :: int
  shm_id :: int
  shm_base :: ptr
  shm_size :: int
  shm_is_new :: int
  shm_detached :: int
  shm_deleted :: int

record shm_sys =
  sys_malloc :: bool
  sys_ftok :: "string \<Rightarrow> int"
  sys_shmget_excl :: "int \<Rightarrow> int"
  sys_shmget_errno :: int
  sys_shmget :: "int \<Rightarrow> int"
  sys_shmat :: "int \<Rightarrow> ptr"
  sys_shmdt :: "ptr \<Rightarrow> int"
  sys_shmctl :: int

datatype shm_event = Shm_new int | Shm_at ptr | Shm_dt ptr | Shm_rm int | Shm_free

definition EEXIST :: int where "EEXIST = 17"

section \<open>Operations\<close>

fun shm_detach :: "shm_sys \<Rightarrow> shm option \<Rightarrow> int \<times> shm option \<times> shm_event list" where
  "shm_detach os None = (1, None, [])"
| "shm_detach os (Some s) =
     (if shm_detached s \<noteq> 0 then (1, Some s, [])
      else if shm_base s \<noteq> NULL \<and> sys_shmdt os (shm_base s) = -1 then (0, Some s, [])
      else (1, Some (s\<lparr>shm_base := NULL, shm_detached := 1\<rparr>),
            if shm_base s \<noteq> NULL then [Shm_dt (shm_base s)] else []))"

text \<open>\<open>shm_destroy (shm_t **shm)\<close>: the caller's variable afterwards.\<close>

fun shm_destroy :: "shm_sys \<Rightarrow> shm option option \<Rightarrow> int \<times> shm option option \<times> shm_event list" where
  "shm_destroy os None = (1, None, [])"
| "shm_destroy os (Some None) = (1, Some None, [])"
| "shm_destroy os (Some (Some p)) =
     (let ev = (if shm_base p \<noteq> NULL then snd (snd (shm_detach os (Some p))) else [])
      in (1, Some None, ev @ [Shm_free]))"

fun shm_delete :: "shm_sys \<Rightarrow> shm option option \<Rightarrow> int \<times> shm option option \<times> shm_event list" where
  "shm_delete os None = (1, None, [])"
| "shm_delete os (Some None) = (1, Some None, [])"
| "shm_delete os (Some (Some s)) =
     (if shm_deleted s \<noteq> 0 then (1, Some (Some s), [])
      else
        let (s1, ev) = (if shm_detached s = 0
              then (let (r, s', e) = shm_detach os (Some s) in ((the s')\<lparr>shm_detached := 1\<rparr>, e))
              else (s, []))
        in if sys_shmctl os = -1 then (0, Some (Some s1), ev)
           else let s2 = s1\<lparr>shm_deleted := 1\<rparr>; (r, var, ev') = shm_destroy os (Some (Some s2))
                in (1, var, ev @ [Shm_rm (shm_id s2)] @ ev'))"

definition shm_error :: "shm_sys \<Rightarrow> shm option \<Rightarrow> shm_event list \<Rightarrow> shm option \<times> shm_event list" where
  "shm_error os s ev = (None, ev @ snd (snd (shm_destroy os (Some s))))"

definition shm_attach :: "shm_sys \<Rightarrow> shm \<Rightarrow> shm_event list \<Rightarrow> shm option \<times> shm_event list" where
  "shm_attach os s ev =
     (let s1 = s\<lparr>shm_deleted := 0, shm_base := sys_shmat os (shm_id s)\<rparr>
      in if shm_base s1 = At (-1) then shm_error os (Some s1) ev
         else (Some (s1\<lparr>shm_detached := 0\<rparr>), ev @ [Shm_at (shm_base s1)]))"

definition shm_create :: "shm_sys \<Rightarrow> string \<Rightarrow> int \<Rightarrow> shm option \<times> shm_event list" where
  "shm_create os shm_file sz =
     (if sz \<le> 0 then (None, [])
      else if \<not> sys_malloc os then shm_error os None []
      else
        let s0 = \<lparr>shm_key = 0, shm_id = 0, shm_base = NULL, shm_size = 0, shm_is_new = 0,
                  shm_detached = 0, shm_deleted = 0\<rparr>;
            s1 = s0\<lparr>shm_key := sys_ftok os shm_file\<rparr>
        in if shm_key s1 = -1 then shm_error os (Some s1) []
           else
             let s2 = s1\<lparr>shm_size := sz, shm_is_new := 1, shm_id := sys_shmget_excl os (shm_key s1)\<rparr>
             in if shm_id s2 = -1 then
                  if EEXIST \<noteq> sys_shmget_errno os then shm_error os (Some s2) []
                  else
                    let s3 = s2\<lparr>shm_is_new := 0, shm_id := sys_shmget os (shm_key s2)\<rparr>
                    in if shm_id s3 = -1 then shm_error os (Some s3) []
                       else shm_attach os s3 []
                else shm_attach os s2 [Shm_new (shm_id s2)])"

section \<open>Properties\<close>

text \<open>The segment of a successful creation.\<close>

definition shm_ready :: "shm_sys \<Rightarrow> shm \<Rightarrow> int \<Rightarrow> bool" where
  "shm_ready os s sz \<longleftrightarrow> shm_detached s = 0 \<and> shm_deleted s = 0 \<and> shm_size s = sz \<and> shm_id s \<noteq> -1
     \<and> shm_base s = sys_shmat os (shm_id s) \<and> shm_base s \<noteq> At (-1)"

text \<open>What the manual says of \<open>shmat\<close> and \<open>shmdt\<close>: an attached address is never \<open>NULL\<close>, and detaching
  the failure value fails.\<close>

definition shm_calls_ok :: "shm_sys \<Rightarrow> bool" where
  "shm_calls_ok os \<longleftrightarrow> (\<forall>i. sys_shmat os i \<noteq> NULL) \<and> sys_shmdt os (At (-1)) = -1"

lemma shm_attach_cases:
  assumes "shm_calls_ok os" and "shm_detached s = 0" and "shm_id s \<noteq> -1"
  shows "shm_attach os s ev =
    (if sys_shmat os (shm_id s) = At (-1) then (None, ev @ [Shm_free])
     else (Some (s\<lparr>shm_deleted := 0, shm_base := sys_shmat os (shm_id s), shm_detached := 0\<rparr>),
           ev @ [Shm_at (sys_shmat os (shm_id s))]))"
  using assms by (simp add: shm_attach_def shm_error_def shm_calls_ok_def Let_def)

text \<open>Creation either returns a segment that is attached exactly once, new exactly when this call made
  it, or returns \<open>NULL\<close> with nothing attached and the structure freed if it was allocated; in that case
  the segment itself stays behind if this call had created it, as it is never removed.\<close>

theorem shm_create_outcomes:
  assumes "shm_calls_ok os" and "shm_create os name sz = (res, ev)"
  shows "case res of
      Some s \<Rightarrow> shm_ready os s sz
        \<and> ev = (if shm_is_new s = 1 then [Shm_new (shm_id s)] else []) @ [Shm_at (shm_base s)]
        \<and> (shm_is_new s = 1 \<longleftrightarrow> sys_shmget_excl os (shm_key s) \<noteq> -1)
    | None \<Rightarrow> ev = [] \<or> ev = [Shm_free] \<or>
        (\<exists>i. ev = [Shm_new i, Shm_free] \<and> sys_shmat os i = At (-1))"
  using assms
  by (auto simp: shm_create_def shm_error_def shm_attach_cases shm_ready_def Let_def split: if_splits)

definition demo_shm :: shm_sys where
  "demo_shm = \<lparr>sys_malloc = True, sys_ftok = (\<lambda>_. 9), sys_shmget_excl = (\<lambda>_. 7), sys_shmget_errno = 0,
     sys_shmget = (\<lambda>_. 7), sys_shmat = (\<lambda>_. At 4096), sys_shmdt = (\<lambda>p. if p = At 4096 then 0 else -1), sys_shmctl = 0\<rparr>"

theorem shm_create_outcomes_witness:
  "\<exists>s. shm_create demo_shm ''/tmp/x'' 100 = (Some s, [Shm_new 7, Shm_at (At 4096)]) \<and> shm_ready demo_shm s 100"
proof -
  have "shm_calls_ok demo_shm" by (simp add: shm_calls_ok_def demo_shm_def)
  moreover obtain s where s: "shm_create demo_shm ''/tmp/x'' 100 = (Some s, [Shm_new 7, Shm_at (At 4096)])"
    by (simp add: shm_create_def demo_shm_def shm_attach_def Let_def)
  ultimately show ?thesis using shm_create_outcomes [of demo_shm "''/tmp/x''" 100 "Some s"] by simp
qed

text \<open>A created segment is detached once and freed once: \<open>shm_destroy\<close> detaches and frees;
  \<open>shm_delete\<close> detaches, removes the segment and frees; after \<open>shm_detach\<close> a second detach does nothing
  and \<open>shm_destroy\<close> only frees.\<close>

theorem shm_lifecycle:
  assumes "shm_ready os s sz" and "shm_calls_ok os" and "sys_shmdt os (shm_base s) \<noteq> -1" and "sys_shmctl os \<noteq> -1"
  shows "shm_destroy os (Some (Some s)) = (1, Some None, [Shm_dt (shm_base s), Shm_free])
    \<and> shm_delete os (Some (Some s)) = (1, Some None, [Shm_dt (shm_base s), Shm_rm (shm_id s), Shm_free])
    \<and> (\<exists>s'. shm_detach os (Some s) = (1, Some s', [Shm_dt (shm_base s)])
         \<and> shm_detach os (Some s') = (1, Some s', [])
         \<and> shm_destroy os (Some (Some s')) = (1, Some None, [Shm_free]))"
proof -
  have "shm_base s \<noteq> NULL" using assms(1,2) by (simp add: shm_ready_def shm_calls_ok_def)
  then show ?thesis using assms by (simp add: shm_ready_def Let_def)
qed

theorem shm_lifecycle_witness:
  "\<exists>s. shm_create demo_shm ''/tmp/x'' 100 = (Some s, [Shm_new 7, Shm_at (At 4096)])
     \<and> shm_delete demo_shm (Some (Some s)) = (1, Some None, [Shm_dt (At 4096), Shm_rm 7, Shm_free])"
proof -
  have "shm_calls_ok demo_shm" by (simp add: shm_calls_ok_def demo_shm_def)
  moreover obtain s where s: "shm_create demo_shm ''/tmp/x'' 100 = (Some s, [Shm_new 7, Shm_at (At 4096)])"
    "shm_ready demo_shm s 100" "shm_id s = 7" "shm_base s = At 4096"
    by (simp add: shm_create_def demo_shm_def shm_attach_def Let_def shm_ready_def)
  ultimately show ?thesis using shm_lifecycle [of demo_shm s 100] by (simp add: demo_shm_def)
qed

end
