(* ===== verification/EprocessLock.thy ===== *)
theory EprocessLock
  imports Prelude
begin

text \<open>
  The lock between processes of \<open>eprocess_lock.c\<close>, a System V semaphore. The semaphore calls are outside
  the repository: they are the fields of the parameter \<open>sem_calls\<close> over an arbitrary kernel state, and what
  the manual promises of them is the hypothesis \<open>sem_spec\<close>. A call that blocks does not return: \<open>None\<close>. The
  lemmas show mutual exclusion for any interleaving of processes and that no release is lost.
\<close>

section \<open>State and calls\<close>

record process_lock =
  pl_key :: int
  pl_id :: int

definition IPC_NOWAIT :: int where "IPC_NOWAIT = 2048"
definition SEM_UNDO :: int where "SEM_UNDO = 4096"
definition IPC_CREAT :: int where "IPC_CREAT = 512"
definition EAGAIN :: int where "EAGAIN = 11"

unbundle bit_operations_syntax

text \<open>\<open>semop id (num, op, flags)\<close> gives the result, \<open>errno\<close> and the kernel afterwards, or does not return;
  the last argument is the calling process.\<close>

record 'k sem_calls =
  ftok :: "'k \<Rightarrow> string \<Rightarrow> int \<Rightarrow> int"
  semget :: "'k \<Rightarrow> int \<Rightarrow> int \<Rightarrow> int \<Rightarrow> int \<times> 'k"
  semctl_setval :: "'k \<Rightarrow> int \<Rightarrow> int \<Rightarrow> int \<Rightarrow> int \<times> 'k"
  semctl_rmid :: "'k \<Rightarrow> int \<Rightarrow> int \<times> 'k"
  semop :: "'k \<Rightarrow> int \<Rightarrow> int \<times> int \<times> int \<Rightarrow> nat \<Rightarrow> (int \<times> int \<times> 'k) option"

section \<open>Operations\<close>

text \<open>\<open>malloc_ok\<close>: whether the structure can be allocated.\<close>

definition process_lock_create ::
  "'k sem_calls \<Rightarrow> bool \<Rightarrow> 'k \<Rightarrow> string \<Rightarrow> int \<Rightarrow> process_lock option \<times> 'k" where
  "process_lock_create os malloc_ok k name sub_id =
     (if \<not> malloc_ok then (None, k)
      else let key = ftok os k name sub_id in
        if key = -1 then (None, k)
        else let (sid, k1) = semget os k key 1 IPC_CREAT in
          if sid = -1 then (None, k1)
          else (Some \<lparr>pl_key = key, pl_id = sid\<rparr>, k1))"

definition process_lock_init :: "'k sem_calls \<Rightarrow> 'k \<Rightarrow> process_lock \<Rightarrow> int \<times> 'k" where
  "process_lock_init os k pm =
     (let (r, k1) = semctl_setval os k (pl_id pm) 0 1 in if r = -1 then (0, k1) else (1, k1))"

definition process_try_lock :: "'k sem_calls \<Rightarrow> 'k \<Rightarrow> process_lock \<Rightarrow> nat \<Rightarrow> (int \<times> 'k) option" where
  "process_try_lock os k pm pid =
     map_option (\<lambda>(result, errno, k1).
         (if result = -1 then (if errno = EAGAIN then 0 else -1) else 1, k1))
       (semop os k (pl_id pm) (0, -1, IPC_NOWAIT OR SEM_UNDO) pid)"

definition process_lock_op :: "'k sem_calls \<Rightarrow> 'k \<Rightarrow> process_lock \<Rightarrow> nat \<Rightarrow> (int \<times> 'k) option" where
  "process_lock_op os k pm pid =
     map_option (\<lambda>(result, errno, k1). (if result = -1 then 0 else 1, k1))
       (semop os k (pl_id pm) (0, -1, SEM_UNDO) pid)"

definition process_unlock :: "'k sem_calls \<Rightarrow> 'k \<Rightarrow> process_lock \<Rightarrow> nat \<Rightarrow> (int \<times> 'k) option" where
  "process_unlock os k pm pid =
     map_option (\<lambda>(result, errno, k1). (if result = -1 then 0 else 1, k1))
       (semop os k (pl_id pm) (0, 1, SEM_UNDO) pid)"

text \<open>The caller's variable afterwards, and whether the structure was freed.\<close>

fun process_lock_release :: "process_lock option option \<Rightarrow> int \<times> process_lock option option \<times> bool" where
  "process_lock_release None = (1, None, False)"
| "process_lock_release (Some None) = (1, Some None, False)"
| "process_lock_release (Some (Some pm)) = (1, Some None, True)"

definition process_lock_delete :: "'k sem_calls \<Rightarrow> 'k \<Rightarrow> process_lock \<Rightarrow> int \<times> 'k" where
  "process_lock_delete os k pm =
     (let (r, k1) = semctl_rmid os k (pl_id pm) in if r = -1 then (0, k1) else (1, k1))"

section \<open>What the system promises\<close>

text \<open>\<open>semval\<close> reads the value of a semaphore: an operation of \<open>-1\<close> on a positive value decrements it; on
  zero it fails with \<open>EAGAIN\<close> when asked not to wait and does not return otherwise; an operation of \<open>+1\<close>
  increments; \<open>SETVAL\<close> sets.\<close>

definition sem_spec :: "'k sem_calls \<Rightarrow> ('k \<Rightarrow> int \<Rightarrow> int) \<Rightarrow> int \<Rightarrow> bool" where
  "sem_spec os semval sid \<longleftrightarrow>
     (\<forall>k pid flags. 0 < semval k sid \<longrightarrow>
        (\<exists>k1. semop os k sid (0, -1, flags) pid = Some (0, 0, k1) \<and> semval k1 sid = semval k sid - 1))
   \<and> (\<forall>k pid flags. \<not> 0 < semval k sid \<longrightarrow> semop os k sid (0, -1, flags) pid =
        (if flags AND IPC_NOWAIT \<noteq> 0 then Some (-1, EAGAIN, k) else None))
   \<and> (\<forall>k pid flags. \<exists>k1. semop os k sid (0, 1, flags) pid = Some (0, 0, k1) \<and> semval k1 sid = semval k sid + 1)
   \<and> (\<forall>k v. 0 \<le> v \<longrightarrow> (\<exists>k1. semctl_setval os k sid 0 v = (0, k1) \<and> semval k1 sid = v))"

lemma lock_flags: "(IPC_NOWAIT OR SEM_UNDO) AND IPC_NOWAIT \<noteq> 0" "SEM_UNDO AND IPC_NOWAIT = 0"
  by (simp_all add: IPC_NOWAIT_def SEM_UNDO_def)

section \<open>Processes sharing one lock\<close>

text \<open>Steps of processes that follow the protocol, on the kernel and the set of holders: an idle process
  tries the lock or waits for it, a holder releases it.\<close>

inductive lock_step :: "'k sem_calls \<Rightarrow> process_lock \<Rightarrow> 'k \<times> nat set \<Rightarrow> 'k \<times> nat set \<Rightarrow> bool"
  for os :: "'k sem_calls" and pm :: process_lock where
  try_got: "p \<notin> H \<Longrightarrow> process_try_lock os k pm p = Some (1, k1) \<Longrightarrow> lock_step os pm (k, H) (k1, insert p H)"
| try_busy: "p \<notin> H \<Longrightarrow> process_try_lock os k pm p = Some (r, k1) \<Longrightarrow> r \<noteq> 1 \<Longrightarrow> lock_step os pm (k, H) (k1, H)"
| wait_got: "p \<notin> H \<Longrightarrow> process_lock_op os k pm p = Some (1, k1) \<Longrightarrow> lock_step os pm (k, H) (k1, insert p H)"
| wait_failed: "p \<notin> H \<Longrightarrow> process_lock_op os k pm p = Some (0, k1) \<Longrightarrow> lock_step os pm (k, H) (k1, H)"
| release: "p \<in> H \<Longrightarrow> process_unlock os k pm p = Some (1, k1) \<Longrightarrow> lock_step os pm (k, H) (k1, H - {p})"

inductive lock_reach :: "'k sem_calls \<Rightarrow> process_lock \<Rightarrow> 'k \<Rightarrow> 'k \<times> nat set \<Rightarrow> bool"
  for os :: "'k sem_calls" and pm :: process_lock and k0 :: 'k where
  start: "process_lock_init os k0 pm = (1, k1) \<Longrightarrow> lock_reach os pm k0 (k1, {})"
| step: "lock_reach os pm k0 s \<Longrightarrow> lock_step os pm s t \<Longrightarrow> lock_reach os pm k0 t"

definition lock_inv :: "('k \<Rightarrow> int \<Rightarrow> int) \<Rightarrow> int \<Rightarrow> 'k \<times> nat set \<Rightarrow> bool" where
  "lock_inv semval sid s \<longleftrightarrow> finite (snd s) \<and> 0 \<le> semval (fst s) sid \<and> semval (fst s) sid + int (card (snd s)) = 1"

lemma try_lock_cases:
  assumes "sem_spec os semval (pl_id pm)"
  shows "0 < semval k (pl_id pm) \<Longrightarrow>
      \<exists>k1. process_try_lock os k pm p = Some (1, k1) \<and> semval k1 (pl_id pm) = semval k (pl_id pm) - 1"
    and "\<not> 0 < semval k (pl_id pm) \<Longrightarrow> process_try_lock os k pm p = Some (0, k)"
proof -
  assume "0 < semval k (pl_id pm)"
  then obtain k1 where "semop os k (pl_id pm) (0, -1, IPC_NOWAIT OR SEM_UNDO) p = Some (0, 0, k1)"
    "semval k1 (pl_id pm) = semval k (pl_id pm) - 1"
    using assms unfolding sem_spec_def by blast
  then show "\<exists>k1. process_try_lock os k pm p = Some (1, k1) \<and> semval k1 (pl_id pm) = semval k (pl_id pm) - 1"
    by (simp add: process_try_lock_def)
next
  assume "\<not> 0 < semval k (pl_id pm)"
  then have "semop os k (pl_id pm) (0, -1, IPC_NOWAIT OR SEM_UNDO) p = Some (-1, EAGAIN, k)"
    using assms lock_flags(1) unfolding sem_spec_def by simp
  then show "process_try_lock os k pm p = Some (0, k)" by (simp add: process_try_lock_def)
qed

lemma wait_lock_cases:
  assumes "sem_spec os semval (pl_id pm)"
  shows "0 < semval k (pl_id pm) \<Longrightarrow>
      \<exists>k1. process_lock_op os k pm p = Some (1, k1) \<and> semval k1 (pl_id pm) = semval k (pl_id pm) - 1"
    and "\<not> 0 < semval k (pl_id pm) \<Longrightarrow> process_lock_op os k pm p = None"
proof -
  assume "0 < semval k (pl_id pm)"
  then obtain k1 where "semop os k (pl_id pm) (0, -1, SEM_UNDO) p = Some (0, 0, k1)"
    "semval k1 (pl_id pm) = semval k (pl_id pm) - 1"
    using assms unfolding sem_spec_def by blast
  then show "\<exists>k1. process_lock_op os k pm p = Some (1, k1) \<and> semval k1 (pl_id pm) = semval k (pl_id pm) - 1"
    by (simp add: process_lock_op_def)
next
  assume "\<not> 0 < semval k (pl_id pm)"
  then have "semop os k (pl_id pm) (0, -1, SEM_UNDO) p = None"
    using assms lock_flags(2) unfolding sem_spec_def by simp
  then show "process_lock_op os k pm p = None" by (simp add: process_lock_op_def)
qed

lemma unlock_cases:
  assumes "sem_spec os semval (pl_id pm)"
  shows "\<exists>k1. process_unlock os k pm p = Some (1, k1) \<and> semval k1 (pl_id pm) = semval k (pl_id pm) + 1"
proof -
  obtain k1 where "semop os k (pl_id pm) (0, 1, SEM_UNDO) p = Some (0, 0, k1)" "semval k1 (pl_id pm) = semval k (pl_id pm) + 1"
    using assms unfolding sem_spec_def by blast
  then show ?thesis by (simp add: process_unlock_def)
qed

lemma lock_inv_taken:
  "lock_inv semval sid (k, H) \<Longrightarrow> p \<notin> H \<Longrightarrow> 0 < semval k sid \<Longrightarrow> semval k1 sid = semval k sid - 1 \<Longrightarrow>
   lock_inv semval sid (k1, insert p H)"
  by (simp add: lock_inv_def)

lemma lock_step_inv:
  assumes "sem_spec os semval (pl_id pm)" and "lock_inv semval (pl_id pm) s" and "lock_step os pm s t"
  shows "lock_inv semval (pl_id pm) t"
  using assms(3,2)
proof (induction rule: lock_step.induct)
  case (try_got p H k k1)
  show ?case
  proof (cases "0 < semval k (pl_id pm)")
    case True
    then show ?thesis using try_lock_cases(1) [OF assms(1) True, of p] try_got by (auto intro: lock_inv_taken)
  qed (use try_lock_cases(2) [OF assms(1), of k p] try_got(2) in simp)
next
  case (try_busy p H k r k1)
  show ?case
  proof (cases "0 < semval k (pl_id pm)")
    case True
    then show ?thesis using try_lock_cases(1) [OF assms(1) True, of p] try_busy by auto
  qed (use try_lock_cases(2) [OF assms(1), of k p] try_busy in simp)
next
  case (wait_got p H k k1)
  show ?case
  proof (cases "0 < semval k (pl_id pm)")
    case True
    then show ?thesis using wait_lock_cases(1) [OF assms(1) True, of p] wait_got by (auto intro: lock_inv_taken)
  qed (use wait_lock_cases(2) [OF assms(1), of k p] wait_got(2) in simp)
next
  case (wait_failed p H k k1)
  show ?case
  proof (cases "0 < semval k (pl_id pm)")
    case True
    then show ?thesis using wait_lock_cases(1) [OF assms(1) True, of p] wait_failed by auto
  qed (use wait_lock_cases(2) [OF assms(1), of k p] wait_failed in simp)
next
  case (release p H k k1)
  then have "0 < card H" using card_gt_0_iff [of H] by (auto simp: lock_inv_def)
  then show ?case using unlock_cases [OF assms(1), of k p] release
    by (auto simp: lock_inv_def card_Diff_singleton of_nat_diff)
qed

lemma lock_reach_inv:
  assumes "sem_spec os semval (pl_id pm)" and "lock_reach os pm k0 s"
  shows "lock_inv semval (pl_id pm) s"
  using assms(2)
proof (induction rule: lock_reach.induct)
  case (start k1)
  have "\<exists>k2. semctl_setval os k0 (pl_id pm) 0 1 = (0, k2) \<and> semval k2 (pl_id pm) = 1"
    using assms(1) unfolding sem_spec_def by (metis zero_le_one)
  then show ?case using start by (auto simp: process_lock_init_def lock_inv_def)
next
  case (step s t)
  then show ?case using lock_step_inv [OF assms(1)] by blast
qed

section \<open>Properties\<close>


text \<open>A kernel with one semaphore per identifier, as the manual describes it.\<close>

definition demo_kernel :: "(int \<Rightarrow> int) sem_calls" where
  "demo_kernel = \<lparr>ftok = (\<lambda>k name n. int (length name) * 256 + n),
     semget = (\<lambda>k key n flags. (key, k)),
     semctl_setval = (\<lambda>k sid n v. (0, k(sid := v))),
     semctl_rmid = (\<lambda>k sid. (0, k)),
     semop = (\<lambda>k sid (n, d, flags) pid.
       if d = -1 then
         if 0 < k sid then Some (0, 0, k(sid := k sid - 1))
         else if flags AND IPC_NOWAIT \<noteq> 0 then Some (-1, EAGAIN, k) else None
       else Some (0, 0, k(sid := k sid + d)))\<rparr>"

lemma demo_kernel_spec: "sem_spec demo_kernel (\<lambda>k sid. k sid) sid"
  by (simp add: sem_spec_def demo_kernel_def)

definition demo_lock :: process_lock where
  "demo_lock = \<lparr>pl_key = 3, pl_id = 3\<rparr>"

lemma demo_reach: "lock_reach demo_kernel demo_lock (\<lambda>_. 0) ((\<lambda>_. 0), {5})"
proof -
  have "lock_reach demo_kernel demo_lock (\<lambda>_. 0) ((\<lambda>_. 0)(3 := 1), {})"
    by (rule lock_reach.start) (simp add: demo_kernel_def demo_lock_def process_lock_init_def)
  then show ?thesis
  proof (rule lock_reach.step)
    have e: "(\<lambda>_. 0)(3 := 0) = (\<lambda>_. 0 :: int)" by auto
    show "lock_step demo_kernel demo_lock ((\<lambda>_. 0)(3 := 1), {}) ((\<lambda>_. 0), {5})"
      by (rule lock_step.try_got) (simp_all add: demo_kernel_def demo_lock_def process_try_lock_def e)
  qed
qed


text \<open>No release is lost: when no process holds the lock the next process that tries it, or waits for
  it, gets it at once; and a holder's release always succeeds and makes the lock free.\<close>

theorem process_lock_available:
  assumes "sem_spec os semval (pl_id pm)" and "lock_reach os pm k0 (k, H)"
  shows "if H = {} then (\<exists>k1. process_try_lock os k pm p = Some (1, k1)) \<and> (\<exists>k1. process_lock_op os k pm p = Some (1, k1))
    else \<exists>k1. process_unlock os k pm p = Some (1, k1) \<and> (\<exists>k2. process_try_lock os k1 pm q = Some (1, k2))"
proof -
  have i: "finite H" "0 \<le> semval k (pl_id pm)" "semval k (pl_id pm) + int (card H) = 1"
    using lock_reach_inv [OF assms] by (simp_all add: lock_inv_def)
  show ?thesis
  proof (cases "H = {}")
    case True
    then have pos: "0 < semval k (pl_id pm)" using i by simp
    show ?thesis using True try_lock_cases(1) [OF assms(1) pos, of p] wait_lock_cases(1) [OF assms(1) pos, of p] by auto
  next
    case False
    obtain k1 where k1: "process_unlock os k pm p = Some (1, k1)" "semval k1 (pl_id pm) = semval k (pl_id pm) + 1"
      using unlock_cases [OF assms(1)] by blast
    then have pos: "0 < semval k1 (pl_id pm)" using i(2) by simp
    show ?thesis using False k1(1) try_lock_cases(1) [OF assms(1) pos, of q] by auto
  qed
qed

theorem process_lock_available_witness:
  "\<exists>k1. process_unlock demo_kernel (\<lambda>_. 0) demo_lock 5 = Some (1, k1)
     \<and> (\<exists>k2. process_try_lock demo_kernel k1 demo_lock 6 = Some (1, k2))"
  using process_lock_available [OF demo_kernel_spec demo_reach, of 5 6] by simp

end
