(* ===== verification/EthreadPool.thy ===== *)
theory EthreadPool
  imports Equeue
begin

text \<open>
  The thread pool of \<open>ethread_pool.c\<close> on top of the queue of \<open>Equeue\<close>. Fields of a block that
  \<open>malloc\<close> returned are indeterminate (\<open>None\<close>) until the code assigns them, and so is the handle of a
  thread that was never created. What the system answers (the allocations, \<open>pthread_create\<close> for each
  thread) is an argument; what a call joins and frees is a list of events. The thread function is the
  user's: a worker is modelled by its only contact with the pool, taking tasks from the queue.
  The lemmas show that tasks are handed to workers once and in order, through the interface
  \<open>fifo\<close> of the queue, and what creation and destruction do on every path.
\<close>

section \<open>State\<close>

record thread_context =
  t_id :: int
  t_thread :: bool
  t_continue :: int

record thread_pool =
  tp_threads :: "thread_context list option"
  tp_num :: "int option"
  tp_queue :: "queue option option"
  tp_data :: "ptr option"

datatype pool_event = Join int | Free_threads | Free_queue | Free_pool

record pool_env =
  malloc_pool :: bool
  malloc_threads :: bool
  malloc_queue :: bool
  malloc_slots :: bool
  pthread_create_ret :: "nat \<Rightarrow> int"

section \<open>Operations\<close>

text \<open>The joins of \<open>thread_pool_destroy\<close>, after every \<open>work_continue\<close> is cleared.\<close>

fun join_threads :: "thread_context list \<Rightarrow> pool_event list option" where
  "join_threads [] = Some []"
| "join_threads (t # ts) =
     (if t_thread t then do { ev \<leftarrow> join_threads ts; Some (Join (t_id t) # ev) } else None)"

fun thread_pool_destroy :: "thread_pool option option \<Rightarrow> (thread_pool option option \<times> pool_event list) option" where
  "thread_pool_destroy None = Some (None, [])"
| "thread_pool_destroy (Some None) = Some (Some None, [])"
| "thread_pool_destroy (Some (Some pool)) = do {
     ev1 \<leftarrow> (case tp_threads pool of None \<Rightarrow> Some []
        | Some ts \<Rightarrow> do {
            n \<leftarrow> tp_num pool;
            ts' \<leftarrow> (if n \<le> int (length ts) then Some (take (nat n) ts) else None);
            ev \<leftarrow> join_threads (map (\<lambda>t. t\<lparr>t_continue := 0\<rparr>) ts');
            Some (ev @ [Free_threads])
          });
     q \<leftarrow> tp_queue pool;
     let ev2 = (case q of None \<Rightarrow> [] | Some _ \<Rightarrow> [Free_queue]);
     Some (Some None, ev1 @ ev2 @ [Free_pool])
   }"

text \<open>The loop that starts the threads from \<open>i\<close>; the flag says whether all were created.\<close>

function start_threads :: "pool_env \<Rightarrow> nat \<Rightarrow> thread_context list \<Rightarrow> bool \<times> thread_context list" where
  "start_threads env i ts =
     (if i < length ts then
        let t = (ts ! i)\<lparr>t_id := int i, t_continue := 1\<rparr> in
        if pthread_create_ret env i \<noteq> 0 then (False, ts[i := t])
        else start_threads env (Suc i) (ts[i := t\<lparr>t_thread := True\<rparr>])
      else (True, ts))"
  by pat_completeness auto
termination
  by (relation "measure (\<lambda>(env, i, ts). length ts - i)") auto

declare start_threads.simps [simp del]

text \<open>The result is the pool (\<open>None\<close> for \<open>NULL\<close>) and what the error paths joined and freed.\<close>

definition thread_pool_create ::
  "pool_env \<Rightarrow> int \<Rightarrow> ptr \<Rightarrow> (thread_pool option \<times> pool_event list) option" where
  "thread_pool_create env sz data =
     (if sz \<le> 0 then Some (None, [])
      else if \<not> malloc_pool env then Some (None, [])
      else
        let p0 = \<lparr>tp_threads = None, tp_num = None, tp_queue = None, tp_data = None\<rparr> in
        if \<not> malloc_threads env then
          do { (_, ev) \<leftarrow> thread_pool_destroy (Some (Some p0)); Some (None, ev) }
        else
          let zeroed = replicate (nat sz) \<lparr>t_id = 0, t_thread = False, t_continue = 0\<rparr>;
              p1 = p0\<lparr>tp_threads := Some zeroed, tp_num := Some sz\<rparr>;
              p2 = p1\<lparr>tp_queue := Some (queue_create 1024 (malloc_queue env) (malloc_slots env))\<rparr>
          in if tp_queue p2 = Some None then
               do { (_, ev) \<leftarrow> thread_pool_destroy (Some (Some p2)); Some (None, ev) }
             else
               let p3 = p2\<lparr>tp_data := Some data\<rparr>;
                   (ok, ts) = start_threads env 0 zeroed;
                   p4 = p3\<lparr>tp_threads := Some ts\<rparr>
               in if ok then Some (Some p4, [])
                  else do { (_, ev) \<leftarrow> thread_pool_destroy (Some (Some p4)); Some (None, ev) })"

definition thread_pool_push_task ::
  "bool \<Rightarrow> thread_pool option \<Rightarrow> ptr \<Rightarrow> (int \<times> thread_pool option) option" where
  "thread_pool_push_task realloc_ok pool data =
     (case pool of None \<Rightarrow> Some (0, None)
      | Some p \<Rightarrow> do {
          q \<leftarrow> tp_queue p;
          q \<leftarrow> q;
          (r, q') \<leftarrow> queue_push realloc_ok q data;
          Some (r, Some (p\<lparr>tp_queue := Some (Some q')\<rparr>))
        })"

section \<open>Creation and destruction\<close>

lemma start_threads_all:
  assumes "\<And>j. j < length ts \<Longrightarrow> pthread_create_ret env j = 0" and "i \<le> length ts"
  shows "\<exists>ts'. start_threads env i ts = (True, ts') \<and> length ts' = length ts
    \<and> (\<forall>j<length ts. if j < i then ts' ! j = ts ! j
         else t_id (ts' ! j) = int j \<and> t_thread (ts' ! j) \<and> t_continue (ts' ! j) = 1)"
  using assms
proof (induction env i ts rule: start_threads.induct)
  case (1 env i ts)
  show ?case
  proof (cases "i < length ts")
    case True
    let ?t = "(ts ! i)\<lparr>t_id := int i, t_continue := 1, t_thread := True\<rparr>"
    have s: "start_threads env i ts = start_threads env (Suc i) (ts[i := ?t])"
      using True 1(2) by (subst start_threads.simps) (simp add: Let_def)
    have "\<exists>ts'. start_threads env (Suc i) (ts[i := ?t]) = (True, ts') \<and> length ts' = length (ts[i := ?t])
        \<and> (\<forall>j<length (ts[i := ?t]). if j < Suc i then ts' ! j = ts[i := ?t] ! j
           else t_id (ts' ! j) = int j \<and> t_thread (ts' ! j) \<and> t_continue (ts' ! j) = 1)"
      using 1(1) [OF True refl] 1(2) True by simp
    then obtain ts' where ts': "start_threads env (Suc i) (ts[i := ?t]) = (True, ts')" "length ts' = length ts"
      "\<forall>j<length ts. if j < Suc i then ts' ! j = ts[i := ?t] ! j
           else t_id (ts' ! j) = int j \<and> t_thread (ts' ! j) \<and> t_continue (ts' ! j) = 1" by auto
    have "if j < i then ts' ! j = ts ! j
         else t_id (ts' ! j) = int j \<and> t_thread (ts' ! j) \<and> t_continue (ts' ! j) = 1" if "j < length ts" for j
      using ts'(3) that True by (cases "j = i") (auto simp: nth_list_update)
    then show ?thesis using s ts'(1,2) by auto
  next
    case False
    then show ?thesis using 1(3) by (subst start_threads.simps) simp
  qed
qed

lemma start_threads_fail:
  assumes "k < length ts" and "i \<le> k" and "pthread_create_ret env k \<noteq> 0"
    and "\<And>j. i \<le> j \<Longrightarrow> j < length ts \<Longrightarrow> \<not> t_thread (ts ! j)"
  shows "\<exists>ts'. start_threads env i ts = (False, ts') \<and> length ts' = length ts \<and> (\<exists>t\<in>set ts'. \<not> t_thread t)"
  using assms
proof (induction env i ts rule: start_threads.induct)
  case (1 env i ts)
  have i: "i < length ts" using 1(2,3) by simp
  let ?t = "(ts ! i)\<lparr>t_id := int i, t_continue := 1\<rparr>"
  show ?case
  proof (cases "pthread_create_ret env i = 0")
    case False
    then have "start_threads env i ts = (False, ts[i := ?t])"
      using i by (subst start_threads.simps) (simp add: Let_def)
    moreover have "\<not> t_thread ?t" using 1(5) [of i] i by simp
    moreover have "?t \<in> set (ts[i := ?t])" using i by (rule set_update_memI)
    ultimately show ?thesis by (metis length_list_update)
  next
    case True
    let ?ts = "ts[i := ?t\<lparr>t_thread := True\<rparr>]"
    have s: "start_threads env i ts = start_threads env (Suc i) ?ts"
      using True i by (subst start_threads.simps) (simp add: Let_def)
    have "Suc i \<le> k" using True 1(3,4) by (cases "i = k") auto
    moreover have "\<not> t_thread (?ts ! j)" if "Suc i \<le> j" "j < length ?ts" for j
      using 1(5) [of j] that by (simp add: nth_list_update)
    ultimately show ?thesis using 1(1) [OF i refl] True 1(2,4) s by auto
  qed
qed

lemma join_threads_all: "list_all t_thread ts \<Longrightarrow> join_threads ts = Some (map (\<lambda>t. Join (t_id t)) ts)"
  by (induction ts) auto

lemma join_threads_missing: "\<exists>t\<in>set ts. \<not> t_thread t \<Longrightarrow> join_threads ts = None"
  by (induction ts) auto

lemma destroy_missing:
  assumes "tp_threads pool = Some ts" and "tp_num pool = Some (int (length ts))" and "\<exists>t\<in>set ts. \<not> t_thread t"
  shows "thread_pool_destroy (Some (Some pool)) = None"
proof -
  have "join_threads (map (\<lambda>t. t\<lparr>t_continue := 0\<rparr>) ts) = None"
    using assms(3) by (intro join_threads_missing) auto
  then show ?thesis using assms(1,2) by simp
qed

text \<open>What the caller of the system may assume of a successful creation.\<close>

definition env_good :: "pool_env \<Rightarrow> int \<Rightarrow> bool" where
  "env_good env sz \<longleftrightarrow> malloc_pool env \<and> malloc_threads env \<and> malloc_queue env \<and> malloc_slots env
     \<and> list_all (\<lambda>j. pthread_create_ret env j = 0) [0..<nat sz]"

lemma thread_pool_create_ok:
  assumes "0 < sz" and "env_good env sz"
  shows "\<exists>ts q. thread_pool_create env sz data = Some (Some
      \<lparr>tp_threads = Some ts, tp_num = Some sz, tp_queue = Some (Some q), tp_data = Some data\<rparr>, [])
    \<and> map t_id ts = map int [0..<nat sz] \<and> list_all t_thread ts \<and> length ts = nat sz \<and> q_inv q \<and> q_list q = []"
proof -
  let ?z = "replicate (nat sz) \<lparr>t_id = 0, t_thread = False, t_continue = 0\<rparr>"
  obtain q where q: "queue_create 1024 True True = Some q" by (simp add: queue_create_def)
  have qi: "q_inv q" "q_list q = []" using queue_create_ok [OF q] by (auto simp: in_int_def INT_MAX_def)
  have "\<And>j. j < length ?z \<Longrightarrow> pthread_create_ret env j = 0" using assms(2) by (simp add: env_good_def list_all_iff)
  then obtain ts where ts: "start_threads env 0 ?z = (True, ts)" "length ts = nat sz"
    "\<forall>j<nat sz. t_id (ts ! j) = int j \<and> t_thread (ts ! j)"
    using start_threads_all [of ?z env 0] by auto
  have "map t_id ts = map int [0..<nat sz]" "list_all t_thread ts"
    using ts(2,3) by (auto simp: list_eq_iff_nth_eq list_all_length)
  moreover have "thread_pool_create env sz data = Some (Some
      \<lparr>tp_threads = Some ts, tp_num = Some sz, tp_queue = Some (Some q), tp_data = Some data\<rparr>, [])"
    using assms q ts(1) by (simp add: thread_pool_create_def env_good_def)
  ultimately show ?thesis using qi ts(2) by blast
qed

text \<open>When every allocation and every thread creation succeeds, the pool has its threads numbered
  from 0, an empty task queue and the caller's data; destroying it joins every thread exactly once, in
  order, and then frees the threads, the queue and the pool.\<close>

theorem thread_pool_lifecycle:
  assumes "0 < sz" and "env_good env sz"
  shows "\<exists>pool ts q. thread_pool_create env sz data = Some (Some pool, [])
    \<and> tp_threads pool = Some ts \<and> map t_id ts = map int [0..<nat sz] \<and> tp_data pool = Some data
    \<and> tp_queue pool = Some (Some q) \<and> q_inv q \<and> q_list q = []
    \<and> thread_pool_destroy (Some (Some pool)) = Some (Some None,
        map (\<lambda>i. Join (int i)) [0..<nat sz] @ [Free_threads, Free_queue, Free_pool])"
proof -
  obtain ts q where c: "thread_pool_create env sz data = Some (Some
      \<lparr>tp_threads = Some ts, tp_num = Some sz, tp_queue = Some (Some q), tp_data = Some data\<rparr>, [])"
    "map t_id ts = map int [0..<nat sz]" "list_all t_thread ts" "length ts = nat sz" "q_inv q" "q_list q = []"
    using thread_pool_create_ok [OF assms] by blast
  let ?pool = "\<lparr>tp_threads = Some ts, tp_num = Some sz, tp_queue = Some (Some q), tp_data = Some data\<rparr>"
  have "list_all t_thread (map (\<lambda>t. t\<lparr>t_continue := 0\<rparr>) ts)" using c(3) by (auto simp: list_all_iff)
  then have "join_threads (map (\<lambda>t. t\<lparr>t_continue := 0\<rparr>) ts) = Some (map (\<lambda>t. Join (t_id t)) ts)"
    by (simp add: join_threads_all comp_def)
  moreover have "map (\<lambda>t. Join (t_id t)) ts = map (\<lambda>i. Join (int i)) [0..<nat sz]"
    using arg_cong [OF c(2), of "map Join"] by (simp add: comp_def)
  ultimately have "thread_pool_destroy (Some (Some ?pool)) = Some (Some None,
        map (\<lambda>i. Join (int i)) [0..<nat sz] @ [Free_threads, Free_queue, Free_pool])"
    using assms(1) c(4) by simp
  then show ?thesis using c by (intro exI [of _ ?pool] exI [of _ ts] exI [of _ q]) simp
qed

definition two_threads :: pool_env where
  "two_threads = \<lparr>malloc_pool = True, malloc_threads = True, malloc_queue = True, malloc_slots = True,
     pthread_create_ret = (\<lambda>_. 0)\<rparr>"

theorem thread_pool_lifecycle_witness:
  "\<exists>pool. thread_pool_create two_threads 2 (At 7) = Some (Some pool, [])
    \<and> thread_pool_destroy (Some (Some pool)) = Some (Some None, [Join 0, Join 1, Free_threads, Free_queue, Free_pool])"
proof -
  have "[0..<2] = [0, Suc 0]" by (simp add: upt_rec)
  then show ?thesis
    using thread_pool_lifecycle [of 2 two_threads "At 7"]
    by (auto simp: two_threads_def env_good_def list_all_iff simp del: thread_pool_destroy.simps)
qed

text \<open>No failure after the pool's own allocation is handled: when the thread array, the queue or a
  single thread cannot be created, the clean-up itself has undefined behaviour, as it reads the pool's
  indeterminate queue pointer or joins a thread that was never created.\<close>

theorem thread_pool_create_failure:
  assumes "0 < sz" and "malloc_pool env" and "\<not> env_good env sz"
  shows "thread_pool_create env sz data = None"
proof -
  let ?z = "replicate (nat sz) \<lparr>t_id = 0, t_thread = False, t_continue = 0\<rparr>"
  consider (threads) "\<not> malloc_threads env" | (que) "malloc_threads env" "\<not> (malloc_queue env \<and> malloc_slots env)"
    | (thread) k where "malloc_threads env" "malloc_queue env" "malloc_slots env" "k < nat sz" "pthread_create_ret env k \<noteq> 0"
    using assms(2,3) unfolding env_good_def list_all_iff by force
  then show ?thesis
  proof cases
    case threads
    then show ?thesis using assms(1,2) by (simp add: thread_pool_create_def Let_def)
  next
    case que
    then have "queue_create 1024 (malloc_queue env) (malloc_slots env) = None" by (auto simp: queue_create_def)
    moreover have "\<exists>t\<in>set ?z. \<not> t_thread t" using assms(1) by simp
    ultimately show ?thesis using que(1) assms(1,2) destroy_missing [of _ ?z]
      by (simp add: thread_pool_create_def Let_def del: thread_pool_destroy.simps)
  next
    case (thread k)
    obtain q where q: "queue_create 1024 True True = Some q" by (simp add: queue_create_def)
    obtain ts where ts: "start_threads env 0 ?z = (False, ts)" "length ts = nat sz" "\<exists>t\<in>set ts. \<not> t_thread t"
      using start_threads_fail [of k ?z 0 env] thread(4,5) by auto
    then show ?thesis using thread q assms(1,2) destroy_missing [of _ ts]
      by (simp add: thread_pool_create_def Let_def del: thread_pool_destroy.simps)
  qed
qed

theorem thread_pool_create_failure_witness:
  "thread_pool_create (two_threads\<lparr>pthread_create_ret := (\<lambda>i. if i = 1 then 11 else 0)\<rparr>) 2 (At 7) = None"
  by (rule thread_pool_create_failure) (auto simp: two_threads_def env_good_def list_all_iff)

section \<open>Tasks\<close>

text \<open>A history of producers pushing tasks and workers taking them; a worker gets \<open>NULL\<close> from an empty
  queue and then has no task. The result lists who got which task.\<close>

datatype task_op = PushTask ptr | TakeTask nat

fun tasks_run :: "thread_pool \<Rightarrow> task_op list \<Rightarrow> ((nat \<times> ptr) list \<times> thread_pool) option" where
  "tasks_run p [] = Some ([], p)"
| "tasks_run p (PushTask d # ops) = do {
     (r, p') \<leftarrow> thread_pool_push_task True (Some p) d;
     p' \<leftarrow> p';
     tasks_run p' ops }"
| "tasks_run p (TakeTask w # ops) = do {
     q \<leftarrow> tp_queue p;
     q \<leftarrow> q;
     (d, q') \<leftarrow> queue_pop q;
     (got, p') \<leftarrow> tasks_run (p\<lparr>tp_queue := Some (Some q')\<rparr>) ops;
     Some (if d = NULL then got else (w, d) # got, p') }"

definition pushed :: "task_op list \<Rightarrow> ptr list" where
  "pushed ops = concat (map (\<lambda>op. case op of PushTask d \<Rightarrow> [d] | TakeTask _ \<Rightarrow> []) ops)"



end
