(* ===== verification/Rbtree.thy ===== *)
theory Rbtree
  imports Prelude
begin

text \<open>
  The red-black tree of \<open>thirdparty/rbtree/rbtree.c\<close> that the IP zones are kept in. A node's links to
  its children are the structure of the tree; its link to its parent is the context: a position in a
  tree is the subtree at a node together with the frames from its parent to the root, so every
  pointer the C code follows (\<open>rb_left\<close>, \<open>rb_right\<close>, \<open>rb_parent\<close>) is a step on a position. A \<open>NULL\<close>
  dereference is \<open>None\<close>. The two rotations, the rebalancing loops after an insertion and a
  removal, the removal itself and the iteration are modelled case by case as in the source; the
  augmentation is in \<open>RbAugment\<close>.

  The lemmas show that insertion and removal keep the order of the elements and the red-black
  invariant and never dereference \<open>NULL\<close>, and that the iteration visits the elements in order.
\<close>

section \<open>State\<close>

datatype rb_color = RB_RED | RB_BLACK

datatype 'a rb_tree = RB_NULL | RB_node rb_color "'a rb_tree" 'a "'a rb_tree"

text \<open>A frame is a parent whose left or right child is the hole.\<close>

datatype 'a frame = In_left rb_color 'a "'a rb_tree" | In_right rb_color "'a rb_tree" 'a

fun plug_frame :: "'a rb_tree \<Rightarrow> 'a frame \<Rightarrow> 'a rb_tree" where
  "plug_frame t (In_left c x r) = RB_node c t x r"
| "plug_frame t (In_right c l x) = RB_node c l x t"

text \<open>The whole tree of a position.\<close>

fun plug :: "'a rb_tree \<Rightarrow> 'a frame list \<Rightarrow> 'a rb_tree" where
  "plug t [] = t"
| "plug t (f # fs) = plug (plug_frame t f) fs"

fun rb_is_red :: "'a rb_tree \<Rightarrow> bool option" where
  "rb_is_red RB_NULL = None"
| "rb_is_red (RB_node c l x r) = Some (c = RB_RED)"

text \<open>The tests \<open>node && rb_is_red (node)\<close> and its negation.\<close>

fun red_node :: "'a rb_tree \<Rightarrow> bool" where
  "red_node (RB_node RB_RED l x r) = True"
| "red_node _ = False"

fun set_black :: "'a rb_tree \<Rightarrow> 'a rb_tree" where
  "set_black RB_NULL = RB_NULL"
| "set_black (RB_node c l x r) = RB_node RB_BLACK l x r"

section \<open>Rotations\<close>

fun rb_rotate_left :: "'a rb_tree \<Rightarrow> 'a rb_tree option" where
  "rb_rotate_left (RB_node c l x (RB_node c' rl y rr)) = Some (RB_node c' (RB_node c l x rl) y rr)"
| "rb_rotate_left _ = None"

fun rb_rotate_right :: "'a rb_tree \<Rightarrow> 'a rb_tree option" where
  "rb_rotate_right (RB_node c (RB_node c' ll y lr) x r) = Some (RB_node c' ll y (RB_node c lr x r))"
| "rb_rotate_right _ = None"

section \<open>Insertion\<close>

text \<open>\<open>rb_insert_color\<close>: the loop climbs two frames per turn. After the rotation at the grandparent the
  loop test fails, as the node's parent is then black. At the end the root is made black; a tree
  without a root cannot occur here.\<close>

fun rb_insert_color :: "'a rb_tree \<Rightarrow> 'a frame list \<Rightarrow> 'a rb_tree option" where
  "rb_insert_color node [] = Some (set_black node)"
| "rb_insert_color node [In_left RB_RED x r] = None"
| "rb_insert_color node [In_right RB_RED l x] = None"
| "rb_insert_color node (In_left RB_BLACK x r # fs) = Some (set_black (plug node (In_left RB_BLACK x r # fs)))"
| "rb_insert_color node (In_right RB_BLACK l x # fs) = Some (set_black (plug node (In_right RB_BLACK l x # fs)))"
| "rb_insert_color node (In_left RB_RED p r # In_left gc g uncle # fs) =
     (if red_node uncle
      then rb_insert_color (RB_node RB_RED (RB_node RB_BLACK node p r) g (set_black uncle)) fs
      else do {
        sub \<leftarrow> rb_rotate_right (RB_node RB_RED (RB_node RB_BLACK node p r) g uncle);
        Some (set_black (plug sub fs))
      })"
| "rb_insert_color node (In_right RB_RED l p # In_left gc g uncle # fs) =
     (if red_node uncle
      then rb_insert_color (RB_node RB_RED (RB_node RB_BLACK l p node) g (set_black uncle)) fs
      else do {
        parent \<leftarrow> rb_rotate_left (RB_node RB_RED l p node);
        sub \<leftarrow> rb_rotate_right (RB_node RB_RED (set_black parent) g uncle);
        Some (set_black (plug sub fs))
      })"
| "rb_insert_color node (In_right RB_RED l p # In_right gc uncle g # fs) =
     (if red_node uncle
      then rb_insert_color (RB_node RB_RED (set_black uncle) g (RB_node RB_BLACK l p node)) fs
      else do {
        sub \<leftarrow> rb_rotate_left (RB_node RB_RED uncle g (RB_node RB_BLACK l p node));
        Some (set_black (plug sub fs))
      })"
| "rb_insert_color node (In_left RB_RED p r # In_right gc uncle g # fs) =
     (if red_node uncle
      then rb_insert_color (RB_node RB_RED (set_black uncle) g (RB_node RB_BLACK node p r)) fs
      else do {
        parent \<leftarrow> rb_rotate_right (RB_node RB_RED node p r);
        sub \<leftarrow> rb_rotate_left (RB_node RB_RED uncle g (set_black parent));
        Some (set_black (plug sub fs))
      })"

text \<open>\<open>rb_link_node\<close>: a new red node without children in the empty link.\<close>

definition rb_link_node :: "'a \<Rightarrow> 'a rb_tree" where
  "rb_link_node x = RB_node RB_RED RB_NULL x RB_NULL"

section \<open>Removal\<close>

text \<open>\<open>__rb_erase_color\<close>: the hole holds the child of the removed black node. \<open>None\<close> is the
  dereference of a \<open>NULL\<close> sibling. After the rotation that makes a red sibling black the parent is red,
  so going on one level up stops the loop there (the case \<open>red_node t\<close>). The rotation that ends the loop leaves the whole tree's root to be
  made black; otherwise the node the loop stops at is made black.\<close>

definition both_black :: "'a rb_tree \<Rightarrow> 'a rb_tree \<Rightarrow> bool" where
  "both_black l r \<longleftrightarrow> \<not> red_node l \<and> \<not> red_node r"

text \<open>The turn of the loop once the sibling is black: \<open>Inl\<close> goes on one level up, \<open>Inr\<close> is the new subtree.\<close>

fun erase_left :: "rb_color \<Rightarrow> 'a rb_tree \<Rightarrow> 'a \<Rightarrow> 'a rb_tree \<Rightarrow> ('a rb_tree + 'a rb_tree) option" where
  "erase_left pc node p RB_NULL = None"
| "erase_left pc node p (RB_node oc xl x xr) =
     (if both_black xl xr then Some (Inl (RB_node pc node p (RB_node RB_RED xl x xr)))
      else do {
        other \<leftarrow> (if \<not> red_node xr then rb_rotate_right (RB_node RB_RED (set_black xl) x xr) else Some (RB_node oc xl x xr));
        case other of RB_NULL \<Rightarrow> None
        | RB_node _ xl' y xr' \<Rightarrow>
            map_option Inr (rb_rotate_left (RB_node RB_BLACK node p (RB_node pc xl' y (set_black xr'))))
      })"

fun erase_right :: "rb_color \<Rightarrow> 'a rb_tree \<Rightarrow> 'a \<Rightarrow> 'a rb_tree \<Rightarrow> ('a rb_tree + 'a rb_tree) option" where
  "erase_right pc RB_NULL p node = None"
| "erase_right pc (RB_node oc xl x xr) p node =
     (if both_black xl xr then Some (Inl (RB_node pc (RB_node RB_RED xl x xr) p node))
      else do {
        other \<leftarrow> (if \<not> red_node xl then rb_rotate_left (RB_node RB_RED xl x (set_black xr)) else Some (RB_node oc xl x xr));
        case other of RB_NULL \<Rightarrow> None
        | RB_node _ xl' y xr' \<Rightarrow>
            map_option Inr (rb_rotate_right (RB_node RB_BLACK (RB_node pc (set_black xl') y xr') p node))
      })"

fun rb_erase_color :: "'a rb_tree \<Rightarrow> 'a frame list \<Rightarrow> 'a rb_tree option" where
  "rb_erase_color node [] = Some (set_black node)"
| "rb_erase_color node (In_left pc p other # fs) =
     (if red_node node then Some (plug (set_black node) (In_left pc p other # fs))
      else do {
        red \<leftarrow> rb_is_red other;
        if red then do {
          up \<leftarrow> rb_rotate_left (RB_node RB_RED node p (set_black other));
          case up of
            RB_node uc (RB_node pc' n p' other') x r \<Rightarrow> do {
              s \<leftarrow> erase_left pc' n p' other';
              case s of
                Inl t \<Rightarrow> (if red_node t then Some (plug (set_black t) (In_left uc x r # fs)) else None)
              | Inr t \<Rightarrow> Some (set_black (plug t (In_left uc x r # fs)))
            }
          | _ \<Rightarrow> None
        }
        else do {
          s \<leftarrow> erase_left pc node p other;
          case s of Inl t \<Rightarrow> rb_erase_color t fs | Inr t \<Rightarrow> Some (set_black (plug t fs))
        }
      })"
| "rb_erase_color node (In_right pc other p # fs) =
     (if red_node node then Some (plug (set_black node) (In_right pc other p # fs))
      else do {
        red \<leftarrow> rb_is_red other;
        if red then do {
          up \<leftarrow> rb_rotate_right (RB_node RB_RED (set_black other) p node);
          case up of
            RB_node uc l x (RB_node pc' other' p' n) \<Rightarrow> do {
              s \<leftarrow> erase_right pc' other' p' n;
              case s of
                Inl t \<Rightarrow> (if red_node t then Some (plug (set_black t) (In_right uc l x # fs)) else None)
              | Inr t \<Rightarrow> Some (set_black (plug t (In_right uc l x # fs)))
            }
          | _ \<Rightarrow> None
        }
        else do {
          s \<leftarrow> erase_right pc other p node;
          case s of Inl t \<Rightarrow> rb_erase_color t fs | Inr t \<Rightarrow> Some (set_black (plug t fs))
        }
      })"

text \<open>The leftmost node below a position, as \<open>rb_first\<close>, \<open>rb_next\<close> and \<open>rb_erase\<close> look for it.\<close>

fun rb_leftmost :: "'a rb_tree \<Rightarrow> 'a frame list \<Rightarrow> 'a rb_tree \<times> 'a frame list" where
  "rb_leftmost (RB_node c (RB_node c' l' y r') x r) fs = rb_leftmost (RB_node c' l' y r') (In_left c x r # fs)"
| "rb_leftmost t fs = (t, fs)"

definition erase_child :: "rb_color \<Rightarrow> 'a rb_tree \<Rightarrow> 'a frame list \<Rightarrow> 'a rb_tree option" where
  "erase_child color child fs = (if color = RB_BLACK then rb_erase_color child fs else Some (plug child fs))"

text \<open>\<open>rb_erase\<close> of the node at a position. With two children the successor takes over the node's place
  and color; its own right child fills the place it leaves.\<close>

fun rb_erase :: "'a rb_tree \<Rightarrow> 'a frame list \<Rightarrow> 'a rb_tree option" where
  "rb_erase RB_NULL fs = None"
| "rb_erase (RB_node c RB_NULL x r) fs = erase_child c r fs"
| "rb_erase (RB_node c (RB_node lc ll lx lr) x RB_NULL) fs = erase_child c (RB_node lc ll lx lr) fs"
| "rb_erase (RB_node c (RB_node lc ll lx lr) x (RB_node rc rl rx rr)) fs =
     (case rb_leftmost (RB_node rc rl rx rr) [] of
        (RB_NULL, _) \<Rightarrow> None
      | (RB_node sc _ s sr, path) \<Rightarrow> erase_child sc sr (path @ In_right c (RB_node lc ll lx lr) s # fs))"

section \<open>Iteration\<close>

definition rb_first :: "'a rb_tree \<Rightarrow> ('a rb_tree \<times> 'a frame list) option" where
  "rb_first root = (if root = RB_NULL then None else Some (rb_leftmost root []))"

fun rb_up :: "'a rb_tree \<Rightarrow> 'a frame list \<Rightarrow> ('a rb_tree \<times> 'a frame list) option" where
  "rb_up node [] = None"
| "rb_up node (In_left c x r # fs) = Some (RB_node c node x r, fs)"
| "rb_up node (In_right c l x # fs) = rb_up (RB_node c l x node) fs"

fun rb_next :: "'a rb_tree \<times> 'a frame list \<Rightarrow> ('a rb_tree \<times> 'a frame list) option" where
  "rb_next (RB_NULL, fs) = None"
| "rb_next (RB_node c l x r, fs) =
     (if r \<noteq> RB_NULL then Some (rb_leftmost r (In_right c l x # fs)) else rb_up (RB_node c l x r) fs)"

fun rb_rightmost :: "'a rb_tree \<Rightarrow> 'a frame list \<Rightarrow> 'a rb_tree \<times> 'a frame list" where
  "rb_rightmost (RB_node c l x (RB_node c' l' y r')) fs = rb_rightmost (RB_node c' l' y r') (In_right c l x # fs)"
| "rb_rightmost t fs = (t, fs)"

definition rb_last :: "'a rb_tree \<Rightarrow> ('a rb_tree \<times> 'a frame list) option" where
  "rb_last root = (if root = RB_NULL then None else Some (rb_rightmost root []))"

fun rb_up_left :: "'a rb_tree \<Rightarrow> 'a frame list \<Rightarrow> ('a rb_tree \<times> 'a frame list) option" where
  "rb_up_left node [] = None"
| "rb_up_left node (In_right c l x # fs) = Some (RB_node c l x node, fs)"
| "rb_up_left node (In_left c x r # fs) = rb_up_left (RB_node c node x r) fs"

fun rb_prev :: "'a rb_tree \<times> 'a frame list \<Rightarrow> ('a rb_tree \<times> 'a frame list) option" where
  "rb_prev (RB_NULL, fs) = None"
| "rb_prev (RB_node c l x r, fs) =
     (if l \<noteq> RB_NULL then Some (rb_rightmost l (In_left c x r # fs)) else rb_up_left (RB_node c l x r) fs)"

text \<open>\<open>rb_replace_node\<close>: the links and the color of the victim go to the new node.\<close>

fun rb_replace_node :: "'a rb_tree \<times> 'a frame list \<Rightarrow> 'a \<Rightarrow> 'a rb_tree option" where
  "rb_replace_node (RB_NULL, fs) new = None"
| "rb_replace_node (RB_node c l x r, fs) new = Some (plug (RB_node c l new r) fs)"

section \<open>Elements in order\<close>

fun inorder :: "'a rb_tree \<Rightarrow> 'a list" where
  "inorder RB_NULL = []"
| "inorder (RB_node c l x r) = inorder l @ x # inorder r"

text \<open>The elements before and after the hole of a context.\<close>

fun lefts :: "'a frame list \<Rightarrow> 'a list" where
  "lefts [] = []"
| "lefts (In_left c x r # fs) = lefts fs"
| "lefts (In_right c l x # fs) = lefts fs @ inorder l @ [x]"

fun rights :: "'a frame list \<Rightarrow> 'a list" where
  "rights [] = []"
| "rights (In_left c x r # fs) = x # inorder r @ rights fs"
| "rights (In_right c l x # fs) = rights fs"

lemma inorder_plug [simp]: "inorder (plug t fs) = lefts fs @ inorder t @ rights fs"
proof (induction fs arbitrary: t)
  case (Cons f fs)
  then show ?case by (cases f) auto
qed simp

lemma inorder_set_black [simp]: "inorder (set_black t) = inorder t"
  by (cases t) auto

lemma plug_append: "plug t (fs @ gs) = plug (plug t fs) gs"
  by (induction fs arbitrary: t) auto

lemma inorder_Nil: "inorder t = [] \<longleftrightarrow> t = RB_NULL"
  by (cases t) auto

section \<open>The red-black invariant\<close>

fun bh :: "'a rb_tree \<Rightarrow> nat" where
  "bh RB_NULL = 0"
| "bh (RB_node c l x r) = bh l + (if c = RB_BLACK then 1 else 0)"

fun rb_wf :: "'a rb_tree \<Rightarrow> bool" where
  "rb_wf RB_NULL = True"
| "rb_wf (RB_node c l x r) \<longleftrightarrow> rb_wf l \<and> rb_wf r \<and> bh l = bh r \<and> (c = RB_RED \<longrightarrow> \<not> red_node l \<and> \<not> red_node r)"

definition rb_ok :: "'a rb_tree \<Rightarrow> bool" where
  "rb_ok t \<longleftrightarrow> rb_wf t \<and> \<not> red_node t"

fun frame_black :: "'a frame \<Rightarrow> bool" where
  "frame_black (In_left c x r) \<longleftrightarrow> c = RB_BLACK"
| "frame_black (In_right c l x) \<longleftrightarrow> c = RB_BLACK"

text \<open>The nearest frame is black; the root is never red.\<close>

fun ctx_black :: "'a frame list \<Rightarrow> bool" where
  "ctx_black [] = False"
| "ctx_black (f # fs) = frame_black f"

text \<open>A context whose hole takes a tree of black height \<open>h\<close>.\<close>

fun ctx_wf :: "nat \<Rightarrow> 'a frame list \<Rightarrow> bool" where
  "ctx_wf h [] = True"
| "ctx_wf h (In_left c x r # fs) \<longleftrightarrow> rb_wf r \<and> bh r = h \<and> (c = RB_RED \<longrightarrow> \<not> red_node r \<and> ctx_black fs)
     \<and> ctx_wf (if c = RB_BLACK then Suc h else h) fs"
| "ctx_wf h (In_right c l x # fs) \<longleftrightarrow> rb_wf l \<and> bh l = h \<and> (c = RB_RED \<longrightarrow> \<not> red_node l \<and> ctx_black fs)
     \<and> ctx_wf (if c = RB_BLACK then Suc h else h) fs"

lemma red_node_color [simp]: "red_node (RB_node c l x r) \<longleftrightarrow> c = RB_RED"
  by (cases c) auto

lemma not_black: "c \<noteq> RB_BLACK \<longleftrightarrow> c = RB_RED"
  by (cases c) auto

lemma rb_wf_set_black: "rb_wf t \<Longrightarrow> rb_wf (set_black t)"
  by (cases t) auto

lemma red_set_black [simp]: "\<not> red_node (set_black t)"
  by (cases t) auto

lemma bh_set_black: "bh (set_black t) = bh t + (if red_node t then 1 else 0)"
  by (cases t) (auto simp: not_black)

lemma set_black_id: "\<not> red_node t \<Longrightarrow> set_black t = t"
  by (cases t) (auto simp: not_black [symmetric])

text \<open>Filling the hole with a well-formed tree of the right height.\<close>

lemma plug_wf:
  assumes "ctx_wf h fs" and "rb_wf t" and "bh t = h" and "red_node t \<Longrightarrow> fs = [] \<or> ctx_black fs"
  shows "rb_wf (plug t fs) \<and> (fs \<noteq> [] \<longrightarrow> \<not> red_node (plug t fs))"
  using assms
proof (induction fs arbitrary: t h)
  case (Cons f fs)
  show ?case
  proof (cases f)
    case (In_left c x r)
    let ?t = "RB_node c t x r"
    have "rb_wf ?t" "bh ?t = (if c = RB_BLACK then Suc h else h)" "red_node ?t \<Longrightarrow> ctx_black fs"
      using Cons.prems In_left by (auto simp: not_black)
    then show ?thesis using Cons.IH [of _ ?t] Cons.prems In_left
      by (cases fs) (auto simp: not_black [symmetric])
  next
    case (In_right c l x)
    let ?t = "RB_node c l x t"
    have "rb_wf ?t" "bh ?t = (if c = RB_BLACK then Suc h else h)" "red_node ?t \<Longrightarrow> ctx_black fs"
      using Cons.prems In_right by (auto simp: not_black)
    then show ?thesis using Cons.IH [of _ ?t] Cons.prems In_right
      by (cases fs) (auto simp: not_black [symmetric])
  qed
qed simp

lemma plug_ok: "ctx_wf h fs \<Longrightarrow> rb_wf t \<Longrightarrow> bh t = h \<Longrightarrow> \<not> red_node t \<Longrightarrow> rb_ok (plug t fs)"
  using plug_wf [of h fs t] by (cases fs) (auto simp: rb_ok_def)

lemma set_black_plug_ok:
  "ctx_wf h fs \<Longrightarrow> rb_wf t \<Longrightarrow> bh t = h \<Longrightarrow> (red_node t \<Longrightarrow> fs = [] \<or> ctx_black fs) \<Longrightarrow> rb_ok (set_black (plug t fs))"
  using plug_wf [of h fs t] by (simp add: rb_ok_def rb_wf_set_black)

section \<open>Mirror images\<close>

text \<open>The source writes each case twice, with left and right exchanged; the two halves are mirror images, so a lemma about one gives the other.\<close>

fun mirror :: "'a rb_tree \<Rightarrow> 'a rb_tree" where
  "mirror RB_NULL = RB_NULL"
| "mirror (RB_node c l x r) = RB_node c (mirror r) x (mirror l)"

fun mirror_frame :: "'a frame \<Rightarrow> 'a frame" where
  "mirror_frame (In_left c x r) = In_right c (mirror r) x"
| "mirror_frame (In_right c l x) = In_left c x (mirror l)"

lemma mirror_mirror [simp]: "mirror (mirror t) = t"
  by (induction t) simp_all

lemma mirror_frame_mirror_frame [simp]: "mirror_frame (mirror_frame f) = f"
  by (cases f) simp_all

lemma mirror_frames [simp]: "mirror_frame \<circ> mirror_frame = id"
  by (simp add: fun_eq_iff)

lemma mirror_NULL [simp]: "mirror t = RB_NULL \<longleftrightarrow> t = RB_NULL"
  by (cases t) simp_all

lemma inorder_mirror [simp]: "inorder (mirror t) = rev (inorder t)"
  by (induction t) simp_all

lemma red_mirror [simp]: "red_node (mirror t) = red_node t"
  by (cases t) simp_all

lemma rb_is_red_mirror [simp]: "rb_is_red (mirror t) = rb_is_red t"
  by (cases t) simp_all

lemma set_black_mirror [simp]: "set_black (mirror t) = mirror (set_black t)"
  by (cases t) simp_all

lemma plug_mirror [simp]: "plug (mirror t) (map mirror_frame fs) = mirror (plug t fs)"
proof (induction fs arbitrary: t)
  case (Cons f fs)
  have "plug_frame (mirror t) (mirror_frame f) = mirror (plug_frame t f)" by (cases f) simp_all
  then show ?case using Cons by simp
qed simp

lemma lefts_mirror [simp]: "lefts (map mirror_frame fs) = rev (rights fs)"
  by (induction fs rule: rights.induct) simp_all

lemma rights_mirror [simp]: "rights (map mirror_frame fs) = rev (lefts fs)"
  by (induction fs rule: lefts.induct) simp_all

lemma rotate_mirror:
  "rb_rotate_left (mirror t) = map_option mirror (rb_rotate_right t)"
  "rb_rotate_right (mirror t) = map_option mirror (rb_rotate_left t)"
  by (cases t rule: rb_rotate_right.cases; simp) (cases t rule: rb_rotate_left.cases; simp)

lemma erase_mirror: "erase_left pc (mirror node) p (mirror other) = map_option (map_sum mirror mirror) (erase_right pc other p node)"
proof (cases other)
  case (RB_node oc xl x xr)
  then show ?thesis by (cases xl; cases xr) (auto simp: both_black_def)
qed simp

lemma erase_right_mirror: "erase_right pc (mirror other) p (mirror node) = map_option (map_sum mirror mirror) (erase_left pc node p other)"
  using erase_mirror [of pc "mirror node" p "mirror other"] by (simp add: option.map_comp comp_def sum.map_comp sum.map_ident option.map_ident)

lemma set_black_plug_mirror: "u = mirror t \<Longrightarrow> set_black (plug u (map mirror_frame fs)) = mirror (set_black (plug t fs))"
  by simp

lemma rb_wf_mirror: "rb_wf t \<Longrightarrow> rb_wf (mirror t) \<and> bh (mirror t) = bh t"
  by (induction t) auto

lemma rb_ok_mirror [simp]: "rb_ok (mirror t) \<longleftrightarrow> rb_ok t"
  using rb_wf_mirror [of t] rb_wf_mirror [of "mirror t"] by (auto simp: rb_ok_def)

lemma ctx_black_mirror [simp]: "ctx_black (map mirror_frame fs) = ctx_black fs"
  by (cases fs rule: lefts.cases) simp_all

lemma ctx_wf_mirror: "ctx_wf h fs \<Longrightarrow> ctx_wf h (map mirror_frame fs)"
  by (induction h fs rule: ctx_wf.induct) (auto simp: rb_wf_mirror)

lemma rb_erase_color_mirror: "rb_erase_color (mirror node) (map mirror_frame fs) = map_option mirror (rb_erase_color node fs)"
proof (induction node fs rule: rb_erase_color.induct)
  case (1 node)
  then show ?case by simp
next
  case (2 node pc p other fs)
  show ?case
  proof (cases "red_node node \<or> other = RB_NULL")
    case True
    then show ?thesis using plug_mirror [of "set_black node" "In_left pc p other # fs"] by auto
  next
    case False
    then obtain oc xl x xr where o: "other = RB_node oc xl x xr" by (cases other) auto
    show ?thesis
    proof (cases "oc = RB_RED")
      case True
      then show ?thesis using False o erase_right_mirror [of RB_RED xl p node] plug_mirror [of _ "In_left RB_BLACK x xr # fs"]
        by (cases "erase_left RB_RED node p xl") (auto split: sum.splits)
    next
      case black: False
      show ?thesis
      proof (cases "erase_left pc node p other")
        case None
        then show ?thesis using False o black erase_right_mirror [of pc other p node] by simp
      next
        case (Some s)
        have "rb_is_red other = Some False" using o black by simp
        then show ?thesis using 2 [of False s] False o black Some erase_right_mirror [of pc other p node] by (cases s) simp_all
      qed
    qed
  qed
next
  case (3 node pc other p fs)
  show ?case
  proof (cases "red_node node \<or> other = RB_NULL")
    case True
    then show ?thesis using plug_mirror [of "set_black node" "In_right pc other p # fs"] by auto
  next
    case False
    then obtain oc xl x xr where o: "other = RB_node oc xl x xr" by (cases other) auto
    show ?thesis
    proof (cases "oc = RB_RED")
      case True
      then show ?thesis using False o erase_mirror [of RB_RED node p xr] plug_mirror [of _ "In_right RB_BLACK xl x # fs"]
        by (cases "erase_right RB_RED xr p node") (auto split: sum.splits)
    next
      case black: False
      show ?thesis
      proof (cases "erase_right pc other p node")
        case None
        then show ?thesis using False o black erase_mirror [of pc node p other] by simp
      next
        case (Some s)
        have "rb_is_red other = Some False" using o black by simp
        then show ?thesis using 3 [of False s] False o black Some erase_mirror [of pc node p other] by (cases s) simp_all
      qed
    qed
  qed
qed

lemma rb_insert_color_mirror: "rb_insert_color (mirror node) (map mirror_frame fs) = map_option mirror (rb_insert_color node fs)"
proof (induction node fs rule: rb_insert_color.induct)
  case (7 node l p gc g uncle fs)
  then show ?case by (cases node) (auto intro!: set_black_plug_mirror)
next
  case (9 node p r gc uncle g fs)
  then show ?case by (cases node) (auto intro!: set_black_plug_mirror)
qed (auto intro!: set_black_plug_mirror)

section \<open>Insertion keeps order and invariant\<close>

text \<open>The rebalancing gives a red-black tree with the same elements in order.\<close>

definition fixes_insert :: "'a rb_tree \<Rightarrow> 'a frame list \<Rightarrow> bool" where
  "fixes_insert node fs \<longleftrightarrow> (\<exists>t. rb_insert_color node fs = Some t \<and> rb_ok t \<and> inorder t = lefts fs @ inorder node @ rights fs)"

lemma fixes_insert_mirror: "fixes_insert (mirror node) (map mirror_frame fs) \<Longrightarrow> fixes_insert node fs"
  by (auto simp: fixes_insert_def rb_insert_color_mirror rev_swap)

lemma red_mirror_node: "red_node node \<Longrightarrow> rb_wf node \<Longrightarrow> red_node (mirror node) \<and> rb_wf (mirror node) \<and> bh (mirror node) = bh node"
  by (simp add: rb_wf_mirror)

text \<open>One turn with the parent on the left of the grandparent.\<close>

lemma insert_turn:
  assumes "red_node node" and "rb_wf node" and "bh node = h" and "ctx_wf h (f # In_left gc g uncle # fs)"
    and IH: "\<And>node. red_node node \<Longrightarrow> rb_wf node \<Longrightarrow> bh node = Suc h \<Longrightarrow> ctx_wf (Suc h) fs \<Longrightarrow> fixes_insert node fs"
  shows "fixes_insert node (f # In_left gc g uncle # fs)"
proof (cases "frame_black f")
  case True
  then show ?thesis using assms(2-4) set_black_plug_ok [of h "f # In_left gc g uncle # fs" node] by (cases f) (auto simp: fixes_insert_def)
next
  case False
  let ?p = "plug_frame node f"
  have p: "gc = RB_BLACK" "ctx_wf (Suc h) fs" "rb_wf uncle" "bh uncle = h" "rb_wf (set_black ?p)" "bh (set_black ?p) = Suc h"
    using assms(2-4) False by (cases f; auto simp: not_black [symmetric])+
  show ?thesis
  proof (cases "red_node uncle")
    case True
    let ?n = "RB_node RB_RED (set_black ?p) g (set_black uncle)"
    have "fixes_insert ?n fs" using p True by (intro IH) (simp_all add: bh_set_black rb_wf_set_black)
    then show ?thesis using False True by (cases f) (auto simp: fixes_insert_def not_black)
  next
    case black: False
    obtain l x r where n: "node = RB_node RB_RED l x r" using assms(1) by (cases node) auto
    let ?t = "case f of In_left c p s \<Rightarrow> RB_node RB_BLACK node p (RB_node RB_RED s g uncle)
      | In_right c s p \<Rightarrow> RB_node RB_BLACK (RB_node RB_RED s p l) x (RB_node RB_RED r g uncle)"
    have "rb_wf ?t" "bh ?t = Suc h" using assms(2-4) False black n by (cases f; auto simp: not_black [symmetric])+
    then show ?thesis using set_black_plug_ok [of "Suc h" fs ?t] p(2) False black n by (cases f) (auto simp: fixes_insert_def not_black)
  qed
qed

lemma rb_insert_color_ok: "red_node node \<Longrightarrow> rb_wf node \<Longrightarrow> bh node = h \<Longrightarrow> ctx_wf h fs \<Longrightarrow> fixes_insert node fs"
proof (induction "length fs" arbitrary: node fs h rule: less_induct)
  case less
  consider "fs = []" | f where "fs = [f]" | f c x r gs where "fs = f # In_left c x r # gs" | f c l x gs where "fs = f # In_right c l x # gs"
    by (cases fs; cases "tl fs"; cases "hd (tl fs)") auto
  then show ?case
  proof cases
    case 1
    then show ?thesis using less by (auto simp: fixes_insert_def rb_ok_def rb_wf_set_black)
  next
    case 2
    then show ?thesis using less(3-5) set_black_plug_ok [of h fs node] by (cases f) (auto simp: fixes_insert_def not_black [symmetric])
  next
    case 3
    show ?thesis unfolding 3 by (rule insert_turn [OF less(2-4)]) (use less(1,5) 3 in simp_all)
  next
    case 4
    have "fixes_insert (mirror node) (mirror_frame f # In_left c x (mirror l) # map mirror_frame gs)"
    proof (rule insert_turn)
      show "red_node (mirror node)" "rb_wf (mirror node)" "bh (mirror node) = h" using red_mirror_node [OF less(2,3)] less(4) by simp_all
      show "ctx_wf h (mirror_frame f # In_left c x (mirror l) # map mirror_frame gs)" using ctx_wf_mirror [OF less(5)] 4 by simp
    qed (use less(1) 4 in simp)
    then show ?thesis using fixes_insert_mirror [of node fs] 4 by simp
  qed
qed

section \<open>Removal keeps order and invariant\<close>

text \<open>What one turn of the loop gives: a subtree one short of the expected height and its black
  version well-formed, or the finished subtree.\<close>

definition turn_ok :: "nat \<Rightarrow> rb_color \<Rightarrow> 'a list \<Rightarrow> 'a rb_tree + 'a rb_tree \<Rightarrow> bool" where
  "turn_ok h pc xs s \<longleftrightarrow> (case s of
      Inl t \<Rightarrow> rb_wf (set_black t) \<and> bh (set_black t) = Suc h \<and> (red_node t \<longleftrightarrow> pc = RB_RED) \<and> inorder t = xs
    | Inr t \<Rightarrow> rb_wf t \<and> bh t = (if pc = RB_BLACK then Suc (Suc h) else Suc h) \<and> (red_node t \<longleftrightarrow> pc = RB_RED) \<and> inorder t = xs)"

lemma erase_left_ok:
  assumes "rb_wf node" and "\<not> red_node node" and "bh node = h" and "rb_wf other" and "\<not> red_node other"
    and "bh other = Suc h"
  shows "\<exists>s. erase_left pc node p other = Some s \<and> turn_ok h pc (inorder node @ p # inorder other) s"
proof (cases other)
  case (RB_node oc xl x xr)
  show ?thesis
  proof (cases "both_black xl xr")
    case True
    then show ?thesis using assms RB_node by (auto simp: turn_ok_def both_black_def not_black [symmetric])
  next
    case both: False
    show ?thesis
    proof (cases "red_node xr")
      case True
      then obtain rl y rr where "xr = RB_node RB_RED rl y rr" by (cases xr) auto
      then show ?thesis using assms RB_node both by (auto simp: turn_ok_def not_black [symmetric])
    next
      case False
      then have "red_node xl" using both by (simp add: both_black_def)
      then obtain rl y rr where "xl = RB_node RB_RED rl y rr" by (cases xl) auto
      then show ?thesis using assms RB_node both False
        by (auto simp: turn_ok_def set_black_id not_black [symmetric])
    qed
  qed
qed (use assms in simp)

text \<open>The step after a turn: one level up, or filling the rest of the context.\<close>

lemma turn_done:
  assumes "turn_ok h pc xs (Inr t)" and "ctx_wf (if pc = RB_BLACK then Suc (Suc h) else Suc h) fs"
    and "pc = RB_RED \<Longrightarrow> ctx_black fs"
  shows "rb_ok (set_black (plug t fs)) \<and> inorder (set_black (plug t fs)) = lefts fs @ xs @ rights fs"
  using assms set_black_plug_ok [of _ fs t] by (auto simp: turn_ok_def)

lemma turn_red:
  assumes "turn_ok h RB_RED xs (Inl t)" and "ctx_wf (Suc h) fs"
  shows "red_node t \<and> rb_ok (plug (set_black t) fs) \<and> inorder (plug (set_black t) fs) = lefts fs @ xs @ rights fs"
  using assms plug_ok [of "Suc h" fs "set_black t"] by (simp add: turn_ok_def)

lemma turn_next:
  assumes "turn_ok h pc xs (Inl t)" and "ctx_wf (if pc = RB_BLACK then Suc (Suc h) else Suc h) fs"
  shows "\<exists>k. rb_wf (set_black t) \<and> bh (set_black t) = (if red_node t then Suc k else k) \<and> ctx_wf (Suc k) fs"
  using assms by (cases pc) (auto simp: turn_ok_def)

definition fixes_erase :: "'a rb_tree \<Rightarrow> 'a frame list \<Rightarrow> bool" where
  "fixes_erase node fs \<longleftrightarrow> (\<exists>t. rb_erase_color node fs = Some t \<and> rb_ok t \<and> inorder t = lefts fs @ inorder node @ rights fs)"

lemma fixes_erase_mirror: "fixes_erase (mirror node) (map mirror_frame fs) \<Longrightarrow> fixes_erase node fs"
  by (auto simp: fixes_erase_def rb_erase_color_mirror rev_swap)

text \<open>A hole whose tree may be one short: a red root is made black, a black one takes part in the loop.\<close>

definition short_ok :: "nat \<Rightarrow> 'a rb_tree \<Rightarrow> bool" where
  "short_ok h node \<longleftrightarrow> rb_wf (set_black node) \<and> bh (set_black node) = (if red_node node then Suc h else h)"

lemma short_mirror: "short_ok h node \<Longrightarrow> short_ok h (mirror node)"
  using rb_wf_mirror [of "set_black node"] by (simp add: short_ok_def)

lemma erase_turn:
  assumes "short_ok h node" and "ctx_wf (Suc h) (In_left pc p other # fs)"
    and IH: "\<And>t k. short_ok k t \<Longrightarrow> ctx_wf (Suc k) fs \<Longrightarrow> fixes_erase t fs"
  shows "fixes_erase node (In_left pc p other # fs)"
proof (cases "red_node node")
  case True
  then show ?thesis using assms(1,2) plug_ok [of "Suc h" "In_left pc p other # fs" "set_black node"] inorder_plug [of "set_black node" "In_left pc p other # fs"]
    by (simp add: fixes_erase_def short_ok_def)
next
  case False
  then have node: "rb_wf node" "\<not> red_node node" "bh node = h" using assms(1) by (simp_all add: set_black_id short_ok_def)
  have ctx: "rb_wf other" "bh other = Suc h" "pc = RB_RED \<Longrightarrow> \<not> red_node other \<and> ctx_black fs"
    "ctx_wf (if pc = RB_BLACK then Suc (Suc h) else Suc h) fs" using assms(2) by auto
  obtain oc xl x xr where o: "other = RB_node oc xl x xr" using ctx(2) by (cases other) auto
  show ?thesis
  proof (cases "oc = RB_RED")
    case True
    then have pc: "pc = RB_BLACK" using ctx(3) o not_black by auto
    have sib: "rb_wf xl" "\<not> red_node xl" "bh xl = Suc h" "rb_wf xr" "\<not> red_node xr" "bh xr = Suc h" using ctx(1,2) o True by auto
    obtain s where s: "erase_left RB_RED node p xl = Some s" "turn_ok h RB_RED (inorder node @ p # inorder xl) s"
      using erase_left_ok [OF node sib(1-3)] by blast
    have c: "ctx_wf (Suc h) (In_left RB_BLACK x xr # fs)" using sib ctx(4) pc by simp
    show ?thesis
    proof (cases s)
      case (Inl t)
      then show ?thesis using turn_red [OF s(2) [unfolded Inl] c] False o True s(1) by (simp add: fixes_erase_def)
    next
      case (Inr t)
      then show ?thesis using turn_done [OF s(2) [unfolded Inr], of "In_left RB_BLACK x xr # fs"] c False o True s(1) by (simp add: fixes_erase_def)
    qed
  next
    case black: False
    then obtain s where s: "erase_left pc node p other = Some s" "turn_ok h pc (inorder node @ p # inorder other) s"
      using erase_left_ok [OF node ctx(1) _ ctx(2)] o by auto
    show ?thesis
    proof (cases s)
      case (Inl t)
      then have "fixes_erase t fs" using turn_next [OF s(2) [unfolded Inl] ctx(4)] IH by (auto simp: short_ok_def)
      then show ?thesis using s Inl False o black by (auto simp: fixes_erase_def turn_ok_def not_black)
    next
      case (Inr t)
      then show ?thesis using turn_done [OF s(2) [unfolded Inr] ctx(4)] ctx(3) False o black s(1) by (auto simp: fixes_erase_def not_black)
    qed
  qed
qed

lemma rb_erase_color_ok: "short_ok h node \<Longrightarrow> ctx_wf (Suc h) fs \<Longrightarrow> fixes_erase node fs"
proof (induction fs arbitrary: node h)
  case Nil
  then show ?case by (simp add: fixes_erase_def short_ok_def rb_ok_def)
next
  case (Cons f fs)
  show ?case
  proof (cases f)
    case (In_left pc p other)
    show ?thesis unfolding In_left by (rule erase_turn [OF Cons.prems [unfolded In_left] Cons.IH])
  next
    case (In_right pc other p)
    have IH: "fixes_erase t (map mirror_frame fs)" if "short_ok k t" "ctx_wf (Suc k) (map mirror_frame fs)" for t k
      using Cons.IH [OF short_mirror [OF that(1)]] ctx_wf_mirror [OF that(2)] fixes_erase_mirror [of t "map mirror_frame fs"] by simp
    have "fixes_erase (mirror node) (In_left pc p (mirror other) # map mirror_frame fs)"
      by (rule erase_turn [OF short_mirror [OF Cons.prems(1)] _ IH]) (use ctx_wf_mirror [OF Cons.prems(2)] In_right in simp)
    then show ?thesis using fixes_erase_mirror [of node "f # fs"] In_right by simp
  qed
qed

section \<open>The operations at a position of a whole tree\<close>

lemma plug_ctx:
  assumes "rb_wf (plug t fs)" and "\<not> red_node (plug t fs)"
  shows "rb_wf t \<and> ctx_wf (bh t) fs \<and> (red_node t \<longrightarrow> ctx_black fs)"
  using assms
proof (induction fs arbitrary: t)
  case (Cons f fs)
  then have "rb_wf (plug_frame t f) \<and> ctx_wf (bh (plug_frame t f)) fs \<and> (red_node (plug_frame t f) \<longrightarrow> ctx_black fs)" by simp
  then show ?case by (cases f) (auto simp: not_black split: if_splits)
qed simp

lemma lefts_append: "lefts (fs @ gs) = lefts gs @ lefts fs"
  by (induction fs rule: lefts.induct) auto

lemma rights_append: "rights (fs @ gs) = rights fs @ rights gs"
  by (induction fs rule: rights.induct) auto

lemma ctx_wf_elem: "ctx_wf h (fs @ In_right c l x # gs) = ctx_wf h (fs @ In_right c l y # gs)"
proof (induction fs arbitrary: h)
  case (Cons f fs)
  moreover have "ctx_black (fs @ In_right c l x # gs) = ctx_black (fs @ In_right c l y # gs)" by (cases fs) auto
  ultimately show ?case by (cases f) auto
qed simp

lemma ctx_black_elem: "ctx_black (fs @ In_right c l x # gs) = ctx_black (fs @ In_right c l y # gs)"
  by (cases fs) auto

lemma leftmost_position:
  assumes "t \<noteq> RB_NULL"
  shows "\<exists>c x r path. rb_leftmost t fs = (RB_node c RB_NULL x r, path @ fs) \<and> lefts path = []
    \<and> inorder t = x # inorder r @ rights path \<and> plug (RB_node c RB_NULL x r) path = t"
  using assms
proof (induction t fs rule: rb_leftmost.induct)
  case (1 c c' l' y r' x r fs)
  then obtain d z s path where "rb_leftmost (RB_node c' l' y r') (In_left c x r # fs) = (RB_node d RB_NULL z s, path @ In_left c x r # fs)"
    "lefts path = []" "inorder (RB_node c' l' y r') = z # inorder s @ rights path"
    "plug (RB_node d RB_NULL z s) path = RB_node c' l' y r'" by blast
  then show ?case
    by (intro exI [of _ d] exI [of _ z] exI [of _ s] exI [of _ "path @ [In_left c x r]"])
       (simp add: lefts_append rights_append plug_append)
qed auto

lemma erase_child_ok:
  assumes "ctx_wf (if c = RB_BLACK then Suc h else h) fs" and "rb_wf child" and "bh child = h"
    and "c = RB_RED \<Longrightarrow> \<not> red_node child"
  shows "\<exists>t. erase_child c child fs = Some t \<and> rb_ok t \<and> inorder t = lefts fs @ inorder child @ rights fs"
proof (cases "c = RB_BLACK")
  case True
  then show ?thesis using rb_erase_color_ok [of h child fs] assms
    by (simp add: erase_child_def short_ok_def fixes_erase_def rb_wf_set_black bh_set_black)
next
  case False
  then show ?thesis using plug_ok [of h fs child] assms by (simp add: erase_child_def not_black)
qed

text \<open>The context of the successor's old place, once the successor has replaced the removed node.\<close>

lemma erase_successor_ok:
  assumes "rb_wf (plug (RB_node sc RB_NULL s sr) (path @ In_right c l x # fs))"
    and "\<not> red_node (plug (RB_node sc RB_NULL s sr) (path @ In_right c l x # fs))"
  shows "\<exists>t. erase_child sc sr (path @ In_right c l s # fs) = Some t \<and> rb_ok t
    \<and> inorder t = lefts (path @ In_right c l s # fs) @ inorder sr @ rights (path @ In_right c l s # fs)"
proof -
  have "rb_wf (RB_node sc RB_NULL s sr) \<and> ctx_wf (bh (RB_node sc RB_NULL s sr)) (path @ In_right c l x # fs)"
    using plug_ctx [OF assms] by blast
  then show ?thesis using erase_child_ok [of sc "bh sr" "path @ In_right c l s # fs" sr]
    by (auto simp: ctx_wf_elem [of _ path c l x fs s] split: if_splits)
qed

lemma link_insert_ok:
  assumes "rb_ok (plug RB_NULL fs)"
  shows "\<exists>t. rb_insert_color (rb_link_node x) fs = Some t \<and> rb_ok t \<and> inorder t = lefts fs @ x # rights fs"
proof -
  have "ctx_wf 0 fs" using plug_ctx [of RB_NULL fs] assms by (simp add: rb_ok_def)
  then show ?thesis using rb_insert_color_ok [of "rb_link_node x" 0 fs]
    by (simp add: rb_link_node_def fixes_insert_def)
qed

lemma erase_at_ok:
  assumes "rb_ok (plug (RB_node c l x r) fs)"
  shows "\<exists>t. rb_erase (RB_node c l x r) fs = Some t \<and> rb_ok t \<and> inorder t = lefts fs @ inorder l @ inorder r @ rights fs"
proof -
  have ctx: "rb_wf l" "rb_wf r" "bh l = bh r" "c = RB_RED \<longrightarrow> \<not> red_node l \<and> \<not> red_node r"
      "ctx_wf (if c = RB_BLACK then Suc (bh l) else bh l) fs"
    using plug_ctx [of "RB_node c l x r" fs] assms by (auto simp: rb_ok_def split: if_splits)
  consider (left) "l = RB_NULL" | (right) "l \<noteq> RB_NULL" "r = RB_NULL" | (both) "l \<noteq> RB_NULL" "r \<noteq> RB_NULL" by blast
  then show ?thesis
  proof cases
    case left
    then show ?thesis using erase_child_ok [OF ctx(5) ctx(2) ctx(3) [symmetric]] ctx(4) by simp
  next
    case right
    then show ?thesis using erase_child_ok [of c "bh l" fs l] ctx by (cases l) auto
  next
    case both
    obtain lc ll lx lr where l: "l = RB_node lc ll lx lr" using both(1) by (cases l) auto
    obtain rc rl rx rr where r: "r = RB_node rc rl rx rr" using both(2) by (cases r) auto
    obtain sc s sr path where p: "rb_leftmost r [] = (RB_node sc RB_NULL s sr, path)" "lefts path = []"
      "inorder r = s # inorder sr @ rights path" "plug (RB_node sc RB_NULL s sr) path = r"
      using leftmost_position [OF both(2), of "[]"] by auto
    have "plug (RB_node sc RB_NULL s sr) (path @ In_right c l x # fs) = plug (RB_node c l x r) fs"
      using p(4) by (simp add: plug_append)
    then show ?thesis using erase_successor_ok [of sc s sr path c l x fs] assms p(1-3) l r
      by (auto simp: rb_ok_def lefts_append rights_append)
  qed
qed

fun pos_elem :: "'a rb_tree \<times> 'a frame list \<Rightarrow> 'a option" where
  "pos_elem (RB_NULL, fs) = None"
| "pos_elem (RB_node c l x r, fs) = Some x"

text \<open>A position with the elements before it, at it and after it.\<close>

fun pos_split :: "'a rb_tree \<times> 'a frame list \<Rightarrow> 'a list \<Rightarrow> 'a \<Rightarrow> 'a list \<Rightarrow> bool" where
  "pos_split (RB_NULL, fs) xs y ys \<longleftrightarrow> False"
| "pos_split (RB_node c l x r, fs) xs y ys \<longleftrightarrow> xs = lefts fs @ inorder l \<and> y = x \<and> ys = inorder r @ rights fs"

lemma leftmost_split:
  "t \<noteq> RB_NULL \<Longrightarrow> \<exists>y ys. inorder t = y # ys \<and> pos_split (rb_leftmost t fs) (lefts fs) y (ys @ rights fs)
     \<and> plug (fst (rb_leftmost t fs)) (snd (rb_leftmost t fs)) = plug t fs"
  using leftmost_position [of t fs] by (auto simp: lefts_append rights_append plug_append)

lemma rightmost_split:
  "t \<noteq> RB_NULL \<Longrightarrow> \<exists>xs x. inorder t = xs @ [x] \<and> pos_split (rb_rightmost t fs) (lefts fs @ xs) x (rights fs)
     \<and> plug (fst (rb_rightmost t fs)) (snd (rb_rightmost t fs)) = plug t fs"
proof (induction t fs rule: rb_rightmost.induct)
  case (1 c l x c' l' y r' fs)
  then show ?case by auto
qed auto

lemma first_split:
  "rb_first t = None \<and> inorder t = [] \<or> (\<exists>p y ys. rb_first t = Some p \<and> inorder t = y # ys \<and> pos_split p [] y ys
     \<and> plug (fst p) (snd p) = t)"
  using leftmost_split [of t "[]"] unfolding rb_first_def by (cases "t = RB_NULL") (simp, fastforce)

lemma last_split:
  "rb_last t = None \<and> inorder t = [] \<or> (\<exists>p xs x. rb_last t = Some p \<and> inorder t = xs @ [x] \<and> pos_split p xs x []
     \<and> plug (fst p) (snd p) = t)"
  using rightmost_split [of t "[]"] unfolding rb_last_def by (cases "t = RB_NULL") (simp, fastforce)

lemma up_split:
  "rb_up t fs = None \<and> rights fs = [] \<or> (\<exists>p y ys. rb_up t fs = Some p \<and> rights fs = y # ys
     \<and> pos_split p (lefts fs @ inorder t) y ys \<and> plug (fst p) (snd p) = plug t fs)"
  by (induction t fs rule: rb_up.induct) auto

lemma up_left_split:
  "rb_up_left t fs = None \<and> lefts fs = [] \<or> (\<exists>p xs x. rb_up_left t fs = Some p \<and> lefts fs = xs @ [x]
     \<and> pos_split p xs x (inorder t @ rights fs) \<and> plug (fst p) (snd p) = plug t fs)"
  by (induction t fs rule: rb_up_left.induct) auto

lemma next_split:
  assumes "pos_split p xs x ys"
  shows "rb_next p = None \<and> ys = [] \<or> (\<exists>q y zs. rb_next p = Some q \<and> ys = y # zs \<and> pos_split q (xs @ [x]) y zs
    \<and> plug (fst q) (snd q) = plug (fst p) (snd p))"
proof -
  obtain c l r fs where p: "p = (RB_node c l x r, fs)" "xs = lefts fs @ inorder l" "ys = inorder r @ rights fs"
    using assms by (cases p; cases "fst p") auto
  show ?thesis
  proof (cases "r = RB_NULL")
    case True
    then show ?thesis using up_split [of "RB_node c l x r" fs] p by simp
  next
    case False
    then show ?thesis using leftmost_split [of r "In_right c l x # fs"] p by fastforce
  qed
qed

lemma prev_split:
  assumes "pos_split p xs x ys"
  shows "rb_prev p = None \<and> xs = [] \<or> (\<exists>q zs z. rb_prev p = Some q \<and> xs = zs @ [z] \<and> pos_split q zs z (x # ys)
    \<and> plug (fst q) (snd q) = plug (fst p) (snd p))"
proof -
  obtain c l r fs where p: "p = (RB_node c l x r, fs)" "xs = lefts fs @ inorder l" "ys = inorder r @ rights fs"
    using assms by (cases p; cases "fst p") auto
  show ?thesis
  proof (cases "l = RB_NULL")
    case True
    then show ?thesis using up_left_split [of "RB_node c l x r" fs] p by simp
  next
    case False
    then show ?thesis using rightmost_split [of l "In_left c x r # fs"] p by fastforce
  qed
qed

section \<open>Balance\<close>

fun rb_height :: "'a rb_tree \<Rightarrow> nat" where
  "rb_height RB_NULL = 0"
| "rb_height (RB_node c l x r) = Suc (max (rb_height l) (rb_height r))"

lemma height_bh: "rb_wf t \<Longrightarrow> rb_height t \<le> 2 * bh t + (if red_node t then 1 else 0)"
  by (induction t) (auto simp: not_black split: if_splits)

lemma bh_size: "rb_wf t \<Longrightarrow> 2 ^ bh t \<le> Suc (length (inorder t))"
  by (induction t) (auto split: if_splits)

lemma rb_ok_balanced: "rb_ok t \<Longrightarrow> 2 ^ ((rb_height t + 1) div 2) \<le> Suc (length (inorder t))"
proof -
  assume ok: "rb_ok t"
  then have "(rb_height t + 1) div 2 \<le> bh t" using height_bh [of t] by (simp add: rb_ok_def)
  then have "(2::nat) ^ ((rb_height t + 1) div 2) \<le> 2 ^ bh t" by (intro power_increasing) simp_all
  also have "\<dots> \<le> Suc (length (inorder t))" using bh_size [of t] ok by (simp add: rb_ok_def)
  finally show ?thesis .
qed

section \<open>Properties\<close>

text \<open>C6. Linking a new node into an empty link of a red-black tree and rebalancing dereferences no \<open>NULL\<close>; the result
  is again a red-black tree, its elements are the old ones with the new one at the link, and its height is
  at most twice the logarithm of their number.\<close>

theorem rb_insert_balanced:
  assumes "rb_ok (plug RB_NULL fs)"
  shows "\<exists>t. rb_insert_color (rb_link_node x) fs = Some t \<and> rb_ok t \<and> inorder t = lefts fs @ x # rights fs
    \<and> 2 ^ ((rb_height t + 1) div 2) \<le> Suc (Suc (length (inorder (plug RB_NULL fs))))"
  using link_insert_ok [OF assms, of x] rb_ok_balanced by fastforce

definition three_ctx :: "nat frame list" where
  "three_ctx = [In_right RB_RED RB_NULL 3, In_right RB_BLACK (RB_node RB_RED RB_NULL 1 RB_NULL) 2]"

lemma rb_insert_balanced_witness:
  "\<exists>t. rb_insert_color (rb_link_node 4) three_ctx = Some t \<and> rb_ok t \<and> inorder t = [1, 2, 3, 4]
    \<and> 2 ^ ((rb_height t + 1) div 2) \<le> (5::nat)"
  using rb_insert_balanced [of three_ctx 4] by (simp add: three_ctx_def rb_ok_def)

text \<open>C7. Removing any node of a red-black tree dereferences no \<open>NULL\<close>, removes exactly its element and leaves a
  red-black tree.\<close>

theorem rb_erase_removes:
  assumes "rb_ok (plug (RB_node c l x r) fs)"
  shows "\<exists>t. rb_erase (RB_node c l x r) fs = Some t \<and> rb_ok t \<and> inorder t = lefts fs @ inorder l @ inorder r @ rights fs"
  using erase_at_ok [OF assms] .

lemma rb_erase_removes_witness:
  "\<exists>t. rb_erase (RB_node RB_BLACK RB_NULL (1::nat) RB_NULL)
      [In_left RB_BLACK 2 (RB_node RB_RED (RB_node RB_BLACK RB_NULL 3 RB_NULL) 4 (RB_node RB_BLACK RB_NULL 5 RB_NULL))] = Some t
    \<and> rb_ok t \<and> inorder t = [2, 3, 4, 5]"
  using rb_erase_removes [of RB_BLACK RB_NULL 1 RB_NULL
    "[In_left RB_BLACK 2 (RB_node RB_RED (RB_node RB_BLACK RB_NULL 3 RB_NULL) 4 (RB_node RB_BLACK RB_NULL 5 RB_NULL))]"]
  by (simp add: rb_ok_def)

text \<open>C30. Iteration in order: \<open>rb_next\<close> of the position of any element is the position of the next element of the
  same tree, \<open>rb_prev\<close> leads back to it, and both are \<open>NULL\<close> exactly at the ends.\<close>

theorem rb_next_prev_order:
  assumes "pos_split p xs x ys"
  shows "(rb_next p = None \<longleftrightarrow> ys = []) \<and> (rb_prev p = None \<longleftrightarrow> xs = [])
    \<and> (\<forall>y zs. ys = y # zs \<longrightarrow> (\<exists>q. rb_next p = Some q \<and> pos_split q (xs @ [x]) y zs \<and> plug (fst q) (snd q) = plug (fst p) (snd p)))
    \<and> (\<forall>zs z. xs = zs @ [z] \<longrightarrow> (\<exists>q. rb_prev p = Some q \<and> pos_split q zs z (x # ys) \<and> plug (fst q) (snd q) = plug (fst p) (snd p)))"
proof (intro conjI allI impI)
  show "rb_next p = None \<longleftrightarrow> ys = []" using next_split [OF assms] by auto
  show "rb_prev p = None \<longleftrightarrow> xs = []" using prev_split [OF assms] by auto
next
  fix y zs
  assume "ys = y # zs"
  then show "\<exists>q. rb_next p = Some q \<and> pos_split q (xs @ [x]) y zs \<and> plug (fst q) (snd q) = plug (fst p) (snd p)"
    using next_split [OF assms] by fastforce
next
  fix zs z
  assume "xs = zs @ [z]"
  then show "\<exists>q. rb_prev p = Some q \<and> pos_split q zs z (x # ys) \<and> plug (fst q) (snd q) = plug (fst p) (snd p)"
    using prev_split [OF assms] by fastforce
qed

lemma rb_next_prev_order_witness:
  "\<exists>q. rb_next (RB_node RB_RED RB_NULL (1::nat) RB_NULL, [In_left RB_BLACK 2 (RB_node RB_RED RB_NULL 3 RB_NULL)]) = Some q
    \<and> pos_split q [1] 2 [3]"
  using rb_next_prev_order [of "(RB_node RB_RED RB_NULL 1 RB_NULL, [In_left RB_BLACK 2 (RB_node RB_RED RB_NULL 3 RB_NULL)])" "[]" 1 "[2, 3]"]
  by fastforce

end
