(* ===== verification/RbAugment.thy ===== *)
theory RbAugment
  imports Rbtree
begin

text \<open>
  The augmentation functions of \<open>thirdparty/rbtree/rbtree.c\<close>: a tree whose nodes carry data computed from the data of their children
  calls them after an insertion, and before and after a removal, with a callback that computes the data of one node anew. Nothing in the
  repository calls them; the callback is an argument, which gets a position and the client's data.

  The lemmas take the callback that the functions are meant for, \<open>recompute\<close>: the data of a node is a function of its element and of the data
  of its two children. Off the path from a node to the root, only the siblings may have wrong data; then \<open>rb_augment_path\<close> makes all data right
  (\<open>path_ok\<close>). An insertion and a removal keep to that: the lemmas follow the node at which the update starts through the rotations.
\<close>

section \<open>The functions\<close>

type_synonym 'a position = "'a rb_tree \<times> 'a frame list"

type_synonym ('a, 's) rb_augment_f = "'a position \<Rightarrow> 's \<Rightarrow> 's option"

text \<open>\<open>rb_augment_path\<close>: the label \<open>up\<close> and the jump are the recursion. Of the tests, \<open>node == parent->rb_left\<close> is the kind of the frame.
  A node that is a left child without a sibling gets the callback twice.\<close>

fun rb_augment_path :: "('a, 's) rb_augment_f \<Rightarrow> 'a rb_tree \<Rightarrow> 'a frame list \<Rightarrow> 's \<Rightarrow> 's option" where
  "rb_augment_path func RB_NULL fs s = None"
| "rb_augment_path func node [] s = func (node, []) s"
| "rb_augment_path func node (In_left c x r # fs) s = do {
     s \<leftarrow> func (node, In_left c x r # fs) s;
     s \<leftarrow> (if r \<noteq> RB_NULL then func (r, In_right c node x # fs) s else func (node, In_left c x r # fs) s);
     rb_augment_path func (RB_node c node x r) fs s
   }"
| "rb_augment_path func node (In_right c l x # fs) s = do {
     s \<leftarrow> func (node, In_right c l x # fs) s;
     s \<leftarrow> (if l \<noteq> RB_NULL then func (l, In_left c x node # fs) s else Some s);
     rb_augment_path func (RB_node c l x node) fs s
   }"

fun rb_augment_insert :: "('a, 's) rb_augment_f \<Rightarrow> 'a position \<Rightarrow> 's \<Rightarrow> 's option" where
  "rb_augment_insert func (RB_NULL, fs) s = None"
| "rb_augment_insert func (RB_node c l x r, fs) s =
     (if l \<noteq> RB_NULL then rb_augment_path func l (In_left c x r # fs) s
      else if r \<noteq> RB_NULL then rb_augment_path func r (In_right c l x # fs) s
      else rb_augment_path func (RB_node c l x r) fs s)"

fun rb_parent :: "'a position \<Rightarrow> 'a position option" where
  "rb_parent (node, []) = None"
| "rb_parent (node, f # fs) = Some (plug_frame node f, fs)"

text \<open>\<open>rb_augment_erase_begin\<close>: the inner option is the pointer, which is \<open>NULL\<close> when the last node is removed. Two pointers are equal when
  the positions in the tree are.\<close>

fun rb_augment_erase_begin :: "'a position \<Rightarrow> 'a position option option" where
  "rb_augment_erase_begin (RB_NULL, fs) = None"
| "rb_augment_erase_begin (RB_node c l x r, fs) =
     (if r = RB_NULL \<and> l = RB_NULL then Some (rb_parent (RB_node c l x r, fs))
      else if r = RB_NULL then Some (Some (l, In_left c x r # fs))
      else if l = RB_NULL then Some (Some (r, In_right c l x # fs))
      else (case rb_next (RB_node c l x r, fs) of
          Some (RB_node dc dl d dr, ds) \<Rightarrow>
            (if dr \<noteq> RB_NULL then Some (Some (dr, In_right dc dl d # ds))
             else if rb_parent (RB_node dc dl d dr, ds) \<noteq> Some (RB_node c l x r, fs) then Some (rb_parent (RB_node dc dl d dr, ds))
             else Some (Some (RB_node dc dl d dr, ds)))
        | _ \<Rightarrow> None))"

definition rb_augment_erase_end :: "('a, 's) rb_augment_f \<Rightarrow> 'a position option \<Rightarrow> 's \<Rightarrow> 's option" where
  "rb_augment_erase_end func node s = (case node of None \<Rightarrow> Some s | Some (t, fs) \<Rightarrow> rb_augment_path func t fs s)"

section \<open>Data computed from the children\<close>

text \<open>The client's data: a value for every element, \<open>e\<close> for \<open>NULL\<close>, and the value of a node from its element and the values of its children.\<close>

fun child_val :: "'b \<Rightarrow> ('a \<Rightarrow> 'b) \<Rightarrow> 'a rb_tree \<Rightarrow> 'b" where
  "child_val e s RB_NULL = e"
| "child_val e s (RB_node c l x r) = s x"

fun recompute :: "'b \<Rightarrow> ('a \<Rightarrow> 'b \<Rightarrow> 'b \<Rightarrow> 'b) \<Rightarrow> ('a, 'a \<Rightarrow> 'b) rb_augment_f" where
  "recompute e agg (RB_NULL, fs) s = None"
| "recompute e agg (RB_node c l x r, fs) s = Some (s(x := agg x (child_val e s l) (child_val e s r)))"

text \<open>All the data in a tree is right; all but that of its root is.\<close>

fun aug_ok :: "'b \<Rightarrow> ('a \<Rightarrow> 'b \<Rightarrow> 'b \<Rightarrow> 'b) \<Rightarrow> ('a \<Rightarrow> 'b) \<Rightarrow> 'a rb_tree \<Rightarrow> bool" where
  "aug_ok e agg s RB_NULL = True"
| "aug_ok e agg s (RB_node c l x r) \<longleftrightarrow> aug_ok e agg s l \<and> aug_ok e agg s r \<and> s x = agg x (child_val e s l) (child_val e s r)"

fun below_ok :: "'b \<Rightarrow> ('a \<Rightarrow> 'b \<Rightarrow> 'b \<Rightarrow> 'b) \<Rightarrow> ('a \<Rightarrow> 'b) \<Rightarrow> 'a rb_tree \<Rightarrow> bool" where
  "below_ok e agg s RB_NULL = True"
| "below_ok e agg s (RB_node c l x r) \<longleftrightarrow> aug_ok e agg s l \<and> aug_ok e agg s r"

text \<open>The value of a tree, by its structure alone.\<close>

fun tree_val :: "'b \<Rightarrow> ('a \<Rightarrow> 'b \<Rightarrow> 'b \<Rightarrow> 'b) \<Rightarrow> 'a rb_tree \<Rightarrow> 'b" where
  "tree_val e agg RB_NULL = e"
| "tree_val e agg (RB_node c l x r) = agg x (tree_val e agg l) (tree_val e agg r)"

lemma aug_ok_val: "aug_ok e agg s t \<Longrightarrow> child_val e s t = tree_val e agg t"
  by (induction t) simp_all

lemma aug_below: "aug_ok e agg s t \<Longrightarrow> below_ok e agg s t"
  by (cases t) simp_all

lemma child_val_cong: "\<forall>y\<in>set (inorder t). s y = s' y \<Longrightarrow> child_val e s t = child_val e s' t"
  by (cases t) simp_all

lemma aug_ok_cong: "\<forall>y\<in>set (inorder t). s y = s' y \<Longrightarrow> aug_ok e agg s t = aug_ok e agg s' t"
  by (induction t) (auto simp: child_val_cong [of _ s s'])

lemma below_ok_cong: "\<forall>y\<in>set (inorder t). s y = s' y \<Longrightarrow> below_ok e agg s t = below_ok e agg s' t"
  by (cases t) (auto simp: aug_ok_cong [of _ s s'])

lemma child_val_black [simp]: "child_val e s (set_black t) = child_val e s t"
  by (cases t) simp_all

lemma aug_ok_black [simp]: "aug_ok e agg s (set_black t) = aug_ok e agg s t"
  by (cases t) simp_all

lemma below_ok_black [simp]: "below_ok e agg s (set_black t) = below_ok e agg s t"
  by (cases t) simp_all

text \<open>The callback puts the data of one node right and changes no other.\<close>

lemma recompute_ok:
  assumes "t \<noteq> RB_NULL" and "below_ok e agg s t" and "distinct (inorder t)"
  shows "\<exists>s'. recompute e agg (t, fs) s = Some s' \<and> aug_ok e agg s' t \<and> (\<forall>y. y \<notin> set (inorder t) \<longrightarrow> s' y = s y)"
proof (cases t)
  case (RB_node c l x r)
  let ?s = "s(x := agg x (child_val e s l) (child_val e s r))"
  have "\<forall>y\<in>set (inorder l). ?s y = s y" "\<forall>y\<in>set (inorder r). ?s y = s y" using assms(3) RB_node by auto
  then show ?thesis using assms(2) RB_node aug_ok_cong [of _ ?s s] child_val_cong [of _ ?s s] by auto
qed (use assms in simp)

section \<open>The path to the root\<close>

text \<open>The siblings along a context, with all their data right or all but that of their roots.\<close>

fun sibs :: "('a rb_tree \<Rightarrow> bool) \<Rightarrow> 'a frame list \<Rightarrow> bool" where
  "sibs P [] = True"
| "sibs P (In_left c x r # fs) \<longleftrightarrow> P r \<and> sibs P fs"
| "sibs P (In_right c l x # fs) \<longleftrightarrow> P l \<and> sibs P fs"

lemma sibs_mono: "sibs P fs \<Longrightarrow> (\<And>t. P t \<Longrightarrow> Q t) \<Longrightarrow> sibs Q fs"
  by (induction P fs rule: sibs.induct) simp_all

lemma sibs_append [simp]: "sibs P (fs @ gs) \<longleftrightarrow> sibs P fs \<and> sibs P gs"
  by (induction P fs rule: sibs.induct) simp_all

lemma sibs_cong: "\<forall>y\<in>set (lefts fs) \<union> set (rights fs). s y = s' y \<Longrightarrow> sibs (below_ok e agg s) fs = sibs (below_ok e agg s') fs"
proof (induction fs)
  case (Cons f fs)
  then show ?case by (cases f) (auto simp: below_ok_cong [of _ s s'])
qed simp

lemma aug_ok_sibs: "aug_ok e agg s (plug t fs) \<Longrightarrow> aug_ok e agg s t \<and> sibs (aug_ok e agg s) fs"
proof (induction fs arbitrary: t)
  case (Cons f fs)
  then show ?case by (cases f) fastforce+
qed simp

text \<open>One step: the callback on a node and on its sibling, if there is one, puts both right.\<close>

lemma pair_ok:
  assumes "t \<noteq> RB_NULL" and "below_ok e agg s t" and "below_ok e agg s u" and "distinct (inorder t @ inorder u)"
    and "u = RB_NULL \<Longrightarrow> again = Some \<or> again = recompute e agg (t, fs)"
  shows "\<exists>s'. recompute e agg (t, fs) s \<bind> (\<lambda>s. if u \<noteq> RB_NULL then recompute e agg (u, gs) s else again s) = Some s'
    \<and> aug_ok e agg s' t \<and> aug_ok e agg s' u \<and> (\<forall>y. y \<notin> set (inorder t) \<union> set (inorder u) \<longrightarrow> s' y = s y)"
proof -
  have d: "distinct (inorder t)" "distinct (inorder u)" "\<And>y. y \<in> set (inorder u) \<Longrightarrow> y \<notin> set (inorder t)" using assms(4) by auto
  obtain s1 where s1: "recompute e agg (t, fs) s = Some s1" "aug_ok e agg s1 t" "\<forall>y. y \<notin> set (inorder t) \<longrightarrow> s1 y = s y"
    using recompute_ok [OF assms(1,2) d(1)] by blast
  show ?thesis
  proof (cases "u = RB_NULL")
    case True
    then show ?thesis using assms(5) s1 recompute_ok [OF assms(1) aug_below [OF s1(2)] d(1), of fs] by auto
  next
    case False
    have "below_ok e agg s1 u" using assms(3) s1(3) d(3) below_ok_cong [of u s1 s] by blast
    then obtain s2 where s2: "recompute e agg (u, gs) s1 = Some s2" "aug_ok e agg s2 u" "\<forall>y. y \<notin> set (inorder u) \<longrightarrow> s2 y = s1 y"
      using recompute_ok [OF False, of e agg s1 gs] d(2) by blast
    then have "aug_ok e agg s2 t" using s1(2) d(3) aug_ok_cong [of t s2 s1] by blast
    then show ?thesis using False s1 s2 by auto
  qed
qed

fun aug_step :: "('a, 's) rb_augment_f \<Rightarrow> 'a rb_tree \<Rightarrow> 'a frame \<Rightarrow> 'a frame list \<Rightarrow> 's \<Rightarrow> 's option" where
  "aug_step func t (In_left c x r) fs s =
     func (t, In_left c x r # fs) s \<bind> (\<lambda>s. if r \<noteq> RB_NULL then func (r, In_right c t x # fs) s else func (t, In_left c x r # fs) s)"
| "aug_step func t (In_right c l x) fs s =
     func (t, In_right c l x # fs) s \<bind> (\<lambda>s. if l \<noteq> RB_NULL then func (l, In_left c x t # fs) s else Some s)"

lemma path_step:
  "t \<noteq> RB_NULL \<Longrightarrow> rb_augment_path func t (f # fs) s = aug_step func t f fs s \<bind> rb_augment_path func (plug_frame t f) fs"
  by (cases t; cases f) simp_all

lemma step_ok:
  assumes "t \<noteq> RB_NULL" and "below_ok e agg s t" and "sibs (below_ok e agg s) [f]" and "distinct (inorder (plug_frame t f))"
  shows "\<exists>s'. aug_step (recompute e agg) t f fs s = Some s' \<and> below_ok e agg s' (plug_frame t f)
    \<and> (\<forall>y. y \<notin> set (inorder (plug_frame t f)) \<longrightarrow> s' y = s y)"
proof (cases f)
  case (In_left c x r)
  then show ?thesis using assms pair_ok [of t e agg s r "recompute e agg (t, f # fs)" "f # fs" "In_right c t x # fs"] by auto
next
  case (In_right c l x)
  then show ?thesis using assms pair_ok [of t e agg s l Some "f # fs" "In_left c x t # fs"] by auto
qed

lemma path_ok:
  assumes "t \<noteq> RB_NULL" and "below_ok e agg s t" and "sibs (below_ok e agg s) fs" and "distinct (inorder (plug t fs))"
  shows "\<exists>s'. rb_augment_path (recompute e agg) t fs s = Some s' \<and> aug_ok e agg s' (plug t fs) \<and> (\<forall>y. y \<notin> set (inorder (plug t fs)) \<longrightarrow> s' y = s y)"
  using assms
proof (induction fs arbitrary: t s)
  case Nil
  then show ?case using recompute_ok [of t e agg s "[]"] by (cases t) simp_all
next
  case (Cons f fs)
  let ?t = "plug_frame t f"
  have d: "distinct (inorder (plug ?t fs))" using Cons.prems(4) by simp
  then have "distinct (inorder ?t)" "sibs (below_ok e agg s) [f]" using Cons.prems(3) unfolding inorder_plug by (simp, cases f) simp_all
  then obtain s1 where s1: "aug_step (recompute e agg) t f fs s = Some s1" "below_ok e agg s1 ?t" "\<forall>y. y \<notin> set (inorder ?t) \<longrightarrow> s1 y = s y"
    using step_ok [OF Cons.prems(1,2)] by blast
  have "\<forall>y\<in>set (lefts fs) \<union> set (rights fs). s1 y = s y" using s1(3) d unfolding inorder_plug by auto
  then have "sibs (below_ok e agg s1) fs" using Cons.prems(3) sibs_cong [of fs s1 s] by (cases f) auto
  moreover have "?t \<noteq> RB_NULL" by (cases f) simp_all
  ultimately obtain s2 where "rb_augment_path (recompute e agg) ?t fs s1 = Some s2" "aug_ok e agg s2 (plug ?t fs)"
    "\<forall>y. y \<notin> set (inorder (plug ?t fs)) \<longrightarrow> s2 y = s1 y" using Cons.IH [of ?t s1] s1(2) d by blast
  then show ?case using s1(1,3) unfolding path_step [OF Cons.prems(1)] by (intro exI [of _ s2]) (simp add: inorder_plug)
qed

section \<open>The node at which the update starts\<close>

text \<open>The node with the element \<open>x\<close>: its children satisfy \<open>Q\<close>, and the siblings on the way to it satisfy \<open>P\<close>.\<close>

fun trail :: "('a rb_tree \<Rightarrow> bool) \<Rightarrow> ('a rb_tree \<Rightarrow> bool) \<Rightarrow> 'a \<Rightarrow> 'a rb_tree \<Rightarrow> bool" where
  "trail Q P x RB_NULL = False"
| "trail Q P x (RB_node c l y r) \<longleftrightarrow> x = y \<and> Q l \<and> Q r \<or> trail Q P x l \<and> P r \<or> trail Q P x r \<and> P l"

abbreviation aug_trail :: "'b \<Rightarrow> ('a \<Rightarrow> 'b \<Rightarrow> 'b \<Rightarrow> 'b) \<Rightarrow> ('a \<Rightarrow> 'b) \<Rightarrow> 'a \<Rightarrow> 'a rb_tree \<Rightarrow> bool" where
  "aug_trail e agg s \<equiv> trail (aug_ok e agg s) (aug_ok e agg s)"

abbreviation insert_trail :: "'b \<Rightarrow> ('a \<Rightarrow> 'b \<Rightarrow> 'b \<Rightarrow> 'b) \<Rightarrow> ('a \<Rightarrow> 'b) \<Rightarrow> 'a \<Rightarrow> 'a rb_tree \<Rightarrow> bool" where
  "insert_trail e agg s \<equiv> trail (below_ok e agg s) (below_ok e agg s)"

abbreviation erase_trail :: "'b \<Rightarrow> ('a \<Rightarrow> 'b \<Rightarrow> 'b \<Rightarrow> 'b) \<Rightarrow> ('a \<Rightarrow> 'b) \<Rightarrow> 'a \<Rightarrow> 'a rb_tree \<Rightarrow> bool" where
  "erase_trail e agg s \<equiv> trail (aug_ok e agg s) (below_ok e agg s)"

lemma trail_in: "trail Q P x t \<Longrightarrow> x \<in> set (inorder t)"
  by (induction t) auto

lemma trail_mono: "trail Q P x t \<Longrightarrow> (\<And>t. Q t \<Longrightarrow> Q' t) \<Longrightarrow> (\<And>t. P t \<Longrightarrow> P' t) \<Longrightarrow> trail Q' P' x t"
  by (induction t) auto

lemma trail_black [simp]: "trail Q P x (set_black t) = trail Q P x t"
  by (cases t) simp_all

lemma trail_plug: "trail Q P x t \<Longrightarrow> sibs P fs \<Longrightarrow> trail Q P x (plug t fs)"
proof (induction fs arbitrary: t)
  case (Cons f fs)
  then show ?case by (cases f) auto
qed simp

lemma trail_unplug: "x \<in> set (inorder t) \<Longrightarrow> distinct (inorder (plug t fs)) \<Longrightarrow> trail Q P x (plug t fs) \<Longrightarrow> trail Q P x t \<and> sibs P fs"
proof (induction fs arbitrary: t)
  case (Cons f fs)
  have d: "distinct (inorder (plug (plug_frame t f) fs))" using Cons.prems(2) by simp
  have "x \<in> set (inorder (plug_frame t f))" using Cons.prems(1) by (cases f) simp_all
  then have "trail Q P x (plug_frame t f)" "sibs P fs" using Cons.IH [OF _ d] Cons.prems(3) by simp_all
  moreover have "distinct (inorder (plug_frame t f))" using d unfolding inorder_plug by simp
  ultimately show ?case using Cons.prems(1) by (cases f) (auto dest: trail_in)
qed simp

text \<open>From any node whose trail is in order, the path puts all the data right.\<close>

lemma trail_path:
  assumes "insert_trail e agg s x (plug t fs)" and "distinct (inorder (plug t fs))" and "pos_elem (t, fs) = Some x"
  shows "\<exists>s'. rb_augment_insert (recompute e agg) (t, fs) s = Some s' \<and> aug_ok e agg s' (plug t fs) \<and> (\<forall>y. y \<notin> set (inorder (plug t fs)) \<longrightarrow> s' y = s y)"
proof -
  obtain c l r where t: "t = RB_node c l x r" using assms(3) by (cases t) auto
  then have b: "below_ok e agg s l" "below_ok e agg s r" "sibs (below_ok e agg s) fs" using trail_unplug [of x t fs] assms(1,2) by (auto dest: trail_in)
  have "aug_ok e agg s l \<and> aug_ok e agg s r" if "l = RB_NULL" "r = RB_NULL" using that by simp
  then show ?thesis
    using path_ok [of l e agg s "In_left c x r # fs"] path_ok [of r e agg s "In_right c l x # fs"] path_ok [of t e agg s fs] b assms(2) t by auto
qed

section \<open>After an insertion\<close>

lemma trail_weak: "aug_trail e agg s x t \<Longrightarrow> insert_trail e agg s x t"
  by (rule trail_mono [OF _ aug_below aug_below])

lemma trail_done: "trail Q (below_ok e agg s) x t \<Longrightarrow> sibs (aug_ok e agg s) fs \<Longrightarrow> trail Q (below_ok e agg s) x (plug t fs)"
  by (rule trail_plug [OF _ sibs_mono [OF _ aug_below]])

text \<open>The recoloring moves no node, and the rotations at the end move only nodes on the path and their siblings: in the result, no data off the
  trail is wrong but that of the roots of siblings.\<close>

definition trail_kept :: "'b \<Rightarrow> ('a \<Rightarrow> 'b \<Rightarrow> 'b \<Rightarrow> 'b) \<Rightarrow> ('a \<Rightarrow> 'b) \<Rightarrow> 'a \<Rightarrow> 'a rb_tree option \<Rightarrow> bool" where
  "trail_kept e agg s x res \<longleftrightarrow> (\<forall>t. res = Some t \<longrightarrow> insert_trail e agg s x t)"

definition flip :: "('a \<Rightarrow> 'b \<Rightarrow> 'b \<Rightarrow> 'b) \<Rightarrow> 'a \<Rightarrow> 'b \<Rightarrow> 'b \<Rightarrow> 'b" where
  "flip agg = (\<lambda>x a b. agg x b a)"

lemma aug_ok_mirror [simp]: "aug_ok e agg s (mirror t) = aug_ok e (flip agg) s t"
proof -
  have [simp]: "child_val e s (mirror u) = child_val e s u" for u by (cases u) simp_all
  show ?thesis by (induction t) (auto simp: flip_def)
qed

lemma below_ok_mirror [simp]: "below_ok e agg s (mirror t) = below_ok e (flip agg) s t"
  by (cases t) auto

lemma trail_mirror: "trail Q P x (mirror t) = trail (\<lambda>t. Q (mirror t)) (\<lambda>t. P (mirror t)) x t"
  by (induction t) auto

lemma sibs_mirror: "sibs P (map mirror_frame fs) = sibs (\<lambda>t. P (mirror t)) fs"
  by (induction "\<lambda>t. P (mirror t)" fs rule: sibs.induct) simp_all

lemma trail_kept_mirror: "trail_kept e agg s x (map_option mirror res) = trail_kept e (flip agg) s x res"
  by (auto simp: trail_kept_def trail_mirror)

lemma insert_turn_trail:
  assumes "aug_trail e agg s x node" and "sibs (aug_ok e agg s) (f # In_left gc g uncle # fs)"
    and IH: "\<And>node. aug_trail e agg s x node \<Longrightarrow> sibs (aug_ok e agg s) fs \<Longrightarrow> trail_kept e agg s x (rb_insert_color node fs)"
  shows "trail_kept e agg s x (rb_insert_color node (f # In_left gc g uncle # fs))"
proof (cases "frame_black f")
  case True
  then show ?thesis using trail_done [OF trail_weak [OF assms(1)] assms(2)] by (cases f) (auto simp: trail_kept_def)
next
  case black: False
  have ok: "aug_ok e agg s uncle" "sibs (aug_ok e agg s) fs" "aug_trail e agg s x (plug_frame node f)"
    using assms(1,2) trail_plug [of _ _ x node "[f]"] by (cases f; simp)+
  show ?thesis
  proof (cases "red_node uncle")
    case True
    let ?n = "RB_node RB_RED (set_black (plug_frame node f)) g (set_black uncle)"
    have "trail_kept e agg s x (rb_insert_color ?n fs)" using ok by (intro IH) simp_all
    then show ?thesis using True black by (cases f) (simp_all add: not_black)
  next
    case False
    obtain c l y r where n: "node = RB_node c l y r" using assms(1) by (cases node) simp_all
    let ?t = "case f of In_left c p q \<Rightarrow> RB_node RB_BLACK node p (RB_node RB_RED q g uncle)
      | In_right c q p \<Rightarrow> RB_node RB_BLACK (RB_node RB_RED q p l) y (RB_node RB_RED r g uncle)"
    have "insert_trail e agg s x ?t" using assms(1,2) ok(1) trail_weak [OF assms(1)] n by (cases f) (auto dest: trail_weak aug_below)
    then have "insert_trail e agg s x (set_black (plug ?t fs))" using trail_done [OF _ ok(2)] by simp
    then show ?thesis using False black n by (cases f) (simp_all add: not_black trail_kept_def)
  qed
qed

lemma insert_color_trail:
  "aug_trail e agg s x node \<Longrightarrow> sibs (aug_ok e agg s) fs \<Longrightarrow> trail_kept e agg s x (rb_insert_color node fs)"
proof (induction "length fs" arbitrary: agg node fs rule: less_induct)
  case less
  consider "fs = []" | f where "fs = [f]" | f c y r gs where "fs = f # In_left c y r # gs" | f c l y gs where "fs = f # In_right c l y # gs"
    by (cases fs; cases "tl fs"; cases "hd (tl fs)") auto
  then show ?case
  proof cases
    case 1
    then show ?thesis using trail_weak [OF less(2)] by (simp add: trail_kept_def)
  next
    case (2 f)
    have "insert_trail e agg s x (set_black (plug node fs))" using trail_done [OF trail_weak [OF less(2)] less(3)] by simp
    then show ?thesis using 2 by (cases f; cases "frame_black f") (auto simp: trail_kept_def not_black)
  next
    case 3
    show ?thesis unfolding 3 by (rule insert_turn_trail [OF less(2)]) (use less(1,3) 3 in simp_all)
  next
    case (4 f c l y gs)
    have "trail_kept e (flip agg) s x (rb_insert_color (mirror node) (mirror_frame f # In_left c y (mirror l) # map mirror_frame gs))"
    proof (rule insert_turn_trail)
      have [simp]: "flip (flip agg) = agg" by (simp add: flip_def)
      show "aug_trail e (flip agg) s x (mirror node)" using less(2) by (simp add: trail_mirror)
      show "sibs (aug_ok e (flip agg) s) (mirror_frame f # In_left c y (mirror l) # map mirror_frame gs)"
        using less(3) sibs_mirror [of "aug_ok e (flip agg) s" fs] 4 by simp
    qed (use less(1) 4 in simp)
    then show ?thesis using rb_insert_color_mirror [of node fs] trail_kept_mirror [of e "flip agg" s x "rb_insert_color node fs"] 4 by (simp add: flip_def)
  qed
qed

lemma insert_augmented:
  assumes "rb_ok (plug RB_NULL fs)" and "aug_ok e agg s (plug RB_NULL fs)" and "distinct (inorder (plug RB_NULL fs))" and "x \<notin> set (inorder (plug RB_NULL fs))"
  shows "\<exists>T. rb_insert_color (rb_link_node x) fs = Some T \<and> inorder T = lefts fs @ x # rights fs \<and> distinct (inorder T) \<and> insert_trail e agg s x T"
proof -
  obtain T where T: "rb_insert_color (rb_link_node x) fs = Some T" "inorder T = lefts fs @ x # rights fs" using link_insert_ok [OF assms(1), of x] by blast
  have "insert_trail e agg s x T"
    using insert_color_trail [of e agg s x "rb_link_node x" fs] aug_ok_sibs [OF assms(2)] T(1) by (simp add: rb_link_node_def trail_kept_def)
  then show ?thesis using T assms(3,4) by auto
qed

section \<open>After a removal\<close>

text \<open>The node at which the update starts is on the other side of every rotation: its children stay as they are.\<close>

definition trail_left :: "'b \<Rightarrow> ('a \<Rightarrow> 'b \<Rightarrow> 'b \<Rightarrow> 'b) \<Rightarrow> ('a \<Rightarrow> 'b) \<Rightarrow> 'a \<Rightarrow> 'a rb_tree option \<Rightarrow> bool" where
  "trail_left e agg s x res \<longleftrightarrow> (\<forall>t. res = Some t \<longrightarrow> erase_trail e agg s x t)"

lemma trail_left_mirror: "trail_left e agg s x (map_option mirror res) = trail_left e (flip agg) s x res"
  by (auto simp: trail_left_def trail_mirror)

lemma trail_weaker: "aug_trail e agg s x t \<Longrightarrow> erase_trail e agg s x t"
  by (rule trail_mono [OF _ _ aug_below])

text \<open>The update starts at the node in the hole, or, when the hole is empty, at its parent.\<close>

fun frame_elem :: "'a frame \<Rightarrow> 'a" where
  "frame_elem (In_left c x r) = x"
| "frame_elem (In_right c l x) = x"

definition start_ok :: "'b \<Rightarrow> ('a \<Rightarrow> 'b \<Rightarrow> 'b \<Rightarrow> 'b) \<Rightarrow> ('a \<Rightarrow> 'b) \<Rightarrow> 'a \<Rightarrow> 'a rb_tree \<Rightarrow> 'a \<Rightarrow> bool" where
  "start_ok e agg s y node p \<longleftrightarrow> aug_trail e agg s y node \<or> node = RB_NULL \<and> y = p"

lemma start_mirror [simp]: "start_ok e agg s y (mirror node) p = start_ok e (flip agg) s y node p"
  by (simp add: start_ok_def trail_mirror)

lemma start_frame:
  "start_ok e agg s y node (frame_elem f) \<Longrightarrow> sibs (aug_ok e agg s) [f] \<Longrightarrow> aug_trail e agg s y (plug_frame node f)"
  by (cases f) (auto simp: start_ok_def)

lemma erase_left_trail:
  assumes "start_ok e agg s y node p" and "aug_ok e agg s other" and "erase_left pc node p other = Some res"
  shows "case res of Inl t \<Rightarrow> aug_trail e agg s y t | Inr t \<Rightarrow> erase_trail e agg s y t"
proof (cases other)
  case (RB_node oc xl x xr)
  have w: "start_ok e agg s y node p \<Longrightarrow> erase_trail e agg s y node \<or> node = RB_NULL \<and> y = p" by (auto simp: start_ok_def dest: trail_weaker)
  show ?thesis
  proof (cases "both_black xl xr")
    case True
    then show ?thesis using assms RB_node by (auto simp: start_ok_def)
  next
    case both: False
    show ?thesis
    proof (cases "red_node xr")
      case True
      then show ?thesis using assms w RB_node both by (auto dest: aug_below)
    next
      case False
      then obtain l q r where "xl = RB_node RB_RED l q r" using both by (cases xl) (auto simp: both_black_def not_black)
      then show ?thesis using assms w RB_node both False by (auto dest: aug_below)
    qed
  qed
qed (use assms in simp)

lemma erase_turn_trail:
  assumes "start_ok e agg s y node p" and "sibs (aug_ok e agg s) (In_left pc p other # fs)"
    and IH: "\<And>t. aug_trail e agg s y t \<Longrightarrow> sibs (aug_ok e agg s) fs \<Longrightarrow> trail_left e agg s y (rb_erase_color t fs)"
  shows "trail_left e agg s y (rb_erase_color node (In_left pc p other # fs))"
proof (cases "red_node node \<or> other = RB_NULL")
  case True
  have "erase_trail e agg s y (set_black node)" if "red_node node"
    using that assms(1) trail_weaker [of e agg s y node] by (auto simp: start_ok_def)
  then show ?thesis using True trail_done [OF _ assms(2), of _ y "set_black node"] by (auto simp: trail_left_def)
next
  case False
  then obtain oc xl x xr where o: "other = RB_node oc xl x xr" by (cases other) auto
  show ?thesis
  proof (cases "oc = RB_RED")
    case True
    have "sibs (aug_ok e agg s) (In_left RB_BLACK x xr # fs)" "aug_ok e agg s xl" using assms(2) o by simp_all
    note d = trail_done [OF _ this(1), of _ y] erase_left_trail [OF assms(1) this(2)]
    show ?thesis
    proof (cases "erase_left RB_RED node p xl")
      case (Some res)
      then show ?thesis using d(2) [OF Some] d(1) False o True by (cases res) (auto simp: trail_left_def dest: trail_weaker)
    qed (use False o True in \<open>simp add: trail_left_def\<close>)
  next
    case black: False
    show ?thesis
    proof (cases "erase_left pc node p other")
      case (Some res)
      have k: "sibs (aug_ok e agg s) fs" "aug_ok e agg s other" using assms(2) by simp_all
      show ?thesis using erase_left_trail [OF assms(1) k(2) Some] IH [OF _ k(1)] trail_done [OF _ k(1), of _ y] False o black Some
        by (cases res) (auto simp: trail_left_def)
    qed (use False o black in \<open>simp add: trail_left_def\<close>)
  qed
qed

definition starts :: "'b \<Rightarrow> ('a \<Rightarrow> 'b \<Rightarrow> 'b \<Rightarrow> 'b) \<Rightarrow> ('a \<Rightarrow> 'b) \<Rightarrow> 'a \<Rightarrow> 'a rb_tree \<Rightarrow> 'a frame list \<Rightarrow> bool" where
  "starts e agg s y node fs \<longleftrightarrow> (case fs of [] \<Rightarrow> aug_trail e agg s y node | f # _ \<Rightarrow> start_ok e agg s y node (frame_elem f))"

lemma starts_trail: "aug_trail e agg s y node \<Longrightarrow> starts e agg s y node fs"
  by (cases fs) (simp_all add: starts_def start_ok_def)

lemma erase_color_trail: "starts e agg s y node fs \<Longrightarrow> sibs (aug_ok e agg s) fs \<Longrightarrow> trail_left e agg s y (rb_erase_color node fs)"
proof (induction fs arbitrary: agg node)
  case Nil
  then show ?case using trail_weaker [of e agg s y node] by (simp add: starts_def trail_left_def)
next
  case (Cons f fs)
  show ?case
  proof (cases f)
    case (In_left pc p other)
    show ?thesis unfolding In_left
      by (rule erase_turn_trail [OF _ _ Cons.IH [OF starts_trail]]) (use Cons.prems In_left in \<open>simp_all add: starts_def\<close>)
  next
    case (In_right pc other p)
    have [simp]: "flip (flip agg) = agg" by (simp add: flip_def)
    have IH: "trail_left e (flip agg) s y (rb_erase_color t (map mirror_frame fs))"
      if "aug_trail e (flip agg) s y t" "sibs (aug_ok e (flip agg) s) (map mirror_frame fs)" for t
      using Cons.IH [OF starts_trail, of agg "mirror t"] that rb_erase_color_mirror [of "mirror t" fs]
        trail_left_mirror [of e "flip agg" s y "rb_erase_color (mirror t) fs"] by (simp add: trail_mirror sibs_mirror)
    have "trail_left e (flip agg) s y (rb_erase_color (mirror node) (In_left pc p (mirror other) # map mirror_frame fs))"
      by (rule erase_turn_trail [OF _ _ IH]) (use Cons.prems In_right sibs_mirror [of "aug_ok e (flip agg) s" fs] in \<open>simp_all add: starts_def\<close>)
    then show ?thesis using rb_erase_color_mirror [of node "f # fs"] trail_left_mirror [of e "flip agg" s y "rb_erase_color node (f # fs)"] In_right by simp
  qed
qed

lemma erase_child_trail:
  assumes "starts e agg s y child fs" and "sibs (aug_ok e agg s) fs"
  shows "trail_left e agg s y (erase_child c child fs)"
proof (cases "c = RB_BLACK \<or> fs = []")
  case True
  then show ?thesis using erase_color_trail [OF assms] assms(1) trail_weaker [of e agg s y child] by (auto simp: erase_child_def trail_left_def starts_def)
next
  case False
  then obtain f gs where f: "fs = f # gs" by (cases fs) auto
  then have "aug_trail e agg s y (plug_frame child f)" using assms start_frame [of e agg s y child f] by (cases f) (simp_all add: starts_def)
  moreover have "sibs (aug_ok e agg s) gs" using assms(2) f by (cases f) simp_all
  ultimately have "erase_trail e agg s y (plug child fs)" using trail_done [OF trail_weaker] f by simp
  then show ?thesis using False by (simp add: erase_child_def trail_left_def)
qed

text \<open>The node that \<open>rb_augment_erase_begin\<close> finds, when it is not \<open>NULL\<close>, is the one the update has to start at.\<close>

lemma leftmost_append: "rb_leftmost t fs = (fst (rb_leftmost t []), snd (rb_leftmost t []) @ fs)"
proof (induction t arbitrary: fs)
  case (RB_node c l x r)
  show ?case
  proof (cases "l = RB_NULL")
    case False
    then have "rb_leftmost (RB_node c l x r) gs = rb_leftmost l (In_left c x r # gs)" for gs by (cases l) simp_all
    moreover obtain t p where p: "rb_leftmost l [] = (t, p)" by fastforce
    then have "rb_leftmost l gs = (t, p @ gs)" for gs by (subst RB_node.IH(1)) simp
    ultimately show ?thesis by simp
  qed simp
qed simp

text \<open>The hole that the removal leaves, with the color it lost: the child of the removed node or of its successor.\<close>

lemma erase_hole:
  assumes "aug_ok e agg s (plug (RB_node c l x r) fs)"
  shows "\<exists>d child hs k. rb_augment_erase_begin (RB_node c l x r, fs) = Some d \<and> rb_erase (RB_node c l x r) fs = erase_child k child hs
    \<and> sibs (aug_ok e agg s) hs \<and> (case d of None \<Rightarrow> child = RB_NULL \<and> hs = [] | Some p \<Rightarrow> (\<exists>y. pos_elem p = Some y \<and> starts e agg s y child hs))"
proof -
  have ok: "aug_ok e agg s l" "aug_ok e agg s r" "sibs (aug_ok e agg s) fs" using aug_ok_sibs [OF assms] by simp_all
  have root: "\<exists>y. pos_elem (t, gs) = Some y \<and> starts e agg s y t hs" if "t \<noteq> RB_NULL" "aug_ok e agg s t" for t gs hs
    using that by (cases t) (auto intro!: starts_trail)
  have hole: "\<exists>y. pos_elem (plug_frame t f, gs) = Some y \<and> starts e agg s y RB_NULL (f # hs)" for t f gs hs
    by (cases f) (simp_all add: starts_def start_ok_def)
  have found: ?thesis if "rb_augment_erase_begin (RB_node c l x r, fs) = Some (Some p)" "rb_erase (RB_node c l x r) fs = erase_child k child hs"
    "sibs (aug_ok e agg s) hs" "\<exists>y. pos_elem p = Some y \<and> starts e agg s y child hs" for p k child hs
    by (intro exI [of _ "Some p"] exI [of _ child] exI [of _ hs] exI [of _ k]) (simp add: that del: rb_augment_erase_begin.simps rb_erase.simps)
  consider (leaf) "l = RB_NULL" "r = RB_NULL" | (right) "l = RB_NULL" "r \<noteq> RB_NULL" | (left) "l \<noteq> RB_NULL" "r = RB_NULL"
    | (both) "l \<noteq> RB_NULL" "r \<noteq> RB_NULL" by blast
  then show ?thesis
  proof cases
    case leaf
    have "rb_augment_erase_begin (RB_node c l x r, fs) = Some (rb_parent (RB_node c l x r, fs))" "rb_erase (RB_node c l x r) fs = erase_child c RB_NULL fs"
      using leaf by simp_all
    moreover have "case rb_parent (RB_node c l x r, fs) of None \<Rightarrow> RB_NULL = RB_NULL \<and> fs = [] | Some p \<Rightarrow> (\<exists>y. pos_elem p = Some y \<and> starts e agg s y RB_NULL fs)"
      using hole by (cases fs) simp_all
    ultimately show ?thesis using ok(3) by blast
  next
    case right
    then have "rb_augment_erase_begin (RB_node c l x r, fs) = Some (Some (r, In_right c l x # fs))" "rb_erase (RB_node c l x r) fs = erase_child c r fs"
      by simp_all
    then show ?thesis by (rule found [OF _ _ ok(3) root [OF right(2) ok(2)]])
  next
    case left
    then have "rb_augment_erase_begin (RB_node c l x r, fs) = Some (Some (l, In_left c x r # fs))" "rb_erase (RB_node c l x r) fs = erase_child c l fs"
      by (simp, cases l) simp_all
    then show ?thesis by (rule found [OF _ _ ok(3) root [OF left(1) ok(1)]])
  next
    case both
    obtain sc z sr path where p: "rb_leftmost r [] = (RB_node sc RB_NULL z sr, path)" "plug (RB_node sc RB_NULL z sr) path = r"
      using leftmost_position [OF both(2), of "[]"] by auto
    have sib: "aug_ok e agg s sr" "sibs (aug_ok e agg s) (path @ In_right c l z # fs)" using aug_ok_sibs [of e agg s "RB_node sc RB_NULL z sr" path] ok p(2) by auto
    have er: "rb_erase (RB_node c l x r) fs = erase_child sc sr (path @ In_right c l z # fs)" using both p(1) by (cases l; cases r) simp_all
    have nx: "rb_next (RB_node c l x r, fs) = Some (RB_node sc RB_NULL z sr, path @ In_right c l x # fs)"
      using both(2) p(1) leftmost_append [of r "In_right c l x # fs"] by simp
    have "\<exists>p y. rb_augment_erase_begin (RB_node c l x r, fs) = Some (Some p) \<and> pos_elem p = Some y \<and> starts e agg s y sr (path @ In_right c l z # fs)"
    proof (cases "sr = RB_NULL")
      case False
      then show ?thesis using both nx root [OF False sib(1)] by simp
    next
      case True
      show ?thesis
      proof (cases path)
        case Nil
        then have "r = RB_node sc RB_NULL z sr" using p(2) by simp
        then show ?thesis using both nx True Nil by (simp add: starts_def start_ok_def)
      next
        case (Cons f gs)
        then have "rb_parent (RB_node sc RB_NULL z sr, path @ In_right c l x # fs) \<noteq> Some (RB_node c l x r, fs)" by auto
        then show ?thesis using both nx True Cons hole [of _ f] by simp
      qed
    qed
    then show ?thesis using found [OF _ er sib(2)] by blast
  qed
qed

lemma erase_augmented:
  assumes "rb_ok (plug (RB_node c l x r) fs)" and "aug_ok e agg s (plug (RB_node c l x r) fs)"
  shows "\<exists>d T. rb_augment_erase_begin (RB_node c l x r, fs) = Some d \<and> rb_erase (RB_node c l x r) fs = Some T
    \<and> inorder T = lefts fs @ inorder l @ inorder r @ rights fs
    \<and> (case d of None \<Rightarrow> T = RB_NULL | Some p \<Rightarrow> (\<exists>y. pos_elem p = Some y \<and> erase_trail e agg s y T))"
proof -
  obtain T where T: "rb_erase (RB_node c l x r) fs = Some T" "inorder T = lefts fs @ inorder l @ inorder r @ rights fs" using erase_at_ok [OF assms(1)] by blast
  obtain d child hs k where d: "rb_augment_erase_begin (RB_node c l x r, fs) = Some d" "rb_erase (RB_node c l x r) fs = erase_child k child hs"
    "sibs (aug_ok e agg s) hs" "case d of None \<Rightarrow> child = RB_NULL \<and> hs = [] | Some p \<Rightarrow> (\<exists>y. pos_elem p = Some y \<and> starts e agg s y child hs)"
    using erase_hole [OF assms(2)] by blast
  have "T = RB_NULL" if "d = None" using d(2,4) T(1) that by (auto simp: erase_child_def split: if_splits)
  moreover have "\<exists>y. pos_elem p = Some y \<and> erase_trail e agg s y T" if "d = Some p" for p
    using d(2,4) T(1) that erase_child_trail [OF _ d(3), of _ child k] by (auto simp: trail_left_def)
  ultimately show ?thesis using d(1) T by (cases d) auto
qed

lemma position_of: "x \<in> set (inorder t) \<Longrightarrow> \<exists>u gs. plug u gs = plug t fs \<and> pos_elem (u, gs) = Some x"
proof (induction t arbitrary: fs)
  case (RB_node c l y r)
  consider "x = y" | "x \<in> set (inorder l)" | "x \<in> set (inorder r)" using RB_node.prems by auto
  then show ?case
  proof cases
    case 1
    then show ?thesis by (intro exI [of _ "RB_node c l y r"] exI [of _ fs]) simp
  next
    case 2
    then show ?thesis using RB_node.IH(1) [of "In_left c y r # fs"] by simp
  next
    case 3
    then show ?thesis using RB_node.IH(2) [of "In_right c l y # fs"] by simp
  qed
qed simp

lemma trail_end:
  assumes "erase_trail e agg s x (plug t fs)" and "distinct (inorder (plug t fs))" and "pos_elem (t, fs) = Some x"
  shows "\<exists>s'. rb_augment_erase_end (recompute e agg) (Some (t, fs)) s = Some s' \<and> aug_ok e agg s' (plug t fs)"
proof -
  obtain c l r where t: "t = RB_node c l x r" using assms(3) by (cases t) auto
  then have "below_ok e agg s t" "sibs (below_ok e agg s) fs" using trail_unplug [of x t fs] assms(1,2) by (auto dest: trail_in)
  then show ?thesis using path_ok [of t e agg s fs] assms(2) t by (auto simp: rb_augment_erase_end_def)
qed

section \<open>Properties\<close>

text \<open>C8. After linking a new node into a red-black tree whose nodes carry right data, and rebalancing, \<open>rb_augment_insert\<close> on the new node puts
  the data of every node right again, wherever the rotations moved it, and touches the data of no other element; the root's data is the value of the whole tree.\<close>

theorem rb_augment_insert_restores:
  assumes "rb_ok (plug RB_NULL fs)" and "aug_ok e agg s (plug RB_NULL fs)" and "distinct (inorder (plug RB_NULL fs))" and "x \<notin> set (inorder (plug RB_NULL fs))"
  shows "\<exists>T. rb_insert_color (rb_link_node x) fs = Some T \<and> (\<exists>t gs. plug t gs = T \<and> pos_elem (t, gs) = Some x)
    \<and> (\<forall>t gs. plug t gs = T \<and> pos_elem (t, gs) = Some x \<longrightarrow> (\<exists>s'. rb_augment_insert (recompute e agg) (t, gs) s = Some s'
        \<and> aug_ok e agg s' T \<and> child_val e s' T = tree_val e agg T \<and> (\<forall>y. y \<notin> set (inorder T) \<longrightarrow> s' y = s y)))"
proof -
  obtain T where T: "rb_insert_color (rb_link_node x) fs = Some T" "inorder T = lefts fs @ x # rights fs" "distinct (inorder T)" "insert_trail e agg s x T"
    using insert_augmented [OF assms] by blast
  have "\<exists>t gs. plug t gs = T \<and> pos_elem (t, gs) = Some x" using position_of [of x T "[]"] T(2) by simp
  moreover have "\<exists>s'. rb_augment_insert (recompute e agg) (t, gs) s = Some s' \<and> aug_ok e agg s' T \<and> child_val e s' T = tree_val e agg T
      \<and> (\<forall>y. y \<notin> set (inorder T) \<longrightarrow> s' y = s y)" if pos: "plug t gs = T" "pos_elem (t, gs) = Some x" for t gs
  proof -
    obtain s' where "rb_augment_insert (recompute e agg) (t, gs) s = Some s'" "aug_ok e agg s' T" "\<forall>y. y \<notin> set (inorder T) \<longrightarrow> s' y = s y"
      using trail_path [of e agg s x t gs, unfolded pos(1), OF T(4,3) pos(2)] by blast
    then show ?thesis using aug_ok_val [of e agg s' T] by blast
  qed
  ultimately show ?thesis using T(1) by blast
qed

text \<open>C9. Removing any node from such a tree: the node that \<open>rb_augment_erase_begin\<close> finds beforehand is still in the tree afterwards, and
  \<open>rb_augment_erase_end\<close> on it puts all the data right again; it finds none exactly when nothing is left.\<close>

theorem rb_augment_erase_restores:
  assumes "rb_ok (plug (RB_node c l x r) fs)" and "aug_ok e agg s (plug (RB_node c l x r) fs)" and "distinct (inorder (plug (RB_node c l x r) fs))"
  shows "\<exists>d T. rb_augment_erase_begin (RB_node c l x r, fs) = Some d \<and> rb_erase (RB_node c l x r) fs = Some T \<and> (d = None \<longleftrightarrow> T = RB_NULL)
    \<and> (\<forall>p. d = Some p \<longrightarrow> (\<exists>y\<in>set (inorder T). pos_elem p = Some y \<and> (\<forall>t gs. plug t gs = T \<and> pos_elem (t, gs) = Some y \<longrightarrow>
        (\<exists>s'. rb_augment_erase_end (recompute e agg) (Some (t, gs)) s = Some s' \<and> aug_ok e agg s' T \<and> child_val e s' T = tree_val e agg T))))"
proof -
  obtain d T where T: "rb_augment_erase_begin (RB_node c l x r, fs) = Some d" "rb_erase (RB_node c l x r) fs = Some T"
    "inorder T = lefts fs @ inorder l @ inorder r @ rights fs"
    "case d of None \<Rightarrow> T = RB_NULL | Some p \<Rightarrow> (\<exists>y. pos_elem p = Some y \<and> erase_trail e agg s y T)" using erase_augmented [OF assms(1,2)] by blast
  have dist: "distinct (inorder T)" using assms(3) T(3) by auto
  have "\<exists>y\<in>set (inorder T). pos_elem p = Some y \<and> (\<forall>t gs. plug t gs = T \<and> pos_elem (t, gs) = Some y \<longrightarrow>
      (\<exists>s'. rb_augment_erase_end (recompute e agg) (Some (t, gs)) s = Some s' \<and> aug_ok e agg s' T \<and> child_val e s' T = tree_val e agg T))" if d: "d = Some p" for p
  proof -
    obtain y where y: "pos_elem p = Some y" "erase_trail e agg s y T" using T(4) d by auto
    have "\<exists>s'. rb_augment_erase_end (recompute e agg) (Some (t, gs)) s = Some s' \<and> aug_ok e agg s' T \<and> child_val e s' T = tree_val e agg T"
      if pos: "plug t gs = T" "pos_elem (t, gs) = Some y" for t gs
    proof -
      obtain s' where "rb_augment_erase_end (recompute e agg) (Some (t, gs)) s = Some s'" "aug_ok e agg s' T"
        using trail_end [of e agg s y t gs, unfolded pos(1), OF y(2) dist pos(2)] by blast
      then show ?thesis using aug_ok_val [of e agg s' T] by blast
    qed
    then show ?thesis using y trail_in [OF y(2)] by blast
  qed
  moreover have "d = None \<longleftrightarrow> T = RB_NULL" using T(4) by (cases d) (auto simp: prod_cases3)
  ultimately show ?thesis using T(1,2) by blast
qed

section \<open>Sizes of subtrees\<close>

text \<open>The data of an order-statistics tree: the number of elements of the subtree.\<close>

definition size_agg :: "nat \<Rightarrow> nat \<Rightarrow> nat \<Rightarrow> nat" where
  "size_agg x a b = a + b + 1"

definition three_sizes :: "nat \<Rightarrow> nat" where
  "three_sizes x = (if x = 2 then 3 else 1)"

lemma size_agg_val: "tree_val 0 size_agg t = length (inorder t)"
  by (induction t) (simp_all add: size_agg_def)

theorem rb_augment_insert_restores_witness:
  "\<exists>T t gs s'. rb_insert_color (rb_link_node 4) three_ctx = Some T \<and> rb_augment_insert (recompute 0 size_agg) (t, gs) three_sizes = Some s' \<and> child_val 0 s' T = 4"
proof -
  have T: "inorder T = [1, 2, 3, 4]" if "rb_insert_color (rb_link_node 4) three_ctx = Some T" for T
    using that by (auto simp: three_ctx_def rb_link_node_def)
  have "rb_ok (plug RB_NULL three_ctx)" "aug_ok 0 size_agg three_sizes (plug RB_NULL three_ctx)" "distinct (inorder (plug RB_NULL three_ctx))"
    "4 \<notin> set (inorder (plug RB_NULL three_ctx))" by (simp_all add: three_ctx_def rb_ok_def size_agg_def three_sizes_def)
  from rb_augment_insert_restores [OF this] obtain T t gs s' where "rb_insert_color (rb_link_node 4) three_ctx = Some T"
    "rb_augment_insert (recompute 0 size_agg) (t, gs) three_sizes = Some s'" "child_val 0 s' T = tree_val 0 size_agg T" by blast
  moreover from this have "child_val 0 s' T = 4" using T [of T] size_agg_val [of T] by simp
  ultimately show ?thesis by blast
qed

theorem rb_augment_erase_restores_witness:
  "\<exists>p T. rb_augment_erase_begin (RB_node RB_BLACK (RB_node RB_RED RB_NULL 1 RB_NULL) 2 (RB_node RB_RED RB_NULL 3 RB_NULL), []) = Some (Some p)
    \<and> rb_erase (RB_node RB_BLACK (RB_node RB_RED RB_NULL 1 RB_NULL) 2 (RB_node RB_RED RB_NULL 3 RB_NULL)) [] = Some T
    \<and> pos_elem p = Some (3::nat) \<and> (\<exists>t gs s'. rb_augment_erase_end (recompute 0 size_agg) (Some (t, gs)) three_sizes = Some s' \<and> child_val 0 s' T = 2)"
proof -
  let ?l = "RB_node RB_RED RB_NULL (1::nat) RB_NULL" and ?r = "RB_node RB_RED RB_NULL (3::nat) RB_NULL"
  have "rb_ok (plug (RB_node RB_BLACK ?l 2 ?r) [])" "aug_ok 0 size_agg three_sizes (plug (RB_node RB_BLACK ?l 2 ?r) [])"
    "distinct (inorder (plug (RB_node RB_BLACK ?l 2 ?r) []))" by (simp_all add: rb_ok_def size_agg_def three_sizes_def)
  from rb_augment_erase_restores [OF this] obtain d T where T: "rb_augment_erase_begin (RB_node RB_BLACK ?l 2 ?r, []) = Some d"
    "rb_erase (RB_node RB_BLACK ?l 2 ?r) [] = Some T" "\<forall>p. d = Some p \<longrightarrow> (\<exists>y\<in>set (inorder T). pos_elem p = Some y \<and> (\<forall>t gs. plug t gs = T \<and> pos_elem (t, gs) = Some y \<longrightarrow>
      (\<exists>s'. rb_augment_erase_end (recompute 0 size_agg) (Some (t, gs)) three_sizes = Some s' \<and> aug_ok 0 size_agg s' T \<and> child_val 0 s' T = tree_val 0 size_agg T)))"
    by blast
  obtain p where p: "d = Some p" "pos_elem p = Some 3" using T(1) by auto
  then obtain t gs where t: "plug t gs = T" "pos_elem (t, gs) = Some 3" using T(3) position_of [of 3 T "[]"] by auto
  have "inorder T = [1, 3]" using T(2) by (auto simp: erase_child_def)
  then have "\<exists>t gs s'. rb_augment_erase_end (recompute 0 size_agg) (Some (t, gs)) three_sizes = Some s' \<and> child_val 0 s' T = 2"
    using T(3) p t size_agg_val [of T] by fastforce
  then show ?thesis using T(1,2) p by blast
qed

end
