(* ===== verification/IpZone.thy ===== *)
theory IpZone
  imports Eother Rbtree "HOL-Library.Multiset"
begin

text \<open>
  The IP zones of \<open>ip_zone.c\<close>: a file of lines \<open>network/prefix;|zone\<close> is read into a red-black tree of
  address ranges (\<open>Rbtree\<close>), and an address is looked up in it. The file is parsed in place in its
  buffer, which has no terminator of its own; the loops over it are modelled on the buffer. The
  answer of \<open>inet_addr\<close> is a parameter. Blocks are addresses, so that what is freed and what is
  left behind can be told.

  The lemmas show that loading a file of disjoint networks gives the table of exactly these zones,
  that the lookup then answers with the zone whose range holds the address, that the dump is such a
  file again, and that destroying the table frees every zone in it once; and that a file whose last
  line does not end in a line feed never loads.
\<close>

section \<open>Standard library\<close>

definition c_isspace :: "char \<Rightarrow> bool" where
  "c_isspace c \<longleftrightarrow> c \<in> {CHR '' '', CHR 0x09, CHR 0x0A, CHR 0x0B, CHR 0x0C, CHR 0x0D}"

fun decimal :: "int \<Rightarrow> string \<Rightarrow> int" where
  "decimal acc [] = acc"
| "decimal acc (c # cs) = (if is_digit c then decimal (10 * acc + (of_char c - 48)) cs else acc)"

text \<open>\<open>atoi\<close>; a value outside \<open>int\<close> is undefined.\<close>

definition atoi :: "string \<Rightarrow> int option" where
  "atoi s = (case dropWhile c_isspace s of
      [] \<Rightarrow> Some 0
    | c # cs \<Rightarrow> ck_int (if c = CHR ''-'' then - decimal 0 cs else if c = CHR ''+'' then decimal 0 cs else decimal 0 (c # cs)))"

text \<open>\<open>ntohl\<close> on a little-endian machine.\<close>

definition ntohl :: "32 word \<Rightarrow> 32 word" where
  "ntohl w = push_bit 24 (w AND 0xFF) OR push_bit 8 (w AND 0xFF00) OR (drop_bit 8 w AND 0xFF00) OR drop_bit 24 w"

section \<open>State\<close>

definition MAX_ZONE_NAME_SIZE :: int where "MAX_ZONE_NAME_SIZE = 64"
definition MAX_SUBNET_SIZE :: int where "MAX_SUBNET_SIZE = 24"

text \<open>A zone; \<open>zone_node\<close> is the address of its node, and so of its block.\<close>

record ip_zone =
  zone_node :: nat
  zone_start :: "32 word"
  zone_end :: "32 word"
  zone_netmask :: "8 word"
  zone_subnet :: string
  zone_name :: string

text \<open>The table. \<open>zone_blocks\<close> are the zones allocated and not freed, \<open>zone_heap\<close> the next block's address.\<close>

record ip_zones =
  ip_zone_tree :: "ip_zone rb_tree"
  zone_count :: "32 word"
  zone_blocks :: "nat list"
  zone_heap :: nat

definition empty_zones :: ip_zones where
  "empty_zones = \<lparr>ip_zone_tree = RB_NULL, zone_count = 0, zone_blocks = [], zone_heap = 0\<rparr>"

section \<open>The tree of zones\<close>

fun rbtree_search_loop :: "ip_zone rb_tree \<Rightarrow> 32 word \<Rightarrow> ip_zone option" where
  "rbtree_search_loop RB_NULL ip = None"
| "rbtree_search_loop (RB_node c l z r) ip =
     (if ip < zone_start z then rbtree_search_loop l ip
      else if ip \<ge> zone_end z then rbtree_search_loop r ip
      else Some z)"

definition rbtree_search :: "(string \<Rightarrow> 32 word) \<Rightarrow> ip_zone rb_tree \<Rightarrow> string \<Rightarrow> ip_zone option" where
  "rbtree_search inet_addr root str_ip = rbtree_search_loop root (ntohl (inet_addr str_ip))"

text \<open>The descent of \<open>rbtree_insert\<close> to an empty link; \<open>None\<close> when the zone lies strictly inside another's end.\<close>

fun rbtree_descend :: "ip_zone \<Rightarrow> ip_zone rb_tree \<Rightarrow> ip_zone frame list \<Rightarrow> ip_zone frame list option" where
  "rbtree_descend data RB_NULL fs = Some fs"
| "rbtree_descend data (RB_node c l z r) fs =
     (if zone_start data < zone_start z then rbtree_descend data l (In_left c z r # fs)
      else if zone_end data \<ge> zone_end z then rbtree_descend data r (In_right c l z # fs)
      else None)"

definition rbtree_insert :: "ip_zone rb_tree \<Rightarrow> ip_zone \<Rightarrow> (int \<times> ip_zone rb_tree) option" where
  "rbtree_insert root data = (case rbtree_descend data root [] of
      None \<Rightarrow> Some (0, root)
    | Some fs \<Rightarrow> map_option (\<lambda>t. (1, t)) (rb_insert_color (rb_link_node data) fs))"

section \<open>Parsing a line\<close>

text \<open>The loop that finds \<open>;|\<close> and ends the network there.\<close>

function find_sep :: "string \<Rightarrow> int \<Rightarrow> (ptr \<times> string) option" where
  "find_sep m str = (case rd m str of None \<Rightarrow> None
     | Some c \<Rightarrow>
         if c = NUL then Some (NULL, m)
         else if c = CHR '';'' then
           (case rd m (str + 1) of None \<Rightarrow> None
            | Some d \<Rightarrow> if d = CHR ''|'' then map_option (\<lambda>m'. (At (str + 2), m')) (wr m str NUL)
                       else find_sep m (str + 1))
         else find_sep m (str + 1))"
  by pat_completeness auto
termination
  by (relation "measure (\<lambda>(m, p). nat (int (length m) - p))") (auto dest: rd_Some_decr)

text \<open>The loop that ends the zone name at a blank or a line end.\<close>

function cut_name :: "string \<Rightarrow> int \<Rightarrow> string option" where
  "cut_name m str = (case rd m str of None \<Rightarrow> None
     | Some c \<Rightarrow>
         if c = NUL then Some m
         else if c = CHR '' '' \<or> c = CR \<or> c = LF then wr m str NUL
         else cut_name m (str + 1))"
  by pat_completeness auto
termination
  by (relation "measure (\<lambda>(m, p). nat (int (length m) - p))") (auto dest: rd_Some_decr)

text \<open>The loop that finds the slash and ends the address there.\<close>

function find_slash :: "string \<Rightarrow> int \<Rightarrow> (ptr \<times> string) option" where
  "find_slash m str = (case rd m str of None \<Rightarrow> None
     | Some c \<Rightarrow>
         if c = NUL then Some (NULL, m)
         else if c = CHR ''/'' then map_option (\<lambda>m'. (At (str + 1), m')) (wr m str NUL)
         else find_slash m (str + 1))"
  by pat_completeness auto
termination
  by (relation "measure (\<lambda>(m, p). nat (int (length m) - p))") (auto dest: rd_Some_decr)

declare find_sep.simps [simp del] cut_name.simps [simp del] find_slash.simps [simp del]

text \<open>The range of a zone. \<open>1 << n\<close> is undefined unless \<open>n\<close> is from 0 to 30.\<close>

definition zone_range :: "(string \<Rightarrow> 32 word) \<Rightarrow> string \<Rightarrow> 8 word \<Rightarrow> (32 word \<times> 32 word) option" where
  "zone_range inet_addr ip netmask =
     (if netmask = 0 then Some (0, 0xFFFFFFFF)
      else let n = 32 - uint netmask; start = ntohl (inet_addr ip) in
        if 0 \<le> n \<and> n \<le> 30 then Some (start, start + push_bit (nat n) 1) else None)"

text \<open>\<open>ip_zones_add\<close>: the result, the table, the buffer. \<open>malloc_ok\<close> says whether the block at an address can be had.
  The result of \<open>rbtree_insert\<close> is ignored, as in the source.\<close>

definition ip_zones_add ::
  "(nat \<Rightarrow> bool) \<Rightarrow> (string \<Rightarrow> 32 word) \<Rightarrow> ip_zones \<Rightarrow> string \<Rightarrow> int \<Rightarrow> (int \<times> ip_zones \<times> string) option" where
  "ip_zones_add malloc_ok inet_addr zs m line =
     (let node = zone_heap zs; zs1 = zs\<lparr>zone_heap := node + 1\<rparr> in
      if \<not> malloc_ok node then Some (0, zs1, m)
      else do {
        (zone_p, m1) \<leftarrow> find_sep m line;
        case zone_p of
          NULL \<Rightarrow> Some (0, zs1, m1)
        | At zone \<Rightarrow> do {
            m2 \<leftarrow> cut_name m1 zone;
            subnet \<leftarrow> memcpy (replicate (nat MAX_SUBNET_SIZE) NUL) 0 m2 line (zone - line - 2);
            (netmask_p, m3) \<leftarrow> find_slash m2 line;
            case netmask_p of
              NULL \<Rightarrow> Some (0, zs1, m3)
            | At slash \<Rightarrow> do {
                k \<leftarrow> atoi (cstr m3 (nat slash));
                let netmask = word_of_int k;
                (start, zend) \<leftarrow> zone_range inet_addr (cstr m3 (nat line)) netmask;
                name \<leftarrow> strncpy (replicate (nat MAX_ZONE_NAME_SIZE) NUL) 0 m3 zone (MAX_ZONE_NAME_SIZE - 1);
                let z = \<lparr>zone_node = node, zone_start = start, zone_end = zend, zone_netmask = netmask,
                         zone_subnet = subnet, zone_name = name\<rparr>;
                (_, root) \<leftarrow> rbtree_insert (ip_zone_tree zs1) z;
                Some (1, zs1\<lparr>ip_zone_tree := root, zone_count := zone_count zs1 + 1,
                             zone_blocks := zone_blocks zs1 @ [node]\<rparr>, m3)
              }
          }
      })"

section \<open>Destroying the table\<close>

text \<open>The node at an address, found from the root.\<close>

fun rb_locate :: "nat \<Rightarrow> ip_zone rb_tree \<Rightarrow> ip_zone frame list \<Rightarrow> (ip_zone rb_tree \<times> ip_zone frame list) option" where
  "rb_locate a RB_NULL fs = None"
| "rb_locate a (RB_node c l z r) fs =
     (if zone_node z = a then Some (RB_node c l z r, fs)
      else case rb_locate a l (In_left c z r # fs) of
          Some p \<Rightarrow> Some p
        | None \<Rightarrow> rb_locate a r (In_right c l z # fs))"

fun pos_node :: "(ip_zone rb_tree \<times> ip_zone frame list) option \<Rightarrow> nat option" where
  "pos_node None = None"
| "pos_node (Some p) = map_option zone_node (pos_elem p)"

text \<open>The loop of \<open>ip_zones_destroy\<close>: it holds the address of the node to remove, and yields the tree and the
  freed blocks, in order.\<close>

partial_function (option) destroy_loop ::
  "nat option \<Rightarrow> ip_zone rb_tree \<Rightarrow> nat list \<Rightarrow> (ip_zone rb_tree \<times> nat list) option" where
  "destroy_loop node root freed = (case node of
      None \<Rightarrow> Some (root, freed)
    | Some a \<Rightarrow> do {
        pos \<leftarrow> rb_locate a root [];
        root' \<leftarrow> rb_erase (fst pos) (snd pos);
        destroy_loop (pos_node (rb_next pos)) root' (freed @ [a])
      })"

text \<open>The argument is a pointer to the pointer to the table; the result is what remains allocated.\<close>

definition ip_zones_destroy :: "ip_zones option option \<Rightarrow> nat list option" where
  "ip_zones_destroy p = (case p of
      None \<Rightarrow> Some []
    | Some None \<Rightarrow> None
    | Some (Some zs) \<Rightarrow> do {
        (root, freed) \<leftarrow> destroy_loop (pos_node (rb_first (ip_zone_tree zs))) (ip_zone_tree zs) [];
        Some (filter (\<lambda>a. a \<notin> set freed) (zone_blocks zs))
      })"

section \<open>Loading\<close>

definition read_ip_zones_from_file ::
  "file_sizes \<Rightarrow> (string \<Rightarrow> string option) \<Rightarrow> bool \<Rightarrow> string \<Rightarrow> (string \<times> int) option" where
  "read_ip_zones_from_file sizes fopen malloc_buf file_name =
     (let read_len = file_get_length sizes file_name in
      if read_len \<le> 0 then None
      else case fopen file_name of
          None \<Rightarrow> None
        | Some text \<Rightarrow>
            if \<not> malloc_buf then None
            else let got = take (nat read_len) text; sz = int (length got) in
              if sz \<le> 0 \<or> sz \<noteq> read_len then None else Some (got, sz))"

text \<open>The search for the end of the line that starts at \<open>i\<close>: \<open>Inl\<close> for a carriage return out of place, else the
  buffer and the start of the next line.\<close>

function line_end :: "string \<Rightarrow> int \<Rightarrow> int \<Rightarrow> int \<Rightarrow> (unit + string \<times> int) option" where
  "line_end m sz i cnt =
     (if i + cnt < sz then
        (case rd m (i + cnt) of None \<Rightarrow> None
         | Some c \<Rightarrow>
             if c = CR then
               if i + cnt \<ge> sz - 1 then Some (Inl ())
               else (case rd m (i + cnt + 1) of None \<Rightarrow> None
                 | Some d \<Rightarrow> if d = LF then map_option (\<lambda>m'. Inr (m', i + cnt + 2)) (wr m (i + cnt) NUL)
                            else Some (Inl ()))
             else if c = LF then map_option (\<lambda>m'. Inr (m', i + cnt + 1)) (wr m (i + cnt) NUL)
             else line_end m sz i (cnt + 1))
      else Some (Inr (m, i)))"
  by pat_completeness auto
termination
  by (relation "measure (\<lambda>(m, sz, i, cnt). nat (sz - i - cnt))") auto

text \<open>The blanks at the start of a line: whether the line is blank, and where the rest starts.\<close>

function skip_blanks :: "string \<Rightarrow> int \<Rightarrow> (bool \<times> int) option" where
  "skip_blanks m str = (case rd m str of None \<Rightarrow> None
     | Some c \<Rightarrow>
         if c = NUL then Some (True, str)
         else if c \<noteq> CHR '' '' then Some (False, str)
         else skip_blanks m (str + 1))"
  by pat_completeness auto
termination
  by (relation "measure (\<lambda>(m, p). nat (int (length m) - p))") (auto dest: rd_Some_decr)

declare line_end.simps [simp del] skip_blanks.simps [simp del]

text \<open>The loop over the lines: the table, or \<open>NULL\<close> and the blocks that remain. It need not return.\<close>

definition load_failed :: "ip_zones \<Rightarrow> (ip_zones option \<times> nat list) option" where
  "load_failed zs = map_option (\<lambda>left. (None, left)) (ip_zones_destroy (Some (Some zs)))"

partial_function (option) load_loop ::
  "(nat \<Rightarrow> bool) \<Rightarrow> (string \<Rightarrow> 32 word) \<Rightarrow> int \<Rightarrow> string \<Rightarrow> int \<Rightarrow> ip_zones \<Rightarrow> (ip_zones option \<times> nat list) option" where
  "load_loop malloc_ok inet_addr sz m i zs =
     (if i < sz then do {
        e \<leftarrow> line_end m sz i 0;
        case e of
          Inl _ \<Rightarrow> load_failed zs
        | Inr (m1, i') \<Rightarrow> do {
            (blank, str) \<leftarrow> skip_blanks m1 i;
            if blank then load_loop malloc_ok inet_addr sz m1 i' zs
            else do {
              c \<leftarrow> rd m1 str;
              if c = CHR ''#'' then load_loop malloc_ok inet_addr sz m1 i' zs
              else do {
                (ok, zs', m2) \<leftarrow> ip_zones_add malloc_ok inet_addr zs m1 str;
                if ok = 0 then load_failed zs' else load_loop malloc_ok inet_addr sz m2 i' zs'
              }
            }
          }
      }
      else Some (Some zs, []))"

definition ip_zones_load ::
  "file_sizes \<Rightarrow> (string \<Rightarrow> string option) \<Rightarrow> bool \<Rightarrow> bool \<Rightarrow> (nat \<Rightarrow> bool) \<Rightarrow> (string \<Rightarrow> 32 word) \<Rightarrow> string
    \<Rightarrow> (ip_zones option \<times> nat list) option" where
  "ip_zones_load sizes fopen malloc_buf malloc_zones malloc_ok inet_addr file_name =
     (case read_ip_zones_from_file sizes fopen malloc_buf file_name of
        None \<Rightarrow> Some (None, [])
      | Some (m, sz) \<Rightarrow>
          if \<not> malloc_zones then Some (None, [])
          else load_loop malloc_ok inet_addr sz m 0 empty_zones)"

section \<open>Lookup and dump\<close>

definition ip_zones_find :: "(string \<Rightarrow> 32 word) \<Rightarrow> ip_zones \<Rightarrow> string \<Rightarrow> string option" where
  "ip_zones_find inet_addr zs ip =
     map_option (\<lambda>z. cstr (zone_name z) 0) (rbtree_search inet_addr (ip_zone_tree zs) ip)"

definition dump_zone :: "ip_zone \<Rightarrow> string option" where
  "dump_zone z =
     (if NUL \<notin> set (zone_subnet z) \<or> NUL \<notin> set (zone_name z) then None
      else do {
        (_, buffer) \<leftarrow> snprintf (replicate 128 NUL) 0 127 (''%s;|%s'' @ [LF]) [AStr (cstr (zone_subnet z) 0), AStr (cstr (zone_name z) 0)];
        Some (cstr buffer 0)
      })"

partial_function (option) dump_loop ::
  "(ip_zone rb_tree \<times> ip_zone frame list) option \<Rightarrow> string \<Rightarrow> string option" where
  "dump_loop node out = (case node of
      None \<Rightarrow> Some out
    | Some p \<Rightarrow> do {
        z \<leftarrow> pos_elem p;
        s \<leftarrow> dump_zone z;
        dump_loop (rb_next p) (out @ s)
      })"

definition ip_zones_dump :: "ip_zones \<Rightarrow> string option" where
  "ip_zones_dump zs = dump_loop (rb_first (ip_zone_tree zs)) []"

section \<open>Ordered, disjoint zones\<close>

definition zone_has :: "32 word \<Rightarrow> ip_zone \<Rightarrow> bool" where
  "zone_has ip z \<longleftrightarrow> zone_start z \<le> ip \<and> ip < zone_end z"

definition zone_before :: "ip_zone \<Rightarrow> ip_zone \<Rightarrow> bool" where
  "zone_before a b \<longleftrightarrow> zone_end a \<le> zone_start b"

definition zones_ok :: "ip_zone list \<Rightarrow> bool" where
  "zones_ok zs \<longleftrightarrow> sorted_wrt zone_before zs \<and> (\<forall>z\<in>set zs. zone_start z < zone_end z)"

lemma zones_ok_append: "zones_ok (a @ z # b) \<longleftrightarrow> zones_ok a \<and> zones_ok b \<and> zone_start z < zone_end z
    \<and> (\<forall>x\<in>set a. zone_end x \<le> zone_start z) \<and> (\<forall>x\<in>set b. zone_end z \<le> zone_start x)
    \<and> (\<forall>x\<in>set a. \<forall>y\<in>set b. zone_end x \<le> zone_start y)"
  by (auto simp: zones_ok_def sorted_wrt_append zone_before_def)

lemma search_sound: "rbtree_search_loop t ip = Some z \<Longrightarrow> z \<in> set (inorder t) \<and> zone_has ip z"
  by (induction t ip rule: rbtree_search_loop.induct) (auto simp: zone_has_def not_less split: if_splits)

lemma search_complete:
  "zones_ok (inorder t) \<Longrightarrow> z \<in> set (inorder t) \<Longrightarrow> zone_has ip z \<Longrightarrow> rbtree_search_loop t ip = Some z"
proof (induction t ip rule: rbtree_search_loop.induct)
  case (2 c l x r ip)
  then have ok: "zones_ok (inorder l)" "zones_ok (inorder r)" "zone_start x < zone_end x"
    "\<forall>y\<in>set (inorder l). zone_end y \<le> zone_start x" "\<forall>y\<in>set (inorder r). zone_end x \<le> zone_start y"
    by (simp_all add: zones_ok_append)
  have ip: "zone_start z \<le> ip" "ip < zone_end z" using 2(5) by (simp_all add: zone_has_def)
  consider "z \<in> set (inorder l)" | "z = x" | "z \<in> set (inorder r)" using 2(4) by auto
  then show ?case
  proof cases
    case 1
    then have "ip < zone_start x" using ok(4) ip by force
    then show ?thesis using 1 2 ok by simp
  next
    case 2
    then show ?thesis using ip by (auto simp: not_le [symmetric])
  next
    case 3
    then have "zone_end x \<le> ip" using ok(5) ip by force
    then show ?thesis using 3 2 ok by (auto simp: not_less)
  qed
qed simp

lemma descend_ok:
  assumes "zones_ok (inorder t)" and "zone_start d < zone_end d"
    and "\<forall>z\<in>set (inorder t). zone_end d \<le> zone_start z \<or> zone_end z \<le> zone_start d"
  shows "\<exists>fs' a b. rbtree_descend d t fs = Some fs' \<and> plug RB_NULL fs' = plug t fs \<and> inorder t = a @ b
    \<and> lefts fs' = lefts fs @ a \<and> rights fs' = b @ rights fs
    \<and> (\<forall>z\<in>set a. zone_end z \<le> zone_start d) \<and> (\<forall>z\<in>set b. zone_end d \<le> zone_start z)"
  using assms
proof (induction d t fs rule: rbtree_descend.induct)
  case (2 d c l z r fs)
  then have ok: "zones_ok (inorder l)" "zones_ok (inorder r)" "zone_start z < zone_end z"
    "\<forall>y\<in>set (inorder l). zone_end y \<le> zone_start z" "\<forall>y\<in>set (inorder r). zone_end z \<le> zone_start y"
    by (simp_all add: zones_ok_append)
  have dj: "zone_end d \<le> zone_start z \<or> zone_end z \<le> zone_start d" using 2(5) by simp
  show ?case
  proof (cases "zone_start d < zone_start z")
    case True
    then have e: "zone_end d \<le> zone_start z" using dj ok(3) by force
    obtain fs' a b where "rbtree_descend d l (In_left c z r # fs) = Some fs'" "plug RB_NULL fs' = plug (RB_node c l z r) fs"
      "inorder l = a @ b" "lefts fs' = lefts fs @ a" "rights fs' = b @ z # inorder r @ rights fs"
      "\<forall>z\<in>set a. zone_end z \<le> zone_start d" "\<forall>z\<in>set b. zone_end d \<le> zone_start z"
      using "2.IH"(1) [OF True ok(1) 2(4)] 2(5) by auto
    moreover have "\<forall>y\<in>set (inorder r). zone_end d \<le> zone_start y" using ok(3,5) e by force
    ultimately show ?thesis using True e
      by (intro exI [of _ fs'] exI [of _ a] exI [of _ "b @ z # inorder r"]) auto
  next
    case False
    then have e: "zone_end z \<le> zone_start d" using dj 2(4) by force
    then have z: "zone_end z \<le> zone_end d" using 2(4) by simp
    obtain fs' a b where "rbtree_descend d r (In_right c l z # fs) = Some fs'" "plug RB_NULL fs' = plug (RB_node c l z r) fs"
      "inorder r = a @ b" "lefts fs' = lefts fs @ inorder l @ z # a" "rights fs' = b @ rights fs"
      "\<forall>z\<in>set a. zone_end z \<le> zone_start d" "\<forall>z\<in>set b. zone_end d \<le> zone_start z"
      using "2.IH"(2) [OF False z ok(2) 2(4)] 2(5) by auto
    moreover have "\<forall>y\<in>set (inorder l). zone_end y \<le> zone_start d" using ok(3,4) e by force
    ultimately show ?thesis using False e z
      by (intro exI [of _ fs'] exI [of _ "inorder l @ z # a"] exI [of _ b]) auto
  qed
qed auto

lemma insert_ok:
  assumes "rb_ok t" and "zones_ok (inorder t)" and "zone_start d < zone_end d"
    and "\<forall>z\<in>set (inorder t). zone_end d \<le> zone_start z \<or> zone_end z \<le> zone_start d"
  shows "\<exists>t' a b. rbtree_insert t d = Some (1, t') \<and> rb_ok t' \<and> inorder t = a @ b \<and> inorder t' = a @ d # b
    \<and> zones_ok (inorder t')"
proof -
  obtain fs a b where d: "rbtree_descend d t [] = Some fs" "plug RB_NULL fs = t" "inorder t = a @ b"
    "lefts fs = a" "rights fs = b" "\<forall>z\<in>set a. zone_end z \<le> zone_start d" "\<forall>z\<in>set b. zone_end d \<le> zone_start z"
    using descend_ok [OF assms(2-4), of "[]"] by auto
  obtain t' where t: "rb_insert_color (rb_link_node d) fs = Some t'" "rb_ok t'" "inorder t' = a @ d # b"
    using link_insert_ok [of fs d] assms(1) d by auto
  have "zones_ok (a @ b)" using assms(2) d(3) by simp
  then have "zones_ok (a @ d # b)" using d(6,7) assms(3)
    by (auto simp: zones_ok_append zones_ok_def sorted_wrt_append zone_before_def)
  then show ?thesis using d t by (auto simp: rbtree_insert_def)
qed

section \<open>Destroying frees every zone\<close>

lemma locate_elem:
  "rb_locate a t fs = Some p \<Longrightarrow> \<exists>xs y ys. inorder t = xs @ y # ys \<and> zone_node y = a
     \<and> pos_split p (lefts fs @ xs) y (ys @ rights fs) \<and> plug (fst p) (snd p) = plug t fs"
proof (induction a t fs rule: rb_locate.induct)
  case (2 a c l z r fs)
  show ?case
  proof (cases "zone_node z = a")
    case True
    then show ?thesis using 2(3) by auto
  next
    case False
    show ?thesis
    proof (cases "rb_locate a l (In_left c z r # fs)")
      case None
      then obtain xs y ys where "inorder r = xs @ y # ys" "zone_node y = a"
        "pos_split p (lefts (In_right c l z # fs) @ xs) y (ys @ rights (In_right c l z # fs))"
        "plug (fst p) (snd p) = plug r (In_right c l z # fs)" using 2 False by auto
      then show ?thesis by (intro exI [of _ "inorder l @ z # xs"] exI [of _ y] exI [of _ ys]) simp
    next
      case (Some q)
      then obtain xs y ys where "inorder l = xs @ y # ys" "zone_node y = a"
        "pos_split p (lefts (In_left c z r # fs) @ xs) y (ys @ rights (In_left c z r # fs))"
        "plug (fst p) (snd p) = plug l (In_left c z r # fs)" using 2 False by auto
      then show ?thesis by (intro exI [of _ xs] exI [of _ y] exI [of _ "ys @ z # inorder r"]) simp
    qed
  qed
qed simp

lemma locate_None: "rb_locate a t fs = None \<longleftrightarrow> a \<notin> zone_node ` set (inorder t)"
  by (induction a t fs rule: rb_locate.induct) (auto split: option.split)

lemma locate_first:
  assumes "distinct (map zone_node (inorder t))" and "inorder t = y # ys"
  shows "\<exists>p. rb_locate (zone_node y) t [] = Some p \<and> pos_split p [] y ys \<and> plug (fst p) (snd p) = t"
proof -
  obtain p where p: "rb_locate (zone_node y) t [] = Some p"
    using locate_None [of "zone_node y" t "[]"] assms(2) by auto
  obtain xs y' ys' where e: "inorder t = xs @ y' # ys'" "zone_node y' = zone_node y" "pos_split p xs y' ys'"
    "plug (fst p) (snd p) = t" using locate_elem [OF p] by auto
  have "xs = []" using e(1,2) assms by (cases xs) auto
  then show ?thesis using e p assms(2) by auto
qed

lemma destroy_loop_all:
  "rb_ok t \<Longrightarrow> distinct (map zone_node (inorder t)) \<Longrightarrow> inorder t = zs \<Longrightarrow>
   destroy_loop (case zs of [] \<Rightarrow> None | z # _ \<Rightarrow> Some (zone_node z)) t freed = Some (RB_NULL, freed @ map zone_node zs)"
proof (induction zs arbitrary: t freed)
  case Nil
  then show ?case by (simp add: destroy_loop.simps inorder_Nil)
next
  case (Cons z zs)
  obtain p where p: "rb_locate (zone_node z) t [] = Some p" "pos_split p [] z zs" "plug (fst p) (snd p) = t"
    using locate_first [OF Cons.prems(2,3)] by blast
  obtain c l r fs where n: "p = (RB_node c l z r, fs)" "lefts fs = []" "inorder l = []" "zs = inorder r @ rights fs"
    using p(2) by (cases p; cases "fst p") auto
  obtain t' where t: "rb_erase (RB_node c l z r) fs = Some t'" "rb_ok t'" "inorder t' = zs"
    using erase_at_ok [of c l z r fs] Cons.prems(1) p(3) n by auto
  have next_node: "pos_node (rb_next p) = (case zs of [] \<Rightarrow> None | z # _ \<Rightarrow> Some (zone_node z))"
  proof (cases zs)
    case Nil
    then show ?thesis using next_split [OF p(2)] by simp
  next
    case (Cons y ys)
    then obtain q where q: "rb_next p = Some q" "pos_split q [z] y ys" using next_split [OF p(2)] by auto
    then show ?thesis using Cons by (cases q; cases "fst q") auto
  qed
  have "distinct (map zone_node (inorder t'))" using Cons.prems(2,3) t(3) by simp
  from Cons.IH [OF t(2) this t(3), of "freed @ [zone_node z]"]
  show ?case using p(1) n(1) t(1) next_node by (simp add: destroy_loop.simps)
qed

lemma first_node: "pos_node (rb_first t) = (case inorder t of [] \<Rightarrow> None | z # _ \<Rightarrow> Some (zone_node z))"
proof (cases "inorder t")
  case Nil
  then show ?thesis using first_split [of t] by simp
next
  case (Cons y ys)
  then obtain q where "rb_first t = Some q" "pos_split q [] y ys" using first_split [of t] by auto
  then show ?thesis using Cons by (cases q; cases "fst q") auto
qed

lemma destroy_ok:
  assumes "rb_ok (ip_zone_tree zs)" and "distinct (map zone_node (inorder (ip_zone_tree zs)))"
  shows "ip_zones_destroy (Some (Some zs))
    = Some (filter (\<lambda>a. a \<notin> zone_node ` set (inorder (ip_zone_tree zs))) (zone_blocks zs))"
  using destroy_loop_all [OF assms refl, of "[]"] by (simp add: ip_zones_destroy_def first_node)

section \<open>The loops on a line\<close>

lemma find_sep_at:
  "NUL \<notin> set s \<Longrightarrow> CHR '';'' \<notin> set s \<Longrightarrow> p = int (length a) \<Longrightarrow>
   find_sep (a @ s @ CHR '';'' # CHR ''|'' # b) p = Some (At (p + int (length s) + 2), a @ s @ NUL # CHR ''|'' # b)"
proof (induction s arbitrary: a p)
  case Nil
  have "rd (a @ CHR '';'' # CHR ''|'' # b) (p + 1) = Some CHR ''|''"
    using rd_mid [of "p + 1" "a @ [CHR '';'']" "CHR ''|''" b] Nil by simp
  then show ?case using Nil by (simp add: find_sep.simps [of _ "int (length a)"])
next
  case (Cons c s)
  have "find_sep ((a @ [c]) @ s @ CHR '';'' # CHR ''|'' # b) (p + 1)
      = Some (At (p + 1 + int (length s) + 2), (a @ [c]) @ s @ NUL # CHR ''|'' # b)"
    using Cons.prems by (intro Cons.IH) auto
  with Cons.prems show ?case
    using rd_mid [of p a c "s @ CHR '';'' # CHR ''|'' # b"]
    by (auto simp: find_sep.simps [of _ "int (length a)"])
qed

lemma cut_name_at:
  "CR \<notin> set s \<Longrightarrow> CHR '' '' \<notin> set s \<Longrightarrow> LF \<notin> set s \<Longrightarrow> p = int (length a) \<Longrightarrow> NUL \<notin> set s \<Longrightarrow>
   cut_name (a @ s @ NUL # b) p = Some (a @ s @ NUL # b)"
proof (induction s arbitrary: a p)
  case Nil
  then show ?case by (simp add: cut_name.simps [of _ "int (length a)"])
next
  case (Cons c s)
  have "cut_name ((a @ [c]) @ s @ NUL # b) (p + 1) = Some ((a @ [c]) @ s @ NUL # b)"
    using Cons.prems by (intro Cons.IH) auto
  with Cons.prems show ?case by (auto simp: cut_name.simps [of _ "int (length a)"])
qed

lemma find_slash_at:
  "NUL \<notin> set s \<Longrightarrow> CHR ''/'' \<notin> set s \<Longrightarrow> p = int (length a) \<Longrightarrow>
   find_slash (a @ s @ CHR ''/'' # b) p = Some (At (p + int (length s) + 1), a @ s @ NUL # b)"
proof (induction s arbitrary: a p)
  case Nil
  then show ?case by (simp add: find_slash.simps [of _ "int (length a)"])
next
  case (Cons c s)
  have "find_slash ((a @ [c]) @ s @ CHR ''/'' # b) (p + 1) = Some (At (p + 1 + int (length s) + 1), (a @ [c]) @ s @ NUL # b)"
    using Cons.prems by (intro Cons.IH) auto
  with Cons.prems show ?case by (auto simp: find_slash.simps [of _ "int (length a)"])
qed

lemma skip_blanks_at:
  "c \<noteq> CHR '' '' \<Longrightarrow> p = int (length a) \<Longrightarrow>
   skip_blanks (a @ replicate n CHR '' '' @ c # b) p = Some (c = NUL, p + int n)"
proof (induction n arbitrary: a p)
  case 0
  then show ?case by (simp add: skip_blanks.simps [of _ "int (length a)"])
next
  case (Suc n)
  have "skip_blanks ((a @ [CHR '' '']) @ replicate n CHR '' '' @ c # b) (p + 1) = Some (c = NUL, p + 1 + int n)"
    using Suc.prems by (intro Suc.IH) auto
  with Suc.prems show ?case by (simp add: skip_blanks.simps [of _ "int (length a)"])
qed

text \<open>A line without line ends, then a line feed or a carriage return and a line feed.\<close>

definition eol :: "bool \<Rightarrow> string" where
  "eol crlf = (if crlf then [CR, LF] else [LF])"

definition eol_cut :: "bool \<Rightarrow> string" where
  "eol_cut crlf = (if crlf then [NUL, LF] else [NUL])"

lemma line_end_at:
  assumes "CR \<notin> set s" and "LF \<notin> set s" and "m = a @ s @ eol crlf @ b" and "sz = int (length m)"
    and "i + cnt = int (length a)"
  shows "line_end m sz i cnt = Some (Inr (a @ s @ eol_cut crlf @ b, int (length (a @ s @ eol crlf))))"
  using assms
proof (induction s arbitrary: a cnt)
  case Nil
  show ?case
  proof (cases crlf)
    case True
    have "rd m (i + cnt + 1) = Some LF"
      using rd_mid [of "i + cnt + 1" "a @ [CR]" LF b] Nil True by (simp add: eol_def)
    then show ?thesis using Nil True by (simp add: line_end.simps [of _ _ i cnt] eol_def eol_cut_def)
  next
    case False
    then show ?thesis using Nil by (simp add: line_end.simps [of _ _ i cnt] eol_def eol_cut_def)
  qed
next
  case (Cons c s)
  have "line_end m sz i (cnt + 1) = Some (Inr ((a @ [c]) @ s @ eol_cut crlf @ b, int (length ((a @ [c]) @ s @ eol crlf))))"
    using Cons.prems by (intro Cons.IH) auto
  with Cons.prems show ?case by (auto simp: line_end.simps [of _ _ i cnt])
qed

section \<open>Numbers\<close>

lemma decimal_snoc:
  "\<forall>x\<in>set s. is_digit x \<Longrightarrow> is_digit d \<Longrightarrow> decimal acc (s @ [d]) = 10 * decimal acc s + (of_char d - 48)"
  by (induction s arbitrary: acc) auto

lemma of_char_char_of_int: "(of_char (char_of n) :: int) = int (n mod 256)"
  using of_nat_of_char [of "char_of n", where 'a = int] by simp

lemma decimal_show_nat: "decimal 0 (show_nat n) = int n"
proof (induction n rule: show_nat.induct)
  case (1 n)
  show ?case
  proof (cases "n < 10")
    case True
    then show ?thesis by (simp add: show_nat.simps [of n] is_digit_def of_char_char_of_int)
  next
    case False
    moreover have "n mod 10 \<le> 9" using pos_mod_bound [of 10 "int n"] by linarith
    ultimately have "decimal 0 (show_nat n) = 10 * int (n div 10) + int (n mod 10)"
      using 1 decimal_snoc [of "show_nat (n div 10)" "char_of (48 + n mod 10)" 0] show_nat_digits [of "n div 10"]
      by (auto simp: show_nat.simps [of n] is_digit_def of_char_char_of_int)
    also have "\<dots> = int n" by (simp add: zdiv_int zmod_int)
    finally show ?thesis .
  qed
qed

lemma show_nat_Cons: "\<exists>c cs. show_nat n = c # cs \<and> is_digit c"
proof -
  have "show_nat n \<noteq> []" by (simp add: show_nat.simps)
  then show ?thesis using show_nat_digits [of n] by (cases "show_nat n") auto
qed

lemma digit_not_space: "is_digit c \<Longrightarrow> \<not> c_isspace c \<and> c \<noteq> CHR ''-'' \<and> c \<noteq> CHR ''+''"
  by (auto simp: is_digit_def c_isspace_def)

lemma atoi_show_nat: "int n \<le> INT_MAX \<Longrightarrow> atoi (show_nat n) = Some (int n)"
proof -
  assume n: "int n \<le> INT_MAX"
  obtain c cs where s: "show_nat n = c # cs" "is_digit c" using show_nat_Cons [of n] by blast
  then have "atoi (show_nat n) = ck_int (decimal 0 (show_nat n))"
    using digit_not_space [of c] by (simp add: atoi_def)
  then show ?thesis using n by (simp add: decimal_show_nat ck_int_def in_int_def INT_MAX_def)
qed

section \<open>Adding a line\<close>

text \<open>An entry: address, prefix length, zone name.\<close>

type_synonym zone_entry = "string \<times> nat \<times> string"

fun entry_net :: "zone_entry \<Rightarrow> string" where
  "entry_net (ip, n, name) = ip @ ''/'' @ show_nat n"

fun entry_text :: "zone_entry \<Rightarrow> string" where
  "entry_text (ip, n, name) = ip @ ''/'' @ show_nat n @ '';|'' @ name"

definition entry_ok :: "zone_entry \<Rightarrow> bool" where
  "entry_ok e \<longleftrightarrow> (case e of (ip, n, name) \<Rightarrow>
     ip \<noteq> [] \<and> hd ip \<noteq> CHR '' '' \<and> hd ip \<noteq> CHR ''#'' \<and> set ip \<inter> {NUL, CR, LF, CHR '';'', CHR ''/''} = {}
     \<and> (n = 0 \<or> 2 \<le> n \<and> n \<le> 32) \<and> length (entry_net e) < 24
     \<and> set name \<inter> {NUL, CR, LF, CHR '' ''} = {} \<and> length name < 64)"

text \<open>The range of an entry, end exclusive, and its zone.\<close>

definition entry_range :: "(string \<Rightarrow> 32 word) \<Rightarrow> zone_entry \<Rightarrow> 32 word \<times> 32 word" where
  "entry_range inet_addr e = (case e of (ip, n, name) \<Rightarrow>
     if n = 0 then (0, 0xFFFFFFFF) else (ntohl (inet_addr ip), ntohl (inet_addr ip) + push_bit (32 - n) 1))"

definition entry_zone :: "(string \<Rightarrow> 32 word) \<Rightarrow> nat \<Rightarrow> zone_entry \<Rightarrow> ip_zone" where
  "entry_zone inet_addr node e = (case e of (ip, n, name) \<Rightarrow>
     \<lparr>zone_node = node, zone_start = fst (entry_range inet_addr e), zone_end = snd (entry_range inet_addr e),
      zone_netmask = of_nat n, zone_subnet = entry_net e @ replicate (24 - length (entry_net e)) NUL,
      zone_name = name @ replicate (64 - length name) NUL\<rparr>)"

lemma zone_range_word:
  assumes "uint w = int n" and "n = 0 \<or> 2 \<le> n \<and> n \<le> 32"
  shows "zone_range inet_addr ip w = Some (entry_range inet_addr (ip, n, name))"
proof -
  have "w = 0 \<longleftrightarrow> n = 0" using assms(1) by (simp add: word_uint_eq_iff)
  moreover have "nat (32 - int n) = 32 - n" by simp
  ultimately show ?thesis using assms by (auto simp: zone_range_def entry_range_def Let_def)
qed

lemma zone_range_entry:
  assumes "n = 0 \<or> 2 \<le> n \<and> n \<le> 32"
  shows "zone_range inet_addr ip (word_of_int (int n)) = Some (entry_range inet_addr (ip, n, name))"
proof (rule zone_range_word [OF _ assms])
  show "uint (word_of_int (int n) :: 8 word) = int n"
    unfolding uint_word_of_int using assms by (intro mod_pos_pos_trivial) auto
qed

lemma show_nat_not: "\<not> is_digit c \<Longrightarrow> c \<notin> set (show_nat n)"
  using show_nat_digits [of n] by auto

lemma not_digits: "\<not> is_digit NUL" "\<not> is_digit CR" "\<not> is_digit LF" "\<not> is_digit CHR '';''" "\<not> is_digit CHR ''/''"
  by (simp_all add: is_digit_def)

lemma memcpy_prefix:
  assumes "length s \<le> n" and "p = int (length a)" and "k = int (length s)"
  shows "memcpy (replicate n NUL) 0 (a @ s @ b) p k = Some (s @ replicate (n - length s) NUL)"
  using assms by (simp add: memcpy_def rd_block_def)

lemma strncpy_name:
  assumes "NUL \<notin> set s" and "length s < n" and "p = int (length a)" and "k = int n - 1"
  shows "strncpy (replicate n NUL) 0 (a @ s @ NUL # b) p k = Some (s @ replicate (n - length s) NUL)"
proof -
  have c: "cstr (a @ s @ NUL # b) (length a) = s" using cstr_at [OF assms(1)] by simp
  have "n - length s = Suc (n - Suc (length s))" using assms(2) by simp
  then have "take (nat k) (s @ replicate (nat k) NUL) @ drop (nat k) (replicate n NUL) = s @ replicate (n - length s) NUL"
    using assms(2,4) by (simp add: nat_diff_distrib' replicate_append_same)
  then show ?thesis using assms(2-4) by (auto simp: strncpy_def c Let_def)
qed

definition added :: "ip_zones \<Rightarrow> ip_zone rb_tree \<Rightarrow> ip_zones" where
  "added zs t = zs\<lparr>zone_heap := zone_heap zs + 1, ip_zone_tree := t, zone_count := zone_count zs + 1,
     zone_blocks := zone_blocks zs @ [zone_heap zs]\<rparr>"

lemma add_at:
  assumes e: "entry_ok e" and m: "m = a @ entry_text e @ NUL # b" and line: "line = int (length a)"
    and ok: "malloc_ok (zone_heap zs)"
    and ins: "rbtree_insert (ip_zone_tree zs) (entry_zone inet_addr (zone_heap zs) e) = Some (r, t)"
  shows "\<exists>c. ip_zones_add malloc_ok inet_addr zs m line = Some (1, added zs t, a @ c @ NUL # b)
    \<and> length c = length (entry_text e)"
proof -
  obtain ip n name where en: "e = (ip, n, name)" by (cases e)
  let ?d = "show_nat n" and ?net = "entry_net e"
  have net: "?net = ip @ CHR ''/'' # ?d" using en by simp
  have c: "set ip \<inter> {NUL, CR, LF, CHR '';'', CHR ''/''} = {}" "n = 0 \<or> 2 \<le> n \<and> n \<le> 32" "length ?net < 24"
    "set name \<inter> {NUL, CR, LF, CHR '' ''} = {}" "length name < 64" using e en by (simp_all add: entry_ok_def)
  note d = show_nat_not [OF not_digits(1), of n] show_nat_not [OF not_digits(4), of n]
  have "NUL \<notin> set ?net" "CHR '';'' \<notin> set ?net" using c(1) d unfolding net by auto
  then have m1: "find_sep m line = Some (At (line + int (length ?net) + 2), a @ ?net @ NUL # CHR ''|'' # name @ NUL # b)"
    using find_sep_at [of ?net line a "name @ NUL # b"] m line en by simp
  let ?z = "line + int (length ?net) + 2"
  have z: "?z = int (length (a @ ?net @ [NUL, CHR ''|'']))" using line by simp
  have m2: "cut_name (a @ ?net @ NUL # CHR ''|'' # name @ NUL # b) ?z = Some (a @ ?net @ NUL # CHR ''|'' # name @ NUL # b)"
    using cut_name_at [OF _ _ _ z, of name b] c(4) by simp
  have sub: "memcpy (replicate (nat MAX_SUBNET_SIZE) NUL) 0 (a @ ?net @ NUL # CHR ''|'' # name @ NUL # b) line (?z - line - 2)
      = Some (?net @ replicate (24 - length ?net) NUL)"
    using memcpy_prefix [of ?net 24 line a "?z - line - 2" "NUL # CHR ''|'' # name @ NUL # b"] c(3) line
    by (simp add: MAX_SUBNET_SIZE_def)
  let ?m3 = "a @ ip @ NUL # ?d @ NUL # CHR ''|'' # name @ NUL # b"
  have m3: "find_slash (a @ ?net @ NUL # CHR ''|'' # name @ NUL # b) line = Some (At (line + int (length ip) + 1), ?m3)"
    using find_slash_at [of ip line a "?d @ NUL # CHR ''|'' # name @ NUL # b"] c(1) line unfolding net by auto
  let ?s = "line + int (length ip) + 1"
  have "cstr ?m3 (nat ?s) = ?d"
    using cstr_at [OF d(1), of "a @ ip @ [NUL]" "nat ?s" "CHR ''|'' # name @ NUL # b"] line by simp
  then have k: "atoi (cstr ?m3 (nat ?s)) = Some (int n)" using atoi_show_nat [of n] c(2) by (auto simp: INT_MAX_def)
  have "cstr ?m3 (nat line) = ip" using cstr_at [of ip a "nat line"] c(1) line by auto
  then have rng: "zone_range inet_addr (cstr ?m3 (nat line)) (word_of_int (int n)) = Some (entry_range inet_addr e)"
    using zone_range_entry [OF c(2), of inet_addr ip name] en by simp
  have nm: "strncpy (replicate (nat MAX_ZONE_NAME_SIZE) NUL) 0 ?m3 ?z (MAX_ZONE_NAME_SIZE - 1) = Some (name @ replicate (64 - length name) NUL)"
    using strncpy_name [of name 64 ?z "a @ ip @ NUL # ?d @ [NUL, CHR ''|'']" 63 b] c(4,5) line net
    by (auto simp: MAX_ZONE_NAME_SIZE_def)
  obtain s1 s2 where r: "entry_range inet_addr e = (s1, s2)" by (cases "entry_range inet_addr e")
  have "entry_zone inet_addr (zone_heap zs) e = \<lparr>zone_node = zone_heap zs, zone_start = s1, zone_end = s2,
      zone_netmask = word_of_int (int n), zone_subnet = ?net @ replicate (24 - length ?net) NUL,
      zone_name = name @ replicate (64 - length name) NUL\<rparr>"
    using r unfolding en entry_zone_def by simp
  note ins' = ins [unfolded this]
  have "ip_zones_add malloc_ok inet_addr zs m line = Some (1, added zs t, ?m3)"
    unfolding ip_zones_add_def Let_def added_def
    by (simp only: ok not_True_eq_False if_False m1 m2 sub m3 k rng r nm bind.bind_lunit prod.case ptr.case)
       (simp add: ins' [simplified])
  then show ?thesis unfolding en by (intro exI [of _ "ip @ NUL # ?d @ NUL # CHR ''|'' # name"]) simp
qed

section \<open>Loading a file\<close>

text \<open>The lines of a file: leading blanks, then nothing or a comment, or an entry; the line end may be either kind.\<close>

datatype zone_line = Zskip nat string bool | Zitem nat zone_entry bool

fun zline_text :: "zone_line \<Rightarrow> string" where
  "zline_text (Zskip n s crlf) = replicate n CHR '' '' @ s"
| "zline_text (Zitem n e crlf) = replicate n CHR '' '' @ entry_text e"

fun zline_crlf :: "zone_line \<Rightarrow> bool" where
  "zline_crlf (Zskip n s crlf) = crlf"
| "zline_crlf (Zitem n e crlf) = crlf"

fun zline_ok :: "zone_line \<Rightarrow> bool" where
  "zline_ok (Zskip n s crlf) \<longleftrightarrow> set s \<inter> {CR, LF} = {} \<and> (s = [] \<or> hd s = CHR ''#'')"
| "zline_ok (Zitem n e crlf) \<longleftrightarrow> entry_ok e"

definition zones_file :: "zone_line list \<Rightarrow> string" where
  "zones_file ls = concat (map (\<lambda>l. zline_text l @ eol (zline_crlf l)) ls)"

fun zone_entries :: "zone_line list \<Rightarrow> zone_entry list" where
  "zone_entries [] = []"
| "zone_entries (Zskip n s crlf # ls) = zone_entries ls"
| "zone_entries (Zitem n e crlf # ls) = e # zone_entries ls"

text \<open>The zones of the entries, with the blocks they are put in.\<close>

fun zones_from :: "(string \<Rightarrow> 32 word) \<Rightarrow> nat \<Rightarrow> zone_entry list \<Rightarrow> ip_zone list" where
  "zones_from inet_addr h [] = []"
| "zones_from inet_addr h (e # es) = entry_zone inet_addr h e # zones_from inet_addr (h + 1) es"

definition apart :: "32 word \<times> 32 word \<Rightarrow> 32 word \<times> 32 word \<Rightarrow> bool" where
  "apart r s \<longleftrightarrow> snd r \<le> fst s \<or> snd s \<le> fst r"

definition entries_disjoint :: "(string \<Rightarrow> 32 word) \<Rightarrow> zone_entry list \<Rightarrow> bool" where
  "entries_disjoint inet_addr es \<longleftrightarrow> (\<forall>e\<in>set es. fst (entry_range inet_addr e) < snd (entry_range inet_addr e))
     \<and> sorted_wrt (\<lambda>e f. apart (entry_range inet_addr e) (entry_range inet_addr f)) es"

lemma entry_zone_range [simp]:
  "zone_start (entry_zone inet_addr h e) = fst (entry_range inet_addr e)"
  "zone_end (entry_zone inet_addr h e) = snd (entry_range inet_addr e)"
  "zone_node (entry_zone inet_addr h e) = h"
  by (cases e; simp add: entry_zone_def)+

lemma entry_text_chars: "entry_ok e \<Longrightarrow> CR \<notin> set (entry_text e) \<and> LF \<notin> set (entry_text e)"
  using show_nat_not [OF not_digits(2)] show_nat_not [OF not_digits(3)] by (cases e) (auto simp: entry_ok_def)

lemma entry_text_head: "entry_ok e \<Longrightarrow> \<exists>c cs. entry_text e = c # cs \<and> c \<noteq> CHR '' '' \<and> c \<noteq> CHR ''#'' \<and> c \<noteq> NUL"
  by (cases e; cases "fst e") (auto simp: entry_ok_def)

lemma zline_chars: "zline_ok l \<Longrightarrow> CR \<notin> set (zline_text l) \<and> LF \<notin> set (zline_text l)"
  using entry_text_chars by (cases l) auto

lemma eol_cut_NUL: "\<exists>d. eol_cut crlf = NUL # d" "length (eol_cut crlf) = length (eol crlf)"
  by (simp_all add: eol_cut_def eol_def)

lemma load_skip:
  assumes "zline_ok (Zskip n s crlf)" and m: "m = a @ zline_text (Zskip n s crlf) @ eol crlf @ b" and sz: "sz = int (length m)"
  shows "\<exists>c. length c = length (a @ zline_text (Zskip n s crlf) @ eol crlf) \<and>
    load_loop malloc_ok inet_addr sz m (int (length a)) zs = load_loop malloc_ok inet_addr sz (c @ b) (int (length c)) zs"
proof -
  let ?l = "zline_text (Zskip n s crlf)" and ?i = "int (length a)"
  obtain d where d: "eol_cut crlf = NUL # d" using eol_cut_NUL by blast
  let ?c = "a @ ?l @ eol_cut crlf"
  have e: "line_end m sz ?i 0 = Some (Inr (?c @ b, int (length ?c)))"
    using line_end_at [of ?l m a crlf b sz ?i 0] zline_chars [OF assms(1)] m sz eol_cut_NUL(2) [of crlf] by simp
  have i: "?i < sz" using m sz by (simp add: eol_def)
  have "load_loop malloc_ok inet_addr sz m ?i zs = load_loop malloc_ok inet_addr sz (?c @ b) (int (length ?c)) zs"
  proof (cases s)
    case Nil
    have "skip_blanks (?c @ b) ?i = Some (True, ?i + int n)"
      using skip_blanks_at [of NUL ?i a n "d @ b"] Nil d by simp
    then show ?thesis using e i by (subst load_loop.simps) simp
  next
    case (Cons x t)
    then have x: "x = CHR ''#''" using assms(1) by auto
    have "skip_blanks (?c @ b) ?i = Some (False, ?i + int n)"
      using skip_blanks_at [of x ?i a n "t @ eol_cut crlf @ b"] Cons x by simp
    moreover have "rd (?c @ b) (?i + int n) = Some CHR ''#''"
      using rd_mid [of "?i + int n" "a @ replicate n CHR '' ''" x "t @ eol_cut crlf @ b"] Cons x by simp
    ultimately show ?thesis using e i by (subst load_loop.simps) simp
  qed
  then show ?thesis using eol_cut_NUL(2) [of crlf] by (intro exI [of _ ?c]) simp
qed

lemma load_item:
  assumes "entry_ok e" and m: "m = a @ zline_text (Zitem n e crlf) @ eol crlf @ b" and sz: "sz = int (length m)"
    and ok: "malloc_ok (zone_heap zs)"
    and ins: "rbtree_insert (ip_zone_tree zs) (entry_zone inet_addr (zone_heap zs) e) = Some (r, t)"
  shows "\<exists>c. length c = length (a @ zline_text (Zitem n e crlf) @ eol crlf) \<and>
    load_loop malloc_ok inet_addr sz m (int (length a)) zs
      = load_loop malloc_ok inet_addr sz (c @ b) (int (length c)) (added zs t)"
proof -
  let ?l = "zline_text (Zitem n e crlf)" and ?i = "int (length a)" and ?w = "replicate n CHR '' ''"
  obtain d where d: "eol_cut crlf = NUL # d" using eol_cut_NUL by blast
  obtain x y where x: "entry_text e = x # y" "x \<noteq> CHR '' ''" "x \<noteq> CHR ''#''" "x \<noteq> NUL"
    using entry_text_head [OF assms(1)] by blast
  let ?c = "a @ ?l @ eol_cut crlf"
  have e: "line_end m sz ?i 0 = Some (Inr (?c @ b, int (length ?c)))"
    using line_end_at [of ?l m a crlf b sz ?i 0] zline_chars [of "Zitem n e crlf"] assms(1) m sz eol_cut_NUL(2) [of crlf] by simp
  have i: "?i < sz" using m sz by (simp add: eol_def)
  have s: "skip_blanks (?c @ b) ?i = Some (False, ?i + int n)"
    using skip_blanks_at [of x ?i a n "y @ eol_cut crlf @ b"] x by simp
  have h: "rd (?c @ b) (?i + int n) = Some x"
    using rd_mid [of "?i + int n" "a @ ?w" x "y @ eol_cut crlf @ b"] x by simp
  obtain u where u: "ip_zones_add malloc_ok inet_addr zs (?c @ b) (?i + int n) = Some (1, added zs t, (a @ ?w) @ u @ NUL # d @ b)"
      "length u = length (entry_text e)"
    using add_at [of e "?c @ b" "a @ ?w" "d @ b" "?i + int n" malloc_ok zs inet_addr r t] assms(1) ok ins d by auto
  let ?k = "a @ ?w @ u @ NUL # d"
  have k: "length ?k = length ?c" using u(2) d by simp
  have "load_loop malloc_ok inet_addr sz m ?i zs = load_loop malloc_ok inet_addr sz (?k @ b) (int (length ?c)) (added zs t)"
    using e i s h x(3) u(1) by (subst load_loop.simps) simp
  then show ?thesis using k eol_cut_NUL(2) [of crlf] by (intro exI [of _ ?k]) simp
qed

text \<open>The tables the loader builds: a red-black tree of ordered disjoint zones, every zone in a block of its own.\<close>

definition zones_inv :: "ip_zones \<Rightarrow> bool" where
  "zones_inv zs \<longleftrightarrow> rb_ok (ip_zone_tree zs) \<and> zones_ok (inorder (ip_zone_tree zs))
     \<and> mset (map zone_node (inorder (ip_zone_tree zs))) = mset (zone_blocks zs)
     \<and> zone_blocks zs = [0..<zone_heap zs]"

lemma added_inv:
  assumes "zones_inv zs" and "z = entry_zone inet_addr (zone_heap zs) e"
    and "fst (entry_range inet_addr e) < snd (entry_range inet_addr e)"
    and "\<forall>y\<in>set (inorder (ip_zone_tree zs)). apart (zone_start y, zone_end y) (entry_range inet_addr e)"
  shows "\<exists>t. rbtree_insert (ip_zone_tree zs) z = Some (1, t) \<and> zones_inv (added zs t)
    \<and> mset (inorder t) = add_mset z (mset (inorder (ip_zone_tree zs)))"
proof -
  have "\<forall>y\<in>set (inorder (ip_zone_tree zs)). zone_end z \<le> zone_start y \<or> zone_end y \<le> zone_start z"
    using assms(2,4) by (auto simp: apart_def)
  moreover have "zone_start z < zone_end z" using assms(2,3) by simp
  ultimately obtain t a b where "rbtree_insert (ip_zone_tree zs) z = Some (1, t)" "rb_ok t"
    "inorder (ip_zone_tree zs) = a @ b" "inorder t = a @ z # b" "zones_ok (inorder t)"
    using insert_ok [of "ip_zone_tree zs" z] assms(1) unfolding zones_inv_def by blast
  then show ?thesis using assms(1,2) by (auto simp: zones_inv_def added_def)
qed

lemma entries_disjoint_Cons: "entries_disjoint inet_addr (e # es) \<longleftrightarrow>
    fst (entry_range inet_addr e) < snd (entry_range inet_addr e)
    \<and> (\<forall>f\<in>set es. apart (entry_range inet_addr e) (entry_range inet_addr f)) \<and> entries_disjoint inet_addr es"
  by (auto simp: entries_disjoint_def)

lemma load_lines:
  assumes "list_all zline_ok ls" and "m = a @ zones_file ls" and "sz = int (length m)" and "i = int (length a)"
    and "\<forall>k. malloc_ok k" and "zones_inv zs" and "entries_disjoint inet_addr (zone_entries ls)"
    and "\<forall>y\<in>set (inorder (ip_zone_tree zs)). \<forall>e\<in>set (zone_entries ls). apart (zone_start y, zone_end y) (entry_range inet_addr e)"
  shows "\<exists>zs'. load_loop malloc_ok inet_addr sz m i zs = Some (Some zs', []) \<and> zones_inv zs'
    \<and> mset (inorder (ip_zone_tree zs')) = mset (inorder (ip_zone_tree zs)) + mset (zones_from inet_addr (zone_heap zs) (zone_entries ls))
    \<and> zone_count zs' = zone_count zs + of_nat (length (zone_entries ls))"
  using assms
proof (induction ls arbitrary: m a i zs)
  case Nil
  then show ?case by (simp add: zones_file_def load_loop.simps)
next
  case (Cons l ls)
  show ?case
  proof (cases l)
    case (Zskip n s crlf)
    have m: "m = a @ zline_text (Zskip n s crlf) @ eol crlf @ zones_file ls" using Cons.prems(2) Zskip by (simp add: zones_file_def)
    have k: "zline_ok (Zskip n s crlf)" using Cons.prems(1) Zskip by simp
    obtain c where c: "length c = length (a @ zline_text (Zskip n s crlf) @ eol crlf)"
      "load_loop malloc_ok inet_addr sz m i zs = load_loop malloc_ok inet_addr sz (c @ zones_file ls) (int (length c)) zs"
      using load_skip [OF k m Cons.prems(3), of malloc_ok inet_addr zs] unfolding Cons.prems(4) by blast
    have "sz = int (length (c @ zones_file ls))" using c(1) m Cons.prems(3) by simp
    moreover have "list_all zline_ok ls" using Cons.prems(1) by simp
    ultimately show ?thesis using Cons.IH [OF _ refl _ refl Cons.prems(5,6)] Cons.prems(7,8)
      unfolding c(2) Zskip zone_entries.simps by blast
  next
    case (Zitem n e crlf)
    have m: "m = a @ zline_text (Zitem n e crlf) @ eol crlf @ zones_file ls" using Cons.prems(2) Zitem by (simp add: zones_file_def)
    let ?z = "entry_zone inet_addr (zone_heap zs) e"
    have dj: "fst (entry_range inet_addr e) < snd (entry_range inet_addr e)" "entries_disjoint inet_addr (zone_entries ls)"
      "\<forall>f\<in>set (zone_entries ls). apart (entry_range inet_addr e) (entry_range inet_addr f)"
      using Cons.prems(7) Zitem by (simp_all add: entries_disjoint_Cons)
    have ap: "\<forall>y\<in>set (inorder (ip_zone_tree zs)). apart (zone_start y, zone_end y) (entry_range inet_addr e)"
      using Cons.prems(8) Zitem by simp
    obtain t where t: "rbtree_insert (ip_zone_tree zs) ?z = Some (1, t)" "zones_inv (added zs t)"
      "mset (inorder t) = add_mset ?z (mset (inorder (ip_zone_tree zs)))"
      using added_inv [OF Cons.prems(6) refl dj(1) ap] by blast
    have e: "entry_ok e" using Cons.prems(1) Zitem by simp
    have mo: "malloc_ok (zone_heap zs)" using Cons.prems(5) by blast
    obtain c where c: "length c = length (a @ zline_text (Zitem n e crlf) @ eol crlf)"
      "load_loop malloc_ok inet_addr sz m i zs = load_loop malloc_ok inet_addr sz (c @ zones_file ls) (int (length c)) (added zs t)"
      using load_item [OF e m Cons.prems(3), of malloc_ok, OF mo t(1)] unfolding Cons.prems(4) by blast
    have sz: "sz = int (length (c @ zones_file ls))" using c(1) m Cons.prems(3) by simp
    have "set (inorder t) = insert ?z (set (inorder (ip_zone_tree zs)))" using arg_cong [OF t(3), of set_mset] by simp
    then have "\<forall>y\<in>set (inorder (ip_zone_tree (added zs t))). \<forall>f\<in>set (zone_entries ls). apart (zone_start y, zone_end y) (entry_range inet_addr f)"
      using Cons.prems(8) dj(3) Zitem by (simp add: added_def)
    moreover have "list_all zline_ok ls" using Cons.prems(1) by simp
    ultimately obtain zs' where r: "load_loop malloc_ok inet_addr sz m i zs = Some (Some zs', [])" "zones_inv zs'"
      "mset (inorder (ip_zone_tree zs')) = mset (inorder (ip_zone_tree (added zs t)))
        + mset (zones_from inet_addr (zone_heap (added zs t)) (zone_entries ls))"
      "zone_count zs' = zone_count (added zs t) + of_nat (length (zone_entries ls))"
      using Cons.IH [OF _ refl sz refl Cons.prems(5) t(2) dj(2)] unfolding c(2) by blast
    then show ?thesis using t(3) unfolding Zitem by (intro exI [of _ zs']) (simp add: added_def)
  qed
qed

lemma find_in_zones:
  assumes "zones_ok (inorder t)"
  shows "rbtree_search inet_addr t s = Some z \<longleftrightarrow> z \<in> set (inorder t) \<and> zone_has (ntohl (inet_addr s)) z"
  using search_sound [of t "ntohl (inet_addr s)"] search_complete [OF assms] unfolding rbtree_search_def by blast

section \<open>Dumping\<close>

lemma dump_entry:
  assumes "entry_ok e"
  shows "dump_zone (entry_zone inet_addr h e) = Some (entry_text e @ [LF])"
proof -
  obtain ip n name where en: "e = (ip, n, name)" by (cases e)
  let ?net = "entry_net e"
  have c: "NUL \<notin> set ?net" "NUL \<notin> set name" "length ?net < 24" "length name < 64"
    using assms en show_nat_not [OF not_digits(1), of n] by (auto simp: entry_ok_def)
  let ?z = "entry_zone inet_addr h e"
  have z: "zone_subnet ?z = ?net @ replicate (24 - length ?net) NUL" "zone_name ?z = name @ replicate (64 - length name) NUL"
    unfolding en by (simp_all add: entry_zone_def)
  have s: "cstr (zone_subnet ?z) 0 = ?net" "cstr (zone_name ?z) 0 = name" "NUL \<in> set (zone_subnet ?z)" "NUL \<in> set (zone_name ?z)"
    unfolding z using c cstr_0_pad by simp_all
  have tx: "vfmt None (''%s;|%s'' @ [LF]) [AStr ?net, AStr name] = Some (entry_text e @ [LF])"
    unfolding en by (simp add: is_digit_def pad_def)
  have len: "length (entry_text e @ [LF]) < 126" using c(3,4) unfolding en by simp
  have "snprintf (replicate 128 NUL) 0 127 (''%s;|%s'' @ [LF]) [AStr ?net, AStr name]
    = Some (int (length (entry_text e @ [LF])), splice (replicate 128 NUL) 0 ((entry_text e @ [LF]) @ [NUL]))"
    using snprintf_whole [OF tx, of 0 127 "replicate 128 NUL"] len by simp
  moreover have "cstr (splice (replicate 128 NUL) 0 ((entry_text e @ [LF]) @ [NUL])) 0 = entry_text e @ [LF]"
  proof -
    have "NUL \<notin> set (entry_text e @ [LF])" using c(1,2) unfolding en by auto
    from cstr_at [OF this, of "[]" 0] show ?thesis by (simp add: splice_def)
  qed
  ultimately show ?thesis using s unfolding dump_zone_def by simp
qed

lemma dump_from:
  assumes "pos_split p xs y ys" and "\<forall>z\<in>set (y # ys). dump_zone z = Some (f z)"
  shows "dump_loop (Some p) out = Some (out @ concat (map f (y # ys)))"
  using assms
proof (induction ys arbitrary: p xs y out)
  case Nil
  have "pos_elem p = Some y" using Nil(1) by (cases p; cases "fst p") auto
  then show ?case using next_split [OF Nil(1)] Nil(2) by (simp add: dump_loop.simps)
next
  case (Cons z ys)
  have p: "pos_elem p = Some y" using Cons.prems(1) by (cases p; cases "fst p") auto
  obtain q where q: "rb_next p = Some q" "pos_split q (xs @ [y]) z ys" using next_split [OF Cons.prems(1)] by auto
  show ?case using p q(1) Cons.prems(2) Cons.IH [OF q(2), of "out @ f y"] by (simp add: dump_loop.simps)
qed

lemma dump_all:
  assumes "\<forall>z\<in>set (inorder t). dump_zone z = Some (f z)"
  shows "dump_loop (rb_first t) [] = Some (concat (map f (inorder t)))"
proof (cases "inorder t")
  case Nil
  then show ?thesis using first_split [of t] by (simp add: dump_loop.simps)
next
  case (Cons y ys)
  then obtain p where "rb_first t = Some p" "pos_split p [] y ys" using first_split [of t] by auto
  then show ?thesis using dump_from [of p "[]" y ys f "[]"] assms Cons by simp
qed

section \<open>A file without a final line feed\<close>

text \<open>Parsing only overwrites characters with NUL.\<close>

definition no_new_LF :: "string \<Rightarrow> string \<Rightarrow> bool" where
  "no_new_LF m m' \<longleftrightarrow> length m' = length m \<and> (\<forall>k<length m. m' ! k = LF \<longrightarrow> m ! k = LF)"

lemma no_new_LF_refl [simp]: "no_new_LF m m"
  by (simp add: no_new_LF_def)

lemma no_new_LF_trans: "no_new_LF m m' \<Longrightarrow> no_new_LF m' m'' \<Longrightarrow> no_new_LF m m''"
  by (simp add: no_new_LF_def)

lemma no_new_LF_wr: "wr m p NUL = Some m' \<Longrightarrow> no_new_LF m m'"
  by (auto simp: wr_def no_new_LF_def nth_list_update split: if_splits)

lemma find_sep_LF: "find_sep m p = Some (q, m') \<Longrightarrow> no_new_LF m m'"
proof (induction m p rule: find_sep.induct)
  case (1 m p)
  from 1(3) show ?case
    by (subst (asm) find_sep.simps) (auto split: option.splits if_splits intro: 1(1,2) no_new_LF_wr)
qed

lemma cut_name_LF: "cut_name m p = Some m' \<Longrightarrow> no_new_LF m m'"
proof (induction m p rule: cut_name.induct)
  case (1 m p)
  from 1(2) show ?case
    by (subst (asm) cut_name.simps) (auto split: option.splits if_splits intro: 1(1) no_new_LF_wr)
qed

lemma find_slash_LF: "find_slash m p = Some (q, m') \<Longrightarrow> no_new_LF m m'"
proof (induction m p rule: find_slash.induct)
  case (1 m p)
  from 1(2) show ?case
    by (subst (asm) find_slash.simps) (auto split: option.splits if_splits intro: 1(1) no_new_LF_wr)
qed

lemma add_LF:
  assumes "ip_zones_add malloc_ok inet_addr zs m line = Some (r, zs', m')"
  shows "no_new_LF m m'"
proof (cases "malloc_ok (zone_heap zs)")
  case True
  then obtain q m1 where m1: "find_sep m line = Some (q, m1)"
    using assms by (auto simp: ip_zones_add_def Let_def bind_eq_Some_conv)
  show ?thesis
  proof (cases q)
    case NULL
    then show ?thesis using assms True m1 find_sep_LF [OF m1] by (auto simp: ip_zones_add_def Let_def)
  next
    case (At zone)
    then obtain m2 u s m3 where m2: "cut_name m1 zone = Some m2" "find_slash m2 line = Some (s, m3)"
      using assms True m1 by (auto simp: ip_zones_add_def Let_def bind_eq_Some_conv)
    have "m' = m3" using assms True m1 At m2
      by (cases s) (auto simp: ip_zones_add_def Let_def bind_eq_Some_conv split: ptr.split_asm)
    then show ?thesis using find_sep_LF [OF m1] cut_name_LF [OF m2(1)] find_slash_LF [OF m2(2)] no_new_LF_trans by blast
  qed
qed (use assms in \<open>auto simp: ip_zones_add_def Let_def\<close>)

lemma line_end_LF:
  assumes "line_end m sz i cnt = Some (Inr (m', i'))" and "sz = int (length m)" and "0 \<le> i" and "0 \<le> cnt"
    and "i < sz" and "m ! (length m - 1) \<noteq> LF"
  shows "no_new_LF m m' \<and> 0 \<le> i' \<and> i' < sz"
  using assms
proof (induction m sz i cnt rule: line_end.induct)
  case (1 m sz i cnt)
  show ?case
  proof (cases "i + cnt < sz")
    case True
    then obtain c where c: "rd m (i + cnt) = Some c" "c = m ! nat (i + cnt)"
      using 1(3,4,5) by (simp add: rd_def)
    consider (cr) "c = CR" | (lf) "c = LF" | (go) "c \<noteq> CR" "c \<noteq> LF" by blast
    then show ?thesis
    proof cases
      case cr
      then have n: "i + cnt < sz - 1" "rd m (i + cnt + 1) = Some LF" "wr m (i + cnt) NUL = Some m'" "i' = i + cnt + 2"
        using 1(2) True c(1) by (auto simp: line_end.simps [of m sz i cnt] split: if_splits option.splits)
      have "i' \<noteq> sz"
      proof
        assume "i' = sz"
        then have "nat (i + cnt + 1) = length m - 1" using n(4) 1(3) by simp
        then show False using n(2) 1(7) by (simp add: rd_def split: if_splits)
      qed
      then show ?thesis using n no_new_LF_wr [OF n(3)] 1(4,5) by auto
    next
      case lf
      then have n: "wr m (i + cnt) NUL = Some m'" "i' = i + cnt + 1"
        using 1(2) True c(1) by (auto simp: line_end.simps [of m sz i cnt] split: if_splits option.splits)
      have "i' \<noteq> sz"
      proof
        assume "i' = sz"
        then have "nat (i + cnt) = length m - 1" using n(2) 1(3) by simp
        then show False using c(2) lf 1(7) by simp
      qed
      then show ?thesis using n no_new_LF_wr [OF n(1)] 1(4,5) True by auto
    next
      case go
      then have "line_end m sz i (cnt + 1) = Some (Inr (m', i'))"
        using 1(2) True c(1) by (simp add: line_end.simps [of m sz i cnt])
      then show ?thesis using 1(1) [OF True c(1) go(1) go(2)] 1(3-7) by simp
    qed
  next
    case False
    then have "m' = m" "i' = i" using 1(2) by (simp_all add: line_end.simps [of m sz i cnt])
    then show ?thesis using 1(4,6) by simp
  qed
qed

lemma load_failed_NULL: "load_failed zs = Some r \<Longrightarrow> fst r = None"
  by (auto simp: load_failed_def)

lemma load_no_LF:
  assumes "load_loop malloc_ok inet_addr sz m i zs = Some r"
    and "sz = int (length m)" and "0 \<le> i" and "i < sz" and "m ! (length m - 1) \<noteq> LF"
  shows "fst r = None"
proof -
  have last: "m' ! (length m' - 1) \<noteq> LF \<and> length m' = length m"
    if "no_new_LF m m'" "m ! (length m - 1) \<noteq> LF" "(0::int) \<le> i" "i < int (length m)" for m m' i
    using that by (auto simp: no_new_LF_def)
  have "sz = int (length m) \<longrightarrow> 0 \<le> i \<longrightarrow> i < sz \<longrightarrow> m ! (length m - 1) \<noteq> LF \<longrightarrow> fst r = None"
  proof (rule load_loop.raw_induct [OF _ assms(1), where P = "\<lambda>malloc_ok inet_addr sz m i zs r.
      sz = int (length m) \<longrightarrow> 0 \<le> i \<longrightarrow> i < sz \<longrightarrow> m ! (length m - 1) \<noteq> LF \<longrightarrow> fst r = None"], intro impI, goal_cases)
    case (1 rec malloc_ok inet_addr sz m i zs r)
    note ih = 1(1) and prems = 1(3,4,5,6)
    from 1(2) prems(3) obtain e where e: "line_end m sz i 0 = Some e"
      and rest: "(case e of Inl _ \<Rightarrow> load_failed zs | Inr (m1, i') \<Rightarrow> do {
            (blank, str) \<leftarrow> skip_blanks m1 i;
            if blank then rec malloc_ok inet_addr sz m1 i' zs
            else do {
              c \<leftarrow> rd m1 str;
              if c = CHR ''#'' then rec malloc_ok inet_addr sz m1 i' zs
              else do {
                (ok, zs', m2) \<leftarrow> ip_zones_add malloc_ok inet_addr zs m1 str;
                if ok = 0 then load_failed zs' else rec malloc_ok inet_addr sz m2 i' zs'
              }
            }
          }) = Some r" by (auto simp: bind_eq_Some_conv)
    show ?case
    proof (cases e)
      case (Inl x)
      then show ?thesis using rest load_failed_NULL by simp
    next
      case (Inr p)
      obtain m1 i' where p: "p = (m1, i')" by (cases p)
      have l: "no_new_LF m m1" "0 \<le> i'" "i' < sz"
        using line_end_LF [OF e [unfolded Inr p] prems(1,2) _ prems(3,4)] by simp_all
      have next_turn: "fst r = None" if "rec malloc_ok inet_addr sz m2 i' zs2 = Some r" "no_new_LF m m2" for m2 zs2
      proof -
        have "m2 ! (length m2 - 1) \<noteq> LF" "length m2 = length m"
          using last [OF that(2) prems(4,2)] prems(1,3) by blast+
        then show ?thesis using ih [OF that(1)] prems(1) l(2,3) by metis
      qed
      from rest obtain blank str where b: "skip_blanks m1 i = Some (blank, str)" unfolding Inr p
        by (auto simp: bind_eq_Some_conv)
      show ?thesis
      proof (cases blank)
        case True
        then show ?thesis using rest b next_turn [OF _ l(1)] unfolding Inr p by simp
      next
        case False
        then obtain c where c: "rd m1 str = Some c" using rest b unfolding Inr p by (auto simp: bind_eq_Some_conv)
        show ?thesis
        proof (cases "c = CHR ''#''")
          case True
          then show ?thesis using rest b c False next_turn [OF _ l(1)] unfolding Inr p by simp
        next
          case nc: False
          then obtain res zs' m2 where a: "ip_zones_add malloc_ok inet_addr zs m1 str = Some (res, zs', m2)"
            using rest b c False unfolding Inr p by (auto simp: bind_eq_Some_conv)
          then have "no_new_LF m m2" using add_LF l(1) no_new_LF_trans by blast
          then show ?thesis using rest b c False nc a next_turn load_failed_NULL unfolding Inr p
            by (auto split: if_split_asm)
        qed
      qed
    qed
  qed
  then show ?thesis using assms(2-5) by simp
qed

section \<open>Properties\<close>

text \<open>The entry a lookup should answer with: the first whose range holds the address.\<close>

definition entry_has :: "(string \<Rightarrow> 32 word) \<Rightarrow> string \<Rightarrow> zone_entry \<Rightarrow> bool" where
  "entry_has inet_addr s e \<longleftrightarrow> fst (entry_range inet_addr e) \<le> ntohl (inet_addr s) \<and> ntohl (inet_addr s) < snd (entry_range inet_addr e)"

lemma zones_from_elem: "e \<in> set es \<Longrightarrow> \<exists>k. entry_zone inet_addr k e \<in> set (zones_from inet_addr h es)"
  by (induction es arbitrary: h) auto

lemma zones_from_entry: "z \<in> set (zones_from inet_addr h es) \<Longrightarrow> \<exists>k. \<exists>e\<in>set es. z = entry_zone inet_addr k e"
  by (induction es arbitrary: h) (simp, fastforce)

lemma zone_name_entry: "entry_ok (ip, n, name) \<Longrightarrow> cstr (zone_name (entry_zone inet_addr k (ip, n, name))) 0 = name"
  by (auto simp: entry_zone_def entry_ok_def cstr_0_pad)

lemma find_loaded:
  assumes "zones_ok (inorder (ip_zone_tree zs))" and "mset (inorder (ip_zone_tree zs)) = mset (zones_from inet_addr h es)"
    and "\<forall>e\<in>set es. entry_ok e"
  shows "ip_zones_find inet_addr zs s = map_option (\<lambda>(ip, n, name). name) (find (entry_has inet_addr s) es)"
proof (cases "find (entry_has inet_addr s) es")
  case None
  have "\<not> zone_has (ntohl (inet_addr s)) z" if z: "z \<in> set (inorder (ip_zone_tree zs))" for z
  proof -
    obtain k e where "e \<in> set es" "z = entry_zone inet_addr k e"
      using z zones_from_entry [of z inet_addr h es] mset_eq_setD [OF assms(2)] by auto
    moreover have "\<not> entry_has inet_addr s e" using None calculation(1) by (cases e) (simp add: find_None_iff)
    ultimately show ?thesis by (simp add: entry_has_def zone_has_def)
  qed
  then have "rbtree_search inet_addr (ip_zone_tree zs) s = None"
    using find_in_zones [OF assms(1), of inet_addr s] by (cases "rbtree_search inet_addr (ip_zone_tree zs) s") auto
  then show ?thesis using None by (simp add: ip_zones_find_def)
next
  case (Some e)
  obtain ip n name where e: "e = (ip, n, name)" by (cases e)
  have es: "e \<in> set es" "entry_has inet_addr s e" using Some by (auto simp: find_Some_iff)
  obtain k where k: "entry_zone inet_addr k e \<in> set (inorder (ip_zone_tree zs))"
    using zones_from_elem [OF es(1), of inet_addr h] mset_eq_setD [OF assms(2)] by auto
  then have "rbtree_search inet_addr (ip_zone_tree zs) s = Some (entry_zone inet_addr k e)"
    using find_in_zones [OF assms(1)] es(2) by (simp add: entry_has_def zone_has_def)
  then show ?thesis using Some assms(3) es(1) zone_name_entry unfolding e by (auto simp: ip_zones_find_def)
qed

lemma load_file:
  assumes "list_all zline_ok ls" and "ls \<noteq> []" and "entries_disjoint inet_addr (zone_entries ls)" and "\<forall>k. malloc_ok k"
    and "fopen f = Some (zones_file ls)" and "sizes f = Some (int (length (zones_file ls)))"
  shows "\<exists>zs. ip_zones_load sizes fopen True True malloc_ok inet_addr f = Some (Some zs, []) \<and> zones_inv zs
    \<and> mset (inorder (ip_zone_tree zs)) = mset (zones_from inet_addr 0 (zone_entries ls))
    \<and> zone_count zs = of_nat (length (zone_entries ls))"
proof -
  have "zones_file ls \<noteq> []" using assms(2) by (cases ls) (auto simp: zones_file_def eol_def)
  moreover have "zones_inv empty_zones" by (simp add: zones_inv_def empty_zones_def rb_ok_def zones_ok_def)
  moreover have "zone_heap empty_zones = 0" "ip_zone_tree empty_zones = RB_NULL" "zone_count empty_zones = 0" by (simp_all add: empty_zones_def)
  ultimately show ?thesis
    using load_lines [OF assms(1), of "zones_file ls" "[]" "int (length (zones_file ls))" 0 malloc_ok empty_zones inet_addr] assms(3-6)
    by (simp add: ip_zones_load_def read_ip_zones_from_file_def file_get_length_def Let_def)
qed

lemma zone_entries_ok: "list_all zline_ok ls \<Longrightarrow> \<forall>e\<in>set (zone_entries ls). entry_ok e"
  by (induction ls rule: zone_entries.induct) auto


definition sample_lines :: "zone_line list" where
  "sample_lines = [Zskip 0 ''# zones'' False, Zitem 1 (''b'', 24, ''east'') False, Zskip 2 [] True, Zitem 0 (''a'', 24, ''west'') True]"

definition sample_inet :: "string \<Rightarrow> 32 word" where
  "sample_inet s = (if s = ''a'' then 0x0000000A else if s = ''b'' then 0x0001000A else if s = ''c'' then 0x0501000A else 0x0002000A)"

lemma sample_lines_ok: "list_all zline_ok sample_lines" "entries_disjoint sample_inet (zone_entries sample_lines)"
  by code_simp+


lemma mset_map_arrange: "mset ys = mset (map f xs) \<Longrightarrow> \<exists>xs'. mset xs' = mset xs \<and> ys = map f xs'"
proof (induction ys arbitrary: xs)
  case (Cons y ys)
  then have "y \<in> set (map f xs)" by (metis list.set_intros(1) mset_eq_setD)
  then obtain x where x: "x \<in> set xs" "y = f x" by auto
  have "mset ys = mset (map f (remove1 x xs))" using Cons.prems x
    by (simp add: image_mset_Diff) (metis add_mset_remove_trivial)
  from Cons.IH [OF this] obtain xs' where "mset xs' = mset (remove1 x xs)" "ys = map f xs'" by blast
  then show ?case using x by (intro exI [of _ "x # xs'"]) simp
qed simp

lemma zones_from_zip: "zones_from inet_addr h es = map (\<lambda>(k, e). entry_zone inet_addr k e) (zip [h..<h + length es] es)"
  by (induction es arbitrary: h) (simp_all add: upt_conv_Cons del: upt_Suc)

lemma arrange_entries:
  assumes "mset zs = mset (zones_from inet_addr h es)"
  shows "\<exists>ps. mset (map snd ps) = mset es \<and> zs = map (\<lambda>(k, e). entry_zone inet_addr k e) ps"
proof -
  obtain ps where ps: "mset ps = mset (zip [h..<h + length es] es)" "zs = map (\<lambda>(k, e). entry_zone inet_addr k e) ps"
    using mset_map_arrange assms unfolding zones_from_zip by blast
  have "mset (map snd ps) = image_mset snd (mset (zip [h..<h + length es] es))" using ps(1) by simp
  also have "\<dots> = mset es" by (simp flip: mset_map)
  finally show ?thesis using ps(2) by blast
qed



text \<open>C29. Destroying a loaded table removes and frees every zone exactly once, in the order of the addresses, and leaves nothing.\<close>

theorem ip_zones_destroy_all:
  assumes "zones_inv zs"
  shows "destroy_loop (pos_node (rb_first (ip_zone_tree zs))) (ip_zone_tree zs) [] = Some (RB_NULL, map zone_node (inorder (ip_zone_tree zs)))
    \<and> distinct (map zone_node (inorder (ip_zone_tree zs))) \<and> ip_zones_destroy (Some (Some zs)) = Some []"
proof -
  have i: "rb_ok (ip_zone_tree zs)" "mset (map zone_node (inorder (ip_zone_tree zs))) = mset (zone_blocks zs)" "zone_blocks zs = [0..<zone_heap zs]"
    using assms by (simp_all add: zones_inv_def)
  have d: "distinct (map zone_node (inorder (ip_zone_tree zs)))" using mset_eq_imp_distinct_iff [OF i(2)] i(3) by simp
  have "set (zone_blocks zs) = zone_node ` set (inorder (ip_zone_tree zs))" using mset_eq_setD [OF i(2)] by simp
  then show ?thesis using destroy_loop_all [OF i(1) d refl, of "[]"] destroy_ok [OF i(1) d] d
    by (auto simp: first_node filter_empty_conv)
qed

definition two_zones :: ip_zones where
  "two_zones = \<lparr>ip_zone_tree = RB_node RB_BLACK RB_NULL (entry_zone sample_inet 1 (''a'', 24, ''west''))
      (RB_node RB_RED RB_NULL (entry_zone sample_inet 0 (''b'', 24, ''east'')) RB_NULL),
    zone_count = 2, zone_blocks = [0, 1], zone_heap = 2\<rparr>"

lemma ip_zones_destroy_all_witness:
  "zones_inv two_zones \<and> ip_zones_destroy (Some (Some two_zones)) = Some []"
proof -
  have "rb_ok (ip_zone_tree two_zones)" "zones_ok (inorder (ip_zone_tree two_zones))" by code_simp+
  moreover have "mset (map zone_node (inorder (ip_zone_tree two_zones))) = mset (zone_blocks two_zones)"
    "zone_blocks two_zones = [0..<zone_heap two_zones]" by (simp_all add: two_zones_def upt_rec)
  ultimately have "zones_inv two_zones" unfolding zones_inv_def by blast
  then show ?thesis using ip_zones_destroy_all [of two_zones] by simp
qed

lemma descend_inside:
  assumes "zones_ok (inorder t)" and "y \<in> set (inorder t)" and "zone_start y \<le> zone_start d"
    and "zone_start d < zone_end d" and "zone_end d < zone_end y"
  shows "rbtree_descend d t fs = None"
  using assms
proof (induction d t fs rule: rbtree_descend.induct)
  case (2 d c l z r fs)
  then have ok: "zones_ok (inorder l)" "zones_ok (inorder r)" "zone_start z < zone_end z"
    "\<forall>x\<in>set (inorder l). zone_end x \<le> zone_start z" "\<forall>x\<in>set (inorder r). zone_end z \<le> zone_start x"
    by (simp_all add: zones_ok_append)
  note d = 2(5-7)
  consider "y \<in> set (inorder l)" | "y = z" | "y \<in> set (inorder r)" using 2(4) by auto
  then show ?case
  proof cases
    case 1
    then have "zone_start d < zone_start z" using ok(4) d by force
    then show ?thesis using 2(1) [OF _ ok(1) 1 d] by simp
  next
    case 2
    then show ?thesis using d by (auto simp: not_less [symmetric])
  next
    case 3
    then have "zone_end z \<le> zone_start d" using ok(5) d by force
    then have "\<not> zone_start d < zone_start z" "zone_end z \<le> zone_end d" using ok(3) d by auto
    then show ?thesis using 2(2) [OF _ _ ok(2) 3 d] by simp
  qed
qed simp

text \<open>A network that ends strictly inside a zone already in the table is dropped without notice: adding its line
  reports success and counts it, the tree stays as it is, and the zone's block is never freed.\<close>

theorem ip_zones_add_nested_leaks:
  assumes "zones_inv zs" and "entry_ok e" and "malloc_ok (zone_heap zs)" and "y \<in> set (inorder (ip_zone_tree zs))"
    and "zone_start y \<le> fst (entry_range inet_addr e)" and "fst (entry_range inet_addr e) < snd (entry_range inet_addr e)"
    and "snd (entry_range inet_addr e) < zone_end y"
  shows "\<exists>zs' m. ip_zones_add malloc_ok inet_addr zs (entry_text e @ [NUL]) 0 = Some (1, zs', m)
    \<and> ip_zone_tree zs' = ip_zone_tree zs \<and> zone_count zs' = zone_count zs + 1
    \<and> ip_zones_destroy (Some (Some zs')) = Some [zone_heap zs]"
proof -
  let ?z = "entry_zone inet_addr (zone_heap zs) e" and ?t = "ip_zone_tree zs"
  have i: "rb_ok ?t" "zones_ok (inorder ?t)" "mset (map zone_node (inorder ?t)) = mset (zone_blocks zs)" "zone_blocks zs = [0..<zone_heap zs]"
    using assms(1) by (simp_all add: zones_inv_def)
  have "rbtree_descend ?z ?t [] = None" using descend_inside [OF i(2) assms(4), of ?z "[]"] assms(5-7) by simp
  then have ins: "rbtree_insert ?t ?z = Some (0, ?t)" by (simp add: rbtree_insert_def)
  obtain c where c: "ip_zones_add malloc_ok inet_addr zs (entry_text e @ [NUL]) 0 = Some (1, added zs ?t, c @ [NUL])"
    using add_at [OF assms(2), of "entry_text e @ [NUL]" "[]" "[]" 0 malloc_ok zs inet_addr 0 ?t] assms(3) ins by auto
  have d: "distinct (map zone_node (inorder ?t))" using mset_eq_imp_distinct_iff [OF i(3)] i(4) by simp
  have s: "zone_node ` set (inorder ?t) = {0..<zone_heap zs}" using mset_eq_setD [OF i(3)] i(4) by simp
  have "ip_zones_destroy (Some (Some (added zs ?t))) = Some [zone_heap zs]"
    using destroy_ok [of "added zs ?t"] i(1,4) d s by (auto simp: added_def filter_empty_conv)
  then show ?thesis using c by (auto simp: added_def)
qed

lemma ip_zones_add_nested_leaks_witness:
  "\<exists>zs' m. ip_zones_add (\<lambda>_. True) sample_inet two_zones (entry_text (''a'', 26, ''inner'') @ [NUL]) 0 = Some (1, zs', m)
    \<and> zone_count zs' = 3 \<and> ip_zones_destroy (Some (Some zs')) = Some [2]"
proof -
  have "rb_ok (ip_zone_tree two_zones)" "zones_ok (inorder (ip_zone_tree two_zones))" by code_simp+
  moreover have "mset (map zone_node (inorder (ip_zone_tree two_zones))) = mset (zone_blocks two_zones)"
    "zone_blocks two_zones = [0..<zone_heap two_zones]" by (simp_all add: two_zones_def upt_rec)
  ultimately have inv: "zones_inv two_zones" unfolding zones_inv_def by blast
  let ?e = "(''a'', 26, ''inner'') :: zone_entry" and ?y = "entry_zone sample_inet 1 (''a'', 24, ''west'')"
  have e: "entry_ok ?e" "?y \<in> set (inorder (ip_zone_tree two_zones))" "zone_start ?y \<le> fst (entry_range sample_inet ?e)"
    "fst (entry_range sample_inet ?e) < snd (entry_range sample_inet ?e)" "snd (entry_range sample_inet ?e) < zone_end ?y"
    by code_simp+
  have "zone_heap two_zones = 2" "zone_count two_zones + 1 = 3" by (simp_all add: two_zones_def)
  then show ?thesis using ip_zones_add_nested_leaks [OF inv e(1) _ e(2-5), of "\<lambda>_. True"] by auto
qed

text \<open>A file whose last character is not a line feed is never loaded: whatever the file holds, the loader does not
  return a table (it returns \<open>NULL\<close>, reads past its buffer, or does not return).\<close>

theorem ip_zones_load_no_final_newline:
  assumes "fopen f = Some content" and "content \<noteq> []" and "last content \<noteq> LF" and "sizes f = Some (int (length content))"
    and "ip_zones_load sizes fopen True True malloc_ok inet_addr f = Some r"
  shows "fst r = None"
proof -
  have "load_loop malloc_ok inet_addr (int (length content)) content 0 empty_zones = Some r"
    using assms by (simp add: ip_zones_load_def read_ip_zones_from_file_def file_get_length_def Let_def)
  from load_no_LF [OF this refl] show ?thesis using assms(2,3) by (simp add: last_conv_nth)
qed

lemma ip_zones_load_no_final_newline_witness:
  "fst (the (ip_zones_load (\<lambda>_. Some 3) (\<lambda>_. Some (''x'' @ [LF] @ ''y'')) True True (\<lambda>_. True) sample_inet ''f'')) = None"
proof -
  have "load_loop (\<lambda>_. True) sample_inet 3 (''x'' @ [LF] @ ''y'') 0 empty_zones = Some (None, [])"
    by (simp add: load_loop.simps line_end.simps skip_blanks.simps ip_zones_add_def find_sep.simps Let_def rd_def wr_def
        empty_zones_def load_failed_def ip_zones_destroy_def rb_first_def destroy_loop.simps)
  then have r: "ip_zones_load (\<lambda>_. Some 3) (\<lambda>_. Some (''x'' @ [LF] @ ''y'')) True True (\<lambda>_. True) sample_inet ''f'' = Some (None, [])"
    by (simp add: ip_zones_load_def read_ip_zones_from_file_def file_get_length_def Let_def)
  show ?thesis using ip_zones_load_no_final_newline [OF _ _ _ _ r] r by simp
qed

end
