(* ===== verification/Links.thy ===== *)
theory Links
  imports Prelude
begin

text \<open>
  Doubly linked lists of nodes in a heap, as the hash map's rows and the TCP server's stream lists keep
  them. The heap maps addresses to nodes; the type of the nodes is left open, the locale \<open>links\<close> states what the two links
  of a node must satisfy. \<open>dll\<close> says that the nodes at a list of addresses are linked in both
  directions in that order, and the locale's lemmas give the effect on such a list of writing the links the way
  the code does: adding a node at either end, unlinking a node, and writing to nodes elsewhere.
\<close>

type_synonym 'n heap = "nat \<Rightarrow> 'n option"

text \<open>A field write through a pointer; \<open>None\<close> when there is no node at the address.\<close>

definition hset :: "'n heap \<Rightarrow> nat \<Rightarrow> ('n \<Rightarrow> 'n) \<Rightarrow> 'n heap option" where
  "hset h a f = map_option (\<lambda>n. h(a \<mapsto> f n)) (h a)"

lemma hset_Some: "h a = Some n \<Longrightarrow> hset h a f = Some (h(a \<mapsto> f n))"
  by (simp add: hset_def)

text \<open>The address a list starts with, and the one it ends with.\<close>

definition first_of :: "nat list \<Rightarrow> nat option \<Rightarrow> nat option" where
  "first_of xs q = (case xs of [] \<Rightarrow> q | x # _ \<Rightarrow> Some x)"

definition last_of :: "nat option \<Rightarrow> nat list \<Rightarrow> nat option" where
  "last_of p xs = (if xs = [] then p else Some (last xs))"

lemma first_of_simps [simp]: "first_of [] q = q" "first_of (x # xs) q = Some x" "first_of (xs @ ys) q = first_of xs (first_of ys q)"
  by (simp_all add: first_of_def split: list.split)

lemma last_of_simps [simp]: "last_of p [] = p" "last_of p (x # xs) = last_of (Some x) xs" "last_of p (xs @ [x]) = Some x"
  by (simp_all add: last_of_def)

lemma last_of_append [simp]: "last_of p (xs @ ys) = last_of (last_of p xs) ys"
  by (simp add: last_of_def)

text \<open>Unlinking a node through a pointer to it: its neighbours are linked to each other, the node itself keeps its links.\<close>

definition unlink_nodes ::
  "('n \<Rightarrow> nat option) \<Rightarrow> ('n \<Rightarrow> nat option) \<Rightarrow> (nat option \<Rightarrow> 'n \<Rightarrow> 'n) \<Rightarrow> (nat option \<Rightarrow> 'n \<Rightarrow> 'n) \<Rightarrow> 'n heap \<Rightarrow> 'n \<Rightarrow> 'n heap option" where
  "unlink_nodes nx pv set_nx set_pv h n = do {
     h1 \<leftarrow> (case pv n of None \<Rightarrow> Some h | Some p \<Rightarrow> hset h p (set_nx (nx n)));
     (case nx n of None \<Rightarrow> Some h1 | Some q \<Rightarrow> hset h1 q (set_pv (pv n)))
   }"

text \<open>The nodes at \<open>xs\<close> are linked in this order, between \<open>p\<close> and \<open>q\<close>.\<close>

fun dll :: "('n \<Rightarrow> nat option) \<Rightarrow> ('n \<Rightarrow> nat option) \<Rightarrow> 'n heap \<Rightarrow> nat option \<Rightarrow> nat list \<Rightarrow> nat option \<Rightarrow> bool" where
  "dll nx pv h p [] q \<longleftrightarrow> True"
| "dll nx pv h p (a # xs) q \<longleftrightarrow> (\<exists>n. h a = Some n \<and> pv n = p \<and> nx n = first_of xs q) \<and> dll nx pv h (Some a) xs q"

lemma dll_append: "dll nx pv h p (xs @ ys) q \<longleftrightarrow> dll nx pv h p xs (first_of ys q) \<and> dll nx pv h (last_of p xs) ys q"
  by (induction xs arbitrary: p) auto

lemma dll_cong: "\<forall>a\<in>set xs. h' a = h a \<Longrightarrow> dll nx pv h' p xs q = dll nx pv h p xs q"
  by (induction xs arbitrary: p) auto

lemma dll_upd_other [simp]: "a \<notin> set xs \<Longrightarrow> dll nx pv (h(a := v)) p xs q = dll nx pv h p xs q"
  by (rule dll_cong) auto

lemma dll_node: "dll nx pv h p (xs @ a # ys) q \<Longrightarrow> \<exists>n. h a = Some n \<and> pv n = last_of p xs \<and> nx n = first_of ys q"
  by (simp add: dll_append)

lemma dll_heap: "dll nx pv h p xs q \<Longrightarrow> a \<in> set xs \<Longrightarrow> \<exists>n. h a = Some n"
  by (induction xs arbitrary: p) auto

lemma dll_links_cong:
  "\<forall>a\<in>set xs. map_option (\<lambda>n. (nx n, pv n)) (h' a) = map_option (\<lambda>n. (nx n, pv n)) (h a)
   \<Longrightarrow> dll nx pv h' p xs q = dll nx pv h p xs q"
proof (induction xs arbitrary: p)
  case (Cons a xs)
  then have "map_option (\<lambda>n. (nx n, pv n)) (h' a) = map_option (\<lambda>n. (nx n, pv n)) (h a)" by simp
  then have "(\<exists>n. h' a = Some n \<and> pv n = p \<and> nx n = first_of xs q) \<longleftrightarrow> (\<exists>n. h a = Some n \<and> pv n = p \<and> nx n = first_of xs q)"
    by (cases "h a"; cases "h' a") auto
  then show ?case using Cons by simp
qed simp

text \<open>
  A list with a head and a tail pointer: appending a node and removing one through a pointer to it, on the heap and the two
  pointers, the way the TCP server writes them for its two lists; and the list they hold.
\<close>

definition append_node ::
  "(nat option \<Rightarrow> 'n \<Rightarrow> 'n) \<Rightarrow> (nat option \<Rightarrow> 'n \<Rightarrow> 'n) \<Rightarrow> 'n heap \<Rightarrow> nat option \<Rightarrow> nat option \<Rightarrow> nat
   \<Rightarrow> ('n heap \<times> nat option \<times> nat option) option" where
  "append_node set_nx set_pv h hp tp a = (case (hp, tp) of
      (Some b, Some t) \<Rightarrow> do {
        h1 \<leftarrow> hset h t (set_nx (Some a));
        h2 \<leftarrow> hset h1 a (\<lambda>n. set_pv (Some t) (set_nx None n));
        Some (h2, Some b, Some a)
      }
    | _ \<Rightarrow> do { h1 \<leftarrow> hset h a (\<lambda>n. set_nx None (set_pv None n)); Some (h1, Some a, Some a) })"

definition remove_node ::
  "('n \<Rightarrow> nat option) \<Rightarrow> ('n \<Rightarrow> nat option) \<Rightarrow> (nat option \<Rightarrow> 'n \<Rightarrow> 'n) \<Rightarrow> (nat option \<Rightarrow> 'n \<Rightarrow> 'n)
   \<Rightarrow> 'n heap \<Rightarrow> nat option \<Rightarrow> nat option \<Rightarrow> nat \<Rightarrow> ('n heap \<times> nat option \<times> nat option) option" where
  "remove_node nx pv set_nx set_pv h hp tp a = do {
     n \<leftarrow> h a;
     h1 \<leftarrow> unlink_nodes nx pv set_nx set_pv h n;
     Some (h1, if pv n = None then nx n else hp, if nx n = None then pv n else tp)
   }"

definition dlist :: "('n \<Rightarrow> nat option) \<Rightarrow> ('n \<Rightarrow> nat option) \<Rightarrow> 'n heap \<Rightarrow> nat option \<Rightarrow> nat option \<Rightarrow> nat list \<Rightarrow> bool" where
  "dlist nx pv h hp tp xs \<longleftrightarrow> dll nx pv h None xs None \<and> distinct xs \<and> hp = first_of xs None \<and> tp = last_of None xs"

lemma dlist_Nil [simp]: "dlist nx pv h hp tp [] \<longleftrightarrow> hp = None \<and> tp = None"
  by (simp add: dlist_def)

lemma dlist_cong: "\<forall>a\<in>set xs. h' a = h a \<Longrightarrow> dlist nx pv h' hp tp xs = dlist nx pv h hp tp xs"
  unfolding dlist_def by (simp add: dll_cong [of xs h' h])

lemma dlist_heap: "dlist nx pv h hp tp xs \<Longrightarrow> a \<in> set xs \<Longrightarrow> \<exists>n. h a = Some n"
  by (auto simp: dlist_def dest: dll_heap)

lemma first_of_Some_in: "first_of xs None = Some a \<Longrightarrow> a \<in> set xs"
  by (cases xs) auto

lemma last_of_Some_in: "last_of None xs = Some a \<Longrightarrow> a \<in> set xs"
  by (auto simp: last_of_def split: if_splits)

locale links =
  fixes nx :: "'n \<Rightarrow> nat option" and pv :: "'n \<Rightarrow> nat option"
    and set_nx :: "nat option \<Rightarrow> 'n \<Rightarrow> 'n" and set_pv :: "nat option \<Rightarrow> 'n \<Rightarrow> 'n"
  assumes nx_set_nx [simp]: "nx (set_nx a n) = a"
    and nx_set_pv [simp]: "nx (set_pv a n) = nx n"
    and pv_set_pv [simp]: "pv (set_pv a n) = a"
    and pv_set_nx [simp]: "pv (set_nx a n) = pv n"
begin

text \<open>Writing the outer links of a list.\<close>

lemma dll_last_link:
  assumes "dll nx pv h p (xs @ [a]) q" and "distinct (xs @ [a])"
  shows "\<exists>n. h a = Some n \<and> dll nx pv (h(a \<mapsto> set_nx q' n)) p (xs @ [a]) q'"
  using assms by (auto simp: dll_append)

lemma dll_first_link:
  assumes "dll nx pv h p (a # xs) q" and "distinct (a # xs)"
  shows "\<exists>n. h a = Some n \<and> dll nx pv (h(a \<mapsto> set_pv p' n)) p' (a # xs) q"
  using assms by auto

text \<open>A new last node, and a new first node.\<close>

lemma dll_add_last:
  assumes "dll nx pv h None (xs @ [t]) None" and "distinct (xs @ [t, a])" and "h t = Some m" and "h a = Some n"
    and "nx n' = None" and "pv n' = Some t"
  shows "dll nx pv (h(t \<mapsto> set_nx (Some a) m, a \<mapsto> n')) None (xs @ [t, a]) None"
proof -
  have "dll nx pv (h(t \<mapsto> set_nx (Some a) m)) None (xs @ [t]) (Some a)"
    using dll_last_link [OF assms(1), of "Some a"] assms(2,3) by auto
  then show ?thesis using assms(2,5,6) dll_append [of nx pv _ None "xs @ [t]" "[a]" None] by simp
qed

lemma dll_add_first:
  assumes "dll nx pv h None (b # xs) None" and "distinct (a # b # xs)" and "h b = Some m" and "nx n' = Some b" and "pv n' = None"
  shows "dll nx pv (h(a \<mapsto> n', b \<mapsto> set_pv (Some a) m)) None (a # b # xs) None"
  using assms by auto

lemma unlink_ok:
  assumes "dll nx pv h None (xs @ a # ys) None" and "distinct (xs @ a # ys)" and "h a = Some n"
  shows "\<exists>h'. unlink_nodes nx pv set_nx set_pv h n = Some h' \<and> dll nx pv h' None (xs @ ys) None \<and> h' a = Some n
    \<and> pv n = last_of None xs \<and> nx n = first_of ys None \<and> (\<forall>c. c \<notin> set (xs @ ys) \<longrightarrow> h' c = h c)"
proof -
  have n: "pv n = last_of None xs" "nx n = first_of ys None" using dll_node [OF assms(1)] assms(3) by auto
  have parts: "dll nx pv h None xs (Some a)" "dll nx pv h (Some a) ys None" using assms(1) by (simp_all add: dll_append)
  obtain h1 where h1: "(case pv n of None \<Rightarrow> Some h | Some p \<Rightarrow> hset h p (set_nx (nx n))) = Some h1"
    "dll nx pv h1 None xs (first_of ys None)" "\<forall>c. c \<notin> set xs \<longrightarrow> h1 c = h c"
  proof (cases xs rule: rev_cases)
    case Nil
    then show ?thesis using that [of h] n by simp
  next
    case (snoc zs z)
    then obtain m where m: "h z = Some m" "dll nx pv (h(z \<mapsto> set_nx (first_of ys None) m)) None (zs @ [z]) (first_of ys None)"
      using dll_last_link [of h None zs z "Some a" "first_of ys None"] parts(1) assms(2) by auto
    show ?thesis using that [of "h(z \<mapsto> set_nx (first_of ys None) m)"] m n snoc by (simp add: hset_Some)
  qed
  have ys: "dll nx pv h1 (Some a) ys None" using parts(2) h1(3) assms(2) by (subst dll_cong [of _ h1 h nx pv]) auto
  show ?thesis
  proof (cases ys)
    case Nil
    then have "unlink_nodes nx pv set_nx set_pv h n = Some h1" using h1(1) n by (simp add: unlink_nodes_def)
    then show ?thesis using Nil h1 assms n by auto
  next
    case (Cons y zs)
    then obtain m where m: "h1 y = Some m" "dll nx pv (h1(y \<mapsto> set_pv (last_of None xs) m)) (last_of None xs) (y # zs) None"
      using dll_first_link [of h1 "Some a" y zs None "last_of None xs"] ys assms(2) by auto
    let ?h = "h1(y \<mapsto> set_pv (last_of None xs) m)"
    have u: "unlink_nodes nx pv set_nx set_pv h n = Some ?h" using h1(1) n Cons m(1) by (simp add: unlink_nodes_def hset_Some)
    have "y \<notin> set xs" "h1 y = h y" "y \<noteq> a" using assms(2) Cons h1(3) by auto
    moreover have "dll nx pv ?h None (xs @ ys) None" using m(2) h1(2) calculation(1) Cons by (simp add: dll_append del: fun_upd_apply)
    ultimately show ?thesis using u n h1(3) assms Cons by (intro exI [of _ ?h]) auto
  qed
qed

text \<open>Unlinking writes nothing but links.\<close>

lemma unlink_payload:
  assumes "unlink_nodes nx pv set_nx set_pv h n = Some h'" and "\<And>q m. f (set_nx q m) = f m" and "\<And>p m. f (set_pv p m) = f m"
  shows "map_option f (h' c) = map_option f (h c)"
  using assms by (auto simp: unlink_nodes_def hset_def bind_eq_Some_conv split: option.splits)

text \<open>The two operations on a list with a head and a tail pointer.\<close>

lemma append_node_ok:
  assumes "dlist nx pv h hp tp xs" and "a \<notin> set xs" and "h a = Some n"
  shows "\<exists>h'. append_node set_nx set_pv h hp tp a = Some (h', first_of (xs @ [a]) None, Some a)
    \<and> dlist nx pv h' (first_of (xs @ [a]) None) (Some a) (xs @ [a]) \<and> (\<forall>c. c \<notin> set (xs @ [a]) \<longrightarrow> h' c = h c)"
proof (cases xs rule: rev_cases)
  case Nil
  then show ?thesis using assms by (simp add: append_node_def hset_Some dlist_def)
next
  case (snoc zs t)
  obtain m where m: "h t = Some m" using dlist_heap [OF assms(1)] snoc by auto
  have d: "dll nx pv h None (zs @ [t]) None" "distinct (zs @ [t, a])" "hp = first_of (zs @ [t]) None" "tp = Some t"
    using assms(1,2) snoc by (auto simp: dlist_def)
  define n' where "n' = set_pv (Some t) (set_nx None n)"
  have "dll nx pv (h(t \<mapsto> set_nx (Some a) m, a \<mapsto> n')) None (zs @ [t, a]) None"
    using dll_add_last [OF d(1,2) m assms(3)] by (simp add: n'_def)
  moreover obtain b where b: "hp = Some b" "first_of (zs @ [t, a]) None = Some b" using d(3) by (cases zs) auto
  moreover have "t \<noteq> a" using d(2) by auto
  then have "append_node set_nx set_pv h hp tp a = Some (h(t \<mapsto> set_nx (Some a) m, a \<mapsto> n'), Some b, Some a)"
    using m assms(3) b d(4) by (simp add: append_node_def hset_def n'_def)
  ultimately show ?thesis using snoc d(2)
    by (intro exI [of _ "h(t \<mapsto> set_nx (Some a) m, a \<mapsto> n')"]) (auto simp: dlist_def)
qed

lemma remove_node_ok:
  assumes "dlist nx pv h hp tp (xs @ a # ys)" and "h a = Some n"
  shows "\<exists>h'. remove_node nx pv set_nx set_pv h hp tp a = Some (h', first_of (xs @ ys) None, last_of None (xs @ ys))
    \<and> dlist nx pv h' (first_of (xs @ ys) None) (last_of None (xs @ ys)) (xs @ ys)
    \<and> h' a = Some n \<and> (\<forall>c. c \<notin> set (xs @ ys) \<longrightarrow> h' c = h c)"
proof -
  have d: "dll nx pv h None (xs @ a # ys) None" "distinct (xs @ a # ys)" "hp = first_of (xs @ a # ys) None" "tp = last_of None (xs @ a # ys)"
    using assms(1) by (simp_all add: dlist_def)
  obtain h' where h': "unlink_nodes nx pv set_nx set_pv h n = Some h'" "dll nx pv h' None (xs @ ys) None" "h' a = Some n"
    "pv n = last_of None xs" "nx n = first_of ys None" "\<forall>c. c \<notin> set (xs @ ys) \<longrightarrow> h' c = h c"
    using unlink_ok [OF d(1,2) assms(2)] by blast
  have "(if pv n = None then nx n else hp) = first_of (xs @ ys) None"
    using h'(4,5) d(3) by (cases xs) (auto simp: last_of_def)
  moreover have "(if nx n = None then pv n else tp) = last_of None (xs @ ys)"
    using h'(4,5) d(4) by (cases ys) auto
  ultimately show ?thesis using h' assms(2) d(2) by (auto simp: remove_node_def dlist_def)
qed

text \<open>Neither writes anything but links.\<close>

lemma append_node_payload:
  assumes "append_node set_nx set_pv h hp tp a = Some (h', hp', tp')" and "\<And>q m. f (set_nx q m) = f m" and "\<And>p m. f (set_pv p m) = f m"
  shows "map_option f (h' c) = map_option f (h c)"
  using assms by (auto simp: append_node_def hset_def bind_eq_Some_conv split: option.splits)

lemma remove_node_payload:
  assumes "remove_node nx pv set_nx set_pv h hp tp a = Some (h', hp', tp')" and "\<And>q m. f (set_nx q m) = f m" and "\<And>p m. f (set_pv p m) = f m"
  shows "map_option f (h' c) = map_option f (h c)"
  using assms(1) unlink_payload [OF _ assms(2,3)] by (auto simp: remove_node_def bind_eq_Some_conv)

end

end
