(* ===== verification/Hashmap.thy ===== *)
theory Hashmap
  imports Links PrimeTable
begin

text \<open>
  The hash map of \<open>hashmap.c\<close> and its hash function (\<open>hash_fcn.c\<close>): an array of rows, each a doubly linked
  list of nodes in a heap (\<open>Links\<close>). A key is a block that starts with the key's bytes: \<open>keysize\<close> bytes, or a C string
  when \<open>keysize\<close> is 0. Nodes are allocated at the address \<open>brk\<close>; whether an allocation succeeds is an argument,
  as are the answers of \<open>rand\<close>. The data a node points to is a pointer; those handed to the user's
  free function are recorded.

  The lemmas show that every history of additions, lookups and removals behaves as a finite map from keys
  to data, that the iteration visits every node once and that deletion frees every node once; and what goes
  wrong in splay mode.
\<close>

section \<open>The hash function\<close>

type_synonym hash_params = "32 word \<times> 32 word \<times> 32 word"

text \<open>The function pointers are functions of the parameters and of the bytes handed over.\<close>

record hash_fcn =
  params :: hash_params
  hash_op :: "hash_params \<Rightarrow> string \<Rightarrow> 32 word"
  keycmp_op :: "string \<Rightarrow> string \<Rightarrow> int"

fun hash_fcn_loop :: "32 word \<Rightarrow> 32 word \<Rightarrow> string \<Rightarrow> 32 word" where
  "hash_fcn_loop scale hash [] = hash"
| "hash_fcn_loop scale hash (d # ds) = hash_fcn_loop scale (hash * scale + of_char d) ds"

fun hash_fcn_hash :: "hash_params \<Rightarrow> string \<Rightarrow> 32 word" where
  "hash_fcn_hash (seed, scale, hardener) d = hash_fcn_loop scale seed d XOR hardener"

text \<open>\<open>rand () % 0\<close> and the overflow of \<open>rand () * rand ()\<close> are undefined.\<close>

definition hash_fcn_new :: "bool \<Rightarrow> int \<Rightarrow> int \<Rightarrow> int \<Rightarrow> int \<Rightarrow> int \<Rightarrow> hash_fcn option option" where
  "hash_fcn_new calloc_ok r1 r2 r3 r4 m =
     (if \<not> calloc_ok then Some None
      else if m = 0 then None
      else do {
        seed \<leftarrow> nearest_prime (r1 smod m + 3191);
        scale \<leftarrow> nearest_prime (r2 smod m + 709);
        product \<leftarrow> ck_int (r3 * r4);
        hardener \<leftarrow> ck_int (product + 133824503);
        Some (Some \<lparr>params = (word_of_int seed, word_of_int scale, word_of_int hardener),
                    hash_op = hash_fcn_hash, keycmp_op = cmp_bytes\<rparr>)
      })"

definition hash_fcn_static :: "hash_fcn \<Rightarrow> hash_fcn" where
  "hash_fcn_static p = p\<lparr>params := (3193, 719, 133824503)\<rparr>"

definition hash_fcn_set_keyops ::
  "hash_fcn option \<Rightarrow> (hash_params \<Rightarrow> string \<Rightarrow> 32 word) option \<Rightarrow> (string \<Rightarrow> string \<Rightarrow> int) option \<Rightarrow> int \<times> hash_fcn option" where
  "hash_fcn_set_keyops h hash_f keycmp_f = (case (h, hash_f, keycmp_f) of
      (Some p, Some f, Some c) \<Rightarrow> (0, Some (p\<lparr>hash_op := f, keycmp_op := c\<rparr>))
    | _ \<Rightarrow> (- 1, h))"

section \<open>State\<close>

definition HASHMAP_NOMEM :: int where "HASHMAP_NOMEM = -2"
definition HASHMAP_ERR :: int where "HASHMAP_ERR = -1"
definition HASHMAP_OK :: int where "HASHMAP_OK = 0"
definition HASHMAP_INTABLE :: int where "HASHMAP_INTABLE = 1"

text \<open>A node; \<open>hkey\<close> is \<open>None\<close> once its key is freed.\<close>

record hnode =
  hnext :: "nat option"
  hprev :: "nat option"
  hkey :: "string option"
  hdata :: ptr

record hashmap =
  fcn :: hash_fcn
  keysize :: int
  userkey :: int
  table :: "nat option list"
  nrows :: int
  hcount :: "32 word"
  userfree :: bool
  crow :: int
  cnode :: "nat option"
  splay :: int
  hheap :: "hnode heap"
  brk :: nat
  freed_data :: "ptr list"

text \<open>\<open>hashmap_new\<close>: the first arguments are the outcomes of the allocations and of \<open>rand\<close>. A table of more than
  \<open>INT_MAX\<close> bytes is written beyond what is allocated, as the size passes through an \<open>int\<close>.\<close>

definition hashmap_new ::
  "bool \<Rightarrow> bool \<Rightarrow> bool \<Rightarrow> int \<Rightarrow> int \<Rightarrow> int \<Rightarrow> int \<Rightarrow> int \<Rightarrow> int \<Rightarrow> int \<Rightarrow> bool \<Rightarrow> hashmap option option" where
  "hashmap_new map_ok fcn_ok table_ok r1 r2 r3 r4 nrows0 keysize0 userkeys userfree0 = do {
     nrows1 \<leftarrow> (if 0 < nrows0 then nearest_prime nrows0 else ck_int (- nrows0));
     if \<not> map_ok then Some None
     else do {
       f \<leftarrow> hash_fcn_new fcn_ok r1 r2 r3 r4 nrows1;
       case f of
         None \<Rightarrow> Some None
       | Some f' \<Rightarrow>
           if \<not> table_ok then Some None
           else if \<not> in_int (8 * nrows1) then None
           else Some (Some \<lparr>fcn = f', keysize = keysize0, userkey = userkeys, table = replicate (nat nrows1) None,
                            nrows = nrows1, hcount = 0, userfree = userfree0, crow = 0, cnode = None, splay = 0,
                            hheap = Map.empty, brk = 0, freed_data = []\<rparr>)
     }
   }"

definition hashmap_splaymode :: "hashmap \<Rightarrow> int \<Rightarrow> hashmap" where
  "hashmap_splaymode t n = t\<lparr>splay := n\<rparr>"

definition hashmap_count :: "hashmap \<Rightarrow> int" where
  "hashmap_count t = sint (hcount t)"

section \<open>Looking for a node\<close>

definition string_klen :: "string \<Rightarrow> int option" where
  "string_klen key = map_option (\<lambda>n. n + 1) (strlen key 0)"

definition hash_index :: "hashmap \<Rightarrow> string \<Rightarrow> int \<Rightarrow> int option" where
  "hash_index t key klen = do {
     d \<leftarrow> rd_block key 0 klen;
     if nrows t = 0 then None
     else Some (int (unat (hash_op (fcn t) (params (fcn t)) d mod word_of_int (nrows t))))
   }"

text \<open>The comparison of a node's key with the key looked for: the map's function on \<open>klen\<close> bytes, or \<open>strcmp\<close>.\<close>

definition same_key :: "hashmap \<Rightarrow> bool \<Rightarrow> string \<Rightarrow> int \<Rightarrow> hnode \<Rightarrow> bool option" where
  "same_key t binary key klen n = (case hkey n of
      None \<Rightarrow> None
    | Some k \<Rightarrow>
        if binary then do {
          x \<leftarrow> rd_block k 0 klen;
          y \<leftarrow> rd_block key 0 klen;
          Some (keycmp_op (fcn t) x y = 0)
        }
        else if NUL \<in> set k \<and> NUL \<in> set key then Some (cstr k 0 = cstr key 0) else None)"

text \<open>The loop \<open>for (hnode = table[index]; hnode; hnode = hnode->next)\<close>.\<close>

partial_function (option) row_find ::
  "(hnode \<Rightarrow> bool option) \<Rightarrow> hnode heap \<Rightarrow> nat option \<Rightarrow> (nat \<times> hnode) option option" where
  "row_find same h node = (case node of
      None \<Rightarrow> Some None
    | Some a \<Rightarrow> do {
        n \<leftarrow> h a;
        eq \<leftarrow> same n;
        if eq then Some (Some (a, n)) else row_find same h (hnext n)
      })"

section \<open>Adding\<close>

definition hashmap_add :: "bool \<Rightarrow> bool \<Rightarrow> hashmap option \<Rightarrow> string \<Rightarrow> ptr \<Rightarrow> (int \<times> hashmap option) option" where
  "hashmap_add node_ok key_ok mt key data = (case mt of
      None \<Rightarrow> Some (HASHMAP_ERR, None)
    | Some t \<Rightarrow> do {
        klen \<leftarrow> (if 0 < keysize t then Some (keysize t) else string_klen key);
        index \<leftarrow> hash_index t key klen;
        head \<leftarrow> rd (table t) index;
        found \<leftarrow> row_find (same_key t (0 < keysize t) key klen) (hheap t) head;
        case found of
          Some (a, n) \<Rightarrow> Some (HASHMAP_INTABLE, Some (t\<lparr>cnode := Some a\<rparr>))
        | None \<Rightarrow>
            if \<not> node_ok then Some (HASHMAP_NOMEM, Some t)
            else if userkey t = 0 \<and> \<not> key_ok then Some (HASHMAP_NOMEM, Some t)
            else do {
              k \<leftarrow> rd_block key 0 klen;
              let a = brk t;
              let h1 = (hheap t)(a \<mapsto> \<lparr>hnext = head, hprev = None, hkey = Some k, hdata = data\<rparr>);
              h2 \<leftarrow> (case head of None \<Rightarrow> Some h1 | Some b \<Rightarrow> hset h1 b (\<lambda>m. m\<lparr>hprev := Some a\<rparr>));
              tab \<leftarrow> wr (table t) index (Some a);
              Some (HASHMAP_OK, Some (t\<lparr>table := tab, hheap := h2, brk := a + 1, hcount := hcount t + 1\<rparr>))
            }
      })"

section \<open>Finding\<close>

text \<open>\<open>movetofront\<close>: the row's head in the table is left as it is.\<close>

definition movetofront :: "hashmap \<Rightarrow> int \<Rightarrow> nat \<Rightarrow> hashmap option" where
  "movetofront t index a = do {
     head \<leftarrow> rd (table t) index;
     if head = Some a then Some t
     else do {
       n \<leftarrow> hheap t a;
       h1 \<leftarrow> (case hprev n of None \<Rightarrow> Some (hheap t) | Some p \<Rightarrow> hset (hheap t) p (\<lambda>m. m\<lparr>hnext := hnext n\<rparr>));
       h2 \<leftarrow> (case hnext n of None \<Rightarrow> Some h1 | Some q \<Rightarrow> hset h1 q (\<lambda>m. m\<lparr>hprev := hprev n\<rparr>));
       h3 \<leftarrow> hset h2 a (\<lambda>m. m\<lparr>hprev := None, hnext := head\<rparr>);
       h4 \<leftarrow> (case head of None \<Rightarrow> None | Some b \<Rightarrow> hset h3 b (\<lambda>m. m\<lparr>hprev := Some a\<rparr>));
       Some (t\<lparr>hheap := h4\<rparr>)
     }
   }"

definition hashmap_find_node :: "hashmap \<Rightarrow> string \<Rightarrow> (hnode option \<times> hashmap) option" where
  "hashmap_find_node t key = do {
     klen \<leftarrow> (if keysize t \<noteq> 0 then Some (keysize t) else string_klen key);
     index \<leftarrow> hash_index t key klen;
     head \<leftarrow> rd (table t) index;
     found \<leftarrow> row_find (same_key t (keysize t \<noteq> 0) key klen) (hheap t) head;
     case found of
       None \<Rightarrow> Some (None, t)
     | Some (a, n) \<Rightarrow> do {
         t' \<leftarrow> (if 0 < splay t then movetofront t index a else Some t);
         Some (Some n, t')
       }
   }"

definition hashmap_find :: "hashmap option \<Rightarrow> string \<Rightarrow> (ptr \<times> hashmap option) option" where
  "hashmap_find mt key = (case mt of
      None \<Rightarrow> Some (NULL, None)
    | Some t \<Rightarrow> do {
        (hn, t') \<leftarrow> hashmap_find_node t key;
        Some (case hn of Some n \<Rightarrow> hdata n | None \<Rightarrow> NULL, Some t')
      })"

text \<open>\<open>hashmap_find2\<close>: the third result is what is stored through the pointer \<open>data\<close>, if anything.\<close>

definition hashmap_find2 :: "hashmap option \<Rightarrow> string \<Rightarrow> (int \<times> ptr option \<times> hashmap option) option" where
  "hashmap_find2 mt key = (case mt of
      None \<Rightarrow> Some (0, None, None)
    | Some t \<Rightarrow> do {
        (hn, t') \<leftarrow> hashmap_find_node t key;
        Some (case hn of Some n \<Rightarrow> (1, Some (hdata n), Some t') | None \<Rightarrow> (0, None, Some t'))
      })"

section \<open>Removing\<close>

definition hashmap_free_node :: "hashmap \<Rightarrow> int \<Rightarrow> nat \<Rightarrow> (int \<times> hashmap) option" where
  "hashmap_free_node t index a = do {
     n \<leftarrow> hheap t a;
     h0 \<leftarrow> hset (hheap t) a (\<lambda>m. m\<lparr>hkey := None\<rparr>);
     let freed = (if userfree t \<and> hdata n \<noteq> NULL then freed_data t @ [hdata n] else freed_data t);
     head \<leftarrow> rd (table t) index;
     (tab, h1) \<leftarrow> (case hprev n of
         Some p \<Rightarrow> do {
           h1 \<leftarrow> hset h0 p (\<lambda>m. m\<lparr>hnext := hnext n\<rparr>);
           h2 \<leftarrow> (case hnext n of None \<Rightarrow> Some h1 | Some q \<Rightarrow> hset h1 q (\<lambda>m. m\<lparr>hprev := hprev n\<rparr>));
           Some (table t, h2)
         }
       | None \<Rightarrow> (case head of
           None \<Rightarrow> Some (table t, h0)
         | Some b \<Rightarrow> do {
             m \<leftarrow> h0 b;
             tab \<leftarrow> wr (table t) index (hnext m);
             h1 \<leftarrow> (case hnext m of None \<Rightarrow> Some h0 | Some q \<Rightarrow> hset h0 q (\<lambda>k. k\<lparr>hprev := None\<rparr>));
             Some (tab, h1)
           }));
     Some (HASHMAP_OK, t\<lparr>table := tab, hheap := h1(a := None), freed_data := freed, hcount := hcount t - 1\<rparr>)
   }"

definition hashmap_remove :: "hashmap \<Rightarrow> string \<Rightarrow> (int \<times> hashmap) option" where
  "hashmap_remove t key = do {
     klen \<leftarrow> (if 0 < keysize t then Some (keysize t) else string_klen key);
     index \<leftarrow> hash_index t key klen;
     head \<leftarrow> rd (table t) index;
     found \<leftarrow> row_find (same_key t (0 < keysize t) key klen) (hheap t) head;
     case found of
       None \<Rightarrow> Some (HASHMAP_ERR, t)
     | Some (a, n) \<Rightarrow> hashmap_free_node t index a
   }"

section \<open>Iterating\<close>

text \<open>The loop over the rows from \<open>row\<close> on: the row it stops at and that row's head.\<close>

function next_row :: "hashmap \<Rightarrow> int \<Rightarrow> (int \<times> nat option) option" where
  "next_row t row =
     (if row < nrows t then
        (case rd (table t) row of
           None \<Rightarrow> None
         | Some (Some a) \<Rightarrow> Some (row, Some a)
         | Some None \<Rightarrow> next_row t (row + 1))
      else Some (row, None))"
  by pat_completeness auto
termination
  by (relation "measure (\<lambda>(t, row). nat (nrows t - row))") auto

declare next_row.simps [simp del]

definition hashmap_next :: "hashmap \<Rightarrow> hashmap option" where
  "hashmap_next t = (case cnode t of
      None \<Rightarrow> Some t
    | Some a \<Rightarrow> do {
        n \<leftarrow> hheap t a;
        case hnext n of
          Some b \<Rightarrow> Some (t\<lparr>cnode := Some b\<rparr>)
        | None \<Rightarrow> map_option (\<lambda>(row, c). t\<lparr>crow := row, cnode := c\<rparr>) (next_row t (crow t + 1))
      })"

text \<open>With no rows at all \<open>cnode\<close> is not written.\<close>

definition hashmap_findfirst :: "hashmap \<Rightarrow> (nat option \<times> hashmap) option" where
  "hashmap_findfirst t = do {
     (row, c) \<leftarrow> next_row t 0;
     let t1 = t\<lparr>crow := row, cnode := (if 0 < nrows t then c else cnode t)\<rparr>;
     case c of
       None \<Rightarrow> Some (None, t1)
     | Some a \<Rightarrow> map_option (\<lambda>t2. (Some a, t2)) (hashmap_next t1)
   }"

definition hashmap_findnext :: "hashmap \<Rightarrow> (nat option \<times> hashmap) option" where
  "hashmap_findnext t = (case cnode t of
      None \<Rightarrow> Some (None, t)
    | Some a \<Rightarrow> map_option (\<lambda>t'. (Some a, t')) (hashmap_next t))"

section \<open>Deleting the map\<close>

text \<open>The loop over one row: the heap without its nodes, and the data handed to the user's free function.\<close>

partial_function (option) delete_row ::
  "bool \<Rightarrow> hnode heap \<Rightarrow> nat option \<Rightarrow> ptr list \<Rightarrow> (hnode heap \<times> ptr list) option" where
  "delete_row ufree h node freed = (case node of
      None \<Rightarrow> Some (h, freed)
    | Some a \<Rightarrow> do {
        n \<leftarrow> h a;
        delete_row ufree (h(a := None)) (hnext n) (if ufree \<and> hdata n \<noteq> NULL then freed @ [hdata n] else freed)
      })"

fun delete_rows :: "bool \<Rightarrow> hnode heap \<Rightarrow> nat option list \<Rightarrow> ptr list \<Rightarrow> (hnode heap \<times> ptr list) option" where
  "delete_rows ufree h [] freed = Some (h, freed)"
| "delete_rows ufree h (r # rs) freed = do {
     (h', freed') \<leftarrow> delete_row ufree h r freed;
     delete_rows ufree h' rs freed'
   }"

text \<open>\<open>hashmap_delete\<close>: the nodes that remain, and the data freed over the map's life.\<close>

definition hashmap_delete :: "hashmap option \<Rightarrow> (hnode heap \<times> ptr list) option" where
  "hashmap_delete mt = (case mt of
      None \<Rightarrow> Some (Map.empty, [])
    | Some t \<Rightarrow> delete_rows (userfree t) (hheap t) (table t) (freed_data t))"

definition hashmap_set_keyops ::
  "hashmap option \<Rightarrow> (hash_params \<Rightarrow> string \<Rightarrow> 32 word) option \<Rightarrow> (string \<Rightarrow> string \<Rightarrow> int) option \<Rightarrow> int \<times> hashmap option" where
  "hashmap_set_keyops mh hash_f keycmp_f = (case (mh, hash_f, keycmp_f) of
      (Some h, Some f, Some c) \<Rightarrow> (case hash_fcn_set_keyops (Some (fcn h)) hash_f keycmp_f of
          (r, Some p) \<Rightarrow> (r, Some (h\<lparr>fcn := p\<rparr>))
        | (r, None) \<Rightarrow> (r, mh))
    | _ \<Rightarrow> (- 1, mh))"

interpretation row: links hnext hprev "\<lambda>a n. n\<lparr>hnext := a\<rparr>" "\<lambda>a n. n\<lparr>hprev := a\<rparr>"
  by unfold_locales simp_all

section \<open>Keys\<close>

lemma cmp_bytes_zero: "length x = length y \<Longrightarrow> cmp_bytes x y = 0 \<longleftrightarrow> x = y"
proof (induction x y rule: cmp_bytes.induct)
  case (1 x xs y ys)
  have "(of_char x :: int) - of_char y = 0 \<longleftrightarrow> x = y" by simp
  then show ?case using 1 by auto
qed auto

text \<open>A key as the map stores it: \<open>keysize\<close> bytes, or a string with its terminator.\<close>

definition valid_key :: "int \<Rightarrow> string \<Rightarrow> bool" where
  "valid_key ks k \<longleftrightarrow> (if 0 < ks then int (length k) = ks else k \<noteq> [] \<and> NUL \<notin> set (butlast k) \<and> last k = NUL)"

definition key_ops_ok :: "hash_fcn \<Rightarrow> bool" where
  "key_ops_ok f \<longleftrightarrow> (\<forall>x y. length x = length y \<longrightarrow> (keycmp_op f x y = 0 \<longleftrightarrow> x = y))"

definition key_row :: "hashmap \<Rightarrow> string \<Rightarrow> nat" where
  "key_row t k = unat (hash_op (fcn t) (params (fcn t)) k mod word_of_int (nrows t))"

lemma key_row_less:
  assumes "0 < nrows t" and "nrows t \<le> INT_MAX"
  shows "key_row t k < nat (nrows t)"
proof -
  have "uint (word_of_int (nrows t) :: 32 word) = nrows t"
    unfolding uint_word_of_int using assms by (intro mod_pos_pos_trivial) (auto simp: INT_MAX_def)
  then have "unat (word_of_int (nrows t) :: 32 word) = nat (nrows t)" by (metis unat_eq_nat_uint)
  then show ?thesis using assms(1) by (simp add: key_row_def unat_mod)
qed

lemma rd_block_whole: "rd_block (k @ b) 0 (int (length k)) = Some k"
  by (simp add: rd_block_def)

lemma string_key_end: "valid_key 0 k \<Longrightarrow> k = butlast k @ [NUL]"
  using append_butlast_last_id [of k] by (auto simp: valid_key_def)

lemma string_key:
  assumes "valid_key 0 k"
  shows "string_klen (k @ b) = Some (int (length k))" and "cstr (k @ b) 0 = butlast k" and "NUL \<in> set (k @ b)"
proof -
  have n: "NUL \<notin> set (butlast k)" using assms by (simp add: valid_key_def)
  have e: "k @ b = [] @ butlast k @ NUL # b"
    using arg_cong [OF string_key_end [OF assms], of "\<lambda>x. x @ b"] by (simp only: append_assoc append_Cons append_Nil)
  have "0 < length k" using assms by (simp add: valid_key_def)
  then have l: "int (length k) = int (length (butlast k)) + 1" by (cases k) simp_all
  show "string_klen (k @ b) = Some (int (length k))"
    using strlen_at [OF n, of 0 "[]" b] unfolding string_klen_def e l by (simp only: list.size int_ops option.map)
  show "cstr (k @ b) 0 = butlast k" using cstr_at [OF n, of "[]" 0 b] by (simp only: e) simp
  have "NUL \<in> set (butlast k @ NUL # b)" by simp
  then show "NUL \<in> set (k @ b)" by (simp only: e append_Nil)
qed

lemma klen_ok:
  assumes "0 \<le> keysize t" and "valid_key (keysize t) k"
  shows "(if 0 < keysize t then Some (keysize t) else string_klen (k @ b)) = Some (int (length k))"
    and "(if keysize t \<noteq> 0 then Some (keysize t) else string_klen (k @ b)) = Some (int (length k))"
proof -
  have "keysize t = 0 \<Longrightarrow> string_klen (k @ b) = Some (int (length k))" using string_key(1) assms(2) by simp
  moreover have "0 < keysize t \<Longrightarrow> keysize t = int (length k)" using assms(2) by (simp add: valid_key_def)
  ultimately show "(if 0 < keysize t then Some (keysize t) else string_klen (k @ b)) = Some (int (length k))"
    and "(if keysize t \<noteq> 0 then Some (keysize t) else string_klen (k @ b)) = Some (int (length k))"
    using assms(1) by (cases "keysize t = 0"; force)+
qed

lemma index_ok: "0 < nrows t \<Longrightarrow> hash_index t (k @ b) (int (length k)) = Some (int (key_row t k))"
  by (simp add: hash_index_def rd_block_whole key_row_def)

lemma same_ok:
  assumes "key_ops_ok (fcn t)" and "0 \<le> keysize t" and "valid_key (keysize t) k" and "valid_key (keysize t) k'" and "hkey n = Some k'"
  shows "same_key t (0 < keysize t) (k @ b) (int (length k)) n = Some (k' = k)"
proof (cases "0 < keysize t")
  case True
  then have l: "length k' = length k" using assms(3,4) by (simp add: valid_key_def)
  have "rd_block k' 0 (int (length k)) = Some k'" using l by (simp add: rd_block_def)
  then show ?thesis using True assms(1,5) l by (simp add: same_key_def rd_block_whole key_ops_ok_def)
next
  case False
  then have v: "valid_key 0 k" "valid_key 0 k'" using assms(2-4) by (simp_all add: valid_key_def)
  have "butlast k' = butlast k \<longleftrightarrow> k' = k"
    using string_key_end [OF v(1)] string_key_end [OF v(2)] by metis
  then show ?thesis
    using False string_key(2,3) [OF v(1), of b] string_key(2,3) [OF v(2), of "[]"] assms(5) by (simp add: same_key_def)
qed

section \<open>The state as a finite map\<close>

text \<open>What is left of a node when its links are taken away.\<close>

definition hpay :: "hnode heap \<Rightarrow> nat \<Rightarrow> (string option \<times> ptr) option" where
  "hpay h a = map_option (\<lambda>n. (hkey n, hdata n)) (h a)"

definition hm_inv :: "hashmap \<Rightarrow> nat list list \<Rightarrow> bool" where
  "hm_inv t rows \<longleftrightarrow> 0 < nrows t \<and> nrows t \<le> INT_MAX \<and> 0 \<le> keysize t \<and> key_ops_ok (fcn t)
     \<and> table t = map (\<lambda>r. first_of r None) rows \<and> int (length rows) = nrows t
     \<and> (\<forall>r\<in>set rows. dll hnext hprev (hheap t) None r None)
     \<and> distinct (concat rows) \<and> set (concat rows) = dom (hheap t) \<and> (\<forall>a\<in>dom (hheap t). a < brk t)
     \<and> (\<forall>i<length rows. \<forall>a\<in>set (rows ! i). \<exists>k d. hpay (hheap t) a = Some (Some k, d) \<and> valid_key (keysize t) k \<and> key_row t k = i)
     \<and> (\<forall>a b k d e. hpay (hheap t) a = Some (Some k, d) \<longrightarrow> hpay (hheap t) b = Some (Some k, e) \<longrightarrow> a = b)
     \<and> hcount t = of_nat (length (concat rows))"

text \<open>The map a state stands for.\<close>

definition hm_rel :: "hashmap \<Rightarrow> (string \<rightharpoonup> ptr) \<Rightarrow> bool" where
  "hm_rel t m \<longleftrightarrow> (\<exists>rows. hm_inv t rows) \<and> (\<forall>k d. m k = Some d \<longleftrightarrow> (\<exists>a. hpay (hheap t) a = Some (Some k, d)))"

lemma row_find_dll:
  assumes "dll hnext hprev h p xs None" and "\<forall>a\<in>set xs. \<forall>n. h a = Some n \<longrightarrow> same n = Some (P n)"
  shows "row_find same h (first_of xs None) = Some (map_option (\<lambda>a. (a, the (h a))) (find (\<lambda>a. P (the (h a))) xs))"
  using assms
proof (induction xs arbitrary: p)
  case Nil
  then show ?case by (simp add: row_find.simps)
next
  case (Cons a xs)
  then obtain n where n: "h a = Some n" "hnext n = first_of xs None" by auto
  have "row_find same h (first_of xs None) = Some (map_option (\<lambda>a. (a, the (h a))) (find (\<lambda>a. P (the (h a))) xs))"
    using Cons by auto
  then show ?case using n Cons.prems(2) by (simp add: row_find.simps [of _ _ "Some a"])
qed

lemma hpay_Some: "hpay h a = Some (k, d) \<longleftrightarrow> (\<exists>n. h a = Some n \<and> hkey n = k \<and> hdata n = d)"
  by (auto simp: hpay_def)

lemma dom_hpay: "dom (hpay h) = dom h"
  by (auto simp: hpay_def dom_def)

lemma concat_row:
  assumes "a \<in> set (concat rows)"
  obtains j where "j < length rows" "a \<in> set (rows ! j)"
proof -
  obtain r where "r \<in> set rows" "a \<in> set r" using assms by auto
  then show thesis using that in_set_conv_nth [of r rows] by blast
qed

lemma row_lookup:
  assumes inv: "hm_inv t rows" and k: "valid_key (keysize t) k"
  shows "\<exists>r. key_row t k < length rows \<and> r = rows ! key_row t k \<and> rd (table t) (int (key_row t k)) = Some (first_of r None)
    \<and> ((\<exists>a n. a \<in> set r \<and> hheap t a = Some n \<and> hkey n = Some k
          \<and> row_find (same_key t (0 < keysize t) (k @ b) (int (length k))) (hheap t) (first_of r None) = Some (Some (a, n)))
      \<or> (\<forall>a d. hpay (hheap t) a \<noteq> Some (Some k, d))
          \<and> row_find (same_key t (0 < keysize t) (k @ b) (int (length k))) (hheap t) (first_of r None) = Some None)"
proof -
  let ?i = "key_row t k" and ?r = "rows ! key_row t k"
  note d = inv [unfolded hm_inv_def]
  have i: "?i < length rows" using key_row_less [of t k] d by auto
  have r: "dll hnext hprev (hheap t) None ?r None" "?r \<in> set rows" using d i by auto
  have nodes: "\<exists>n k'. hheap t a = Some n \<and> hkey n = Some k' \<and> valid_key (keysize t) k'" if "a \<in> set ?r" for a
    using d i that hpay_Some by metis
  have "same_key t (0 < keysize t) (k @ b) (int (length k)) n = Some (hkey n = Some k)" if "a \<in> set ?r" "hheap t a = Some n" for a n
    using nodes [OF that(1)] that(2) same_ok [of t k _ n b] d k by auto
  then have find: "row_find (same_key t (0 < keysize t) (k @ b) (int (length k))) (hheap t) (first_of ?r None)
      = Some (map_option (\<lambda>a. (a, the (hheap t a))) (find (\<lambda>a. hkey (the (hheap t a)) = Some k) ?r))"
    by (intro row_find_dll [OF r(1)]) blast
  have tab: "rd (table t) (int ?i) = Some (first_of ?r None)" using d i by simp
  show ?thesis
  proof (cases "find (\<lambda>a. hkey (the (hheap t a)) = Some k) ?r")
    case None
    have "hpay (hheap t) a \<noteq> Some (Some k, v)" for a v
    proof
      assume a: "hpay (hheap t) a = Some (Some k, v)"
      then have "a \<in> dom (hheap t)" by (auto simp: hpay_Some)
      then have "a \<in> set (concat rows)" using d by simp
      then obtain j where j: "j < length rows" "a \<in> set (rows ! j)" by (rule concat_row)
      then have "key_row t k = j" using d a by fastforce
      then show False using j None a by (auto simp: find_None_iff hpay_Some)
    qed
    then show ?thesis using None find tab i by auto
  next
    case (Some a)
    then have "a \<in> set ?r" "hkey (the (hheap t a)) = Some k" by (auto simp: find_Some_iff)
    then show ?thesis using Some find tab i nodes [of a] by auto
  qed
qed

lemma push_front:
  assumes "dll hnext hprev h None r None" and "distinct (a # r)" and "hnext n = first_of r None" and "hprev n = None"
  shows "\<exists>h'. (case first_of r None of None \<Rightarrow> Some (h(a \<mapsto> n)) | Some b \<Rightarrow> hset (h(a \<mapsto> n)) b (\<lambda>m. m\<lparr>hprev := Some a\<rparr>)) = Some h'
    \<and> dll hnext hprev h' None (a # r) None \<and> (\<forall>c. c \<notin> set (a # r) \<longrightarrow> h' c = h c) \<and> hpay h' = (hpay h)(a \<mapsto> (hkey n, hdata n))"
proof (cases r)
  case Nil
  then show ?thesis using assms by (auto simp: hpay_def)
next
  case (Cons b r')
  then obtain m where m: "h b = Some m" using assms(1) by auto
  have "dll hnext hprev (h(a \<mapsto> n, b \<mapsto> m\<lparr>hprev := Some a\<rparr>)) None (a # r) None"
    using row.dll_add_first [of h b r' a m n] assms m Cons by simp
  moreover have "hset (h(a \<mapsto> n)) b (\<lambda>m. m\<lparr>hprev := Some a\<rparr>) = Some (h(a \<mapsto> n, b \<mapsto> m\<lparr>hprev := Some a\<rparr>))"
    using m assms(2) Cons by (auto simp: hset_def)
  moreover have "hpay (h(a \<mapsto> n, b \<mapsto> m\<lparr>hprev := Some a\<rparr>)) = (hpay h)(a \<mapsto> (hkey n, hdata n))"
    using m assms(2) Cons by (auto simp: hpay_def fun_eq_iff)
  ultimately show ?thesis using Cons by (intro exI [of _ "h(a \<mapsto> n, b \<mapsto> m\<lparr>hprev := Some a\<rparr>)"]) simp
qed

text \<open>Replacing one row of the table.\<close>

lemma row_split:
  assumes "i < length rows"
  shows "\<exists>A B. rows = A @ rows ! i # B \<and> length A = i \<and> (\<forall>r. rows[i := r] = A @ r # B)"
proof (intro exI conjI allI)
  show "rows = take i rows @ rows ! i # drop (Suc i) rows" by (rule id_take_nth_drop [OF assms])
  show "length (take i rows) = i" using assms by simp
  show "rows[i := r] = take i rows @ r # drop (Suc i) rows" for r by (rule upd_conv_take_nth_drop [OF assms])
qed

text \<open>The parts of the invariant.\<close>

lemma hm_invD:
  assumes "hm_inv t rows"
  shows "0 < nrows t" "nrows t \<le> INT_MAX" "0 \<le> keysize t" "key_ops_ok (fcn t)" "table t = map (\<lambda>r. first_of r None) rows"
    and "int (length rows) = nrows t" and "r \<in> set rows \<Longrightarrow> dll hnext hprev (hheap t) None r None"
    and "distinct (concat rows)" and "set (concat rows) = dom (hheap t)" and "a \<in> dom (hheap t) \<Longrightarrow> a < brk t"
    and "i < length rows \<Longrightarrow> a \<in> set (rows ! i) \<Longrightarrow> \<exists>k d. hpay (hheap t) a = Some (Some k, d) \<and> valid_key (keysize t) k \<and> key_row t k = i"
    and "hpay (hheap t) a = Some (Some k, d) \<Longrightarrow> hpay (hheap t) b = Some (Some k, e) \<Longrightarrow> a = b"
    and "hcount t = of_nat (length (concat rows))"
  using assms unfolding hm_inv_def by blast+

lemma hm_row:
  assumes "hm_inv t rows" and "i < length rows"
  obtains A B where "rows = A @ rows ! i # B" "length A = i" "\<forall>s. rows[i := s] = A @ s # B"
    and "dll hnext hprev (hheap t) None (rows ! i) None" and "distinct (rows ! i)"
    and "set (concat A) \<inter> set (rows ! i) = {}" and "set (concat B) \<inter> set (rows ! i) = {}"
    and "distinct (concat A @ concat B)" and "set (concat A) \<union> set (rows ! i) \<union> set (concat B) = dom (hheap t)"
proof -
  obtain A B where AB: "rows = A @ rows ! i # B" "length A = i" "\<forall>s. rows[i := s] = A @ s # B" using row_split [OF assms(2)] by blast
  define r where "r = rows ! i"
  have "concat rows = concat (A @ r # B)" using AB(1) by (simp add: r_def)
  then have c: "concat rows = concat A @ r @ concat B" by simp
  have "distinct (concat A @ r @ concat B)" "set (concat A @ r @ concat B) = dom (hheap t)"
    using hm_invD(8,9) [OF assms(1)] c by simp_all
  moreover have "dll hnext hprev (hheap t) None r None" using hm_invD(7) [OF assms(1)] assms(2) by (simp add: r_def)
  ultimately show thesis using that [OF AB, folded r_def] by (simp add: Int_commute Un_assoc Int_Un_distrib)
qed

text \<open>A new row in place of an old one, when the heap has changed in the two rows only.\<close>

lemma new_row:
  assumes inv: "hm_inv t rows" and i: "i < length rows" and r': "dll hnext hprev h None r' None" "distinct r'"
    and same: "\<forall>c. c \<notin> set (rows ! i) \<union> set r' \<longrightarrow> h c = hheap t c"
    and fresh: "\<forall>c\<in>set r'. c \<in> set (rows ! i) \<or> c \<notin> dom (hheap t)"
    and dom: "dom h = (dom (hheap t) - set (rows ! i)) \<union> set r'" and brk: "\<forall>c\<in>set r'. c < b" "brk t \<le> b"
    and keys: "\<forall>c\<in>set r'. \<exists>k d. hpay h c = Some (Some k, d) \<and> valid_key (keysize t) k \<and> key_row t k = i"
    and uniq: "\<forall>a c k d e. hpay h a = Some (Some k, d) \<longrightarrow> hpay h c = Some (Some k, e) \<longrightarrow> a = c"
    and n: "n + of_nat (length (rows ! i)) = hcount t + of_nat (length r')"
  shows "hm_inv (t\<lparr>table := (table t)[i := first_of r' None], hheap := h, brk := b, hcount := n\<rparr>) (rows[i := r'])"
proof -
  obtain A B where AB: "rows = A @ rows ! i # B" "length A = i" "\<forall>s. rows[i := s] = A @ s # B"
    "dll hnext hprev (hheap t) None (rows ! i) None" "distinct (rows ! i)"
    "set (concat A) \<inter> set (rows ! i) = {}" "set (concat B) \<inter> set (rows ! i) = {}"
    "distinct (concat A @ concat B)" "set (concat A) \<union> set (rows ! i) \<union> set (concat B) = dom (hheap t)"
    by (rule hm_row [OF inv i])
  define r where "r = rows ! i"
  note AB' = AB [folded r_def] and same' = same [folded r_def] and fresh' = fresh [folded r_def] and dom' = dom [folded r_def]
  have c: "concat (rows[i := r']) = concat A @ r' @ concat B" using AB(3) by simp
  have sets: "set (concat A) \<subseteq> dom (hheap t)" "set (concat B) \<subseteq> dom (hheap t)" using AB'(9) by blast+
  have dj: "set (concat A) \<inter> set r' = {}" "set (concat B) \<inter> set r' = {}" using fresh' sets AB'(6,7) by blast+
  have rest: "set (concat A) \<union> set (concat B) = dom (hheap t) - set r" using AB'(6,7,9) by blast
  let ?t = "t\<lparr>table := (table t)[i := first_of r' None], hheap := h, brk := b, hcount := n\<rparr>"
  have kr: "key_row ?t = key_row t" by (simp add: key_row_def fun_eq_iff)
  have other: "h x = hheap t x" if "x \<in> set (concat A) \<union> set (concat B)" for x
    using same' that AB'(6,7) dj by blast
  have dl: "dll hnext hprev h None s None" if "s \<in> set (rows[i := r'])" for s
  proof (cases "s = r'")
    case False
    then have s: "s \<in> set A \<union> set B" using that AB(3) by auto
    then have "\<forall>x\<in>set s. h x = hheap t x" using other by auto
    moreover have "s \<in> set rows" using s AB(1) by (metis Un_iff in_set_conv_decomp list.set_intros(2) set_append)
    ultimately show ?thesis using dll_cong [of s h "hheap t"] hm_invD(7) [OF inv] by blast
  qed (use r' in simp)
  have ks: "\<exists>k d. hpay h x = Some (Some k, d) \<and> valid_key (keysize t) k \<and> key_row t k = j"
    if j: "j < length rows" "x \<in> set (rows[i := r'] ! j)" for j x
  proof (cases "j = i")
    case True
    then show ?thesis using j keys by simp
  next
    case False
    then have x: "x \<in> set (rows ! j)" using j by simp
    have "rows ! j \<in> set A \<union> set B"
    proof -
      have "rows ! j = (A @ r # B) ! j" using AB(1) by (metis r_def)
      moreover have "j < length (A @ r # B)" using j(1) AB(1) by (metis r_def)
      ultimately show ?thesis using False AB(2) by (auto simp: nth_append nth_Cons split: nat.splits)
    qed
    then have "h x = hheap t x" using other x by auto
    then show ?thesis using hm_invD(11) [OF inv j(1) x] by (simp add: hpay_def)
  qed
  have "distinct (concat A @ r' @ concat B)" using AB'(8) dj r'(2) by auto
  moreover have "set (concat A @ r' @ concat B) = dom h" using dom' rest by auto
  moreover have "length (concat rows) = length (concat A) + length r + length (concat B)"
    using arg_cong [OF AB'(1), of "\<lambda>x. length (concat x)"] by simp
  moreover have "n + of_nat (length r) = of_nat (length (concat A) + length r + length (concat B)) + of_nat (length r')"
    using n hm_invD(13) [OF inv] calculation(3) by (simp add: r_def)
  moreover have "\<forall>x\<in>dom h. x < b" using dom' brk hm_invD(10) [OF inv] by force
  ultimately show ?thesis
    using hm_invD(1-6) [OF inv] dl ks uniq kr unfolding hm_inv_def c
    by (simp add: map_update algebra_simps)
qed

section \<open>The operations on the map\<close>

text \<open>States that only differ in the iterator.\<close>

lemma hm_inv_cnode [simp]: "hm_inv (t\<lparr>cnode := c\<rparr>) rows = hm_inv t rows"
  by (simp add: hm_inv_def key_row_def)

lemma hm_inv_rest [simp]: "hm_inv (t\<lparr>crow := x\<rparr>) rows = hm_inv t rows" "hm_inv (t\<lparr>freed_data := y\<rparr>) rows = hm_inv t rows"
    "hm_inv (t\<lparr>splay := z\<rparr>) rows = hm_inv t rows"
  by (simp_all add: hm_inv_def key_row_def)

lemma hm_rel_cnode: "hm_rel t m \<Longrightarrow> hm_rel (t\<lparr>cnode := c\<rparr>) m"
  by (simp add: hm_rel_def)

lemma hm_rel_None: "hm_rel t m \<Longrightarrow> m k = None \<longleftrightarrow> (\<forall>a d. hpay (hheap t) a \<noteq> Some (Some k, d))"
  by (metis hm_rel_def option.exhaust option.distinct(1))

lemma hm_rel_node: "hm_rel t m \<Longrightarrow> hheap t a = Some n \<Longrightarrow> hkey n = Some k \<Longrightarrow> m k = Some (hdata n)"
  unfolding hm_rel_def by (metis hpay_Some)

definition added_node :: "hashmap \<Rightarrow> string \<Rightarrow> hnode heap \<Rightarrow> hashmap" where
  "added_node t k h = t\<lparr>table := (table t)[key_row t k := Some (brk t)], hheap := h, brk := brk t + 1, hcount := hcount t + 1\<rparr>"

lemma add_new:
  assumes rel: "hm_rel t m" and k: "valid_key (keysize t) k" and new: "m k = None" and ok: "userkey t \<noteq> 0 \<or> key_ok"
  shows "\<exists>h. hashmap_add True key_ok (Some t) (k @ b) v = Some (HASHMAP_OK, Some (added_node t k h)) \<and> hm_rel (added_node t k h) (m(k \<mapsto> v))"
proof -
  obtain rows where inv: "hm_inv t rows" using rel by (auto simp: hm_rel_def)
  note d = hm_invD [OF inv]
  have none: "\<forall>a d. hpay (hheap t) a \<noteq> Some (Some k, d)" using hm_rel_None [OF rel] new by blast
  let ?i = "key_row t k" and ?a = "brk t"
  define r where "r = rows ! ?i"
  have i: "?i < length rows" and tab: "rd (table t) (int ?i) = Some (first_of r None)"
    and find: "row_find (same_key t (0 < keysize t) (k @ b) (int (length k))) (hheap t) (first_of r None) = Some None"
    using row_lookup [OF inv k, of b] none unfolding r_def by (auto simp: hpay_Some)
  obtain A B where AB: "dll hnext hprev (hheap t) None r None" "distinct r" "set r \<subseteq> dom (hheap t)"
    using hm_row [OF inv i] unfolding r_def by (metis Un_upper2 le_sup_iff sup_ge1)
  have a: "?a \<notin> dom (hheap t)" using d(10) by blast
  then have ar: "?a \<notin> set r" using AB(3) by blast
  let ?n = "\<lparr>hnext = first_of r None, hprev = None, hkey = Some k, hdata = v\<rparr>"
  obtain h where h: "(case first_of r None of None \<Rightarrow> Some ((hheap t)(?a \<mapsto> ?n))
      | Some b \<Rightarrow> hset ((hheap t)(?a \<mapsto> ?n)) b (\<lambda>m. m\<lparr>hprev := Some ?a\<rparr>)) = Some h"
    "dll hnext hprev h None (?a # r) None" "\<forall>c. c \<notin> set (?a # r) \<longrightarrow> h c = hheap t c"
    "hpay h = (hpay (hheap t))(?a \<mapsto> (Some k, v))"
    using push_front [of "hheap t" r ?a ?n] AB(1,2) ar by auto
  have dom: "dom h = insert ?a (dom (hheap t))"
    using arg_cong [OF h(4), of dom] by (simp only: dom_fun_upd dom_hpay) simp
  have "hm_inv (t\<lparr>table := (table t)[?i := first_of (?a # r) None], hheap := h, brk := ?a + 1, hcount := hcount t + 1\<rparr>) (rows[?i := ?a # r])"
  proof (rule new_row [OF inv i h(2)], unfold r_def [symmetric])
    show "distinct (?a # r)" using ar AB(2) by simp
    show "\<forall>c. c \<notin> set r \<union> set (?a # r) \<longrightarrow> h c = hheap t c" using h(3) by simp
    show "\<forall>c\<in>set (?a # r). c \<in> set r \<or> c \<notin> dom (hheap t)" using a by simp
    show "dom h = (dom (hheap t) - set r) \<union> set (?a # r)" using dom AB(3) by auto
    show "\<forall>c\<in>set (?a # r). c < ?a + 1" using d(10) AB(3) by force
    show "\<forall>c\<in>set (?a # r). \<exists>k d. hpay h c = Some (Some k, d) \<and> valid_key (keysize t) k \<and> key_row t k = ?i"
      using d(11) [OF i] h(4) k ar unfolding r_def [symmetric] by auto
    show "\<forall>c e q x y. hpay h c = Some (Some q, x) \<longrightarrow> hpay h e = Some (Some q, y) \<longrightarrow> c = e"
      unfolding h(4) fun_upd_apply using d(12) none by (auto split: if_splits)
  qed simp_all
  then have inv': "\<exists>rows. hm_inv (added_node t k h) rows" by (auto simp: added_node_def)
  have map: "(m(k \<mapsto> v)) q = Some e \<longleftrightarrow> (\<exists>c. hpay h c = Some (Some q, e))" for q e
  proof (cases "q = k")
    case True
    then show ?thesis using none unfolding h(4) fun_upd_apply by (auto split: if_splits)
  next
    case False
    have "hpay (hheap t) ?a = None" using a by (auto simp: hpay_def)
    then have "(\<exists>c. hpay h c = Some (Some q, e)) \<longleftrightarrow> (\<exists>c. hpay (hheap t) c = Some (Some q, e))"
      using False unfolding h(4) fun_upd_apply by (metis option.distinct(1) option.inject prod.inject)
    then show ?thesis using rel False by (simp add: hm_rel_def)
  qed
  have "hashmap_add True key_ok (Some t) (k @ b) v = Some (HASHMAP_OK, Some (added_node t k h))"
    using ok d(1,5) i klen_ok(1) [OF d(3) k, of b] index_ok [OF d(1), of k b] tab find h(1)
    by (cases "userkey t = 0") (simp_all add: hashmap_add_def rd_block_whole Let_def added_node_def)
  moreover have "hm_rel (added_node t k h) (m(k \<mapsto> v))" using inv' map by (simp add: hm_rel_def added_node_def)
  ultimately show ?thesis by blast
qed

lemma add_old:
  assumes rel: "hm_rel t m" and k: "valid_key (keysize t) k" and old: "m k \<noteq> None"
  shows "\<exists>a. hashmap_add node_ok key_ok (Some t) (k @ b) v = Some (HASHMAP_INTABLE, Some (t\<lparr>cnode := Some a\<rparr>))"
proof -
  obtain rows where inv: "hm_inv t rows" using rel by (auto simp: hm_rel_def)
  have "\<not> (\<forall>a d. hpay (hheap t) a \<noteq> Some (Some k, d))" using old hm_rel_None [OF rel, of k] by simp
  then show ?thesis
    using row_lookup [OF inv k, of b] hm_invD(1,3) [OF inv] klen_ok(1) [of t k b] k index_ok [of t k b]
    by (auto simp: hashmap_add_def)
qed

lemma add_nomem:
  assumes rel: "hm_rel t m" and k: "valid_key (keysize t) k" and new: "m k = None" and ok: "\<not> node_ok \<or> userkey t = 0 \<and> \<not> key_ok"
  shows "hashmap_add node_ok key_ok (Some t) (k @ b) v = Some (HASHMAP_NOMEM, Some t)"
proof -
  obtain rows where inv: "hm_inv t rows" using rel by (auto simp: hm_rel_def)
  have "\<forall>a d. hpay (hheap t) a \<noteq> Some (Some k, d)" using hm_rel_None [OF rel] new by blast
  then show ?thesis
    using row_lookup [OF inv k, of b] hm_invD(1,3) [OF inv] klen_ok(1) [of t k b] k index_ok [of t k b] ok
    by (auto simp: hashmap_add_def hpay_Some)
qed

lemma find_node:
  assumes rel: "hm_rel t m" and k: "valid_key (keysize t) k" and s: "splay t \<le> 0"
  shows "\<exists>hn. hashmap_find_node t (k @ b) = Some (hn, t) \<and> map_option hdata hn = m k"
proof -
  obtain rows where inv: "hm_inv t rows" using rel by (auto simp: hm_rel_def)
  have flag: "(keysize t \<noteq> 0) = (0 < keysize t)" using hm_invD(3) [OF inv] by auto
  show ?thesis
  proof (cases "m k")
    case None
    then have "\<forall>a d. hpay (hheap t) a \<noteq> Some (Some k, d)" using hm_rel_None [OF rel] by blast
    then show ?thesis
      using None row_lookup [OF inv k, of b] hm_invD(1,3) [OF inv] klen_ok(2) [of t k b] k index_ok [of t k b]
      by (auto simp: hashmap_find_node_def flag hpay_Some)
  next
    case (Some v)
    then have "\<not> (\<forall>a d. hpay (hheap t) a \<noteq> Some (Some k, d))" using hm_rel_None [OF rel, of k] by auto
    then obtain r a n where "rd (table t) (int (key_row t k)) = Some (first_of r None)" "hheap t a = Some n" "hkey n = Some k"
      "row_find (same_key t (0 < keysize t) (k @ b) (int (length k))) (hheap t) (first_of r None) = Some (Some (a, n))"
      using row_lookup [OF inv k, of b] by auto
    then show ?thesis
      using Some hm_rel_node [OF rel] hm_invD(1,3) [OF inv] klen_ok(2) [of t k b] k index_ok [of t k b] s
      by (auto simp: hashmap_find_node_def flag)
  qed
qed

lemma find_ok:
  assumes "hm_rel t m" and "valid_key (keysize t) k" and "splay t \<le> 0"
  shows "hashmap_find (Some t) (k @ b) = Some (case m k of None \<Rightarrow> NULL | Some v \<Rightarrow> v, Some t)"
    and "hashmap_find2 (Some t) (k @ b) = Some (case m k of None \<Rightarrow> 0 | Some v \<Rightarrow> 1, m k, Some t)"
proof -
  obtain hn where hn: "hashmap_find_node t (k @ b) = Some (hn, t)" "map_option hdata hn = m k" using find_node [OF assms] by blast
  show "hashmap_find (Some t) (k @ b) = Some (case m k of None \<Rightarrow> NULL | Some v \<Rightarrow> v, Some t)"
    and "hashmap_find2 (Some t) (k @ b) = Some (case m k of None \<Rightarrow> 0 | Some v \<Rightarrow> 1, m k, Some t)"
    unfolding hn(2) [symmetric] by (cases hn; simp add: hashmap_find_def hashmap_find2_def hn(1))+
qed

text \<open>Unlinking and freeing a node at a known place of its row.\<close>

lemma free_node_links:
  assumes r: "dll hnext hprev h None (xs @ a # ys) None" "distinct (xs @ a # ys)" "h a = Some n"
  shows "\<exists>h2. unlink_nodes hnext hprev (\<lambda>a n. n\<lparr>hnext := a\<rparr>) (\<lambda>a n. n\<lparr>hprev := a\<rparr>) (h(a \<mapsto> n\<lparr>hkey := None\<rparr>)) (n\<lparr>hkey := None\<rparr>) = Some h2
    \<and> dll hnext hprev (h2(a := None)) None (xs @ ys) None \<and> hprev n = last_of None xs \<and> hnext n = first_of ys None
    \<and> (\<forall>c. c \<notin> set (xs @ a # ys) \<longrightarrow> h2 c = h c) \<and> (\<forall>c. c \<noteq> a \<longrightarrow> hpay h2 c = hpay h c)"
proof -
  let ?n = "n\<lparr>hkey := None\<rparr>" and ?h = "h(a \<mapsto> n\<lparr>hkey := None\<rparr>)"
  have "dll hnext hprev ?h None (xs @ a # ys) None"
    using r(1,3) by (subst dll_links_cong [of _ _ _ ?h h]) auto
  moreover have "?h a = Some ?n" by simp
  ultimately obtain h2 where h2: "unlink_nodes hnext hprev (\<lambda>a n. n\<lparr>hnext := a\<rparr>) (\<lambda>a n. n\<lparr>hprev := a\<rparr>) ?h ?n = Some h2"
    "dll hnext hprev h2 None (xs @ ys) None" "hprev ?n = last_of None xs" "hnext ?n = first_of ys None"
    "\<forall>c. c \<notin> set (xs @ ys) \<longrightarrow> h2 c = ?h c"
    using row.unlink_ok [OF _ r(2)] by blast
  have "hpay h2 c = hpay ?h c" for c
    using row.unlink_payload [OF h2(1), of "\<lambda>n. (hkey n, hdata n)" c] by (simp add: hpay_def)
  then have "\<forall>c. c \<noteq> a \<longrightarrow> hpay h2 c = hpay h c" by (simp add: hpay_def)
  moreover have "dll hnext hprev (h2(a := None)) None (xs @ ys) None" using h2(2) r(2) by simp
  moreover have "\<forall>c. c \<notin> set (xs @ a # ys) \<longrightarrow> h2 c = h c" using h2(5) by simp
  ultimately show ?thesis using h2(1,3,4) by auto
qed

definition data_freed :: "hashmap \<Rightarrow> ptr \<Rightarrow> ptr list" where
  "data_freed t v = (if userfree t \<and> v \<noteq> NULL then freed_data t @ [v] else freed_data t)"

lemma free_node_ok:
  assumes inv: "hm_inv t rows" and i: "i < length rows" and r: "rows ! i = xs @ a # ys" and n: "hheap t a = Some n"
  shows "\<exists>h. hashmap_free_node t (int i) a = Some (HASHMAP_OK, t\<lparr>table := (table t)[i := first_of (xs @ ys) None],
      hheap := h(a := None), freed_data := data_freed t (hdata n), hcount := hcount t - 1\<rparr>)
    \<and> dll hnext hprev (h(a := None)) None (xs @ ys) None \<and> (\<forall>c. c \<notin> set (xs @ a # ys) \<longrightarrow> h c = hheap t c)
    \<and> (\<forall>c. c \<noteq> a \<longrightarrow> hpay h c = hpay (hheap t) c)"
proof -
  have d: "dll hnext hprev (hheap t) None (xs @ a # ys) None" "distinct (xs @ a # ys)"
    using hm_row [OF inv i] unfolding r by metis+
  let ?h = "(hheap t)(a \<mapsto> n\<lparr>hkey := None\<rparr>)"
  obtain h where h: "unlink_nodes hnext hprev (\<lambda>a n. n\<lparr>hnext := a\<rparr>) (\<lambda>a n. n\<lparr>hprev := a\<rparr>) ?h (n\<lparr>hkey := None\<rparr>) = Some h"
    "dll hnext hprev (h(a := None)) None (xs @ ys) None" "hprev n = last_of None xs" "hnext n = first_of ys None"
    "\<forall>c. c \<notin> set (xs @ a # ys) \<longrightarrow> h c = hheap t c" "\<forall>c. c \<noteq> a \<longrightarrow> hpay h c = hpay (hheap t) c"
    using free_node_links [OF d n] by blast
  have e: "hprev (n\<lparr>hkey := None\<rparr>) = hprev n" "hnext (n\<lparr>hkey := None\<rparr>) = hnext n" by simp_all
  note u = h(1) [unfolded unlink_nodes_def e]
  have tab: "rd (table t) (int i) = Some (first_of (xs @ a # ys) None)" "table t ! i = first_of (xs @ a # ys) None"
    using hm_invD(5) [OF inv] i r by simp_all
  have len: "i < length (table t)" using hm_invD(5) [OF inv] i by simp
  have step: "hashmap_free_node t (int i) a = Some (HASHMAP_OK, t\<lparr>table := (table t)[i := first_of (xs @ ys) None],
      hheap := h(a := None), freed_data := data_freed t (hdata n), hcount := hcount t - 1\<rparr>)"
  proof (cases "xs = []")
    case True
    then show ?thesis using n u h(3,4) tab len
      by (cases "first_of ys None") (auto simp: hashmap_free_node_def hset_def data_freed_def Let_def)
  next
    case False
    then obtain p where p: "hprev n = Some p" using h(3) by (simp add: last_of_def)
    have "(table t)[i := first_of (xs @ ys) None] = table t" using tab(2) False by (cases xs) (auto simp: list_update_same_conv len)
    then show ?thesis using n u p tab
      by (auto simp: hashmap_free_node_def hset_Some data_freed_def Let_def bind_eq_Some_conv)
  qed
  show ?thesis using step h(2,5,6) by blast
qed

definition removed_node :: "hashmap \<Rightarrow> nat option list \<Rightarrow> hnode heap \<Rightarrow> ptr \<Rightarrow> hashmap" where
  "removed_node t tab h v = t\<lparr>table := tab, hheap := h, freed_data := data_freed t v, hcount := hcount t - 1\<rparr>"

lemma remove_old:
  assumes rel: "hm_rel t m" and k: "valid_key (keysize t) k" and old: "m k = Some v"
  shows "\<exists>tab h. hashmap_remove t (k @ b) = Some (HASHMAP_OK, removed_node t tab h v) \<and> hm_rel (removed_node t tab h v) (m(k := None))"
proof -
  obtain rows where inv: "hm_inv t rows" using rel by (auto simp: hm_rel_def)
  note d = hm_invD [OF inv]
  let ?i = "key_row t k"
  have "\<not> (\<forall>a d. hpay (hheap t) a \<noteq> Some (Some k, d))" using old hm_rel_None [OF rel, of k] by simp
  then obtain a n where i: "?i < length rows" and tab: "rd (table t) (int ?i) = Some (first_of (rows ! ?i) None)"
    and a: "a \<in> set (rows ! ?i)" "hheap t a = Some n" "hkey n = Some k"
    and find: "row_find (same_key t (0 < keysize t) (k @ b) (int (length k))) (hheap t) (first_of (rows ! ?i) None) = Some (Some (a, n))"
    using row_lookup [OF inv k, of b] by auto
  have v: "hdata n = v" using hm_rel_node [OF rel a(2,3)] old by simp
  obtain xs ys where r: "rows ! ?i = xs @ a # ys" using a(1) by (meson split_list)
  obtain h where h: "hashmap_free_node t (int ?i) a = Some (HASHMAP_OK, t\<lparr>table := (table t)[?i := first_of (xs @ ys) None],
      hheap := h(a := None), freed_data := data_freed t (hdata n), hcount := hcount t - 1\<rparr>)"
    "dll hnext hprev (h(a := None)) None (xs @ ys) None" "\<forall>c. c \<notin> set (xs @ a # ys) \<longrightarrow> h c = hheap t c"
    "\<forall>c. c \<noteq> a \<longrightarrow> hpay h c = hpay (hheap t) c" using free_node_ok [OF inv i r a(2)] by blast
  have rr: "distinct (xs @ a # ys)" "set (xs @ a # ys) \<subseteq> dom (hheap t)"
    using hm_row [OF inv i] unfolding r by (metis Un_upper2 le_sup_iff sup_ge1)+
  let ?h = "h(a := None)"
  have pay: "hpay ?h c = (if c = a then None else hpay (hheap t) c)" for c using h(4) by (simp add: hpay_def)
  have "hm_inv (t\<lparr>table := (table t)[?i := first_of (xs @ ys) None], hheap := ?h, brk := brk t, hcount := hcount t - 1\<rparr>) (rows[?i := xs @ ys])"
  proof (rule new_row [OF inv i h(2)], unfold r)
    show "distinct (xs @ ys)" using rr(1) by simp
    show "\<forall>c. c \<notin> set (xs @ a # ys) \<union> set (xs @ ys) \<longrightarrow> ?h c = hheap t c" using h(3) by simp
    show "\<forall>c\<in>set (xs @ ys). c \<in> set (xs @ a # ys) \<or> c \<notin> dom (hheap t)" by simp
    have "dom (hpay ?h) = dom (hpay (hheap t)) - {a}" using pay by (auto simp: dom_def)
    then show "dom ?h = (dom (hheap t) - set (xs @ a # ys)) \<union> set (xs @ ys)" using rr unfolding dom_hpay by auto
    have "set (xs @ ys) \<subseteq> dom (hheap t)" using rr(2) by simp
    then show "\<forall>c\<in>set (xs @ ys). c < brk t" using d(10) by blast
    show "\<forall>c\<in>set (xs @ ys). \<exists>k d. hpay ?h c = Some (Some k, d) \<and> valid_key (keysize t) k \<and> key_row t k = ?i"
      using d(11) [OF i] rr(1) unfolding r pay by auto
    show "\<forall>c e q x y. hpay ?h c = Some (Some q, x) \<longrightarrow> hpay ?h e = Some (Some q, y) \<longrightarrow> c = e"
      unfolding pay using d(12) by (auto split: if_splits)
  qed simp_all
  then have inv': "\<exists>rows. hm_inv (removed_node t ((table t)[?i := first_of (xs @ ys) None]) ?h v) rows"
    by (intro exI [of _ "rows[?i := xs @ ys]"]) (simp add: removed_node_def hm_inv_def key_row_def)
  have ka: "hpay (hheap t) a = Some (Some k, v)" using a v by (simp add: hpay_def)
  have map: "(m(k := None)) q = Some e \<longleftrightarrow> (\<exists>c. hpay ?h c = Some (Some q, e))" for q e
  proof (cases "q = k")
    case True
    then show ?thesis using d(12) ka unfolding pay by (auto split: if_splits)
  next
    case False
    then show ?thesis using rel ka unfolding pay hm_rel_def
      by (metis (no_types, lifting) fun_upd_apply option.distinct(1) option.inject prod.inject)
  qed
  have "hashmap_remove t (k @ b) = hashmap_free_node t (int ?i) a"
    using klen_ok(1) [OF d(3) k, of b] index_ok [OF d(1), of k b] tab find by (simp add: hashmap_remove_def)
  moreover have "hm_rel (removed_node t ((table t)[?i := first_of (xs @ ys) None]) ?h v) (m(k := None))"
    using inv' map by (simp add: hm_rel_def removed_node_def)
  ultimately show ?thesis using h(1) v by (intro exI) (simp add: removed_node_def)
qed

lemma remove_none:
  assumes rel: "hm_rel t m" and k: "valid_key (keysize t) k" and "m k = None"
  shows "hashmap_remove t (k @ b) = Some (HASHMAP_ERR, t)"
proof -
  obtain rows where inv: "hm_inv t rows" using rel by (auto simp: hm_rel_def)
  have "\<forall>a d. hpay (hheap t) a \<noteq> Some (Some k, d)" using hm_rel_None [OF rel] assms(3) by blast
  then show ?thesis
    using row_lookup [OF inv k, of b] hm_invD(1,3) [OF inv] klen_ok(1) [of t k b] k index_ok [of t k b]
    by (auto simp: hashmap_remove_def hpay_Some)
qed

section \<open>The contract of a map, and histories of operations\<close>

datatype ('k, 'v) map_op = Put 'k 'v | Get 'k | Del 'k
datatype 'v map_res = Done bool | Value "'v option"

fun op_key :: "('k, 'v) map_op \<Rightarrow> 'k" where
  "op_key (Put k v) = k"
| "op_key (Get k) = k"
| "op_key (Del k) = k"

text \<open>What a finite map answers. An addition does not replace an entry.\<close>

fun map_spec :: "('k, 'v) map_op list \<Rightarrow> ('k \<rightharpoonup> 'v) \<Rightarrow> 'v map_res list" where
  "map_spec [] m = []"
| "map_spec (Put k v # ops) m = (if m k = None then Done True # map_spec ops (m(k \<mapsto> v)) else Done False # map_spec ops m)"
| "map_spec (Get k # ops) m = Value (m k) # map_spec ops m"
| "map_spec (Del k # ops) m = Done (m k \<noteq> None) # map_spec ops (m(k := None))"

fun map_run ::
  "('s \<Rightarrow> 'k \<Rightarrow> 'v \<Rightarrow> (bool \<times> 's) option) \<Rightarrow> ('s \<Rightarrow> 'k \<Rightarrow> ('v option \<times> 's) option) \<Rightarrow> ('s \<Rightarrow> 'k \<Rightarrow> (bool \<times> 's) option)
    \<Rightarrow> ('k, 'v) map_op list \<Rightarrow> 's \<Rightarrow> 'v map_res list option" where
  "map_run put get del [] s = Some []"
| "map_run put get del (Put k v # ops) s = do { (b, s') \<leftarrow> put s k v; map_option (\<lambda>rs. Done b # rs) (map_run put get del ops s') }"
| "map_run put get del (Get k # ops) s = do { (v, s') \<leftarrow> get s k; map_option (\<lambda>rs. Value v # rs) (map_run put get del ops s') }"
| "map_run put get del (Del k # ops) s = do { (b, s') \<leftarrow> del s k; map_option (\<lambda>rs. Done b # rs) (map_run put get del ops s') }"

locale map_store =
  fixes rel :: "'s \<Rightarrow> ('k \<rightharpoonup> 'v) \<Rightarrow> bool" and valid :: "'k \<Rightarrow> bool"
    and put :: "'s \<Rightarrow> 'k \<Rightarrow> 'v \<Rightarrow> (bool \<times> 's) option"
    and get :: "'s \<Rightarrow> 'k \<Rightarrow> ('v option \<times> 's) option"
    and del :: "'s \<Rightarrow> 'k \<Rightarrow> (bool \<times> 's) option"
  assumes put_new: "rel s m \<Longrightarrow> valid k \<Longrightarrow> m k = None \<Longrightarrow> \<exists>s'. put s k v = Some (True, s') \<and> rel s' (m(k \<mapsto> v))"
    and put_old: "rel s m \<Longrightarrow> valid k \<Longrightarrow> m k \<noteq> None \<Longrightarrow> \<exists>s'. put s k v = Some (False, s') \<and> rel s' m"
    and get_val: "rel s m \<Longrightarrow> valid k \<Longrightarrow> \<exists>s'. get s k = Some (m k, s') \<and> rel s' m"
    and del_val: "rel s m \<Longrightarrow> valid k \<Longrightarrow> \<exists>s'. del s k = Some (m k \<noteq> None, s') \<and> rel s' (m(k := None))"
begin

lemma run_spec:
  "rel s m \<Longrightarrow> \<forall>op\<in>set ops. valid (op_key op) \<Longrightarrow> map_run put get del ops s = Some (map_spec ops m)"
proof (induction ops arbitrary: s m)
  case (Cons op ops)
  show ?case
  proof (cases op)
    case (Put k v)
    have k: "valid k" "\<forall>op\<in>set ops. valid (op_key op)" using Cons.prems(2) Put by simp_all
    show ?thesis
    proof (cases "m k = None")
      case True
      obtain s' where "put s k v = Some (True, s')" "rel s' (m(k \<mapsto> v))" using put_new [OF Cons.prems(1) k(1) True] by blast
      then show ?thesis using Cons.IH [OF _ k(2)] True Put by (simp add: fun_upd_def)
    next
      case False
      obtain s' where "put s k v = Some (False, s')" "rel s' m" using put_old [OF Cons.prems(1) k(1) False] by blast
      then show ?thesis using Cons.IH [OF _ k(2)] False Put by simp
    qed
  next
    case (Get k)
    then show ?thesis using Cons get_val [of s m k] by auto
  next
    case (Del k)
    then show ?thesis using Cons del_val [of s m k] by fastforce
  qed
qed simp

end

text \<open>The hash map keeps the contract, for keys of its kind, when memory does not run out and it is not in splay mode.\<close>

definition hm_put :: "hashmap \<Rightarrow> string \<Rightarrow> ptr \<Rightarrow> (bool \<times> hashmap) option" where
  "hm_put t k v = do { (r, mt) \<leftarrow> hashmap_add True True (Some t) k v; t' \<leftarrow> mt; Some (r = HASHMAP_OK, t') }"

definition hm_get :: "hashmap \<Rightarrow> string \<Rightarrow> (ptr option \<times> hashmap) option" where
  "hm_get t k = do { (r, v, mt) \<leftarrow> hashmap_find2 (Some t) k; t' \<leftarrow> mt; Some (if r = 0 then None else v, t') }"

definition hm_del :: "hashmap \<Rightarrow> string \<Rightarrow> (bool \<times> hashmap) option" where
  "hm_del t k = do { (r, t') \<leftarrow> hashmap_remove t k; Some (r = HASHMAP_OK, t') }"

definition hm_keeps :: "int \<Rightarrow> hashmap \<Rightarrow> (string \<rightharpoonup> ptr) \<Rightarrow> bool" where
  "hm_keeps ks t m \<longleftrightarrow> hm_rel t m \<and> keysize t = ks \<and> splay t \<le> 0"

interpretation hm: map_store "hm_keeps ks" "valid_key ks" hm_put hm_get hm_del for ks :: int
proof
  fix t m k v
  assume "hm_keeps ks t m" "valid_key ks k" "m k = None"
  then show "\<exists>t'. hm_put t k v = Some (True, t') \<and> hm_keeps ks t' (m(k \<mapsto> v))"
    using add_new [of t m k True "[]" v] by (auto simp: hm_keeps_def hm_put_def added_node_def)
next
  fix t m k v
  assume "hm_keeps ks t m" "valid_key ks k" "m k \<noteq> None"
  then show "\<exists>t'. hm_put t k v = Some (False, t') \<and> hm_keeps ks t' m"
    using add_old [of t m k True True "[]" v] hm_rel_cnode [of t m]
    by (auto simp: hm_keeps_def hm_put_def HASHMAP_OK_def HASHMAP_INTABLE_def)
next
  fix t m k
  assume "hm_keeps ks t m" "valid_key ks k"
  then show "\<exists>t'. hm_get t k = Some (m k, t') \<and> hm_keeps ks t' m"
    using find_ok(2) [of t m k "[]"] by (auto simp: hm_keeps_def hm_get_def split: option.split)
next
  fix t m k
  assume a: "hm_keeps ks t m" "valid_key ks k"
  show "\<exists>t'. hm_del t k = Some (m k \<noteq> None, t') \<and> hm_keeps ks t' (m(k := None))"
  proof (cases "m k")
    case None
    then have "m(k := None) = m" by auto
    then show ?thesis using a None remove_none [of t m k "[]"]
      by (simp add: hm_keeps_def hm_del_def HASHMAP_OK_def HASHMAP_ERR_def)
  next
    case (Some v)
    then show ?thesis using a remove_old [of t m k v "[]"] by (auto simp: hm_keeps_def hm_del_def removed_node_def)
  qed
qed

section \<open>A new map\<close>

lemma new_keeps:
  assumes "hashmap_new map_ok fcn_ok table_ok r1 r2 r3 r4 n ks uk ufree = Some (Some t)" and "0 \<le> ks" and "in_int n"
  shows "hm_keeps ks t Map.empty \<and> hm_inv t (replicate (nat (nrows t)) []) \<and> freed_data t = [] \<and> userfree t = ufree"
proof -
  obtain n1 f where n1: "(if 0 < n then nearest_prime n else ck_int (- n)) = Some n1" and f: "hash_fcn_new fcn_ok r1 r2 r3 r4 n1 = Some (Some f)"
    and i: "in_int (8 * n1)" and t: "t = \<lparr>fcn = f, keysize = ks, userkey = uk, table = replicate (nat n1) None,
                            nrows = n1, hcount = 0, userfree = ufree, crow = 0, cnode = None, splay = 0,
                            hheap = Map.empty, brk = 0, freed_data = []\<rparr>"
    using assms(1) unfolding hashmap_new_def by (auto simp: bind_eq_Some_conv split: if_splits option.splits)
  have "0 \<le> n1" using n1 nearest_prime_range [of n] assms(3) by (auto simp: ck_int_def in_int_def split: if_splits)
  moreover have "n1 \<noteq> 0" and k: "keycmp_op f = cmp_bytes" using f by (auto simp: hash_fcn_new_def bind_eq_Some_conv split: if_splits)
  moreover have "n1 \<le> INT_MAX" using i by (simp add: in_int_def)
  moreover have "key_ops_ok f" using k cmp_bytes_zero by (simp add: key_ops_ok_def)
  ultimately have "hm_inv t (replicate (nat n1) [])"
    using assms(2) unfolding t hm_inv_def by (auto simp: hpay_def map_replicate_const)
  then show ?thesis unfolding t hm_keeps_def hm_rel_def by (auto simp: hpay_def)
qed

section \<open>Iterating visits every node once\<close>

text \<open>The nodes still to come, for an iterator that stands on the next node to return.\<close>

definition cursor :: "hashmap \<Rightarrow> nat list list \<Rightarrow> nat list \<Rightarrow> bool" where
  "cursor t rows todo \<longleftrightarrow> todo = [] \<and> cnode t = None
     \<or> (\<exists>j xs a ys. crow t = int j \<and> j < length rows \<and> rows ! j = xs @ a # ys \<and> cnode t = Some a
          \<and> todo = a # ys @ concat (drop (Suc j) rows))"

lemma next_row_ok:
  assumes "table t = map (\<lambda>r. first_of r None) rows" and "int (length rows) = nrows t" and "j \<le> length rows"
  shows "\<exists>row c. next_row t (int j) = Some (row, c) \<and> cursor (t\<lparr>crow := row, cnode := c\<rparr>) rows (concat (drop j rows))"
  using assms(3)
proof (induction "length rows - j" arbitrary: j)
  case 0
  then have "next_row t (int j) = Some (int j, None)" using assms(2) by (subst next_row.simps) simp
  then show ?case using 0 by (simp add: cursor_def)
next
  case (Suc n)
  then have j: "j < length rows" by simp
  then have tab: "rd (table t) (int j) = Some (first_of (rows ! j) None)" and d: "drop j rows = rows ! j # drop (Suc j) rows"
    using assms(1) by (simp_all add: Cons_nth_drop_Suc)
  show ?case
  proof (cases "rows ! j")
    case Nil
    have "\<exists>row c. next_row t (int (Suc j)) = Some (row, c) \<and> cursor (t\<lparr>crow := row, cnode := c\<rparr>) rows (concat (drop (Suc j) rows))"
      using Suc by (intro Suc.hyps(1)) auto
    then show ?thesis using Nil tab d j assms(2) by (simp add: next_row.simps [of _ "int j"] add.commute)
  next
    case (Cons a ys)
    have "next_row t (int j) = Some (int j, Some a)" using Cons tab j assms(2) by (simp add: next_row.simps [of _ "int j"])
    moreover have "cursor (t\<lparr>crow := int j, cnode := Some a\<rparr>) rows (concat (drop j rows))"
      using Cons d j unfolding cursor_def by (intro disjI2 exI [of _ j] exI [of _ "[]"] exI [of _ a] exI [of _ ys]) simp
    ultimately show ?thesis by blast
  qed
qed

lemma next_ok:
  assumes inv: "hm_inv t rows" and c: "cursor t rows (a # todo)"
  shows "cnode t = Some a \<and> (\<exists>row c'. hashmap_next t = Some (t\<lparr>crow := row, cnode := c'\<rparr>) \<and> cursor (t\<lparr>crow := row, cnode := c'\<rparr>) rows todo)"
proof -
  obtain j xs ys where j: "crow t = int j" "j < length rows" "rows ! j = xs @ a # ys" "cnode t = Some a" "todo = ys @ concat (drop (Suc j) rows)"
    using c by (auto simp: cursor_def)
  have "dll hnext hprev (hheap t) None (xs @ a # ys) None" using hm_invD(7) [OF inv nth_mem [OF j(2)]] unfolding j(3) .
  then obtain n where n: "hheap t a = Some n" "hnext n = first_of ys None" by (auto simp: dll_append)
  show ?thesis
  proof (cases ys)
    case Nil
    obtain row c' where r: "next_row t (int (Suc j)) = Some (row, c')" "cursor (t\<lparr>crow := row, cnode := c'\<rparr>) rows (concat (drop (Suc j) rows))"
      using next_row_ok [OF hm_invD(5,6) [OF inv], of "Suc j"] j(2) by auto
    then have "hashmap_next t = Some (t\<lparr>crow := row, cnode := c'\<rparr>)" using Nil n j by (simp add: hashmap_next_def add.commute)
    then show ?thesis using r(2) Nil j by auto
  next
    case (Cons y zs)
    have "hashmap_next t = Some (t\<lparr>crow := int j, cnode := Some y\<rparr>)" using Cons n j by (simp add: hashmap_next_def)
    moreover have "cursor (t\<lparr>crow := int j, cnode := Some y\<rparr>) rows todo"
      using Cons j unfolding cursor_def by (intro disjI2 exI [of _ j] exI [of _ "xs @ [a]"] exI [of _ y] exI [of _ zs]) simp
    ultimately show ?thesis using j(4) by blast
  qed
qed

text \<open>The client's loop \<open>for (n = hashmap_findfirst (t); n; n = hashmap_findnext (t))\<close>.\<close>

partial_function (option) visit_from :: "nat option \<times> hashmap \<Rightarrow> nat list \<Rightarrow> nat list option" where
  "visit_from p seen = (case fst p of
      None \<Rightarrow> Some seen
    | Some a \<Rightarrow> do { p' \<leftarrow> hashmap_findnext (snd p); visit_from p' (seen @ [a]) })"

definition visit_all :: "hashmap \<Rightarrow> nat list option" where
  "visit_all t = do { p \<leftarrow> hashmap_findfirst t; visit_from p [] }"

lemma visit_todo:
  "hm_inv t rows \<Longrightarrow> cursor t rows todo \<Longrightarrow> visit_from (Some a, t) seen = Some (seen @ a # todo)"
proof (induction todo arbitrary: t a seen)
  case Nil
  then have "cnode t = None" by (auto simp: cursor_def)
  then show ?case by (simp add: visit_from.simps hashmap_findnext_def)
next
  case (Cons b todo)
  obtain row c' where n: "cnode t = Some b" "hashmap_next t = Some (t\<lparr>crow := row, cnode := c'\<rparr>)"
    "cursor (t\<lparr>crow := row, cnode := c'\<rparr>) rows todo" using next_ok [OF Cons.prems] by blast
  have "hm_inv (t\<lparr>crow := row, cnode := c'\<rparr>) rows" using Cons.prems(1) by simp
  from Cons.IH [OF this n(3)] show ?case using n(1,2) by (simp add: visit_from.simps [of "(Some a, t)"] hashmap_findnext_def)
qed

lemma visit_rows:
  assumes inv: "hm_inv t rows"
  shows "visit_all t = Some (concat rows)"
proof -
  obtain row c where r: "next_row t 0 = Some (row, c)" "cursor (t\<lparr>crow := row, cnode := c\<rparr>) rows (concat rows)"
    using next_row_ok [OF hm_invD(5,6) [OF inv], of 0] by auto
  let ?t = "t\<lparr>crow := row, cnode := c\<rparr>"
  have inv': "hm_inv ?t rows" using inv by simp
  show ?thesis
  proof (cases "concat rows")
    case Nil
    have "c = None" using r(2) unfolding Nil cursor_def by auto
    then show ?thesis using Nil r(1) by (simp add: visit_all_def hashmap_findfirst_def visit_from.simps Let_def)
  next
    case (Cons a todo)
    then obtain row' c' where n: "c = Some a" "hashmap_next ?t = Some (?t\<lparr>crow := row', cnode := c'\<rparr>)"
      "cursor (?t\<lparr>crow := row', cnode := c'\<rparr>) rows todo" using next_ok [OF inv', of a todo] r(2) by auto
    have "hm_inv (?t\<lparr>crow := row', cnode := c'\<rparr>) rows" using inv by simp
    from visit_todo [OF this n(3)] show ?thesis
      using Cons r(1) n(1,2) hm_invD(1) [OF inv] by (simp add: visit_all_def hashmap_findfirst_def Let_def)
  qed
qed

section \<open>Deleting frees every node once\<close>

definition row_data :: "hnode heap \<Rightarrow> nat list \<Rightarrow> ptr list" where
  "row_data h r = filter (\<lambda>v. v \<noteq> NULL) (map (\<lambda>a. hdata (the (h a))) r)"

lemma delete_row_ok:
  "dll hnext hprev h p r None \<Longrightarrow> distinct r \<Longrightarrow>
   delete_row ufree h (first_of r None) freed = Some (h |` (- set r), freed @ (if ufree then row_data h r else []))"
proof (induction r arbitrary: h p freed)
  case Nil
  then show ?case by (simp add: delete_row.simps row_data_def)
next
  case (Cons a r)
  then obtain n where n: "h a = Some n" "hnext n = first_of r None" by auto
  let ?h = "h(a := None)"
  have "dll hnext hprev ?h (Some a) r None" using Cons.prems by simp
  then have ih: "delete_row ufree ?h (first_of r None) f = Some (?h |` (- set r), f @ (if ufree then row_data ?h r else []))" for f
    using Cons.IH [of ?h "Some a" f] Cons.prems(2) by (metis distinct.simps(2))
  have "map (\<lambda>a. hdata (the (?h a))) r = map (\<lambda>a. hdata (the (h a))) r" using Cons.prems(2) by auto
  then have rd: "row_data ?h r = row_data h r" unfolding row_data_def by (rule arg_cong)
  note ih = ih [unfolded rd]
  have "?h |` (- set r) = h |` (- set (a # r))" by (auto simp: restrict_map_def)
  note ih = ih [unfolded this]
  show ?case using n by (simp add: delete_row.simps [of _ _ "Some a"] ih [simplified] row_data_def)
qed

lemma delete_rows_ok:
  "\<forall>r\<in>set rows. dll hnext hprev h None r None \<Longrightarrow> distinct (concat rows) \<Longrightarrow>
   delete_rows ufree h (map (\<lambda>r. first_of r None) rows) freed
     = Some (h |` (- set (concat rows)), freed @ (if ufree then row_data h (concat rows) else []))"
proof (induction rows arbitrary: h freed)
  case Nil
  then show ?case by (simp add: row_data_def restrict_map_def)
next
  case (Cons r rows)
  let ?h = "h |` (- set r)"
  have dj: "set r \<inter> set (concat rows) = {}" using Cons.prems(2) by auto
  then have same: "?h c = h c" if "c \<in> set (concat rows)" for c using that by (auto simp: restrict_map_def)
  have "dll hnext hprev ?h None s None" if "s \<in> set rows" for s
    using Cons.prems(1) that same by (subst dll_cong [of s ?h h]) auto
  moreover have "row_data ?h (concat rows) = row_data h (concat rows)"
  proof -
    have "map (\<lambda>a. hdata (the (?h a))) (concat rows) = map (\<lambda>a. hdata (the (h a))) (concat rows)"
      using same by (intro map_cong) simp_all
    then show ?thesis unfolding row_data_def by (rule arg_cong)
  qed
  ultimately have ih: "delete_rows ufree ?h (map (\<lambda>r. first_of r None) rows) f
      = Some (?h |` (- set (concat rows)), f @ (if ufree then row_data h (concat rows) else []))" for f
    using Cons.IH [of ?h f] Cons.prems(2) by simp
  have "?h |` (- set (concat rows)) = h |` (- set (concat (r # rows)))" by (auto simp: restrict_map_def)
  then show ?case using delete_row_ok [of h None r ufree freed] Cons.prems ih by (simp add: row_data_def)
qed

section \<open>Splay mode\<close>

lemma splay_heap:
  assumes r: "dll hnext hprev h None (b # xs @ a # ys) None" "distinct (b # xs @ a # ys)" and n: "h a = Some n"
    and tab: "rd (table t) i = Some (Some b)" and t: "hheap t = h"
  shows "\<exists>h'. movetofront t i a = Some (t\<lparr>hheap := h'\<rparr>) \<and> dll hnext hprev h' (Some a) (b # xs @ ys) None \<and> hpay h' = hpay h"
proof -
  let ?u = "unlink_nodes hnext hprev (\<lambda>a n. n\<lparr>hnext := a\<rparr>) (\<lambda>a n. n\<lparr>hprev := a\<rparr>) h n"
  obtain h2 where h2: "?u = Some h2" "dll hnext hprev h2 None (b # xs @ ys) None" "h2 a = Some n"
    using row.unlink_ok [of h "b # xs" a ys n] r n by auto
  have pay2: "hpay h2 c = hpay h c" for c
    using row.unlink_payload [OF h2(1), of "\<lambda>n. (hkey n, hdata n)" c] by (simp add: hpay_def)
  let ?n = "n\<lparr>hprev := None, hnext := Some b\<rparr>"
  let ?h3 = "h2(a \<mapsto> ?n)"
  have d3: "dll hnext hprev ?h3 None (b # xs @ ys) None" using h2(2) r(2) by (subst dll_upd_other) auto
  obtain m where m: "?h3 b = Some m" "dll hnext hprev (?h3(b \<mapsto> m\<lparr>hprev := Some a\<rparr>)) (Some a) (b # xs @ ys) None"
    using row.dll_first_link [OF d3, of "Some a"] r(2) by auto
  let ?h4 = "?h3(b \<mapsto> m\<lparr>hprev := Some a\<rparr>)"
  have "hpay ?h4 = hpay h"
  proof
    fix c
    show "hpay ?h4 c = hpay h c" using pay2 [of c] n m(1) h2(3) by (cases "c = b"; cases "c = a") (auto simp: hpay_def)
  qed
  moreover have "movetofront t i a = Some (t\<lparr>hheap := ?h4\<rparr>)"
  proof -
    obtain h1 where h1: "(case hprev n of None \<Rightarrow> Some h | Some p \<Rightarrow> hset h p (\<lambda>m. m\<lparr>hnext := hnext n\<rparr>)) = Some h1"
      "(case hnext n of None \<Rightarrow> Some h1 | Some q \<Rightarrow> hset h1 q (\<lambda>m. m\<lparr>hprev := hprev n\<rparr>)) = Some h2"
      using h2(1) unfolding unlink_nodes_def by (auto simp: bind_eq_Some_conv)
    have "hset h2 a (\<lambda>m. m\<lparr>hprev := None, hnext := Some b\<rparr>) = Some ?h3" using h2(3) by (simp add: hset_def)
    moreover have "hset ?h3 b (\<lambda>m. m\<lparr>hprev := Some a\<rparr>) = Some ?h4" using m(1) by (simp add: hset_Some del: fun_upd_apply)
    moreover have "Some b \<noteq> Some a" using r(2) by auto
    ultimately show ?thesis using h1 n unfolding movetofront_def t tab by simp
  qed
  ultimately show ?thesis using m(2) by blast
qed

lemma splay_lost:
  assumes inv: "hm_inv t rows" and k: "valid_key (keysize t) k" and s: "0 < splay t"
    and r: "rows ! key_row t k = b # xs @ a # ys" and a: "hpay (hheap t) a = Some (Some k, v)"
  shows "\<exists>t'. hashmap_find (Some t) k = Some (v, Some t') \<and> hashmap_find (Some t') k = Some (NULL, Some t') \<and> hcount t' = hcount t"
proof -
  let ?i = "key_row t k"
  note d = hm_invD [OF inv]
  obtain n where n: "hheap t a = Some n" "hkey n = Some k" "hdata n = v" using a by (auto simp: hpay_Some)
  have "\<not> (\<forall>c e. hpay (hheap t) c \<noteq> Some (Some k, e))" using a by auto
  then obtain q nq where q0: "?i < length rows" "rd (table t) (int ?i) = Some (first_of (rows ! ?i) None)" "hheap t q = Some nq" "hkey nq = Some k"
    "row_find (same_key t (0 < keysize t) k (int (length k))) (hheap t) (first_of (rows ! ?i) None) = Some (Some (q, nq))"
    using row_lookup [OF inv k, of "[]"] by auto
  then have q: "?i < length rows" "rd (table t) (int ?i) = Some (first_of (rows ! ?i) None)"
    "row_find (same_key t (0 < keysize t) k (int (length k))) (hheap t) (first_of (rows ! ?i) None) = Some (Some (q, the (hheap t q)))"
    "hpay (hheap t) q = Some (Some k, hdata (the (hheap t q)))"
    by (simp_all add: hpay_Some)
  have qa: "q = a" using d(12) [OF q(4) a] .
  have row: "dll hnext hprev (hheap t) None (b # xs @ a # ys) None" "distinct (b # xs @ a # ys)"
    using hm_row [OF inv q(1)] unfolding r by metis+
  obtain h' where h': "movetofront t (int ?i) a = Some (t\<lparr>hheap := h'\<rparr>)" "dll hnext hprev h' (Some a) (b # xs @ ys) None" "hpay h' = hpay (hheap t)"
    using splay_heap [OF row n(1), of t "int ?i"] q(2) unfolding r by auto
  let ?t = "t\<lparr>hheap := h'\<rparr>"
  have flag: "(keysize t \<noteq> 0) = (0 < keysize t)" using d(3) by auto
  have klen: "(if keysize t \<noteq> 0 then Some (keysize t) else string_klen k) = Some (int (length k))"
    using klen_ok(2) [OF d(3) k, of "[]"] unfolding append_Nil2 .
  have idx: "hash_index t k (int (length k)) = Some (int ?i)" using index_ok [OF d(1), of k "[]"] by simp
  have "key_row ?t k = ?i" by (simp add: key_row_def)
  then have idx': "hash_index ?t k (int (length k)) = Some (int ?i)" using index_ok [of ?t k "[]"] d(1) by simp
  have first: "hashmap_find (Some t) k = Some (v, Some ?t)"
    using q(2,3) qa n h'(1) klen idx s by (simp add: hashmap_find_def hashmap_find_node_def flag)
  have "same_key ?t (0 < keysize t) k (int (length k)) m = Some False" if c: "c \<in> set (b # xs @ ys)" "h' c = Some m" for c m
  proof -
    have "c \<in> set (rows ! ?i)" "c \<noteq> a" using c(1) row(2) unfolding r by auto
    then obtain k' e where k': "hpay (hheap t) c = Some (Some k', e)" "valid_key (keysize t) k'" using d(11) [OF q(1)] by blast
    have "k' \<noteq> k" using d(12) [OF k'(1), of a v] a \<open>c \<noteq> a\<close> by auto
    moreover have "hpay h' c = Some (Some k', e)" using k'(1) h'(3) by simp
    then have "hkey m = Some k'" using c(2) by (auto simp: hpay_Some)
    ultimately show ?thesis using same_ok [of ?t k k' m "[]"] d(3,4) k k'(2) by simp
  qed
  then have "row_find (same_key ?t (0 < keysize t) k (int (length k))) h' (first_of (b # xs @ ys) None) = Some None"
    using row_find_dll [OF h'(2), of "same_key ?t (0 < keysize t) k (int (length k))" "\<lambda>_. False"] by (auto simp: find_None_iff)
  then have "hashmap_find (Some ?t) k = Some (NULL, Some ?t)"
    using q(2) klen idx' unfolding r
    by (cases "keysize t = 0") (simp_all add: hashmap_find_def hashmap_find_node_def flag [symmetric])
  then show ?thesis using first by auto
qed

section \<open>Properties\<close>


definition sample_map :: hashmap where
  "sample_map = the (the (hashmap_new True True True 1 2 3 4 (- 2) 0 0 True))"

lemma sample_map_new: "hashmap_new True True True 1 2 3 4 (- 2) 0 0 True = Some (Some sample_map)"
proof -
  have "\<exists>p. nearest_prime 3192 = Some p" "\<exists>p. nearest_prime 709 = Some p"
    using nearest_prime_range [of 3192] nearest_prime_range [of 709] by (auto simp: INT_MAX_def)
  then have "\<exists>f. hash_fcn_new True 1 2 3 4 2 = Some (Some f)"
    by (auto simp: hash_fcn_new_def ck_int_def in_int_def INT_MAX_def signed_modulo_int_def)
  then show ?thesis by (auto simp: sample_map_def hashmap_new_def ck_int_def in_int_def INT_MAX_def)
qed


text \<open>C26. Iterating with \<open>hashmap_findfirst\<close> and \<open>hashmap_findnext\<close> ends and visits every node of the map exactly once.\<close>

theorem hashmap_iterates_once:
  assumes "hm_rel t m"
  shows "\<exists>xs. visit_all t = Some xs \<and> distinct xs \<and> set xs = dom (hheap t)
    \<and> (\<forall>k v. m k = Some v \<longleftrightarrow> (\<exists>a\<in>set xs. hpay (hheap t) a = Some (Some k, v)))"
proof -
  obtain rows where inv: "hm_inv t rows" using assms by (auto simp: hm_rel_def)
  have "\<forall>k v. m k = Some v \<longleftrightarrow> (\<exists>a\<in>dom (hheap t). hpay (hheap t) a = Some (Some k, v))"
    using assms unfolding hm_rel_def by (auto simp: hpay_def)
  then show ?thesis using visit_rows [OF inv] hm_invD(8,9) [OF inv] by auto
qed

definition two_keys :: hashmap where
  "two_keys = sample_map\<lparr>fcn := \<lparr>params = (0, 0, 0), hash_op = \<lambda>_ _. 0, keycmp_op = cmp_bytes\<rparr>, table := [Some 1, None], splay := 1, hcount := 2,
     brk := 2, hheap := [0 \<mapsto> \<lparr>hnext = None, hprev = Some 1, hkey = Some (''a'' @ [NUL]), hdata = At 1\<rparr>,
              1 \<mapsto> \<lparr>hnext = Some 0, hprev = None, hkey = Some (''b'' @ [NUL]), hdata = At 2\<rparr>]\<rparr>"

lemma sample_map_sizes: "nrows sample_map = 2" "keysize sample_map = 0"
proof -
  have *: "\<exists>f. sample_map = \<lparr>fcn = f, keysize = 0, userkey = 0, table = replicate 2 None, nrows = 2, hcount = 0, userfree = True,
      crow = 0, cnode = None, splay = 0, hheap = Map.empty, brk = 0, freed_data = []\<rparr>"
    using sample_map_new
    by (auto simp: hashmap_new_def bind_eq_Some_conv ck_int_def in_int_def INT_MAX_def split: option.splits) metis
  show "nrows sample_map = 2" using * by (metis hashmap.select_convs(5))
  show "keysize sample_map = 0" using * by (metis hashmap.select_convs(2))
qed

lemma two_keys_inv: "hm_inv two_keys [[1, 0], []]"
proof -
  note s = sample_map_sizes
  have "key_ops_ok (fcn two_keys)" using cmp_bytes_zero by (simp add: key_ops_ok_def two_keys_def)
  then show ?thesis
    by (auto simp: hm_inv_def two_keys_def s INT_MAX_def less_Suc_eq hpay_def valid_key_def key_row_def first_of_def split: if_splits)
qed

lemma hashmap_iterates_once_witness: "\<exists>xs. visit_all two_keys = Some xs \<and> distinct xs \<and> set xs = {0, 1}"
proof -
  have "hm_rel two_keys (\<lambda>k. if k = ''a'' @ [NUL] then Some (At 1) else if k = ''b'' @ [NUL] then Some (At 2) else None)"
    using two_keys_inv by (auto simp: hm_rel_def hpay_def two_keys_def)
  from hashmap_iterates_once [OF this] show ?thesis by (auto simp: two_keys_def)
qed

text \<open>C27. Deleting a map frees every node exactly once and hands the non-\<open>NULL\<close> data of every node still in it to the
  user's free function, once.\<close>

theorem hashmap_delete_frees_all:
  assumes "hm_rel t m"
  shows "\<exists>xs. hashmap_delete (Some t) = Some (Map.empty, freed_data t @ (if userfree t then row_data (hheap t) xs else []))
    \<and> distinct xs \<and> set xs = dom (hheap t)"
proof -
  obtain rows where inv: "hm_inv t rows" using assms by (auto simp: hm_rel_def)
  note d = hm_invD [OF inv]
  have "\<forall>r\<in>set rows. dll hnext hprev (hheap t) None r None" using d(7) by blast
  from delete_rows_ok [OF this d(8)] have "hashmap_delete (Some t)
      = Some (hheap t |` (- set (concat rows)), freed_data t @ (if userfree t then row_data (hheap t) (concat rows) else []))"
    using d(5) by (simp add: hashmap_delete_def)
  moreover have "hheap t |` (- set (concat rows)) = Map.empty" using d(9) by (auto simp: restrict_map_def)
  ultimately show ?thesis using d(8,9) by (intro exI [of _ "concat rows"]) simp
qed

lemma hashmap_delete_frees_all_witness: "\<exists>freed. hashmap_delete (Some two_keys) = Some (Map.empty, freed)"
proof -
  have "hm_rel two_keys (\<lambda>k. if k = ''a'' @ [NUL] then Some (At 1) else if k = ''b'' @ [NUL] then Some (At 2) else None)"
    using two_keys_inv by (auto simp: hm_rel_def hpay_def two_keys_def)
  from hashmap_delete_frees_all [OF this] show ?thesis by blast
qed

text \<open>In splay mode a lookup loses the entry it finds, unless it is the first of its row: the lookup returns the
  data, and the next lookup of the same key returns \<open>NULL\<close>, while the count still includes the entry.\<close>

theorem hashmap_splay_loses_entry:
  assumes "hm_inv t rows" and "valid_key (keysize t) k" and "0 < splay t"
    and "rows ! key_row t k = b # xs @ a # ys" and "hpay (hheap t) a = Some (Some k, v)"
  shows "\<exists>t'. hashmap_find (Some t) k = Some (v, Some t') \<and> hashmap_find (Some t') k = Some (NULL, Some t') \<and> hcount t' = hcount t"
  by (rule splay_lost [OF assms])

lemma hashmap_splay_loses_entry_witness:
  "\<exists>t'. hashmap_find (Some two_keys) (''a'' @ [NUL]) = Some (At 1, Some t')
    \<and> hashmap_find (Some t') (''a'' @ [NUL]) = Some (NULL, Some t') \<and> hcount t' = hcount two_keys"
proof -
  note s = sample_map_sizes
  show ?thesis
    by (rule hashmap_splay_loses_entry [OF two_keys_inv, of _ 1 "[]" 0 "[]"])
      (simp_all add: two_keys_def s valid_key_def key_row_def hpay_def)
qed

end
