(* ===== verification/Udp.thy ===== *)
theory Udp
  imports Enetwork
begin

text \<open>
  The socket helpers of the second version of the library: \<open>network_util.c\<close> and the datagram functions of
  \<open>udp.c\<close>. They work on the kernel state of \<open>Enetwork\<close>. What \<open>sendto\<close>, \<open>recvfrom\<close> and \<open>ioctl\<close> answer are
  arguments; \<open>sun_path\<close> and \<open>ifr_name\<close> are blocks of their sizes, so that a copy that does not fit is
  \<open>None\<close>. A path, a name or an address is a C string without its terminator.
\<close>

section \<open>network_util.c\<close>

definition IFNAMSIZ :: int where "IFNAMSIZ = 16"

definition set_non_blocking :: "net_sys \<Rightarrow> int \<Rightarrow> net_state \<Rightarrow> int \<times> net_state" where
  "set_non_blocking os sock_fd st =
     (let opts = ret_getfl os in
      if opts < 0 then (0, st)
      else let opts = opts OR O_NONBLOCK in
        if ret_setfl os < 0 then (0, st)
        else (1, st\<lparr>fd_flags := (fd_flags st)(sock_fd := opts)\<rparr>))"

definition set_reuse_addr :: "net_sys \<Rightarrow> int \<Rightarrow> int" where
  "set_reuse_addr os sock_fd = (if ret_setsockopt os < 0 then 0 else 1)"

text \<open>
  \<open>nic_get_ip (char *name, char *ip, int ip_size)\<close>: the address of a network interface. The text of the
  address \<open>ioctl\<close> finds is the argument; its failure leaves the field indeterminate, and the code reads it.
\<close>

definition nic_get_ip ::
  "net_sys \<Rightarrow> (string \<Rightarrow> string option) \<Rightarrow> string \<Rightarrow> string \<Rightarrow> int \<Rightarrow> net_state \<Rightarrow> (int \<times> string \<times> net_state) option" where
  "nic_get_ip os ioctl name ip ip_size st = do {
     ip \<leftarrow> bzero ip 0 ip_size;
     let fd = ret_socket os;
     let st1 = sys_socket os st;
     if fd < 0 then Some (0, ip, st1)
     else do {
       _ \<leftarrow> memcpy (replicate (nat IFNAMSIZ) NUL) 0 (name @ [NUL]) 0 (int (length name) + 1);
       addr \<leftarrow> ioctl name;
       ip \<leftarrow> strncpy ip 0 (addr @ [NUL]) 0 (ip_size - 1);
       Some (1, ip, st1)
     }
   }"

section \<open>udp.c\<close>

definition sizeof_sockaddr_un :: int where "sizeof_sockaddr_un = 110"

definition EAGAIN :: int where "EAGAIN = 11"

definition udp_unix_socket_create :: "net_sys \<Rightarrow> string option \<Rightarrow> net_state \<Rightarrow> (int \<times> net_state) option" where
  "udp_unix_socket_create os unix_path st = (case unix_path of
      None \<Rightarrow> Some (-1, st)
    | Some path \<Rightarrow>
     (let sock_fd = ret_socket os; st1 = sys_socket os st in
      if sock_fd = -1 then Some (-1, st1)
      else let st2 = st1\<lparr>paths := paths st1 - {path}\<rparr> in
        do {
          sun_path \<leftarrow> strncpy (replicate (nat SUN_PATH_SIZE) NUL) 0 (path @ [NUL]) 0 (SUN_PATH_SIZE - 1);
          if ret_bind os < 0 then Some (-1, sys_close sock_fd st2)
          else Some (sock_fd, st2\<lparr>bound := (bound st2)(sock_fd := Some (Unix (cstr sun_path 0))),
                                  paths := insert (cstr sun_path 0) (paths st2)\<rparr>)
        }))"

text \<open>The result and, when the datagram leaves, where it goes and its bytes. \<open>sendto\<close> answers the bytes sent.\<close>

definition udp_unix_socket_send ::
  "(string \<Rightarrow> string \<Rightarrow> int) \<Rightarrow> int \<Rightarrow> string option \<Rightarrow> string \<Rightarrow> int \<Rightarrow> (int \<times> (string \<times> string) option) option" where
  "udp_unix_socket_send sendto fd peer_path buf sz = (case peer_path of
      None \<Rightarrow> Some (-1, None)
    | Some path \<Rightarrow> do {
        sun_path \<leftarrow> strncpy (replicate (nat SUN_PATH_SIZE) NUL) 0 (path @ [NUL]) 0 (sizeof_sockaddr_un - 1);
        msg \<leftarrow> rd_block buf 0 sz;
        let bytes_sent = sendto (cstr sun_path 0) msg;
        Some (bytes_sent, if bytes_sent = -1 then None else Some (cstr sun_path 0, msg))
      })"

text \<open>\<open>recvfrom\<close> answers an error number or a datagram, which it cuts to the size given.\<close>

definition udp_unix_socket_recv :: "int + string \<Rightarrow> int \<Rightarrow> string \<Rightarrow> int \<Rightarrow> (int \<times> string) option" where
  "udp_unix_socket_recv recvfrom fd buf sz = (case recvfrom of
      Inl errno \<Rightarrow> if EAGAIN = errno then Some (0, buf) else Some (-1, buf)
    | Inr msg \<Rightarrow> if sz < 0 then None else do {
        buf \<leftarrow> wr_block buf 0 (take (nat sz) msg);
        Some (int (length (take (nat sz) msg)), buf)
      })"

definition udp_unix_socket_close :: "int \<Rightarrow> net_state \<Rightarrow> net_state" where
  "udp_unix_socket_close fd st = sys_close fd st"

section \<open>Properties\<close>

text \<open>The two versions of the library set a descriptor to non-blocking mode the same way.\<close>

lemma set_non_blocking_eq: "set_non_blocking = sock_set_nonblocking"
  by (intro ext) (simp add: set_non_blocking_def sock_set_nonblocking_def)

lemma set_non_blocking_fds: "set_non_blocking os fd st = (ok, st') \<Longrightarrow> fds st' = fds st"
  by (auto simp: set_non_blocking_def Let_def split: if_splits)

text \<open>A block is too small for a copy that pads to more than its size.\<close>

lemma strncpy_overrun:
  assumes "NUL \<notin> set s" and "length b < nat n" and "0 \<le> n"
  shows "strncpy b 0 (s @ [NUL]) 0 n = None"
  using assms cstr_whole [OF assms(1)] by (auto simp: strncpy_def wr_block_def Let_def)

text \<open>Creating a datagram socket in the file system leaks no descriptor on any failure and touches no other one;
  a socket handed out is bound to the path cut to 107 characters. Sending to a peer never works as written:
  the copy of the peer's path is told the size of the whole \<open>sockaddr_un\<close> less one and pads to it, one byte past the end of
  the 108-byte \<open>sun_path\<close> and of the structure, whatever the path; only a \<open>NULL\<close> path is answered, with \<open>-1\<close>.\<close>

theorem udp_unix_socket_outcomes:
  assumes "ret_socket os \<notin> fds st" and "NUL \<notin> set path"
  shows "udp_unix_socket_create os None st = Some (-1, st)
    \<and> (\<exists>fd st'. udp_unix_socket_create os (Some path) st = Some (fd, st')
        \<and> (if fd = -1 then fds st' = fds st
           else fds st' = insert fd (fds st) \<and> fd \<notin> fds st \<and> bound st' fd = Some (Unix (take 107 path)))
        \<and> (\<forall>f\<in>fds st. bound st' f = bound st f \<and> fd_flags st' f = fd_flags st f))
    \<and> udp_unix_socket_send sendto fd (Some path) buf sz = None
    \<and> udp_unix_socket_send sendto fd None buf sz = Some (-1, None)"
proof (intro conjI)
  show "udp_unix_socket_create os None st = Some (-1, st)"
    "udp_unix_socket_send sendto fd None buf sz = Some (-1, None)"
    by (simp_all add: udp_unix_socket_create_def udp_unix_socket_send_def)
  show "udp_unix_socket_send sendto fd (Some path) buf sz = None"
    using strncpy_overrun [OF assms(2)] by (simp add: udp_unix_socket_send_def sizeof_sockaddr_un_def SUN_PATH_SIZE_def)
  obtain b where "strncpy (replicate (nat SUN_PATH_SIZE) NUL) 0 (path @ [NUL]) 0 (SUN_PATH_SIZE - 1) = Some b"
    "cstr b 0 = take 107 path"
    using cstr_strncpy [OF assms(2), of SUN_PATH_SIZE] by (auto simp: SUN_PATH_SIZE_def)
  then show "\<exists>fd st'. udp_unix_socket_create os (Some path) st = Some (fd, st')
        \<and> (if fd = -1 then fds st' = fds st
           else fds st' = insert fd (fds st) \<and> fd \<notin> fds st \<and> bound st' fd = Some (Unix (take 107 path)))
        \<and> (\<forall>f\<in>fds st. bound st' f = bound st f \<and> fd_flags st' f = fd_flags st f)"
    using assms(1) by (auto simp: udp_unix_socket_create_def sys_socket_def sys_close_def Let_def)
qed

theorem udp_unix_socket_outcomes_witness:
  "udp_unix_socket_send (\<lambda>_ m. int (length m)) 3 (Some ''/tmp/s'') ''hello'' 5 = None"
  using udp_unix_socket_outcomes [of demo_net demo_net_state "''/tmp/s''" "\<lambda>_ m. int (length m)" 3 "''hello''" 5]
  by (simp add: demo_net_def demo_net_state_def)

text \<open>The address of an interface: on success the caller's buffer holds the address, cut to the buffer, and the
  socket made to ask for it stays open, so that every call leaks a descriptor.\<close>

theorem nic_get_ip_leaks:
  assumes "0 \<le> ret_socket os" and "ret_socket os \<notin> fds st" and "length name < 16" and "ioctl name = Some addr" and "NUL \<notin> set addr"
    and "length ip = nat ip_size" and "0 < ip_size"
  shows "\<exists>ip' st'. nic_get_ip os ioctl name ip ip_size st = Some (1, ip', st')
    \<and> cstr ip' 0 = take (nat ip_size - 1) addr \<and> fds st' = insert (ret_socket os) (fds st)"
proof -
  obtain b where b: "strncpy (replicate (nat ip_size) NUL) 0 (addr @ [NUL]) 0 (ip_size - 1) = Some b"
    "cstr b 0 = take (nat ip_size - 1) addr"
    using cstr_strncpy [OF assms(5,7)] by blast
  have "\<exists>m. memcpy (replicate (nat IFNAMSIZ) NUL) 0 (name @ [NUL]) 0 (int (length name) + 1) = Some m"
    using assms(3) by (simp add: memcpy_def rd_block_def wr_block_def IFNAMSIZ_def)
  then show ?thesis using assms b bzero_all [OF assms(6)]
    by (auto simp: nic_get_ip_def sys_socket_def Let_def)
qed

theorem nic_get_ip_leaks_witness:
  "\<exists>ip' st'. nic_get_ip demo_net (\<lambda>_. Some ''10.0.0.1'') ''eth0'' (replicate 16 NUL) 16 demo_net_state = Some (1, ip', st')
    \<and> cstr ip' 0 = ''10.0.0.1'' \<and> fds st' = {0, 1, 2, 3}"
  using nic_get_ip_leaks [of demo_net demo_net_state "''eth0''" "\<lambda>_. Some ''10.0.0.1''" "''10.0.0.1''" "replicate 16 NUL" 16]
  by (auto simp: demo_net_def demo_net_state_def)

end
