(* ===== verification/TcpServer.thy ===== *)
theory TcpServer
  imports Links EmemPool Etime Udp
begin

text \<open>
  The TCP server of \<open>tcp_server.c\<close>. The streams are the nodes of an array, a heap addressed by index; a free stream is on
  the idle list, one in use on the busy list, both doubly linked through the same two fields. The kernel side is the
  state of \<open>Enetwork\<close> and the pairs of descriptor and stream the server's epoll set watches. What the
  system calls answer, and what the events of \<open>epoll_wait\<close> are, are arguments; a callback of the user is a
  parameter. The log is left out, and the default callbacks print a line only.
\<close>

section \<open>State\<close>

definition TCP_MAX_STREAM_NUM :: int where "TCP_MAX_STREAM_NUM = 10000"
definition EPOLLIN :: int where "EPOLLIN = 1"
definition EPOLLOUT :: int where "EPOLLOUT = 4"
definition EPOLLERR :: int where "EPOLLERR = 8"

datatype stream_cb = AcceptCb | RcvDefault | SndDefault | UserCb nat

record stream =
  s_index :: int
  s_sock_fd :: int
  s_pool :: "mem_pool option"
  s_close :: int
  s_error :: int
  s_update_time :: timeval
  s_chain :: ptr
  s_data :: ptr
  s_server :: "nat option"
  s_last :: "nat option"
  s_next :: "nat option"
  s_rcv_cb :: "stream_cb option"
  s_snd_cb :: "stream_cb option"
  s_remote_addr :: sock_addr

text \<open>The server, with the address it was allocated at; \<open>streams\<close> is \<open>None\<close> when the pointer is \<open>NULL\<close>.\<close>

record tcp_server =
  self :: nat
  port :: int
  listen_fd :: int
  epoll_fd :: int
  max_idle_time :: int
  streams :: "stream heap option"
  stream_num :: int
  active_stream_num :: int
  busy_stream_head :: "nat option"
  busy_stream_tail :: "nat option"
  busy_stream_num :: int
  idle_stream_head :: "nat option"
  idle_stream_tail :: "nat option"
  idle_stream_num :: int
  rcv_cb :: "stream_cb option"
  snd_cb :: "stream_cb option"
  stop :: int

record tcp_state =
  srv :: tcp_server
  net :: net_state
  watched :: "(int \<times> nat) list"
  freed :: "int list"

text \<open>The answers of the system: what a stream needs, what \<open>tcp_server_create\<close> and \<open>accept_cb\<close> need, an event.\<close>

record stream_sys =
  os_pagesize :: int
  os_page :: ptr
  os_now :: timeval

record create_sys =
  c_net :: net_sys
  c_malloc_server :: bool
  c_malloc_streams :: bool
  c_listen :: int
  c_epoll_create :: int
  c_stream :: stream_sys

text \<open>\<open>a_server\<close> is what the local variable \<open>server\<close> of \<open>accept_cb\<close> happens to hold: nothing assigns it.\<close>

record accept_sys =
  a_accept :: int
  a_errno :: int
  a_remote :: sock_addr
  a_net :: net_sys
  a_server :: "nat option"
  a_stream :: stream_sys
  a_epoll_ctl :: int

record tcp_event =
  ev_ptr :: "nat option"
  ev_flags :: int
  ev_sys :: accept_sys

text \<open>Access to a stream through a pointer, and closing a descriptor, which takes it out of the epoll set.\<close>

definition sget :: "tcp_server \<Rightarrow> nat \<Rightarrow> stream option" where
  "sget server a = do { h \<leftarrow> streams server; h a }"

definition sset :: "tcp_server \<Rightarrow> nat \<Rightarrow> (stream \<Rightarrow> stream) \<Rightarrow> tcp_server option" where
  "sset server a f = do { h \<leftarrow> streams server; h' \<leftarrow> hset h a f; Some (server\<lparr>streams := Some h'\<rparr>) }"

definition close_fd :: "int \<Rightarrow> tcp_state \<Rightarrow> tcp_state" where
  "close_fd fd st = st\<lparr>net := sys_close fd (net st), watched := filter (\<lambda>w. fst w \<noteq> fd) (watched st)\<rparr>"

section \<open>The two lists\<close>

definition delete_stream_from_busy_list :: "tcp_server \<Rightarrow> nat \<Rightarrow> tcp_server option" where
  "delete_stream_from_busy_list server a = do {
     h \<leftarrow> streams server;
     (h', first, final) \<leftarrow> remove_node s_next s_last (\<lambda>q s. s\<lparr>s_next := q\<rparr>) (\<lambda>p s. s\<lparr>s_last := p\<rparr>) h
       (busy_stream_head server) (busy_stream_tail server) a;
     Some (server\<lparr>streams := Some h', busy_stream_head := first, busy_stream_tail := final,
       busy_stream_num := busy_stream_num server - 1\<rparr>)
   }"

definition add_stream_into_busy_list :: "tcp_server \<Rightarrow> nat \<Rightarrow> tcp_server option" where
  "add_stream_into_busy_list server a = do {
     h \<leftarrow> streams server;
     (h', first, final) \<leftarrow> append_node (\<lambda>q s. s\<lparr>s_next := q\<rparr>) (\<lambda>p s. s\<lparr>s_last := p\<rparr>) h
       (busy_stream_head server) (busy_stream_tail server) a;
     Some (server\<lparr>streams := Some h', busy_stream_head := first, busy_stream_tail := final,
       busy_stream_num := busy_stream_num server + 1\<rparr>)
   }"

definition delete_stream_from_idle_list :: "tcp_server \<Rightarrow> nat \<Rightarrow> tcp_server option" where
  "delete_stream_from_idle_list server a = do {
     h \<leftarrow> streams server;
     (h', first, final) \<leftarrow> remove_node s_next s_last (\<lambda>q s. s\<lparr>s_next := q\<rparr>) (\<lambda>p s. s\<lparr>s_last := p\<rparr>) h
       (idle_stream_head server) (idle_stream_tail server) a;
     Some (server\<lparr>streams := Some h', idle_stream_head := first, idle_stream_tail := final,
       idle_stream_num := idle_stream_num server - 1\<rparr>)
   }"

definition add_stream_into_idle_list :: "tcp_server \<Rightarrow> nat \<Rightarrow> tcp_server option" where
  "add_stream_into_idle_list server a = do {
     h \<leftarrow> streams server;
     (h', first, final) \<leftarrow> append_node (\<lambda>q s. s\<lparr>s_next := q\<rparr>) (\<lambda>p s. s\<lparr>s_last := p\<rparr>) h
       (idle_stream_head server) (idle_stream_tail server) a;
     Some (server\<lparr>streams := Some h', idle_stream_head := first, idle_stream_tail := final,
       idle_stream_num := idle_stream_num server + 1\<rparr>)
   }"

definition get_idle_tcp_stream :: "tcp_server \<Rightarrow> (nat option \<times> tcp_server) option" where
  "get_idle_tcp_stream server = (case idle_stream_tail server of
      Some a \<Rightarrow> do { server' \<leftarrow> delete_stream_from_idle_list server a; Some (Some a, server') }
    | None \<Rightarrow> Some (None, server))"

section \<open>Streams\<close>

definition tcp_stream_init ::
  "stream_sys \<Rightarrow> tcp_server \<Rightarrow> nat option \<Rightarrow> int \<Rightarrow> sock_addr option \<Rightarrow> tcp_server option" where
  "tcp_stream_init os server stream sock_fd remote_addr = (case stream of
      None \<Rightarrow> Some server
    | Some a \<Rightarrow> do {
        server \<leftarrow> sset server a (\<lambda>s. s\<lparr>s_sock_fd := sock_fd\<rparr>);
        let pool = mem_pool_create (os_pagesize os) (os_page os);
        server \<leftarrow> sset server a (\<lambda>s. s\<lparr>s_pool := pool\<rparr>);
        if pool = None then Some server
        else sset server a (\<lambda>s. s\<lparr>s_close := 0, s_error := 0, s_update_time := os_now os, s_data := NULL,
          s_server := Some (self server),
          s_rcv_cb := (case rcv_cb server of None \<Rightarrow> Some RcvDefault | Some cb \<Rightarrow> Some cb),
          s_snd_cb := (case snd_cb server of None \<Rightarrow> Some SndDefault | Some cb \<Rightarrow> Some cb),
          s_remote_addr := (case remote_addr of None \<Rightarrow> s_remote_addr s | Some r \<Rightarrow> r)\<rparr>)
      })"

definition tcp_stream_close :: "tcp_state \<Rightarrow> nat option \<Rightarrow> tcp_state option" where
  "tcp_stream_close st stream = (case stream of
      None \<Rightarrow> Some st
    | Some a \<Rightarrow> do {
        s \<leftarrow> sget (srv st) a;
        let server = s_server s;
        let st = (case s_pool s of None \<Rightarrow> st
          | Some p \<Rightarrow> st\<lparr>freed := freed st @ snd (mem_pool_destroy (Some (Some p)))\<rparr>);
        let st = (if 0 \<le> s_sock_fd s then close_fd (s_sock_fd s) st else st);
        if server \<noteq> Some (self (srv st)) then None
        else do {
          server \<leftarrow> delete_stream_from_busy_list (srv st) a;
          server \<leftarrow> add_stream_into_idle_list server a;
          server \<leftarrow> sset server a (\<lambda>s. s\<lparr>s_sock_fd := -1, s_pool := None, s_close := 0, s_error := 0,
            s_data := NULL, s_server := None\<rparr>);
          Some (st\<lparr>srv := server\<rparr>)
        }
      })"

section \<open>Accepting a connection\<close>

definition accept_cb :: "accept_sys \<Rightarrow> nat \<Rightarrow> tcp_state \<Rightarrow> (int \<times> tcp_state) option" where
  "accept_cb os listen_stream st = do {
     _ \<leftarrow> sget (srv st) listen_stream;
     let sock_fd = a_accept os;
     if sock_fd < 0 then Some (if EAGAIN \<noteq> a_errno os then 0 else 1, st)
     else do {
       let opened = (net st)\<lparr>fds := insert sock_fd (fds (net st)), fd_flags := (fd_flags (net st))(sock_fd := 0),
         bound := (bound (net st))(sock_fd := None)\<rparr>;
       let (ok, n) = set_non_blocking (a_net os) sock_fd opened;
       let st = st\<lparr>net := n\<rparr>;
       if ok = 0 then Some (0, close_fd sock_fd st)
       else if a_server os \<noteq> Some (self (srv st)) then None
       else do {
         (stream, server) \<leftarrow> get_idle_tcp_stream (srv st);
         case stream of
           None \<Rightarrow> Some (0, st)
         | Some a \<Rightarrow> do {
             server \<leftarrow> tcp_stream_init (a_stream os) server (Some a) sock_fd (Some (a_remote os));
             server \<leftarrow> add_stream_into_busy_list server a;
             let st = st\<lparr>srv := server\<rparr>;
             if a_epoll_ctl os < 0 then do { st \<leftarrow> tcp_stream_close st (Some a); Some (0, st) }
             else Some (1, st\<lparr>watched := (sock_fd, a) # watched st,
               srv := server\<lparr>active_stream_num := active_stream_num server + 1\<rparr>\<rparr>)
           }
       }
     }
   }"

definition rcv_cb_default :: "nat \<Rightarrow> tcp_state \<Rightarrow> int \<times> tcp_state" where
  "rcv_cb_default stream st = (1, st)"

definition snd_cb_default :: "nat \<Rightarrow> tcp_state \<Rightarrow> int \<times> tcp_state" where
  "snd_cb_default stream st = (1, st)"

section \<open>The event loop\<close>

text \<open>A callback of the user, by its number: what it does to the server's state when called on a stream.\<close>

type_synonym user_cb = "nat \<Rightarrow> nat \<Rightarrow> tcp_state \<Rightarrow> tcp_state option"

definition call_cb :: "user_cb \<Rightarrow> accept_sys \<Rightarrow> stream_cb \<Rightarrow> nat \<Rightarrow> tcp_state \<Rightarrow> tcp_state option" where
  "call_cb user os cb stream st = (case cb of
      AcceptCb \<Rightarrow> map_option snd (accept_cb os stream st)
    | RcvDefault \<Rightarrow> Some (snd (rcv_cb_default stream st))
    | SndDefault \<Rightarrow> Some (snd (snd_cb_default stream st))
    | UserCb k \<Rightarrow> user k stream st)"

text \<open>One event of the batch \<open>epoll_wait\<close> returned: the callback, then the closing of a stream marked so.\<close>

definition dispatch_event :: "user_cb \<Rightarrow> tcp_event \<Rightarrow> nat \<Rightarrow> stream \<Rightarrow> tcp_state \<Rightarrow> tcp_state option" where
  "dispatch_event user ev stream s st =
     (if ev_flags ev AND EPOLLIN \<noteq> 0 \<and> s_rcv_cb s \<noteq> None then
        (case s_rcv_cb s of Some cb \<Rightarrow> call_cb user (ev_sys ev) cb stream st | None \<Rightarrow> None)
      else if ev_flags ev AND EPOLLOUT \<noteq> 0 \<and> s_snd_cb s \<noteq> None then
        (case s_snd_cb s of Some cb \<Rightarrow> call_cb user (ev_sys ev) cb stream st | None \<Rightarrow> None)
      else if ev_flags ev AND EPOLLERR \<noteq> 0 then do {
        server \<leftarrow> sset (srv st) stream (\<lambda>s. s\<lparr>s_error := 1\<rparr>);
        Some (st\<lparr>srv := server\<rparr>)
      }
      else Some st)"

definition handle_event :: "user_cb \<Rightarrow> tcp_event \<Rightarrow> tcp_state \<Rightarrow> tcp_state option" where
  "handle_event user ev st = (case ev_ptr ev of
      None \<Rightarrow> Some st
    | Some stream \<Rightarrow> do {
        s \<leftarrow> sget (srv st) stream;
        st \<leftarrow> dispatch_event user ev stream s st;
        s \<leftarrow> sget (srv st) stream;
        if s_error s \<noteq> 0 \<or> s_close s \<noteq> 0 then do {
          st \<leftarrow> tcp_stream_close st (Some stream);
          Some (st\<lparr>srv := (srv st)\<lparr>active_stream_num := active_stream_num (srv st) - 1\<rparr>\<rparr>)
        }
        else Some st
      })"

fun handle_events :: "user_cb \<Rightarrow> tcp_event list \<Rightarrow> tcp_state \<Rightarrow> tcp_state option" where
  "handle_events user [] st = Some st"
| "handle_events user (ev # evs) st = do { st \<leftarrow> handle_event user ev st; handle_events user evs st }"

text \<open>What a call of \<open>epoll_wait\<close> answers; the loop runs over the answers of its calls, and is still waiting
  when they are used up.\<close>

datatype epoll_answer = WaitError | Ready "tcp_event list"

datatype run_result = Returned int | Waiting

fun run_loop :: "user_cb \<Rightarrow> epoll_answer list \<Rightarrow> tcp_state \<Rightarrow> (run_result \<times> tcp_state) option" where
  "run_loop user [] st = Some (if stop (srv st) \<noteq> 0 then Returned 1 else Waiting, st)"
| "run_loop user (r # rs) st =
     (if stop (srv st) \<noteq> 0 then Some (Returned 1, st)
      else case r of
        WaitError \<Rightarrow> Some (Returned 0, st)
      | Ready evs \<Rightarrow> do { st \<leftarrow> handle_events user evs st; run_loop user rs st })"

definition tcp_server_run ::
  "user_cb \<Rightarrow> bool \<Rightarrow> epoll_answer list \<Rightarrow> tcp_state option \<Rightarrow> (run_result \<times> tcp_state option) option" where
  "tcp_server_run user malloc_events answers server = (case server of
      None \<Rightarrow> Some (Returned 0, None)
    | Some st \<Rightarrow> if \<not> malloc_events then Some (Returned 0, Some st)
        else map_option (\<lambda>(r, st'). (r, Some st')) (run_loop user answers st))"

definition tcp_server_stop :: "tcp_server \<Rightarrow> tcp_server" where
  "tcp_server_stop server = server\<lparr>stop := 1\<rparr>"

definition tcp_server_set_rcv_cb :: "tcp_server \<Rightarrow> stream_cb option \<Rightarrow> tcp_server" where
  "tcp_server_set_rcv_cb server cb = server\<lparr>rcv_cb := cb\<rparr>"

definition tcp_server_set_snd_cb :: "tcp_server \<Rightarrow> stream_cb option \<Rightarrow> tcp_server" where
  "tcp_server_set_snd_cb server cb = server\<lparr>snd_cb := cb\<rparr>"

definition tcp_server_read :: "nat \<Rightarrow> 'b \<Rightarrow> int \<times> 'b" where
  "tcp_server_read stream buf = (1, buf)"

section \<open>Creation and destruction\<close>

text \<open>\<open>tcp_server_destroy\<close>: the descriptors it leaves; the array of streams and the server are freed.\<close>

definition tcp_server_destroy :: "tcp_server option \<Rightarrow> net_state \<Rightarrow> net_state" where
  "tcp_server_destroy server st = (case server of
      None \<Rightarrow> st
    | Some sv \<Rightarrow>
       (let st = (if 0 \<le> listen_fd sv then sys_close (listen_fd sv) st else st)
        in if 0 \<le> epoll_fd sv then sys_close (epoll_fd sv) st else st))"

definition zero_stream :: stream where
  "zero_stream = \<lparr>s_index = 0, s_sock_fd = 0, s_pool = None, s_close = 0, s_error = 0, s_update_time = \<lparr>tv_sec = 0, tv_usec = 0\<rparr>,
     s_chain = NULL, s_data = NULL, s_server = None, s_last = None, s_next = None, s_rcv_cb = None, s_snd_cb = None,
     s_remote_addr = Inet 0 0\<rparr>"

definition new_server :: "nat \<Rightarrow> int \<Rightarrow> tcp_server" where
  "new_server addr portno = \<lparr>self = addr, port = portno, listen_fd = 0, epoll_fd = 0, max_idle_time = 0, streams = None, stream_num = 0,
     active_stream_num = 0, busy_stream_head = None, busy_stream_tail = None, busy_stream_num = 0, idle_stream_head = None,
     idle_stream_tail = None, idle_stream_num = 0, rcv_cb = Some RcvDefault, snd_cb = Some SndDefault, stop = 0\<rparr>"

fun init_streams :: "nat list \<Rightarrow> tcp_server \<Rightarrow> tcp_server option" where
  "init_streams [] server = Some server"
| "init_streams (i # is) server = do {
     server \<leftarrow> sset server i (\<lambda>s. s\<lparr>s_index := int i\<rparr>);
     server \<leftarrow> add_stream_into_idle_list server i;
     init_streams is server
   }"

text \<open>The result and the descriptors; a failure after the first allocation goes through \<open>tcp_server_destroy\<close>.\<close>

definition create_failed :: "tcp_server option \<Rightarrow> net_state \<Rightarrow> (tcp_state option \<times> net_state) option" where
  "create_failed server st = Some (None, tcp_server_destroy server st)"

text \<open>The last part of \<open>tcp_server_create\<close>: the listen stream.\<close>

definition create_listen_stream :: "create_sys \<Rightarrow> tcp_server \<Rightarrow> net_state \<Rightarrow> (tcp_state option \<times> net_state) option" where
  "create_listen_stream os server st = do {
     (stream, server) \<leftarrow> get_idle_tcp_stream server;
     case stream of
       None \<Rightarrow> create_failed (Some server) st
     | Some a \<Rightarrow> do {
         server \<leftarrow> tcp_stream_init (c_stream os) server (Some a) (listen_fd server) None;
         server \<leftarrow> sset server a (\<lambda>s. s\<lparr>s_snd_cb := None\<rparr>);
         server \<leftarrow> sset server a (\<lambda>s. s\<lparr>s_rcv_cb := Some AcceptCb\<rparr>);
         server \<leftarrow> add_stream_into_busy_list server a;
         Some (Some \<lparr>srv = server, net = st, watched = [], freed = []\<rparr>, st)
       }
   }"

definition tcp_server_create :: "create_sys \<Rightarrow> nat \<Rightarrow> int \<Rightarrow> int \<Rightarrow> net_state \<Rightarrow> (tcp_state option \<times> net_state) option" where
  "tcp_server_create os addr portno max_conn st =
     (if \<not> c_malloc_server os then create_failed None st
      else let server = new_server addr portno; max_conn_count = (if max_conn > 0 then max_conn else TCP_MAX_STREAM_NUM) in
        if \<not> c_malloc_streams os then create_failed (Some server) st
        else do {
          server \<leftarrow> init_streams [0..<nat max_conn_count] (server\<lparr>stream_num := max_conn_count,
            streams := Some (\<lambda>i. if i < nat max_conn_count then Some zero_stream else None)\<rparr>);
          let fd = ret_socket (c_net os);
          let st = sys_socket (c_net os) st;
          let server = server\<lparr>listen_fd := fd\<rparr>;
          if fd = -1 then create_failed (Some server) st
          else do {
            let (ok, st) = set_non_blocking (c_net os) fd st;
            if ok = 0 then create_failed (Some server) st
            else if set_reuse_addr (c_net os) fd = 0 then create_failed (Some server) st
            else if ret_bind (c_net os) < 0 then create_failed (Some server) st
            else do {
              let st = st\<lparr>bound := (bound st)(fd := Some (Inet INADDR_ANY (port server mod 2 ^ 16)))\<rparr>;
              if c_listen os < 0 then create_failed (Some server) st
              else do {
                let server = server\<lparr>epoll_fd := c_epoll_create os\<rparr>;
                if c_epoll_create os < 0 then create_failed (Some server) st
                else create_listen_stream os server (st\<lparr>fds := insert (c_epoll_create os) (fds st)\<rparr>)
              }
            }
          }
        })"

section \<open>The lists of streams\<close>

interpretation sl: links s_next s_last "\<lambda>q s. s\<lparr>s_next := q\<rparr>" "\<lambda>p s. s\<lparr>s_last := p\<rparr>"
  by unfold_locales simp_all

text \<open>The busy list and the idle list of a server, which share no stream, and its counters.\<close>

definition srv_lists :: "tcp_server \<Rightarrow> nat list \<Rightarrow> nat list \<Rightarrow> bool" where
  "srv_lists sv busy idle \<longleftrightarrow> (case streams sv of None \<Rightarrow> False | Some h \<Rightarrow>
     dlist s_next s_last h (busy_stream_head sv) (busy_stream_tail sv) busy
     \<and> dlist s_next s_last h (idle_stream_head sv) (idle_stream_tail sv) idle
     \<and> set busy \<inter> set idle = {}
     \<and> busy_stream_num sv = int (length busy) \<and> idle_stream_num sv = int (length idle)
     \<and> (\<forall>a. a < nat (stream_num sv) \<longleftrightarrow> h a \<noteq> None))"

text \<open>A stream without its links, and what a server keeps while its lists change.\<close>

definition strip :: "stream \<Rightarrow> stream" where
  "strip s = s\<lparr>s_next := None, s_last := None\<rparr>"

definition bare :: "tcp_server \<Rightarrow> nat \<Rightarrow> stream option" where
  "bare sv a = map_option strip (sget sv a)"

definition same_server :: "tcp_server \<Rightarrow> tcp_server \<Rightarrow> bool" where
  "same_server sv sv' \<longleftrightarrow> self sv' = self sv \<and> port sv' = port sv \<and> listen_fd sv' = listen_fd sv \<and> epoll_fd sv' = epoll_fd sv
     \<and> stream_num sv' = stream_num sv \<and> rcv_cb sv' = rcv_cb sv \<and> snd_cb sv' = snd_cb sv \<and> stop sv' = stop sv
     \<and> active_stream_num sv' = active_stream_num sv"

lemma strip_links [simp]: "strip (s\<lparr>s_next := q\<rparr>) = strip s" "strip (s\<lparr>s_last := p\<rparr>) = strip s"
  by (simp_all add: strip_def)

lemma strip_sel [simp]: "s_sock_fd (strip s) = s_sock_fd s" "s_pool (strip s) = s_pool s" "s_server (strip s) = s_server s"
  "s_error (strip s) = s_error s" "s_close (strip s) = s_close s" "s_rcv_cb (strip s) = s_rcv_cb s" "s_snd_cb (strip s) = s_snd_cb s"
  "s_index (strip s) = s_index s"
  by (simp_all add: strip_def)

lemma same_server_refl [simp]: "same_server sv sv"
  by (simp add: same_server_def)

lemma same_server_trans: "same_server a b \<Longrightarrow> same_server b c \<Longrightarrow> same_server a c"
  by (simp add: same_server_def)

lemma bare_cong: "\<lbrakk>streams sv = Some h; streams sv' = Some h'; \<forall>c. map_option strip (h' c) = map_option strip (h c)\<rbrakk>
  \<Longrightarrow> bare sv' = bare sv"
  by (intro ext) (simp add: bare_def sget_def)

text \<open>What the four list operations share: the heap step is one of \<open>Links\<close>, its effect on the other list is none.\<close>

lemma delete_stream_from_busy_list_ok:
  assumes "srv_lists sv (xs @ a # ys) idle"
  shows "\<exists>sv'. delete_stream_from_busy_list sv a = Some sv' \<and> srv_lists sv' (xs @ ys) idle \<and> bare sv' = bare sv \<and> same_server sv sv'"
proof -
  obtain h where h: "streams sv = Some h" "dlist s_next s_last h (busy_stream_head sv) (busy_stream_tail sv) (xs @ a # ys)"
    using assms by (auto simp: srv_lists_def split: option.splits)
  obtain n where n: "h a = Some n" using dlist_heap [OF h(2)] by auto
  obtain h' where h': "remove_node s_next s_last (\<lambda>q s. s\<lparr>s_next := q\<rparr>) (\<lambda>p s. s\<lparr>s_last := p\<rparr>) h (busy_stream_head sv) (busy_stream_tail sv) a
      = Some (h', first_of (xs @ ys) None, last_of None (xs @ ys))"
    "dlist s_next s_last h' (first_of (xs @ ys) None) (last_of None (xs @ ys)) (xs @ ys)"
    "\<forall>c. c \<notin> set (xs @ ys) \<longrightarrow> h' c = h c"
    using sl.remove_node_ok [OF h(2) n] by blast
  have p: "\<forall>c. map_option strip (h' c) = map_option strip (h c)"
    using sl.remove_node_payload [OF h'(1), of strip] by simp
  have q: "\<forall>c. h' c = None \<longleftrightarrow> h c = None" using p by (metis option.map_disc_iff)
  have i: "dlist s_next s_last h' (idle_stream_head sv) (idle_stream_tail sv) idle"
    using assms h(1) h'(3) by (subst dlist_cong [of _ h' h]) (auto simp: srv_lists_def)
  show ?thesis using assms h(1) h' i q bare_cong [OF h(1) _ p]
    by (auto simp: delete_stream_from_busy_list_def srv_lists_def same_server_def)
qed

lemma add_stream_into_busy_list_ok:
  assumes "srv_lists sv busy idle" and "a \<notin> set busy \<union> set idle" and "a < nat (stream_num sv)"
  shows "\<exists>sv'. add_stream_into_busy_list sv a = Some sv' \<and> srv_lists sv' (busy @ [a]) idle \<and> bare sv' = bare sv \<and> same_server sv sv'"
proof -
  obtain h where h: "streams sv = Some h" "dlist s_next s_last h (busy_stream_head sv) (busy_stream_tail sv) busy" "h a \<noteq> None"
    using assms by (auto simp: srv_lists_def split: option.splits)
  obtain n where n: "h a = Some n" using h(3) by blast
  have a: "a \<notin> set busy" using assms(2) by simp
  obtain h' where h': "append_node (\<lambda>q s. s\<lparr>s_next := q\<rparr>) (\<lambda>p s. s\<lparr>s_last := p\<rparr>) h (busy_stream_head sv) (busy_stream_tail sv) a
      = Some (h', first_of (busy @ [a]) None, Some a)"
    "dlist s_next s_last h' (first_of (busy @ [a]) None) (Some a) (busy @ [a])"
    "\<forall>c. c \<notin> set (busy @ [a]) \<longrightarrow> h' c = h c"
    using sl.append_node_ok [OF h(2) a n] by blast
  have p: "\<forall>c. map_option strip (h' c) = map_option strip (h c)"
    using sl.append_node_payload [OF h'(1), of strip] by simp
  have q: "\<forall>c. h' c = None \<longleftrightarrow> h c = None" using p by (metis option.map_disc_iff)
  have i: "dlist s_next s_last h' (idle_stream_head sv) (idle_stream_tail sv) idle"
    using assms h(1) h'(3) by (subst dlist_cong [of _ h' h]) (auto simp: srv_lists_def)
  show ?thesis using assms h(1) h' i q bare_cong [OF h(1) _ p]
    by (auto simp: add_stream_into_busy_list_def srv_lists_def same_server_def)
qed

text \<open>The idle list's operations are the busy list's, with the two lists swapped.\<close>

definition swap_lists :: "tcp_server \<Rightarrow> tcp_server" where
  "swap_lists sv = sv\<lparr>busy_stream_head := idle_stream_head sv, busy_stream_tail := idle_stream_tail sv, busy_stream_num := idle_stream_num sv,
     idle_stream_head := busy_stream_head sv, idle_stream_tail := busy_stream_tail sv, idle_stream_num := busy_stream_num sv\<rparr>"

lemma srv_lists_swap: "srv_lists (swap_lists sv) idle busy \<longleftrightarrow> srv_lists sv busy idle"
  by (auto simp: srv_lists_def swap_lists_def split: option.splits)

lemma swap_lists_simps [simp]: "bare (swap_lists sv) = bare sv" "stream_num (swap_lists sv) = stream_num sv"
  "same_server (swap_lists sv) sv' = same_server sv sv'" "same_server sv' (swap_lists sv) = same_server sv' sv"
  by (auto simp: bare_def sget_def swap_lists_def same_server_def fun_eq_iff)

lemma idle_list_swap:
  "delete_stream_from_idle_list sv a = map_option swap_lists (delete_stream_from_busy_list (swap_lists sv) a)"
  "add_stream_into_idle_list sv a = map_option swap_lists (add_stream_into_busy_list (swap_lists sv) a)"
  by (auto simp: delete_stream_from_idle_list_def delete_stream_from_busy_list_def add_stream_into_idle_list_def
      add_stream_into_busy_list_def swap_lists_def split: bind_split)

lemma delete_stream_from_idle_list_ok:
  assumes "srv_lists sv busy (xs @ a # ys)"
  shows "\<exists>sv'. delete_stream_from_idle_list sv a = Some sv' \<and> srv_lists sv' busy (xs @ ys) \<and> bare sv' = bare sv \<and> same_server sv sv'"
proof -
  have "srv_lists (swap_lists sv) (xs @ a # ys) busy" using assms by (simp add: srv_lists_swap)
  from delete_stream_from_busy_list_ok [OF this] show ?thesis
    by (auto simp: idle_list_swap srv_lists_swap)
qed

lemma add_stream_into_idle_list_ok:
  assumes "srv_lists sv busy idle" and "a \<notin> set busy \<union> set idle" and "a < nat (stream_num sv)"
  shows "\<exists>sv'. add_stream_into_idle_list sv a = Some sv' \<and> srv_lists sv' busy (idle @ [a]) \<and> bare sv' = bare sv \<and> same_server sv sv'"
proof -
  have "srv_lists (swap_lists sv) idle busy" "a \<notin> set idle \<union> set busy" "a < nat (stream_num (swap_lists sv))"
    using assms by (simp_all add: srv_lists_swap)
  from add_stream_into_busy_list_ok [OF this] show ?thesis
    by (auto simp: idle_list_swap srv_lists_swap)
qed

section \<open>Invariant\<close>

lemma sset_ok:
  assumes "srv_lists sv busy idle" and "a < nat (stream_num sv)"
    and "\<And>s. s_next (f s) = s_next s" and "\<And>s. s_last (f s) = s_last s" and "\<And>s. strip (f s) = f (strip s)"
  shows "\<exists>sv'. sset sv a f = Some sv' \<and> srv_lists sv' busy idle \<and> bare sv' = (bare sv)(a := map_option f (bare sv a)) \<and> same_server sv sv'"
proof -
  obtain h where h: "streams sv = Some h" "h a \<noteq> None" using assms(1,2) by (auto simp: srv_lists_def split: option.splits)
  then obtain s where s: "h a = Some s" by blast
  have d: "dlist s_next s_last (h(a \<mapsto> f s)) hp tp xs = dlist s_next s_last h hp tp xs" for hp tp xs
    unfolding dlist_def by (subst dll_links_cong [of _ _ _ "h(a \<mapsto> f s)" h]) (simp_all add: s assms(3,4))
  show ?thesis using assms(1,2) h(1) s
    by (auto simp: sset_def hset_def srv_lists_def same_server_def d bare_def sget_def assms(5))
qed

lemma bare_some: "srv_lists sv busy idle \<Longrightarrow> a < nat (stream_num sv) \<Longrightarrow> \<exists>s. bare sv a = Some s"
  by (auto simp: srv_lists_def bare_def sget_def split: option.splits)

definition fd_of :: "tcp_server \<Rightarrow> nat \<Rightarrow> int" where
  "fd_of sv a = (case bare sv a of Some s \<Rightarrow> s_sock_fd s | None \<Rightarrow> -1)"

text \<open>A stream in use has its own open descriptor, a memory pool and the server's address.\<close>

definition stream_open :: "tcp_state \<Rightarrow> nat \<Rightarrow> bool" where
  "stream_open st a \<longleftrightarrow> (case bare (srv st) a of None \<Rightarrow> False
     | Some s \<Rightarrow> 0 \<le> s_sock_fd s \<and> s_sock_fd s \<in> fds (net st) \<and> s_pool s \<noteq> None \<and> s_server s = Some (self (srv st)))"

definition tcp_inv :: "tcp_state \<Rightarrow> nat list \<Rightarrow> nat list \<Rightarrow> bool" where
  "tcp_inv st busy idle \<longleftrightarrow> srv_lists (srv st) busy idle \<and> set busy \<union> set idle = {..<nat (stream_num (srv st))}
     \<and> (\<forall>a\<in>set busy. stream_open st a) \<and> inj_on (fd_of (srv st)) (set busy)
     \<and> (\<forall>(fd, a)\<in>set (watched st). a \<in> set busy \<and> fd = fd_of (srv st) a)"

text \<open>The open descriptors that belong to no stream.\<close>

definition other_fds :: "tcp_state \<Rightarrow> nat list \<Rightarrow> int set" where
  "other_fds st busy = fds (net st) - fd_of (srv st) ` set busy"

lemma tcp_inv_lists: "tcp_inv st busy idle \<Longrightarrow> srv_lists (srv st) busy idle"
  by (simp add: tcp_inv_def)

lemma tcp_inv_range: "tcp_inv st busy idle \<Longrightarrow> a \<in> set busy \<union> set idle \<Longrightarrow> a < nat (stream_num (srv st))"
  by (auto simp: tcp_inv_def)

lemma srv_lists_distinct: "srv_lists sv busy idle \<Longrightarrow> distinct busy \<and> distinct idle \<and> set busy \<inter> set idle = {}"
  by (auto simp: srv_lists_def dlist_def split: option.splits)

lemma tcp_stream_init_ok:
  assumes "srv_lists sv busy idle" and "a < nat (stream_num sv)" and "os_page os \<noteq> NULL"
  shows "\<exists>sv' s'. tcp_stream_init os sv (Some a) fd remote = Some sv' \<and> srv_lists sv' busy idle \<and> bare sv' = (bare sv)(a \<mapsto> s')
    \<and> same_server sv sv' \<and> s_sock_fd s' = fd \<and> s_pool s' \<noteq> None \<and> s_pool s' = mem_pool_create (os_pagesize os) (os_page os)
    \<and> s_server s' = Some (self sv) \<and> s_error s' = 0 \<and> s_close s' = 0"
proof -
  obtain s where s: "bare sv a = Some s" using bare_some [OF assms(1,2)] by blast
  have pool: "mem_pool_create (os_pagesize os) (os_page os) \<noteq> None" using assms(3) by (cases "os_page os") auto
  obtain sv1 where sv1: "sset sv a (\<lambda>s. s\<lparr>s_sock_fd := fd\<rparr>) = Some sv1" "srv_lists sv1 busy idle"
    "bare sv1 = (bare sv)(a := map_option (\<lambda>s. s\<lparr>s_sock_fd := fd\<rparr>) (bare sv a))" "same_server sv sv1"
    using sset_ok [OF assms(1,2), of "\<lambda>s. s\<lparr>s_sock_fd := fd\<rparr>"] by (auto simp: strip_def)
  have a1: "a < nat (stream_num sv1)" using sv1(4) assms(2) by (simp add: same_server_def)
  let ?f = "\<lambda>s. s\<lparr>s_pool := mem_pool_create (os_pagesize os) (os_page os)\<rparr>"
  obtain sv2 where sv2: "sset sv1 a ?f = Some sv2" "srv_lists sv2 busy idle"
    "bare sv2 = (bare sv1)(a := map_option ?f (bare sv1 a))" "same_server sv1 sv2"
    using sset_ok [OF sv1(2) a1, of ?f] by (auto simp: strip_def)
  have a2: "a < nat (stream_num sv2)" using sv2(4) a1 by (simp add: same_server_def)
  let ?g = "\<lambda>s. s\<lparr>s_close := 0, s_error := 0, s_update_time := os_now os, s_data := NULL, s_server := Some (self sv2),
    s_rcv_cb := (case rcv_cb sv2 of None \<Rightarrow> Some RcvDefault | Some cb \<Rightarrow> Some cb),
    s_snd_cb := (case snd_cb sv2 of None \<Rightarrow> Some SndDefault | Some cb \<Rightarrow> Some cb),
    s_remote_addr := (case remote of None \<Rightarrow> s_remote_addr s | Some r \<Rightarrow> r)\<rparr>"
  obtain sv3 where sv3: "sset sv2 a ?g = Some sv3" "srv_lists sv3 busy idle"
    "bare sv3 = (bare sv2)(a := map_option ?g (bare sv2 a))" "same_server sv2 sv3"
    using sset_ok [OF sv2(2) a2, of ?g] by (auto simp: strip_def split: option.splits)
  have "tcp_stream_init os sv (Some a) fd remote = Some sv3"
    using sv1(1) sv2(1) sv3(1) pool by (auto simp: tcp_stream_init_def simp del: not_None_eq)
  moreover have "same_server sv sv3" using sv1(4) sv2(4) sv3(4) by (blast intro: same_server_trans)
  moreover have "self sv2 = self sv" using sv1(4) sv2(4) by (simp add: same_server_def)
  ultimately show ?thesis using sv3(2,3) sv2(3) sv1(3) s pool by (intro exI [of _ sv3]) auto
qed

lemma get_idle_tcp_stream_ok:
  assumes "srv_lists sv busy idle"
  shows "idle = [] \<Longrightarrow> get_idle_tcp_stream sv = Some (None, sv)"
    and "idle = xs @ [a] \<Longrightarrow> \<exists>sv'. get_idle_tcp_stream sv = Some (Some a, sv') \<and> srv_lists sv' busy xs \<and> bare sv' = bare sv \<and> same_server sv sv'"
proof -
  have t: "idle_stream_tail sv = last_of None idle" using assms by (auto simp: srv_lists_def dlist_def split: option.splits)
  show "idle = [] \<Longrightarrow> get_idle_tcp_stream sv = Some (None, sv)" using t by (simp add: get_idle_tcp_stream_def)
  assume i: "idle = xs @ [a]"
  then show "\<exists>sv'. get_idle_tcp_stream sv = Some (Some a, sv') \<and> srv_lists sv' busy xs \<and> bare sv' = bare sv \<and> same_server sv sv'"
    using t delete_stream_from_idle_list_ok [of sv busy xs a "[]"] assms by (auto simp: get_idle_tcp_stream_def)
qed

lemma active_upd [simp]: "srv_lists (sv\<lparr>active_stream_num := x\<rparr>) busy idle = srv_lists sv busy idle"
  "bare (sv\<lparr>active_stream_num := x\<rparr>) = bare sv" "fd_of (sv\<lparr>active_stream_num := x\<rparr>) = fd_of sv"
  by (auto simp: srv_lists_def bare_def sget_def fd_of_def fun_eq_iff split: option.splits)

text \<open>Closing a stream in use frees its pool's pages and its descriptor, and moves it to the end of the idle list.\<close>

lemma fd_of_upd: "bare sv' = (bare sv)(a \<mapsto> s) \<Longrightarrow> fd_of sv' c = (if c = a then s_sock_fd s else fd_of sv c)"
  by (simp add: fd_of_def)

definition pool_pages :: "tcp_server \<Rightarrow> nat \<Rightarrow> int list" where
  "pool_pages sv a = (case bare sv a of Some s \<Rightarrow> (case s_pool s of Some p \<Rightarrow> map pg_start (pages p) | None \<Rightarrow> []) | None \<Rightarrow> [])"

lemma tcp_stream_close_ok:
  assumes inv: "srv_lists (srv st) (xs @ a # ys) idle" and "set (xs @ a # ys) \<union> set idle = {..<nat (stream_num (srv st))}"
    and op: "\<forall>c\<in>set (xs @ a # ys). stream_open st c" and inj: "inj_on (fd_of (srv st)) (set (xs @ a # ys))"
    and wt: "\<forall>(fd, c)\<in>set (watched st). c \<in> set (xs @ a # ys) \<and> fd = fd_of (srv st) c"
  shows "\<exists>st'. tcp_stream_close st (Some a) = Some st' \<and> tcp_inv st' (xs @ ys) (idle @ [a])
    \<and> same_server (srv st) (srv st') \<and> fds (net st') = fds (net st) - {fd_of (srv st) a}
    \<and> freed st' = freed st @ pool_pages (srv st) a \<and> other_fds st' (xs @ ys) = other_fds st (xs @ a # ys)"
proof -
  have d: "distinct (xs @ a # ys)" "set (xs @ a # ys) \<inter> set idle = {}" using srv_lists_distinct [OF inv] by auto
  obtain s where s: "bare (srv st) a = Some s" "0 \<le> s_sock_fd s" "s_sock_fd s \<in> fds (net st)" "s_server s = Some (self (srv st))"
    "s_pool s \<noteq> None" using op by (auto simp: stream_open_def split: option.splits)
  obtain p where p: "s_pool s = Some p" using s(5) by blast
  obtain r where r: "sget (srv st) a = Some r" "s = strip r" using s(1) by (auto simp: bare_def)
  obtain sv1 where sv1: "delete_stream_from_busy_list (srv st) a = Some sv1" "srv_lists sv1 (xs @ ys) idle"
    "bare sv1 = bare (srv st)" "same_server (srv st) sv1"
    using delete_stream_from_busy_list_ok [OF inv] by blast
  have a1: "a \<notin> set (xs @ ys) \<union> set idle" "a < nat (stream_num sv1)"
    using d assms(2) sv1(4) by (auto simp: same_server_def)
  obtain sv2 where sv2: "add_stream_into_idle_list sv1 a = Some sv2" "srv_lists sv2 (xs @ ys) (idle @ [a])"
    "bare sv2 = bare sv1" "same_server sv1 sv2"
    using add_stream_into_idle_list_ok [OF sv1(2) a1] by blast
  have a2: "a < nat (stream_num sv2)" using a1 sv2(4) by (simp add: same_server_def)
  let ?f = "\<lambda>s. s\<lparr>s_sock_fd := -1, s_pool := None, s_close := 0, s_error := 0, s_data := NULL, s_server := None\<rparr>"
  obtain sv3 where sv3: "sset sv2 a ?f = Some sv3" "srv_lists sv3 (xs @ ys) (idle @ [a])"
    "bare sv3 = (bare sv2)(a := map_option ?f (bare sv2 a))" "same_server sv2 sv3"
    using sset_ok [OF sv2(2) a2, of ?f] by (auto simp: strip_def)
  define st' where "st' = (close_fd (s_sock_fd s) (st\<lparr>freed := freed st @ map pg_start (pages p)\<rparr>))\<lparr>srv := sv3\<rparr>"
  have c: "tcp_stream_close st (Some a) = Some st'"
    using r s p sv1(1) sv2(1) sv3(1) by (simp add: tcp_stream_close_def st'_def close_fd_def)
  have same: "same_server (srv st) sv3" using sv1(4) sv2(4) sv3(4) by (blast intro: same_server_trans)
  have b: "bare sv3 = (bare (srv st))(a \<mapsto> ?f s)" using sv3(3) sv2(3) sv1(3) s(1) by simp
  have fa: "fd_of (srv st) a = s_sock_fd s" using s(1) by (simp add: fd_of_def)
  have other: "c \<in> set (xs @ ys) \<Longrightarrow> fd_of sv3 c = fd_of (srv st) c \<and> fd_of (srv st) c \<noteq> s_sock_fd s \<and> c \<noteq> a" for c
  proof -
    assume c: "c \<in> set (xs @ ys)"
    then have ca: "c \<noteq> a" using d(1) by auto
    moreover have "fd_of (srv st) c \<noteq> fd_of (srv st) a" using inj_onD [OF inj, of c a] c ca by auto
    ultimately show ?thesis using fa fd_of_upd [OF b, of c] by simp
  qed
  have o: "stream_open st' c" if "c \<in> set (xs @ ys)" for c
  proof -
    have "stream_open st c" using op that by auto
    then show ?thesis using other [OF that] same b
      by (auto simp: stream_open_def st'_def close_fd_def sys_close_def same_server_def fd_of_def split: option.splits)
  qed
  have "inj_on (fd_of (srv st)) (set (xs @ ys))" by (rule inj_on_subset [OF inj]) auto
  then have "inj_on (fd_of sv3) (set (xs @ ys))" using other by (subst inj_on_cong [of _ _ "fd_of (srv st)"]) blast+
  moreover have "\<forall>(fd, c)\<in>set (watched st'). c \<in> set (xs @ ys) \<and> fd = fd_of sv3 c"
    using wt fa by (auto simp: st'_def close_fd_def fd_of_upd [OF b])
  moreover have "set (xs @ ys) \<union> set (idle @ [a]) = {..<nat (stream_num sv3)}" using assms(2) same by (auto simp: same_server_def)
  ultimately have "tcp_inv st' (xs @ ys) (idle @ [a])" using sv3(2) o by (auto simp: tcp_inv_def st'_def)
  moreover have "fd_of sv3 ` set (xs @ ys) = fd_of (srv st) ` set (xs @ ys)" using other by (intro image_cong) auto
  then have "other_fds st' (xs @ ys) = other_fds st (xs @ a # ys)"
    by (auto simp: other_fds_def st'_def close_fd_def sys_close_def fa)
  ultimately show ?thesis using c same s(1) p by (auto simp: st'_def close_fd_def sys_close_def fa pool_pages_def)
qed

section \<open>Accepting\<close>

text \<open>What the system owes \<open>accept_cb\<close>: a new descriptor, the server in its local variable, memory, a free stream.\<close>

definition accept_ok :: "tcp_state \<Rightarrow> accept_sys \<Rightarrow> bool" where
  "accept_ok st os \<longleftrightarrow> a_accept os < 0 \<or> (a_accept os \<notin> fds (net st) \<and> a_server os = Some (self (srv st))
     \<and> os_page (a_stream os) \<noteq> NULL \<and> idle_stream_tail (srv st) \<noteq> None)"

text \<open>What every step keeps: the array, the descriptors of others, the difference of the counts of active and busy streams.\<close>

definition kept :: "tcp_state \<Rightarrow> nat list \<Rightarrow> tcp_state \<Rightarrow> nat list \<Rightarrow> bool" where
  "kept st busy st' busy' \<longleftrightarrow> self (srv st') = self (srv st) \<and> stream_num (srv st') = stream_num (srv st)
     \<and> other_fds st' busy' = other_fds st busy
     \<and> active_stream_num (srv st') - int (length busy') = active_stream_num (srv st) - int (length busy)"

lemma kept_refl [simp]: "kept st busy st busy"
  by (simp add: kept_def)

lemma kept_trans: "kept st b st1 b1 \<Longrightarrow> kept st1 b1 st2 b2 \<Longrightarrow> kept st b st2 b2"
  by (simp add: kept_def)

text \<open>A stream taken from the idle list, opened on a new descriptor and put on the busy list.\<close>

lemma open_stream_ok:
  assumes inv: "tcp_inv st busy (ys @ [a])" and fd: "0 \<le> fd" "fd \<notin> fds (net st)" and page: "os_page os \<noteq> NULL"
  obtains sv1 sv2 sv3 where "get_idle_tcp_stream (srv st) = Some (Some a, sv1)" "tcp_stream_init os sv1 (Some a) fd remote = Some sv2"
    "add_stream_into_busy_list sv2 a = Some sv3" "srv_lists sv3 (busy @ [a]) ys" "same_server (srv st) sv3"
    "fd_of sv3 a = fd" "\<forall>c\<in>set busy. fd_of sv3 c = fd_of (srv st) c" "inj_on (fd_of sv3) (set (busy @ [a]))"
    "\<forall>n. fds n = insert fd (fds (net st)) \<longrightarrow> (\<forall>c\<in>set (busy @ [a]). stream_open (st\<lparr>net := n, srv := sv3\<rparr>) c)"
proof -
  have l: "srv_lists (srv st) busy (ys @ [a])" and r: "set busy \<union> set (ys @ [a]) = {..<nat (stream_num (srv st))}"
    and op: "\<forall>c\<in>set busy. stream_open st c" and inj: "inj_on (fd_of (srv st)) (set busy)"
    using inv by (auto simp: tcp_inv_def)
  have d: "a \<notin> set busy \<union> set ys" using srv_lists_distinct [OF l] by auto
  obtain sv1 where sv1: "get_idle_tcp_stream (srv st) = Some (Some a, sv1)" "srv_lists sv1 busy ys" "bare sv1 = bare (srv st)" "same_server (srv st) sv1"
    using get_idle_tcp_stream_ok(2) [OF l refl] by blast
  have a1: "a < nat (stream_num sv1)" using r sv1(4) by (auto simp: same_server_def)
  obtain sv2 s' where sv2: "tcp_stream_init os sv1 (Some a) fd remote = Some sv2" "srv_lists sv2 busy ys" "bare sv2 = (bare sv1)(a \<mapsto> s')"
    "same_server sv1 sv2" "s_sock_fd s' = fd" "s_pool s' \<noteq> None" "s_server s' = Some (self sv1)"
    using tcp_stream_init_ok [OF sv1(2) a1 page, of fd remote] by blast
  have a2: "a < nat (stream_num sv2)" using a1 sv2(4) by (simp add: same_server_def)
  obtain sv3 where sv3: "add_stream_into_busy_list sv2 a = Some sv3" "srv_lists sv3 (busy @ [a]) ys" "bare sv3 = bare sv2" "same_server sv2 sv3"
    using add_stream_into_busy_list_ok [OF sv2(2) d a2] by blast
  have same: "same_server (srv st) sv3" using sv1(4) sv2(4) sv3(4) by (blast intro: same_server_trans)
  have b: "bare sv3 = (bare (srv st))(a \<mapsto> s')" using sv3(3) sv2(3) sv1(3) by simp
  have fa: "fd_of sv3 a = fd" using fd_of_upd [OF b, of a] sv2(5) by simp
  have fc: "\<forall>c\<in>set busy. fd_of sv3 c = fd_of (srv st) c" using fd_of_upd [OF b] d by auto
  have "\<forall>c\<in>set busy. fd_of (srv st) c \<noteq> fd"
    using op fd(2) by (auto simp: stream_open_def fd_of_def split: option.splits)
  then have i: "inj_on (fd_of sv3) (set (busy @ [a]))" using inj fa fc by (simp add: inj_on_def) metis
  have "\<forall>c\<in>set (busy @ [a]). stream_open (st\<lparr>net := n, srv := sv3\<rparr>) c" if n: "fds n = insert fd (fds (net st))" for n
  proof
    fix c assume "c \<in> set (busy @ [a])"
    then show "stream_open (st\<lparr>net := n, srv := sv3\<rparr>) c"
      using op fd sv2(5-7) sv1(4) same n by (cases "c = a") (auto simp: stream_open_def b same_server_def split: option.splits)
  qed
  then show ?thesis using that sv1(1) sv2(1) sv3(1,2) same fa fc i by blast
qed

lemma accept_cb_ok:
  assumes inv: "tcp_inv st busy idle" and l: "l < nat (stream_num (srv st))" and os: "accept_ok st os"
  shows "\<exists>r st' busy' idle'. accept_cb os l st = Some (r, st') \<and> tcp_inv st' busy' idle' \<and> kept st busy st' busy' \<and> set busy \<subseteq> set busy'"
proof -
  define fd where "fd = a_accept os"
  define opened where "opened = (net st)\<lparr>fds := insert fd (fds (net st)), fd_flags := (fd_flags (net st))(fd := 0), bound := (bound (net st))(fd := None)\<rparr>"
  obtain ok n where n: "set_non_blocking (a_net os) fd opened = (ok, n)" by fastforce
  have fn: "fds n = insert fd (fds (net st))" using set_non_blocking_fds [OF n] by (simp add: opened_def)
  have lists: "srv_lists (srv st) busy idle" using inv by (rule tcp_inv_lists)
  obtain r where r: "sget (srv st) l = Some r" using bare_some [OF lists l] by (auto simp: bare_def)
  show ?thesis
  proof (cases "fd < 0")
    case True
    then have "accept_cb os l st = Some (if EAGAIN \<noteq> a_errno os then 0 else 1, st)" using r by (simp add: accept_cb_def fd_def)
    then show ?thesis using inv by (intro exI conjI) auto
  next
    case pos: False
    then have p: "0 \<le> fd" by simp
    have new: "fd \<notin> fds (net st)" "a_server os = Some (self (srv st))" "os_page (a_stream os) \<noteq> NULL" "idle_stream_tail (srv st) \<noteq> None"
      using os pos by (auto simp: accept_ok_def fd_def)
    have nof: "fd_of (srv st) c \<noteq> fd" if "c \<in> set busy" for c
      using inv that new(1) by (auto simp: tcp_inv_def stream_open_def fd_of_def split: option.splits)
    show ?thesis
    proof (cases "ok = 0")
      case True
      let ?st = "close_fd fd (st\<lparr>net := n\<rparr>)"
      have "accept_cb os l st = Some (0, ?st)" using r pos n True by (simp add: accept_cb_def fd_def [symmetric] opened_def [symmetric])
      moreover have f: "fds (net ?st) = fds (net st)" using fn new(1) by (auto simp: close_fd_def sys_close_def)
      have "stream_open ?st c = stream_open st c" for c using f by (auto simp: stream_open_def close_fd_def split: option.splits)
      then have "tcp_inv ?st busy idle" using inv nof by (auto simp: tcp_inv_def close_fd_def)
      moreover have "kept st busy ?st busy" using f by (auto simp: kept_def other_fds_def close_fd_def)
      ultimately show ?thesis by blast
    next
      case nb: False
      have "idle \<noteq> []" using lists new(4) by (auto simp: srv_lists_def split: option.splits)
      then obtain ys a where i: "idle = ys @ [a]" by (cases idle rule: rev_cases) auto
      obtain sv1 sv2 sv3 where sv: "get_idle_tcp_stream (srv st) = Some (Some a, sv1)"
        "tcp_stream_init (a_stream os) sv1 (Some a) fd (Some (a_remote os)) = Some sv2"
        "add_stream_into_busy_list sv2 a = Some sv3" "srv_lists sv3 (busy @ [a]) ys" "same_server (srv st) sv3"
        "fd_of sv3 a = fd" "\<forall>c\<in>set busy. fd_of sv3 c = fd_of (srv st) c" "inj_on (fd_of sv3) (set (busy @ [a]))"
        "\<forall>n. fds n = insert fd (fds (net st)) \<longrightarrow> (\<forall>c\<in>set (busy @ [a]). stream_open (st\<lparr>net := n, srv := sv3\<rparr>) c)"
        by (rule open_stream_ok [where remote = "Some (a_remote os)", OF inv [unfolded i] p new(1,3)])
      let ?st = "st\<lparr>net := n, srv := sv3\<rparr>"
      have part: "set (busy @ [a]) \<union> set ys = {..<nat (stream_num sv3)}" using inv sv(5) i by (auto simp: tcp_inv_def same_server_def)
      have op: "\<forall>c\<in>set (busy @ [a]). stream_open ?st c" using sv(9) fn by blast
      have wt: "\<forall>(g, c)\<in>set (watched ?st). c \<in> set (busy @ [a]) \<and> g = fd_of (srv ?st) c" using inv sv(7) by (auto simp: tcp_inv_def)
      have img: "fd_of sv3 ` set busy = fd_of (srv st) ` set busy" using sv(7) by (auto intro: image_cong)
      have acc: "accept_cb os l st = (if a_epoll_ctl os < 0 then do { st \<leftarrow> tcp_stream_close ?st (Some a); Some (0, st) }
          else Some (1, ?st\<lparr>watched := (fd, a) # watched st, srv := sv3\<lparr>active_stream_num := active_stream_num sv3 + 1\<rparr>\<rparr>))"
        using r pos n nb new(2) sv(1,2,3) by (simp add: accept_cb_def fd_def [symmetric] opened_def [symmetric])
      show ?thesis
      proof (cases "a_epoll_ctl os < 0")
        case True
        obtain st' where st': "tcp_stream_close ?st (Some a) = Some st'" "tcp_inv st' (busy @ []) (ys @ [a])"
          "same_server sv3 (srv st')" "other_fds st' (busy @ []) = other_fds ?st (busy @ [a])"
          using tcp_stream_close_ok [of ?st busy a "[]" ys] sv(4,6,8) part op wt by auto
        have "other_fds st' busy = other_fds st busy" using st'(4) fn new(1) sv(6) img by (auto simp: other_fds_def)
        then have "kept st busy st' busy" using sv(5) st'(3) by (simp add: kept_def same_server_def)
        then show ?thesis using acc True st'(1,2) by auto
      next
        case False
        let ?st' = "?st\<lparr>watched := (fd, a) # watched st, srv := sv3\<lparr>active_stream_num := active_stream_num sv3 + 1\<rparr>\<rparr>"
        have e: "srv_lists (srv ?st') (busy @ [a]) ys" "stream_num (srv ?st') = stream_num sv3" "fd_of (srv ?st') = fd_of sv3"
          "\<And>c. stream_open ?st' c = stream_open ?st c"
          using sv(4) by (simp_all add: stream_open_def cong: option.case_cong)
        have "tcp_inv ?st' (busy @ [a]) ys" unfolding tcp_inv_def e using e(1) part op sv(6,8) wt by auto
        moreover have "other_fds ?st' (busy @ [a]) = other_fds st busy"
          unfolding other_fds_def e using fn new(1) sv(6) img by auto
        then have "kept st busy ?st' (busy @ [a])" using sv(5) by (simp add: kept_def same_server_def)
        ultimately show ?thesis using acc False by (intro exI conjI) auto
      qed
    qed
  qed
qed

section \<open>The event loop\<close>

text \<open>What a callback of the user may do: write to its own stream, short of the links, the descriptor, the server and the pool's
  existence, and stop the server.\<close>

definition stream_kept :: "stream \<Rightarrow> stream \<Rightarrow> bool" where
  "stream_kept s s' \<longleftrightarrow> s_next s' = s_next s \<and> s_last s' = s_last s \<and> s_server s' = s_server s \<and> s_sock_fd s' = s_sock_fd s
     \<and> (s_pool s \<noteq> None \<longrightarrow> s_pool s' \<noteq> None)"

definition put_stream :: "tcp_state \<Rightarrow> nat \<Rightarrow> stream \<Rightarrow> int \<Rightarrow> tcp_state" where
  "put_stream st a s v = st\<lparr>srv := (srv st)\<lparr>streams := map_option (\<lambda>h. h(a \<mapsto> s)) (streams (srv st)), stop := v\<rparr>\<rparr>"

definition user_ok :: "user_cb \<Rightarrow> bool" where
  "user_ok user \<longleftrightarrow> (\<forall>k a st s. sget (srv st) a = Some s
     \<longrightarrow> (\<exists>s' v. stream_kept s s' \<and> user k a st = Some (put_stream st a s' v)))"

lemma put_stream_ok:
  assumes "tcp_inv st busy idle" and "sget (srv st) a = Some s" and "stream_kept s s'"
  shows "tcp_inv (put_stream st a s' v) busy idle \<and> kept st busy (put_stream st a s' v) busy"
proof -
  obtain h where h: "streams (srv st) = Some h" "h a = Some s" using assms(2) by (auto simp: sget_def bind_eq_Some_conv)
  have d: "dlist s_next s_last (h(a \<mapsto> s')) hp tp xs = dlist s_next s_last h hp tp xs" for hp tp xs
    unfolding dlist_def using assms(3) h(2) by (subst dll_links_cong [of _ _ _ "h(a \<mapsto> s')" h]) (simp_all add: stream_kept_def)
  let ?sv = "srv (put_stream st a s' v)"
  have sv: "?sv = (srv st)\<lparr>streams := Some (h(a \<mapsto> s')), stop := v\<rparr>" using h(1) by (simp add: put_stream_def)
  have b: "bare ?sv = (bare (srv st))(a \<mapsto> strip s')" using h by (auto simp: sv bare_def sget_def fun_eq_iff)
  have f: "fd_of ?sv = fd_of (srv st)" using assms(2,3) by (auto simp: fd_of_def b fun_eq_iff bare_def stream_kept_def)
  have "srv_lists ?sv busy idle" using tcp_inv_lists [OF assms(1)] h by (auto simp: srv_lists_def sv d)
  moreover have n: "net (put_stream st a s' v) = net st" "watched (put_stream st a s' v) = watched st" "self ?sv = self (srv st)"
    by (simp_all add: put_stream_def)
  moreover have ba: "bare (srv st) a = Some (strip s)" using assms(2) by (simp add: bare_def)
  have "stream_open (put_stream st a s' v) c" if "stream_open st c" for c
    using that assms(3) ba by (cases "c = a") (auto simp: stream_open_def b n stream_kept_def split: option.splits)
  ultimately show ?thesis using assms(1) by (simp add: tcp_inv_def kept_def other_fds_def f) (simp add: sv)
qed

text \<open>What the system owes an event: it is for a stream in the epoll set, with what \<open>accept_cb\<close> needs.\<close>

definition event_ok :: "tcp_state \<Rightarrow> tcp_event \<Rightarrow> bool" where
  "event_ok st ev \<longleftrightarrow> (case ev_ptr ev of None \<Rightarrow> True | Some a \<Rightarrow> a \<in> snd ` set (watched st)) \<and> accept_ok st (ev_sys ev)"

lemma call_cb_ok:
  assumes "tcp_inv st busy idle" and "a \<in> set busy" and "accept_ok st os" and "user_ok user"
  shows "\<exists>st' busy' idle'. call_cb user os cb a st = Some st' \<and> tcp_inv st' busy' idle' \<and> kept st busy st' busy' \<and> a \<in> set busy'"
proof (cases cb)
  case AcceptCb
  have "a < nat (stream_num (srv st))" using tcp_inv_range [OF assms(1)] assms(2) by auto
  from accept_cb_ok [OF assms(1) this assms(3)] obtain r st' busy' idle' where
    "accept_cb os a st = Some (r, st')" "tcp_inv st' busy' idle'" "kept st busy st' busy'" "set busy \<subseteq> set busy'" by blast
  then show ?thesis using AcceptCb assms(2) by (auto simp: call_cb_def)
next
  case (UserCb k)
  obtain s where s: "sget (srv st) a = Some s" using assms(1,2) by (auto simp: tcp_inv_def stream_open_def bare_def split: option.splits)
  then obtain s' v where "stream_kept s s'" "user k a st = Some (put_stream st a s' v)" using assms(4) unfolding user_ok_def by blast
  then show ?thesis using UserCb put_stream_ok [OF assms(1) s, of s' v] assms(2) by (auto simp: call_cb_def)
qed (use assms in \<open>auto simp: call_cb_def rcv_cb_default_def snd_cb_default_def\<close>)

lemma dispatch_event_ok:
  assumes "tcp_inv st busy idle" and "a \<in> set busy" and "accept_ok st (ev_sys ev)" and "user_ok user" and s: "sget (srv st) a = Some s"
  shows "\<exists>st' busy' idle'. dispatch_event user ev a s st = Some st' \<and> tcp_inv st' busy' idle' \<and> kept st busy st' busy' \<and> a \<in> set busy'"
proof -
  note cb = call_cb_ok [OF assms(1-4)]
  obtain h where h: "streams (srv st) = Some h" "h a = Some s" using s by (auto simp: sget_def bind_eq_Some_conv)
  let ?f = "\<lambda>s. s\<lparr>s_error := 1\<rparr>"
  have p: "st\<lparr>srv := (srv st)\<lparr>streams := Some (h(a \<mapsto> ?f s))\<rparr>\<rparr> = put_stream st a (?f s) (stop (srv st))"
    using h by (simp add: put_stream_def)
  have e: "sset (srv st) a ?f = Some ((srv st)\<lparr>streams := Some (h(a \<mapsto> ?f s))\<rparr>)" using h by (simp add: sset_def hset_def)
  have k: "stream_kept s (?f s)" by (simp add: stream_kept_def)
  have err: "\<exists>st' busy' idle'. (sset (srv st) a ?f \<bind> (\<lambda>server. Some (st\<lparr>srv := server\<rparr>))) = Some st' \<and> tcp_inv st' busy' idle'
      \<and> kept st busy st' busy' \<and> a \<in> set busy'"
    using put_stream_ok [OF assms(1) s k, of "stop (srv st)"] assms(2) unfolding e by (auto simp: p)
  show ?thesis using cb err assms(1,2) by (cases "s_rcv_cb s"; cases "s_snd_cb s") (auto simp: dispatch_event_def)
qed

lemma handle_event_ok:
  assumes inv: "tcp_inv st busy idle" and ev: "event_ok st ev" and "user_ok user"
  shows "\<exists>st' busy' idle'. handle_event user ev st = Some st' \<and> tcp_inv st' busy' idle' \<and> kept st busy st' busy'"
proof (cases "ev_ptr ev")
  case None
  then show ?thesis using inv by (auto simp: handle_event_def)
next
  case (Some a)
  have a: "a \<in> set busy" using ev inv Some by (auto simp: event_ok_def tcp_inv_def)
  have acc: "accept_ok st (ev_sys ev)" using ev by (simp add: event_ok_def)
  obtain s where s: "sget (srv st) a = Some s" using inv a by (auto simp: tcp_inv_def stream_open_def bare_def split: option.splits)
  obtain st1 busy1 idle1 where st1: "dispatch_event user ev a s st = Some st1" "tcp_inv st1 busy1 idle1" "kept st busy st1 busy1" "a \<in> set busy1"
    using dispatch_event_ok [OF inv a acc assms(3) s] by blast
  obtain s1 where s1: "sget (srv st1) a = Some s1" using st1(2,4) by (auto simp: tcp_inv_def stream_open_def bare_def split: option.splits)
  show ?thesis
  proof (cases "s_error s1 \<noteq> 0 \<or> s_close s1 \<noteq> 0")
    case False
    then show ?thesis using Some s st1 s1 by (auto simp: handle_event_def)
  next
    case True
    obtain xs ys where b: "busy1 = xs @ a # ys" using st1(4) by (meson split_list)
    obtain st2 where st2: "tcp_stream_close st1 (Some a) = Some st2" "tcp_inv st2 (xs @ ys) (idle1 @ [a])"
      "same_server (srv st1) (srv st2)" "other_fds st2 (xs @ ys) = other_fds st1 busy1"
      using tcp_stream_close_ok [of st1 xs a ys idle1] st1(2) b by (auto simp: tcp_inv_def)
    let ?st = "st2\<lparr>srv := (srv st2)\<lparr>active_stream_num := active_stream_num (srv st2) - 1\<rparr>\<rparr>"
    have "tcp_inv ?st (xs @ ys) (idle1 @ [a])" using st2(2) by (simp add: tcp_inv_def stream_open_def cong: option.case_cong)
    moreover have "kept st1 busy1 ?st (xs @ ys)" using st2(3,4) b by (simp add: kept_def same_server_def other_fds_def)
    moreover have "handle_event user ev st = Some ?st" using Some s st1(1) s1 True st2(1) by (simp add: handle_event_def)
    ultimately show ?thesis using kept_trans [OF st1(3)] by blast
  qed
qed

text \<open>What the system owes a batch of events, and a run of the loop.\<close>

fun batch_ok :: "user_cb \<Rightarrow> tcp_event list \<Rightarrow> tcp_state \<Rightarrow> bool" where
  "batch_ok user [] st \<longleftrightarrow> True"
| "batch_ok user (ev # evs) st \<longleftrightarrow> event_ok st ev \<and> (case handle_event user ev st of None \<Rightarrow> True | Some st' \<Rightarrow> batch_ok user evs st')"

fun run_ok :: "user_cb \<Rightarrow> epoll_answer list \<Rightarrow> tcp_state \<Rightarrow> bool" where
  "run_ok user [] st \<longleftrightarrow> True"
| "run_ok user (WaitError # rs) st \<longleftrightarrow> True"
| "run_ok user (Ready evs # rs) st \<longleftrightarrow> stop (srv st) \<noteq> 0 \<or>
     (batch_ok user evs st \<and> (case handle_events user evs st of None \<Rightarrow> True | Some st' \<Rightarrow> run_ok user rs st'))"

lemma handle_events_ok:
  assumes "user_ok user"
  shows "tcp_inv st busy idle \<Longrightarrow> batch_ok user evs st
    \<Longrightarrow> \<exists>st' busy' idle'. handle_events user evs st = Some st' \<and> tcp_inv st' busy' idle' \<and> kept st busy st' busy'"
proof (induction evs arbitrary: st busy idle)
  case (Cons ev evs)
  obtain st1 b1 i1 where 1: "handle_event user ev st = Some st1" "tcp_inv st1 b1 i1" "kept st busy st1 b1"
    using handle_event_ok [OF Cons.prems(1) _ assms, of ev] Cons.prems(2) unfolding batch_ok.simps by blast
  obtain st2 b2 i2 where 2: "handle_events user evs st1 = Some st2" "tcp_inv st2 b2 i2" "kept st1 b1 st2 b2"
    using Cons.IH [OF 1(2)] Cons.prems(2) 1(1) by auto
  show ?case using 1(1) 2(1,2) kept_trans [OF 1(3) 2(3)] by auto
qed auto


section \<open>Creation\<close>

lemma init_streams_ok:
  "srv_lists sv [] xs \<Longrightarrow> distinct (xs @ is) \<Longrightarrow> \<forall>i\<in>set is. i < nat (stream_num sv)
   \<Longrightarrow> \<exists>sv'. init_streams is sv = Some sv' \<and> srv_lists sv' [] (xs @ is) \<and> same_server sv sv'"
proof (induction "is" arbitrary: sv xs)
  case (Cons i "is")
  obtain sv1 where 1: "sset sv i (\<lambda>s. s\<lparr>s_index := int i\<rparr>) = Some sv1" "srv_lists sv1 [] xs" "same_server sv sv1"
    using sset_ok [OF Cons.prems(1), of i "\<lambda>s. s\<lparr>s_index := int i\<rparr>"] Cons.prems(3) by (auto simp: strip_def)
  obtain sv2 where 2: "add_stream_into_idle_list sv1 i = Some sv2" "srv_lists sv2 [] (xs @ [i])" "same_server sv1 sv2"
    using add_stream_into_idle_list_ok [OF 1(2), of i] Cons.prems(2,3) 1(3) by (auto simp: same_server_def)
  have 3: "same_server sv sv2" using 1(3) 2(3) by (rule same_server_trans)
  have "\<forall>i\<in>set is. i < nat (stream_num sv2)" using Cons.prems(3) 3 by (simp add: same_server_def)
  then obtain sv3 where "init_streams is sv2 = Some sv3" "srv_lists sv3 [] ((xs @ [i]) @ is)" "same_server sv2 sv3"
    using Cons.IH [OF 2(2)] Cons.prems(2) by auto
  then show ?case using 1(1) 2(1) same_server_trans [OF 3] by auto
qed auto

text \<open>All the answers \<open>tcp_server_create\<close> needs, in its order.\<close>

definition create_good :: "create_sys \<Rightarrow> bool" where
  "create_good os \<longleftrightarrow> c_malloc_server os \<and> c_malloc_streams os \<and> ret_socket (c_net os) \<noteq> -1 \<and> 0 \<le> ret_getfl (c_net os)
     \<and> 0 \<le> ret_setfl (c_net os) \<and> 0 \<le> ret_setsockopt (c_net os) \<and> 0 \<le> ret_bind (c_net os) \<and> 0 \<le> c_listen os \<and> 0 \<le> c_epoll_create os"

text \<open>The descriptors the system gives out are new.\<close>

definition create_fresh :: "create_sys \<Rightarrow> net_state \<Rightarrow> bool" where
  "create_fresh os st \<longleftrightarrow> (ret_socket (c_net os) = -1 \<or> (0 \<le> ret_socket (c_net os) \<and> ret_socket (c_net os) \<notin> fds st))
     \<and> (0 \<le> c_epoll_create os \<longrightarrow> c_epoll_create os \<notin> insert (ret_socket (c_net os)) (fds st))"

lemma create_listen_stream_ok:
  assumes l: "srv_lists sv [] [0..<Suc n]" and "stream_num sv = int (Suc n)" and "os_page (c_stream os) \<noteq> NULL"
    and "0 \<le> listen_fd sv" and "listen_fd sv \<in> fds st"
  shows "\<exists>s. create_listen_stream os sv st = Some (Some s, st) \<and> tcp_inv s [n] [0..<n] \<and> net s = st \<and> watched s = []
    \<and> stop (srv s) = stop sv \<and> fd_of (srv s) n = listen_fd sv"
proof -
  have i: "[0..<Suc n] = [0..<n] @ [n]" by simp
  obtain sv1 where 1: "get_idle_tcp_stream sv = Some (Some n, sv1)" "srv_lists sv1 [] [0..<n]" "same_server sv sv1"
    using get_idle_tcp_stream_ok(2) [OF l i] by blast
  have n1: "n < nat (stream_num sv1)" "listen_fd sv1 = listen_fd sv" using 1(3) assms(2) by (simp_all add: same_server_def)
  obtain sv2 s' where 2: "tcp_stream_init (c_stream os) sv1 (Some n) (listen_fd sv) None = Some sv2" "srv_lists sv2 [] [0..<n]"
    "bare sv2 = (bare sv1)(n \<mapsto> s')" "same_server sv1 sv2" "s_sock_fd s' = listen_fd sv" "s_pool s' \<noteq> None" "s_server s' = Some (self sv1)"
    using tcp_stream_init_ok [OF 1(2) n1(1) assms(3)] by blast
  have n2: "n < nat (stream_num sv2)" using n1 2(4) by (simp add: same_server_def)
  obtain sv3 where 3: "sset sv2 n (\<lambda>s. s\<lparr>s_snd_cb := None\<rparr>) = Some sv3" "srv_lists sv3 [] [0..<n]"
    "bare sv3 = (bare sv2)(n := map_option (\<lambda>s. s\<lparr>s_snd_cb := None\<rparr>) (bare sv2 n))" "same_server sv2 sv3"
    using sset_ok [OF 2(2) n2, of "\<lambda>s. s\<lparr>s_snd_cb := None\<rparr>"] by (auto simp: strip_def)
  have n3: "n < nat (stream_num sv3)" using n2 3(4) by (simp add: same_server_def)
  obtain sv4 where 4: "sset sv3 n (\<lambda>s. s\<lparr>s_rcv_cb := Some AcceptCb\<rparr>) = Some sv4" "srv_lists sv4 [] [0..<n]"
    "bare sv4 = (bare sv3)(n := map_option (\<lambda>s. s\<lparr>s_rcv_cb := Some AcceptCb\<rparr>) (bare sv3 n))" "same_server sv3 sv4"
    using sset_ok [OF 3(2) n3, of "\<lambda>s. s\<lparr>s_rcv_cb := Some AcceptCb\<rparr>"] by (auto simp: strip_def)
  have n4: "n < nat (stream_num sv4)" using n3 4(4) by (simp add: same_server_def)
  obtain sv5 where 5: "add_stream_into_busy_list sv4 n = Some sv5" "srv_lists sv5 ([] @ [n]) [0..<n]" "bare sv5 = bare sv4" "same_server sv4 sv5"
    using add_stream_into_busy_list_ok [OF 4(2), of n] n4 by auto
  have same: "same_server sv sv5" using 1(3) 2(4) 3(4) 4(4) 5(4) by (blast intro: same_server_trans)
  let ?s = "\<lparr>srv = sv5, net = st, watched = [], freed = []\<rparr>"
  have b: "bare sv5 n = Some (s'\<lparr>s_snd_cb := None, s_rcv_cb := Some AcceptCb\<rparr>)" using 5(3) 4(3) 3(3) 2(3) by simp
  have f: "fd_of sv5 n = listen_fd sv" using b 2(5) by (simp add: fd_of_def)
  have "stream_open ?s n" using b 2(5-7) assms(4,5) same 1(3) by (simp add: stream_open_def same_server_def)
  moreover have "set [n] \<union> set [0..<n] = {..<nat (stream_num sv5)}" using same assms(2) by (auto simp: same_server_def)
  ultimately have "tcp_inv ?s [n] [0..<n]" using 5(2) by (simp add: tcp_inv_def)
  moreover have "create_listen_stream os sv st = Some (Some ?s, st)"
    using 1(1) 2(1) 3(1) 4(1) 5(1) n1(2) by (simp add: create_listen_stream_def)
  ultimately show ?thesis using same f by (auto simp: same_server_def)
qed

text \<open>The number of streams: the caller's, or the default.\<close>

definition conn_count :: "int \<Rightarrow> int" where
  "conn_count max_conn = (if max_conn > 0 then max_conn else TCP_MAX_STREAM_NUM)"

lemma init_streams_new:
  obtains sv where "init_streams [0..<nat (conn_count m)] ((new_server addr p)\<lparr>stream_num := conn_count m,
      streams := Some (\<lambda>i. if i < nat (conn_count m) then Some zero_stream else None)\<rparr>) = Some sv"
    "srv_lists sv [] [0..<nat (conn_count m)]" "stream_num sv = conn_count m" "epoll_fd sv = 0" "stop sv = 0"
proof -
  let ?sv = "(new_server addr p)\<lparr>stream_num := conn_count m, streams := Some (\<lambda>i. if i < nat (conn_count m) then Some zero_stream else None)\<rparr>"
  have "srv_lists ?sv [] []" by (simp add: srv_lists_def new_server_def)
  from init_streams_ok [OF this, of "[0..<nat (conn_count m)]"] show ?thesis
    using that by (auto simp: same_server_def new_server_def)
qed

lemma srv_lists_fd_upd [simp]: "srv_lists (sv\<lparr>listen_fd := x\<rparr>) b i = srv_lists sv b i" "srv_lists (sv\<lparr>epoll_fd := x\<rparr>) b i = srv_lists sv b i"
  by (auto simp: srv_lists_def split: option.splits)


section \<open>What the code as written does\<close>


text \<open>Two leaks of descriptors: a connection that finds no free stream is accepted and its descriptor forgotten, and the
  destruction of a server closes none of the streams in use.\<close>

theorem tcp_server_leaks_fds:
  assumes "tcp_inv st busy idle" and "l \<in> set busy"
  shows "fds (tcp_server_destroy (Some (srv st)) (net st)) = fds (net st) - ({listen_fd (srv st), epoll_fd (srv st)} \<inter> {0..})
    \<and> fd_of (srv st) ` set busy - {listen_fd (srv st), epoll_fd (srv st)} \<subseteq> fds (tcp_server_destroy (Some (srv st)) (net st))
    \<and> (idle = [] \<and> 0 \<le> a_accept os \<and> 0 \<le> ret_getfl (a_net os) \<and> 0 \<le> ret_setfl (a_net os) \<and> a_server os = Some (self (srv st))
       \<longrightarrow> (\<exists>st'. accept_cb os l st = Some (0, st') \<and> srv st' = srv st \<and> watched st' = watched st \<and> fds (net st') = insert (a_accept os) (fds (net st))))"
proof (intro conjI impI)
  have d: "fds (tcp_server_destroy (Some (srv st)) (net st)) = fds (net st) - ({listen_fd (srv st), epoll_fd (srv st)} \<inter> {0..})"
    by (auto simp: tcp_server_destroy_def sys_close_def Let_def)
  then show "fds (tcp_server_destroy (Some (srv st)) (net st)) = fds (net st) - ({listen_fd (srv st), epoll_fd (srv st)} \<inter> {0..})" .
  have "fd_of (srv st) ` set busy \<subseteq> fds (net st)"
    using assms(1) by (auto simp: tcp_inv_def stream_open_def fd_of_def split: option.splits)
  then show "fd_of (srv st) ` set busy - {listen_fd (srv st), epoll_fd (srv st)} \<subseteq> fds (tcp_server_destroy (Some (srv st)) (net st))"
    unfolding d by blast
  assume os: "idle = [] \<and> 0 \<le> a_accept os \<and> 0 \<le> ret_getfl (a_net os) \<and> 0 \<le> ret_setfl (a_net os) \<and> a_server os = Some (self (srv st))"
  have "get_idle_tcp_stream (srv st) = Some (None, srv st)" using get_idle_tcp_stream_ok(1) [OF tcp_inv_lists [OF assms(1)]] os by simp
  moreover obtain s where "sget (srv st) l = Some s" using assms by (auto simp: tcp_inv_def stream_open_def bare_def split: option.splits)
  ultimately show "\<exists>st'. accept_cb os l st = Some (0, st') \<and> srv st' = srv st \<and> watched st' = watched st \<and> fds (net st') = insert (a_accept os) (fds (net st))"
    using os by (simp add: accept_cb_def set_non_blocking_def Let_def)
qed

section \<open>Witnesses\<close>

definition demo_pool :: mem_pool where
  "demo_pool = \<lparr>page_size = 4096, page_count = 1, current = Some 0,
     pages = [\<lparr>pg_start = 8192, pg_last = 8264, pg_end = 12288, pg_failed = 0\<rparr>]\<rparr>"

definition demo_streams :: "stream heap" where
  "demo_streams = [0 \<mapsto> zero_stream, 1 \<mapsto> zero_stream\<lparr>s_index := 1, s_sock_fd := 3, s_pool := Some demo_pool, s_server := Some 77,
     s_rcv_cb := Some AcceptCb\<rparr>]"

text \<open>Two streams, the second one listening on descriptor 3.\<close>

definition demo_tcp :: tcp_state where
  "demo_tcp = \<lparr>srv = (new_server 77 80)\<lparr>listen_fd := 3, epoll_fd := 4, streams := Some demo_streams, stream_num := 2, busy_stream_head := Some 1,
     busy_stream_tail := Some 1, busy_stream_num := 1, idle_stream_head := Some 0, idle_stream_tail := Some 0, idle_stream_num := 1\<rparr>,
     net = demo_net_state\<lparr>fds := {0, 1, 2, 3, 4}\<rparr>, watched = [(3, 1)], freed = []\<rparr>"

definition demo_stream_sys :: stream_sys where
  "demo_stream_sys = \<lparr>os_pagesize = 4096, os_page = At 16384, os_now = \<lparr>tv_sec = 1, tv_usec = 0\<rparr>\<rparr>"

definition demo_accept :: accept_sys where
  "demo_accept = \<lparr>a_accept = 5, a_errno = 0, a_remote = Inet 1 2, a_net = demo_net, a_server = Some 77, a_stream = demo_stream_sys, a_epoll_ctl = 0\<rparr>"

definition demo_create :: create_sys where
  "demo_create = \<lparr>c_net = demo_net, c_malloc_server = True, c_malloc_streams = True, c_listen = 0, c_epoll_create = 4, c_stream = demo_stream_sys\<rparr>"

text \<open>A callback that asks for its stream to be closed.\<close>

definition demo_user :: user_cb where
  "demo_user k a st = map_option (\<lambda>s. put_stream st a (s\<lparr>s_close := 1\<rparr>) (stop (srv st))) (sget (srv st) a)"

lemma demo_user_ok: "user_ok demo_user"
proof -
  have "stream_kept s (s\<lparr>s_close := 1\<rparr>)" for s by (simp add: stream_kept_def)
  then show ?thesis unfolding user_ok_def demo_user_def by (metis option.simps(9))
qed

lemma demo_inv: "tcp_inv demo_tcp [1] [0]"
proof -
  have l: "srv_lists (srv demo_tcp) [1] [0]"
    by (auto simp: srv_lists_def demo_tcp_def new_server_def demo_streams_def dlist_def zero_stream_def)
  have b: "bare (srv demo_tcp) 1 = Some (strip (zero_stream\<lparr>s_index := 1, s_sock_fd := 3, s_pool := Some demo_pool, s_server := Some 77,
     s_rcv_cb := Some AcceptCb\<rparr>))" by (simp add: bare_def sget_def demo_tcp_def demo_streams_def)
  have "fd_of (srv demo_tcp) 1 = 3" by (simp only: fd_of_def b) simp
  moreover have "stream_open demo_tcp 1" by (simp only: stream_open_def b) (simp add: demo_tcp_def new_server_def)
  moreover have "{0, Suc 0} = {..<2::nat}" by auto
  ultimately show ?thesis using l by (simp add: tcp_inv_def) (simp add: demo_tcp_def)
qed




theorem tcp_server_leaks_fds_witness:
  "fds (tcp_server_destroy (Some (srv demo_tcp)) (net demo_tcp)) = {0, 1, 2}"
proof -
  have i: "(1::nat) \<in> set [1]" by simp
  have "fds (net demo_tcp) - ({listen_fd (srv demo_tcp), epoll_fd (srv demo_tcp)} \<inter> {0..}) = {0, 1, 2}"
    by (auto simp: demo_tcp_def new_server_def)
  then show ?thesis by (rule trans [OF conjunct1 [OF tcp_server_leaks_fds [OF demo_inv i, of demo_accept]]])
qed

end
