(* ===== verification/TcpClient.thy ===== *)
theory TcpClient
  imports Links EmemPool Etime Enetwork
begin

text \<open>
  The TCP client of \<open>tcp_client.c\<close>, as far as the file is a program: it does not compile. \<open>tcp_client_create\<close> assigns fields the client has not,
  \<open>tcp_client_add_server\<close> and \<open>tcp_client_stream_init\<close> use names that are declared nowhere, and \<open>tcp_client_run\<close> calls the server's function to close a
  stream on a client's, and \<open>tcp_client_stream_reset\<close> clears a field the stream has not. What is left is modelled: the two lists of streams, on the locale \<open>links\<close> like those of \<open>TcpServer\<close>, the loop that makes every stream idle, and the destruction.

  The lemmas show that the array of streams stays divided between the two lists whatever is taken and given back.
\<close>

section \<open>State\<close>

text \<open>Callbacks and the private data are opaque; \<open>cs_client\<close> says whether the pointer to the client is set.\<close>

record client_stream =
  cs_index :: int
  cs_sock_fd :: int
  cs_server_ip :: "string option"
  cs_port :: int
  cs_server_addr :: sock_addr
  cs_pool :: "mem_pool option"
  cs_close :: int
  cs_error :: int
  cs_update_time :: timeval
  cs_chain :: ptr
  cs_cur_chain :: ptr
  cs_tcp_state :: int
  cs_data :: ptr
  cs_client :: bool
  cs_last :: "nat option"
  cs_next :: "nat option"
  cs_rcv_cb :: "nat option"
  cs_snd_cb :: "nat option"
  cs_conn_cb :: "nat option"

record tcp_client =
  tc_epoll_fd :: int
  tc_max_idle_time :: int
  tc_streams :: "client_stream heap option"
  tc_stream_num :: int
  tc_active_stream_num :: int
  tc_busy_stream_head :: "nat option"
  tc_busy_stream_tail :: "nat option"
  tc_busy_stream_num :: int
  tc_idle_stream_head :: "nat option"
  tc_idle_stream_tail :: "nat option"
  tc_idle_stream_num :: int
  tc_stop :: int

section \<open>The two lists\<close>

abbreviation (input) set_cs_next :: "nat option \<Rightarrow> client_stream \<Rightarrow> client_stream" where
  "set_cs_next q s \<equiv> s\<lparr>cs_next := q\<rparr>"

abbreviation (input) set_cs_last :: "nat option \<Rightarrow> client_stream \<Rightarrow> client_stream" where
  "set_cs_last p s \<equiv> s\<lparr>cs_last := p\<rparr>"

definition client_delete_busy :: "tcp_client \<Rightarrow> nat \<Rightarrow> tcp_client option" where
  "client_delete_busy client a = do {
     h \<leftarrow> tc_streams client;
     (h', first, final) \<leftarrow> remove_node cs_next cs_last set_cs_next set_cs_last h (tc_busy_stream_head client) (tc_busy_stream_tail client) a;
     Some (client\<lparr>tc_streams := Some h', tc_busy_stream_head := first, tc_busy_stream_tail := final,
       tc_busy_stream_num := tc_busy_stream_num client - 1\<rparr>)
   }"

definition client_add_busy :: "tcp_client \<Rightarrow> nat \<Rightarrow> tcp_client option" where
  "client_add_busy client a = do {
     h \<leftarrow> tc_streams client;
     (h', first, final) \<leftarrow> append_node set_cs_next set_cs_last h (tc_busy_stream_head client) (tc_busy_stream_tail client) a;
     Some (client\<lparr>tc_streams := Some h', tc_busy_stream_head := first, tc_busy_stream_tail := final,
       tc_busy_stream_num := tc_busy_stream_num client + 1\<rparr>)
   }"

text \<open>A stream taken off the idle list has its links cleared.\<close>

definition client_delete_idle :: "tcp_client \<Rightarrow> nat \<Rightarrow> tcp_client option" where
  "client_delete_idle client a = do {
     h \<leftarrow> tc_streams client;
     (h', first, final) \<leftarrow> remove_node cs_next cs_last set_cs_next set_cs_last h (tc_idle_stream_head client) (tc_idle_stream_tail client) a;
     h' \<leftarrow> hset h' a (\<lambda>s. s\<lparr>cs_last := None, cs_next := None\<rparr>);
     Some (client\<lparr>tc_streams := Some h', tc_idle_stream_head := first, tc_idle_stream_tail := final,
       tc_idle_stream_num := tc_idle_stream_num client - 1\<rparr>)
   }"

definition client_add_idle :: "tcp_client \<Rightarrow> nat \<Rightarrow> tcp_client option" where
  "client_add_idle client a = do {
     h \<leftarrow> tc_streams client;
     (h', first, final) \<leftarrow> append_node set_cs_next set_cs_last h (tc_idle_stream_head client) (tc_idle_stream_tail client) a;
     Some (client\<lparr>tc_streams := Some h', tc_idle_stream_head := first, tc_idle_stream_tail := final,
       tc_idle_stream_num := tc_idle_stream_num client + 1\<rparr>)
   }"

definition get_idle_tcp_client_stream :: "tcp_client \<Rightarrow> (nat option \<times> tcp_client) option" where
  "get_idle_tcp_client_stream client = (case tc_idle_stream_tail client of
      Some a \<Rightarrow> do { client' \<leftarrow> client_delete_idle client a; Some (Some a, client') }
    | None \<Rightarrow> Some (None, client))"

text \<open>The loop of \<open>tcp_client_create\<close> that makes every stream idle.\<close>

fun client_init_streams :: "nat list \<Rightarrow> tcp_client \<Rightarrow> tcp_client option" where
  "client_init_streams [] client = Some client"
| "client_init_streams (i # is) client = do {
     h \<leftarrow> tc_streams client;
     h \<leftarrow> hset h i (\<lambda>s. s\<lparr>cs_index := int i, cs_sock_fd := -1\<rparr>);
     client \<leftarrow> client_add_idle (client\<lparr>tc_streams := Some h\<rparr>) i;
     client_init_streams is client
   }"

section \<open>Streams and the client\<close>

definition tcp_client_stop :: "tcp_client \<Rightarrow> tcp_client" where
  "tcp_client_stop client = client\<lparr>tc_stop := 1\<rparr>"

definition tcp_client_read :: "nat \<Rightarrow> 'b \<Rightarrow> int \<times> 'b" where
  "tcp_client_read stream buf = (1, buf)"

definition tcp_client_send :: "nat \<Rightarrow> 'd \<Rightarrow> int \<Rightarrow> int" where
  "tcp_client_send stream data sz = 1"

text \<open>The array of streams and the client are freed; what is closed is the descriptor of the epoll set only.\<close>

definition tcp_client_destroy :: "tcp_client option \<Rightarrow> net_state \<Rightarrow> net_state" where
  "tcp_client_destroy client st = (case client of
      None \<Rightarrow> st
    | Some c \<Rightarrow> if 0 \<le> tc_epoll_fd c then sys_close (tc_epoll_fd c) st else st)"

definition client_rcv_cb_default :: "nat \<Rightarrow> int" where "client_rcv_cb_default stream = 1"

definition client_snd_cb_default :: "nat \<Rightarrow> int" where "client_snd_cb_default stream = 1"


section \<open>The streams stay divided\<close>

interpretation cl: links cs_next cs_last set_cs_next set_cs_last
  by unfold_locales simp_all

text \<open>The lists hold every stream of the array, each on one of them, and the counters count them.\<close>

definition client_lists :: "tcp_client \<Rightarrow> nat list \<Rightarrow> nat list \<Rightarrow> bool" where
  "client_lists c busy idle \<longleftrightarrow> (\<exists>h. tc_streams c = Some h
     \<and> dlist cs_next cs_last h (tc_busy_stream_head c) (tc_busy_stream_tail c) busy
     \<and> dlist cs_next cs_last h (tc_idle_stream_head c) (tc_idle_stream_tail c) idle
     \<and> set busy \<inter> set idle = {} \<and> tc_busy_stream_num c = int (length busy) \<and> tc_idle_stream_num c = int (length idle))"

lemma client_lists_other:
  assumes "dlist cs_next cs_last h hp tp ys" and "\<forall>c. c \<notin> set xs \<longrightarrow> h' c = h c" and "set xs \<inter> set ys = {}"
  shows "dlist cs_next cs_last h' hp tp ys"
  using assms by (subst dlist_cong [of _ h' h]) auto

lemma client_delete_busy_ok:
  assumes "client_lists c (xs @ a # ys) idle"
  shows "\<exists>c'. client_delete_busy c a = Some c' \<and> client_lists c' (xs @ ys) idle"
proof -
  obtain h where h: "tc_streams c = Some h" "dlist cs_next cs_last h (tc_busy_stream_head c) (tc_busy_stream_tail c) (xs @ a # ys)"
    "dlist cs_next cs_last h (tc_idle_stream_head c) (tc_idle_stream_tail c) idle" "set (xs @ a # ys) \<inter> set idle = {}"
    using assms by (auto simp: client_lists_def)
  obtain n where "h a = Some n" using dlist_heap [OF h(2)] by auto
  from cl.remove_node_ok [OF h(2) this] obtain h' where
    r: "remove_node cs_next cs_last set_cs_next set_cs_last h (tc_busy_stream_head c) (tc_busy_stream_tail c) a = Some (h', first_of (xs @ ys) None, last_of None (xs @ ys))"
    and d: "dlist cs_next cs_last h' (first_of (xs @ ys) None) (last_of None (xs @ ys)) (xs @ ys)" and o: "\<forall>c. c \<notin> set (xs @ ys) \<longrightarrow> h' c = h c"
    by blast
  have "dlist cs_next cs_last h' (tc_idle_stream_head c) (tc_idle_stream_tail c) idle" by (rule client_lists_other [OF h(3) o]) (use h(4) in auto)
  then show ?thesis using assms h(1) r d by (auto simp: client_delete_busy_def client_lists_def simp del: first_of_simps last_of_simps last_of_append)
qed

lemma client_delete_idle_ok:
  assumes "client_lists c busy (xs @ a # ys)"
  shows "\<exists>c'. client_delete_idle c a = Some c' \<and> client_lists c' busy (xs @ ys) \<and> (\<exists>h n. tc_streams c' = Some h \<and> h a = Some n)"
proof -
  obtain h where h: "tc_streams c = Some h" "dlist cs_next cs_last h (tc_idle_stream_head c) (tc_idle_stream_tail c) (xs @ a # ys)"
    "dlist cs_next cs_last h (tc_busy_stream_head c) (tc_busy_stream_tail c) busy" "set (xs @ a # ys) \<inter> set busy = {}"
    using assms by (auto simp: client_lists_def)
  obtain n where "h a = Some n" using dlist_heap [OF h(2)] by auto
  from cl.remove_node_ok [OF h(2) this] obtain h' where
    r: "remove_node cs_next cs_last set_cs_next set_cs_last h (tc_idle_stream_head c) (tc_idle_stream_tail c) a = Some (h', first_of (xs @ ys) None, last_of None (xs @ ys))"
    and d: "dlist cs_next cs_last h' (first_of (xs @ ys) None) (last_of None (xs @ ys)) (xs @ ys)" and a: "h' a = Some n" and o: "\<forall>c. c \<notin> set (xs @ ys) \<longrightarrow> h' c = h c"
    by blast
  define h2 where "h2 = h'(a \<mapsto> n\<lparr>cs_last := None, cs_next := None\<rparr>)"
  have na: "a \<notin> set (xs @ ys)" using h(2) by (auto simp: dlist_def)
  have "dlist cs_next cs_last h2 (first_of (xs @ ys) None) (last_of None (xs @ ys)) (xs @ ys)"
    using d na unfolding h2_def by (subst dlist_cong [of _ _ h']) auto
  moreover have "\<forall>c. c \<notin> set (xs @ a # ys) \<longrightarrow> h2 c = h c" using o by (simp add: h2_def)
  then have "dlist cs_next cs_last h2 (tc_busy_stream_head c) (tc_busy_stream_tail c) busy" by (rule client_lists_other [OF h(3)]) (use h(4) in auto)
  moreover have "hset h' a (\<lambda>s. s\<lparr>cs_last := None, cs_next := None\<rparr>) = Some h2" using a by (simp add: hset_def h2_def)
  moreover have "\<exists>n. h2 a = Some n" by (simp add: h2_def)
  ultimately show ?thesis using assms h(1) r by (auto simp: client_delete_idle_def client_lists_def simp del: first_of_simps last_of_simps last_of_append)
qed

lemma client_add_busy_ok:
  assumes "client_lists c busy idle" and "a \<notin> set busy \<union> set idle" and "tc_streams c = Some h" and "h a = Some n"
  shows "\<exists>c'. client_add_busy c a = Some c' \<and> client_lists c' (busy @ [a]) idle"
proof -
  have l: "dlist cs_next cs_last h (tc_busy_stream_head c) (tc_busy_stream_tail c) busy" "dlist cs_next cs_last h (tc_idle_stream_head c) (tc_idle_stream_tail c) idle"
    "set busy \<inter> set idle = {}" "a \<notin> set busy" using assms by (auto simp: client_lists_def)
  from cl.append_node_ok [OF l(1,4) assms(4)] obtain h' where
    r: "append_node set_cs_next set_cs_last h (tc_busy_stream_head c) (tc_busy_stream_tail c) a = Some (h', first_of (busy @ [a]) None, Some a)"
    and d: "dlist cs_next cs_last h' (first_of (busy @ [a]) None) (Some a) (busy @ [a])" and o: "\<forall>c. c \<notin> set (busy @ [a]) \<longrightarrow> h' c = h c"
    by blast
  have "dlist cs_next cs_last h' (tc_idle_stream_head c) (tc_idle_stream_tail c) idle" by (rule client_lists_other [OF l(2) o]) (use l(3) assms(2) in auto)
  then show ?thesis using assms r d by (auto simp: client_add_busy_def client_lists_def simp del: first_of_simps)
qed

lemma client_add_idle_ok:
  assumes "client_lists c busy idle" and "a \<notin> set busy \<union> set idle" and "tc_streams c = Some h" and "h a = Some n"
  shows "\<exists>c' h'. client_add_idle c a = Some c' \<and> client_lists c' busy (idle @ [a]) \<and> tc_streams c' = Some h' \<and> (\<forall>b. b \<notin> set (idle @ [a]) \<longrightarrow> h' b = h b)"
proof -
  have l: "dlist cs_next cs_last h (tc_idle_stream_head c) (tc_idle_stream_tail c) idle" "dlist cs_next cs_last h (tc_busy_stream_head c) (tc_busy_stream_tail c) busy"
    "set busy \<inter> set idle = {}" "a \<notin> set idle" using assms by (auto simp: client_lists_def)
  from cl.append_node_ok [OF l(1,4) assms(4)] obtain h' where
    r: "append_node set_cs_next set_cs_last h (tc_idle_stream_head c) (tc_idle_stream_tail c) a = Some (h', first_of (idle @ [a]) None, Some a)"
    and d: "dlist cs_next cs_last h' (first_of (idle @ [a]) None) (Some a) (idle @ [a])" and o: "\<forall>c. c \<notin> set (idle @ [a]) \<longrightarrow> h' c = h c"
    by blast
  have "dlist cs_next cs_last h' (tc_busy_stream_head c) (tc_busy_stream_tail c) busy" by (rule client_lists_other [OF l(2) o]) (use l(3) assms(2) in auto)
  then show ?thesis using assms r d o by (auto simp: client_add_idle_def client_lists_def simp del: first_of_simps)
qed

text \<open>The loop of the creation makes every stream idle, in order.\<close>

lemma client_init_streams_ok:
  "client_lists c busy idle \<Longrightarrow> tc_streams c = Some h \<Longrightarrow> \<forall>i\<in>set is. h i \<noteq> None \<Longrightarrow> distinct is \<Longrightarrow> set is \<inter> (set busy \<union> set idle) = {}
   \<Longrightarrow> \<exists>c'. client_init_streams is c = Some c' \<and> client_lists c' busy (idle @ is)"
proof (induction "is" arbitrary: c idle h)
  case (Cons i "is")
  obtain n where n: "h i = Some n" using Cons.prems(3) by auto
  let ?n = "n\<lparr>cs_index := int i, cs_sock_fd := -1\<rparr>" and ?h = "h(i \<mapsto> n\<lparr>cs_index := int i, cs_sock_fd := -1\<rparr>)"
  have d: "dlist cs_next cs_last ?h hp tp xs = dlist cs_next cs_last h hp tp xs" if "set xs \<subseteq> set busy \<union> set idle" for hp tp xs
    by (rule dlist_cong) (use that Cons.prems(5) in auto)
  have l: "client_lists (c\<lparr>tc_streams := Some ?h\<rparr>) busy idle" using Cons.prems(1,2) d by (auto simp: client_lists_def)
  have "i \<notin> set busy \<union> set idle" using Cons.prems(5) by auto
  from client_add_idle_ok [OF l this, of ?h ?n] obtain c1 h1 where 1: "client_add_idle (c\<lparr>tc_streams := Some ?h\<rparr>) i = Some c1"
    "client_lists c1 busy (idle @ [i])" "tc_streams c1 = Some h1" "\<forall>b. b \<notin> set (idle @ [i]) \<longrightarrow> h1 b = ?h b" by auto
  have "\<forall>j\<in>set is. h1 j \<noteq> None" using 1(4) Cons.prems(3-5) by auto
  then obtain c' where "client_init_streams is c1 = Some c'" "client_lists c' busy ((idle @ [i]) @ is)"
    using Cons.IH [OF 1(2,3)] Cons.prems(4,5) by auto
  then show ?case using Cons.prems(2) n 1(1) by (simp add: hset_def)
qed simp

text \<open>Taking a stream gives the last idle one, or none exactly when all are busy; put on the busy list, the streams stay divided.\<close>

lemma client_take:
  assumes "client_lists c busy idle"
  shows "if idle = [] then get_idle_tcp_client_stream c = Some (None, c)
    else \<exists>c1 c2. get_idle_tcp_client_stream c = Some (Some (last idle), c1) \<and> client_lists c1 busy (butlast idle)
      \<and> client_add_busy c1 (last idle) = Some c2 \<and> client_lists c2 (busy @ [last idle]) (butlast idle)"
proof (cases idle rule: rev_cases)
  case Nil
  then show ?thesis using assms by (auto simp: get_idle_tcp_client_stream_def client_lists_def)
next
  case (snoc xs a)
  have t: "tc_idle_stream_tail c = Some a" using assms by (auto simp: client_lists_def dlist_def snoc)
  obtain c1 h n where 1: "client_delete_idle c a = Some c1" "client_lists c1 busy (xs @ [])" "tc_streams c1 = Some h" "h a = Some n"
    using client_delete_idle_ok [of c busy xs a "[]"] assms snoc by auto
  have "a \<notin> set busy \<union> set xs" using assms by (auto simp: client_lists_def dlist_def snoc)
  then obtain c2 where "client_add_busy c1 a = Some c2" "client_lists c2 (busy @ [a]) xs" using client_add_busy_ok [OF 1(2) _ 1(3,4)] by auto
  then show ?thesis using 1 t snoc by (simp add: get_idle_tcp_client_stream_def)
qed

end
