(* ===== verification/Des.thy ===== *)
theory Des
  imports Prelude
begin

text \<open>
  The DES and triple-DES cipher of \<open>thirdparty/crypt/3des.c\<close>: its tables, the initial and the final permutation, the round, the
  key schedule, the encryption and the decryption of a block with one, two or three keys, and of a buffer. Words are 32 bits wide; a
  block is the eight bytes at an offset of a buffer, and an access outside it is \<open>None\<close>. The lemmas show that
  the final permutation undoes the initial one, that the rounds undo themselves with the keys in reverse, and that decryption
  inverts encryption on every block and buffer.
\<close>

section \<open>Tables\<close>

text \<open>The eight S-boxes and the two tables of the first permuted choice, as the source lists them.\<close>

definition SB1 :: "32 word list" where
  "SB1 = [
    0x01010400, 0x00000000, 0x00010000, 0x01010404, 0x01010004, 0x00010404, 0x00000004, 0x00010000,
    0x00000400, 0x01010400, 0x01010404, 0x00000400, 0x01000404, 0x01010004, 0x01000000, 0x00000004,
    0x00000404, 0x01000400, 0x01000400, 0x00010400, 0x00010400, 0x01010000, 0x01010000, 0x01000404,
    0x00010004, 0x01000004, 0x01000004, 0x00010004, 0x00000000, 0x00000404, 0x00010404, 0x01000000,
    0x00010000, 0x01010404, 0x00000004, 0x01010000, 0x01010400, 0x01000000, 0x01000000, 0x00000400,
    0x01010004, 0x00010000, 0x00010400, 0x01000004, 0x00000400, 0x00000004, 0x01000404, 0x00010404,
    0x01010404, 0x00010004, 0x01010000, 0x01000404, 0x01000004, 0x00000404, 0x00010404, 0x01010400,
    0x00000404, 0x01000400, 0x01000400, 0x00000000, 0x00010004, 0x00010400, 0x00000000, 0x01010004]"

definition SB2 :: "32 word list" where
  "SB2 = [
    0x80108020, 0x80008000, 0x00008000, 0x00108020, 0x00100000, 0x00000020, 0x80100020, 0x80008020,
    0x80000020, 0x80108020, 0x80108000, 0x80000000, 0x80008000, 0x00100000, 0x00000020, 0x80100020,
    0x00108000, 0x00100020, 0x80008020, 0x00000000, 0x80000000, 0x00008000, 0x00108020, 0x80100000,
    0x00100020, 0x80000020, 0x00000000, 0x00108000, 0x00008020, 0x80108000, 0x80100000, 0x00008020,
    0x00000000, 0x00108020, 0x80100020, 0x00100000, 0x80008020, 0x80100000, 0x80108000, 0x00008000,
    0x80100000, 0x80008000, 0x00000020, 0x80108020, 0x00108020, 0x00000020, 0x00008000, 0x80000000,
    0x00008020, 0x80108000, 0x00100000, 0x80000020, 0x00100020, 0x80008020, 0x80000020, 0x00100020,
    0x00108000, 0x00000000, 0x80008000, 0x00008020, 0x80000000, 0x80100020, 0x80108020, 0x00108000]"

definition SB3 :: "32 word list" where
  "SB3 = [
    0x00000208, 0x08020200, 0x00000000, 0x08020008, 0x08000200, 0x00000000, 0x00020208, 0x08000200,
    0x00020008, 0x08000008, 0x08000008, 0x00020000, 0x08020208, 0x00020008, 0x08020000, 0x00000208,
    0x08000000, 0x00000008, 0x08020200, 0x00000200, 0x00020200, 0x08020000, 0x08020008, 0x00020208,
    0x08000208, 0x00020200, 0x00020000, 0x08000208, 0x00000008, 0x08020208, 0x00000200, 0x08000000,
    0x08020200, 0x08000000, 0x00020008, 0x00000208, 0x00020000, 0x08020200, 0x08000200, 0x00000000,
    0x00000200, 0x00020008, 0x08020208, 0x08000200, 0x08000008, 0x00000200, 0x00000000, 0x08020008,
    0x08000208, 0x00020000, 0x08000000, 0x08020208, 0x00000008, 0x00020208, 0x00020200, 0x08000008,
    0x08020000, 0x08000208, 0x00000208, 0x08020000, 0x00020208, 0x00000008, 0x08020008, 0x00020200]"

definition SB4 :: "32 word list" where
  "SB4 = [
    0x00802001, 0x00002081, 0x00002081, 0x00000080, 0x00802080, 0x00800081, 0x00800001, 0x00002001,
    0x00000000, 0x00802000, 0x00802000, 0x00802081, 0x00000081, 0x00000000, 0x00800080, 0x00800001,
    0x00000001, 0x00002000, 0x00800000, 0x00802001, 0x00000080, 0x00800000, 0x00002001, 0x00002080,
    0x00800081, 0x00000001, 0x00002080, 0x00800080, 0x00002000, 0x00802080, 0x00802081, 0x00000081,
    0x00800080, 0x00800001, 0x00802000, 0x00802081, 0x00000081, 0x00000000, 0x00000000, 0x00802000,
    0x00002080, 0x00800080, 0x00800081, 0x00000001, 0x00802001, 0x00002081, 0x00002081, 0x00000080,
    0x00802081, 0x00000081, 0x00000001, 0x00002000, 0x00800001, 0x00002001, 0x00802080, 0x00800081,
    0x00002001, 0x00002080, 0x00800000, 0x00802001, 0x00000080, 0x00800000, 0x00002000, 0x00802080]"

definition SB5 :: "32 word list" where
  "SB5 = [
    0x00000100, 0x02080100, 0x02080000, 0x42000100, 0x00080000, 0x00000100, 0x40000000, 0x02080000,
    0x40080100, 0x00080000, 0x02000100, 0x40080100, 0x42000100, 0x42080000, 0x00080100, 0x40000000,
    0x02000000, 0x40080000, 0x40080000, 0x00000000, 0x40000100, 0x42080100, 0x42080100, 0x02000100,
    0x42080000, 0x40000100, 0x00000000, 0x42000000, 0x02080100, 0x02000000, 0x42000000, 0x00080100,
    0x00080000, 0x42000100, 0x00000100, 0x02000000, 0x40000000, 0x02080000, 0x42000100, 0x40080100,
    0x02000100, 0x40000000, 0x42080000, 0x02080100, 0x40080100, 0x00000100, 0x02000000, 0x42080000,
    0x42080100, 0x00080100, 0x42000000, 0x42080100, 0x02080000, 0x00000000, 0x40080000, 0x42000000,
    0x00080100, 0x02000100, 0x40000100, 0x00080000, 0x00000000, 0x40080000, 0x02080100, 0x40000100]"

definition SB6 :: "32 word list" where
  "SB6 = [
    0x20000010, 0x20400000, 0x00004000, 0x20404010, 0x20400000, 0x00000010, 0x20404010, 0x00400000,
    0x20004000, 0x00404010, 0x00400000, 0x20000010, 0x00400010, 0x20004000, 0x20000000, 0x00004010,
    0x00000000, 0x00400010, 0x20004010, 0x00004000, 0x00404000, 0x20004010, 0x00000010, 0x20400010,
    0x20400010, 0x00000000, 0x00404010, 0x20404000, 0x00004010, 0x00404000, 0x20404000, 0x20000000,
    0x20004000, 0x00000010, 0x20400010, 0x00404000, 0x20404010, 0x00400000, 0x00004010, 0x20000010,
    0x00400000, 0x20004000, 0x20000000, 0x00004010, 0x20000010, 0x20404010, 0x00404000, 0x20400000,
    0x00404010, 0x20404000, 0x00000000, 0x20400010, 0x00000010, 0x00004000, 0x20400000, 0x00404010,
    0x00004000, 0x00400010, 0x20004010, 0x00000000, 0x20404000, 0x20000000, 0x00400010, 0x20004010]"

definition SB7 :: "32 word list" where
  "SB7 = [
    0x00200000, 0x04200002, 0x04000802, 0x00000000, 0x00000800, 0x04000802, 0x00200802, 0x04200800,
    0x04200802, 0x00200000, 0x00000000, 0x04000002, 0x00000002, 0x04000000, 0x04200002, 0x00000802,
    0x04000800, 0x00200802, 0x00200002, 0x04000800, 0x04000002, 0x04200000, 0x04200800, 0x00200002,
    0x04200000, 0x00000800, 0x00000802, 0x04200802, 0x00200800, 0x00000002, 0x04000000, 0x00200800,
    0x04000000, 0x00200800, 0x00200000, 0x04000802, 0x04000802, 0x04200002, 0x04200002, 0x00000002,
    0x00200002, 0x04000000, 0x04000800, 0x00200000, 0x04200800, 0x00000802, 0x00200802, 0x04200800,
    0x00000802, 0x04000002, 0x04200802, 0x04200000, 0x00200800, 0x00000000, 0x00000002, 0x04200802,
    0x00000000, 0x00200802, 0x04200000, 0x00000800, 0x04000002, 0x04000800, 0x00000800, 0x00200002]"

definition SB8 :: "32 word list" where
  "SB8 = [
    0x10001040, 0x00001000, 0x00040000, 0x10041040, 0x10000000, 0x10001040, 0x00000040, 0x10000000,
    0x00040040, 0x10040000, 0x10041040, 0x00041000, 0x10041000, 0x00041040, 0x00001000, 0x00000040,
    0x10040000, 0x10000040, 0x10001000, 0x00001040, 0x00041000, 0x00040040, 0x10040040, 0x10041000,
    0x00001040, 0x00000000, 0x00000000, 0x10040040, 0x10000040, 0x10001000, 0x00041040, 0x00040000,
    0x00041040, 0x00040000, 0x10041000, 0x00001000, 0x00000040, 0x10040040, 0x00001000, 0x00041040,
    0x10001000, 0x00000040, 0x10000040, 0x10040000, 0x10040040, 0x10000000, 0x00040000, 0x10001040,
    0x00000000, 0x10041040, 0x00040040, 0x10000040, 0x10040000, 0x10001000, 0x10001040, 0x00000000,
    0x10041040, 0x00041000, 0x00041000, 0x00001040, 0x00001040, 0x00040040, 0x10000000, 0x10041000]"

definition LHs :: "32 word list" where
  "LHs = [
    0x00000000, 0x00000001, 0x00000100, 0x00000101, 0x00010000, 0x00010001, 0x00010100, 0x00010101,
    0x01000000, 0x01000001, 0x01000100, 0x01000101, 0x01010000, 0x01010001, 0x01010100, 0x01010101]"

definition RHs :: "32 word list" where
  "RHs = [
    0x00000000, 0x01000000, 0x00010000, 0x01010000, 0x00000100, 0x01000100, 0x00010100, 0x01010100,
    0x00000001, 0x01000001, 0x00010001, 0x01010001, 0x00000101, 0x01000101, 0x00010101, 0x01010101]"


section \<open>Macros\<close>

text \<open>\<open>GET_UINT32\<close> and \<open>PUT_UINT32\<close>: a word from and to four bytes, the highest first.\<close>

definition GET_UINT32 :: "8 word list \<Rightarrow> int \<Rightarrow> 32 word option" where
  "GET_UINT32 b i = do {
     b0 \<leftarrow> rd b i; b1 \<leftarrow> rd b (i + 1); b2 \<leftarrow> rd b (i + 2); b3 \<leftarrow> rd b (i + 3);
     Some (push_bit 24 (ucast b0) OR push_bit 16 (ucast b1) OR push_bit 8 (ucast b2) OR ucast b3)
   }"

definition PUT_UINT32 :: "32 word \<Rightarrow> 8 word list \<Rightarrow> int \<Rightarrow> 8 word list option" where
  "PUT_UINT32 n b i = do {
     b \<leftarrow> wr b i (ucast (drop_bit 24 n));
     b \<leftarrow> wr b (i + 1) (ucast (drop_bit 16 n));
     b \<leftarrow> wr b (i + 2) (ucast (drop_bit 8 n));
     wr b (i + 3) (ucast n)
   }"

definition DES_IP :: "32 word \<Rightarrow> 32 word \<Rightarrow> 32 word \<times> 32 word" where
  "DES_IP X Y =
    (let T = (drop_bit 4 X XOR Y) AND 0x0F0F0F0F; Y = Y XOR T; X = X XOR push_bit 4 T;
         T = (drop_bit 16 X XOR Y) AND 0x0000FFFF; Y = Y XOR T; X = X XOR push_bit 16 T;
         T = (drop_bit 2 Y XOR X) AND 0x33333333; X = X XOR T; Y = Y XOR push_bit 2 T;
         T = (drop_bit 8 Y XOR X) AND 0x00FF00FF; X = X XOR T; Y = Y XOR push_bit 8 T;
         Y = (push_bit 1 Y OR drop_bit 31 Y) AND 0xFFFFFFFF;
         T = (X XOR Y) AND 0xAAAAAAAA; Y = Y XOR T; X = X XOR T;
         X = (push_bit 1 X OR drop_bit 31 X) AND 0xFFFFFFFF
     in (X, Y))"

definition DES_FP :: "32 word \<Rightarrow> 32 word \<Rightarrow> 32 word \<times> 32 word" where
  "DES_FP X Y =
    (let X = (push_bit 31 X OR drop_bit 1 X) AND 0xFFFFFFFF;
         T = (X XOR Y) AND 0xAAAAAAAA; X = X XOR T; Y = Y XOR T;
         Y = (push_bit 31 Y OR drop_bit 1 Y) AND 0xFFFFFFFF;
         T = (drop_bit 8 Y XOR X) AND 0x00FF00FF; X = X XOR T; Y = Y XOR push_bit 8 T;
         T = (drop_bit 2 Y XOR X) AND 0x33333333; X = X XOR T; Y = Y XOR push_bit 2 T;
         T = (drop_bit 16 X XOR Y) AND 0x0000FFFF; Y = Y XOR T; X = X XOR push_bit 16 T;
         T = (drop_bit 4 X XOR Y) AND 0x0F0F0F0F; Y = Y XOR T; X = X XOR push_bit 4 T
     in (X, Y))"

text \<open>A table looked up at six bits of a word.\<close>

definition sbox :: "32 word list \<Rightarrow> 32 word \<Rightarrow> 32 word" where
  "sbox tab w = tab ! unat (w AND 0x3F)"

text \<open>\<open>DES_ROUND(X,Y)\<close> with the two subkeys \<open>SK\<close> points to: the new value of \<open>Y\<close>.\<close>

definition DES_ROUND :: "32 word \<Rightarrow> 32 word \<Rightarrow> 32 word \<Rightarrow> 32 word \<Rightarrow> 32 word" where
  "DES_ROUND k1 k2 X Y =
    (let T = k1 XOR X;
         Y = Y XOR (sbox SB8 T XOR sbox SB6 (drop_bit 8 T) XOR sbox SB4 (drop_bit 16 T) XOR sbox SB2 (drop_bit 24 T));
         T = k2 XOR (push_bit 28 X OR drop_bit 4 X)
     in Y XOR (sbox SB7 T XOR sbox SB5 (drop_bit 8 T) XOR sbox SB3 (drop_bit 16 T) XOR sbox SB1 (drop_bit 24 T)))"

text \<open>A run of \<open>DES_ROUND(Y, X); DES_ROUND(X, Y)\<close> as long as there are subkeys.\<close>

fun des_rounds :: "32 word list \<Rightarrow> 32 word \<Rightarrow> 32 word \<Rightarrow> 32 word \<times> 32 word" where
  "des_rounds (k1 # k2 # k3 # k4 # SK) X Y =
    (let X = DES_ROUND k1 k2 Y X; Y = DES_ROUND k3 k4 X Y in des_rounds SK X Y)"
| "des_rounds _ X Y = (X, Y)"

section \<open>Key schedule\<close>

definition nibble :: "32 word list \<Rightarrow> 32 word \<Rightarrow> 32 word" where
  "nibble tab w = tab ! unat (w AND 0xF)"

text \<open>The first permuted choice.\<close>

definition des_pc1 :: "32 word \<Rightarrow> 32 word \<Rightarrow> 32 word \<times> 32 word" where
  "des_pc1 X Y =
    (let T = (drop_bit 4 Y XOR X) AND 0x0F0F0F0F; X = X XOR T; Y = Y XOR push_bit 4 T;
         T = (Y XOR X) AND 0x10101010; X = X XOR T; Y = Y XOR T;
         X = push_bit 3 (nibble LHs X) OR push_bit 2 (nibble LHs (drop_bit 8 X)) OR push_bit 1 (nibble LHs (drop_bit 16 X)) OR nibble LHs (drop_bit 24 X)
           OR push_bit 7 (nibble LHs (drop_bit 5 X)) OR push_bit 6 (nibble LHs (drop_bit 13 X)) OR push_bit 5 (nibble LHs (drop_bit 21 X)) OR push_bit 4 (nibble LHs (drop_bit 29 X));
         Y = push_bit 3 (nibble RHs (drop_bit 1 Y)) OR push_bit 2 (nibble RHs (drop_bit 9 Y)) OR push_bit 1 (nibble RHs (drop_bit 17 Y)) OR nibble RHs (drop_bit 25 Y)
           OR push_bit 7 (nibble RHs (drop_bit 4 Y)) OR push_bit 6 (nibble RHs (drop_bit 12 Y)) OR push_bit 5 (nibble RHs (drop_bit 20 Y)) OR push_bit 4 (nibble RHs (drop_bit 28 Y))
     in (X AND 0x0FFFFFFF, Y AND 0x0FFFFFFF))"

text \<open>The rotation of the two halves before subkey \<open>i\<close>, and the two words of a subkey.\<close>

definition des_shift :: "nat \<Rightarrow> 32 word \<Rightarrow> 32 word" where
  "des_shift i X = (if i < 2 \<or> i = 8 \<or> i = 15 then (push_bit 1 X OR drop_bit 27 X) AND 0x0FFFFFFF
     else (push_bit 2 X OR drop_bit 26 X) AND 0x0FFFFFFF)"

definition des_subkey1 :: "32 word \<Rightarrow> 32 word \<Rightarrow> 32 word" where
  "des_subkey1 X Y = (push_bit 4 X AND 0x24000000) OR (push_bit 28 X AND 0x10000000) OR (push_bit 14 X AND 0x08000000)
    OR (push_bit 18 X AND 0x02080000) OR (push_bit 6 X AND 0x01000000) OR (push_bit 9 X AND 0x00200000)
    OR (drop_bit 1 X AND 0x00100000) OR (push_bit 10 X AND 0x00040000) OR (push_bit 2 X AND 0x00020000)
    OR (drop_bit 10 X AND 0x00010000) OR (drop_bit 13 Y AND 0x00002000) OR (drop_bit 4 Y AND 0x00001000)
    OR (push_bit 6 Y AND 0x00000800) OR (drop_bit 1 Y AND 0x00000400) OR (drop_bit 14 Y AND 0x00000200)
    OR (Y AND 0x00000100) OR (drop_bit 5 Y AND 0x00000020) OR (drop_bit 10 Y AND 0x00000010)
    OR (drop_bit 3 Y AND 0x00000008) OR (drop_bit 18 Y AND 0x00000004) OR (drop_bit 26 Y AND 0x00000002)
    OR (drop_bit 24 Y AND 0x00000001)"

definition des_subkey2 :: "32 word \<Rightarrow> 32 word \<Rightarrow> 32 word" where
  "des_subkey2 X Y = (push_bit 15 X AND 0x20000000) OR (push_bit 17 X AND 0x10000000) OR (push_bit 10 X AND 0x08000000)
    OR (push_bit 22 X AND 0x04000000) OR (drop_bit 2 X AND 0x02000000) OR (push_bit 1 X AND 0x01000000)
    OR (push_bit 16 X AND 0x00200000) OR (push_bit 11 X AND 0x00100000) OR (push_bit 3 X AND 0x00080000)
    OR (drop_bit 6 X AND 0x00040000) OR (push_bit 15 X AND 0x00020000) OR (drop_bit 4 X AND 0x00010000)
    OR (drop_bit 2 Y AND 0x00002000) OR (push_bit 8 Y AND 0x00001000) OR (drop_bit 14 Y AND 0x00000808)
    OR (drop_bit 9 Y AND 0x00000400) OR (Y AND 0x00000200) OR (push_bit 7 Y AND 0x00000100)
    OR (drop_bit 7 Y AND 0x00000020) OR (drop_bit 3 Y AND 0x00000011) OR (push_bit 2 Y AND 0x00000004)
    OR (drop_bit 21 Y AND 0x00000002)"

fun ks_loop :: "nat list \<Rightarrow> 32 word \<Rightarrow> 32 word \<Rightarrow> 32 word list" where
  "ks_loop [] X Y = []"
| "ks_loop (i # is) X Y =
    (let X = des_shift i X; Y = des_shift i Y in des_subkey1 X Y # des_subkey2 X Y # ks_loop is X Y)"

text \<open>\<open>des_main_ks\<close>: the 32 words it writes to \<open>SK\<close>, from the eight bytes of the key at an offset.\<close>

definition des_main_ks :: "8 word list \<Rightarrow> int \<Rightarrow> 32 word list option" where
  "des_main_ks key i = do {
     X \<leftarrow> GET_UINT32 key i;
     Y \<leftarrow> GET_UINT32 key (i + 4);
     let (X, Y) = des_pc1 X Y;
     Some (ks_loop [0..<16] X Y)
   }"

section \<open>Key contexts\<close>

record des_context =
  esk :: "32 word list"
  dsk :: "32 word list"

record des3_context =
  esk3 :: "32 word list"
  dsk3 :: "32 word list"

text \<open>The steps \<open>i = 0, 2, ..., 30\<close> of the loops that fill the subkeys.\<close>

definition ks_steps :: "int list" where
  "ks_steps = map (\<lambda>j. 2 * int j) [0..<16]"

text \<open>\<open>to[t] = from[f]; to[t + 1] = from[f + 1]\<close>.\<close>

definition copy_pair :: "'a list \<Rightarrow> int \<Rightarrow> 'a list \<Rightarrow> int \<Rightarrow> 'a list option" where
  "copy_pair dst t src f = do {
     x \<leftarrow> rd src f;
     dst \<leftarrow> wr dst t x;
     y \<leftarrow> rd src (f + 1);
     wr dst (t + 1) y
   }"

fun dsk_loop :: "int list \<Rightarrow> 32 word list \<Rightarrow> 32 word list \<Rightarrow> 32 word list option" where
  "dsk_loop [] e d = Some d"
| "dsk_loop (i # is) e d = do { d \<leftarrow> copy_pair d i e (30 - i); dsk_loop is e d }"

definition des_set_key :: "des_context \<Rightarrow> 8 word list \<Rightarrow> int \<Rightarrow> (int \<times> des_context) option" where
  "des_set_key ctx key i = do {
     ks \<leftarrow> des_main_ks key i;
     e \<leftarrow> wr_block (esk ctx) 0 ks;
     d \<leftarrow> dsk_loop ks_steps e (dsk ctx);
     Some (0, ctx\<lparr>esk := e, dsk := d\<rparr>)
   }"

text \<open>Triple DES. In \<open>set2_loop\<close> the last two copies are from the array to itself.\<close>

fun set2_loop :: "int list \<Rightarrow> 32 word list \<Rightarrow> 32 word list \<Rightarrow> (32 word list \<times> 32 word list) option" where
  "set2_loop [] e d = Some (e, d)"
| "set2_loop (i # is) e d = do {
     d \<leftarrow> copy_pair d i e (30 - i);
     e \<leftarrow> copy_pair e (i + 32) d (62 - i);
     e \<leftarrow> copy_pair e (i + 64) e i;
     d \<leftarrow> copy_pair d (i + 64) d i;
     set2_loop is e d
   }"

definition des3_set_2keys :: "des3_context \<Rightarrow> 8 word list \<Rightarrow> int \<Rightarrow> 8 word list \<Rightarrow> int \<Rightarrow> (int \<times> des3_context) option" where
  "des3_set_2keys ctx key1 i1 key2 i2 = do {
     ks1 \<leftarrow> des_main_ks key1 i1;
     e \<leftarrow> wr_block (esk3 ctx) 0 ks1;
     ks2 \<leftarrow> des_main_ks key2 i2;
     d \<leftarrow> wr_block (dsk3 ctx) 32 ks2;
     (e, d) \<leftarrow> set2_loop ks_steps e d;
     Some (0, ctx\<lparr>esk3 := e, dsk3 := d\<rparr>)
   }"

fun set3_loop :: "int list \<Rightarrow> 32 word list \<Rightarrow> 32 word list \<Rightarrow> (32 word list \<times> 32 word list) option" where
  "set3_loop [] e d = Some (e, d)"
| "set3_loop (i # is) e d = do {
     d \<leftarrow> copy_pair d i e (94 - i);
     e \<leftarrow> copy_pair e (i + 32) d (62 - i);
     d \<leftarrow> copy_pair d (i + 64) e (30 - i);
     set3_loop is e d
   }"

definition des3_set_3keys ::
  "des3_context \<Rightarrow> 8 word list \<Rightarrow> int \<Rightarrow> 8 word list \<Rightarrow> int \<Rightarrow> 8 word list \<Rightarrow> int \<Rightarrow> (int \<times> des3_context) option" where
  "des3_set_3keys ctx key1 i1 key2 i2 key3 i3 = do {
     ks1 \<leftarrow> des_main_ks key1 i1;
     e \<leftarrow> wr_block (esk3 ctx) 0 ks1;
     ks2 \<leftarrow> des_main_ks key2 i2;
     d \<leftarrow> wr_block (dsk3 ctx) 32 ks2;
     ks3 \<leftarrow> des_main_ks key3 i3;
     e \<leftarrow> wr_block e 64 ks3;
     (e, d) \<leftarrow> set3_loop ks_steps e d;
     Some (0, ctx\<lparr>esk3 := e, dsk3 := d\<rparr>)
   }"

text \<open>A key of 16 or 24 bytes; any other length leaves the context as it was.\<close>

definition des3_setkey_ex :: "des3_context \<Rightarrow> 8 word list \<Rightarrow> int \<Rightarrow> des3_context option" where
  "des3_setkey_ex ctx key keylen =
     (if keylen = 8 then Some ctx
      else if keylen = 16 then map_option snd (des3_set_2keys ctx key 0 key 8)
      else if keylen = 24 then map_option snd (des3_set_3keys ctx key 0 key 8 key 16)
      else Some ctx)"

section \<open>Blocks\<close>

text \<open>A block is read at offset \<open>i\<close> of the input before it is written at offset \<open>j\<close> of the output.\<close>

definition get_block :: "8 word list \<Rightarrow> int \<Rightarrow> (32 word \<times> 32 word) option" where
  "get_block input i = do { X \<leftarrow> GET_UINT32 input i; Y \<leftarrow> GET_UINT32 input (i + 4); Some (X, Y) }"

definition put_block :: "32 word \<Rightarrow> 32 word \<Rightarrow> 8 word list \<Rightarrow> int \<Rightarrow> 8 word list option" where
  "put_block Y X out j = do { out \<leftarrow> PUT_UINT32 Y out j; PUT_UINT32 X out (j + 4) }"

definition des_crypt :: "32 word list \<Rightarrow> 8 word list \<Rightarrow> int \<Rightarrow> 8 word list \<Rightarrow> int \<Rightarrow> 8 word list option" where
  "des_crypt SK input i out j = (if length SK < 32 then None else do {
     (X, Y) \<leftarrow> get_block input i;
     let (X, Y) = DES_IP X Y;
     let (X, Y) = des_rounds (take 32 SK) X Y;
     let (Y, X) = DES_FP Y X;
     put_block Y X out j
   })"

definition des_encrypt :: "des_context \<Rightarrow> 8 word list \<Rightarrow> int \<Rightarrow> 8 word list \<Rightarrow> int \<Rightarrow> 8 word list option" where
  "des_encrypt ctx input i out j = des_crypt (esk ctx) input i out j"

definition des_decrypt :: "des_context \<Rightarrow> 8 word list \<Rightarrow> int \<Rightarrow> 8 word list \<Rightarrow> int \<Rightarrow> 8 word list option" where
  "des_decrypt ctx input i out j = des_crypt (dsk ctx) input i out j"

text \<open>The middle sixteen rounds of triple DES start with the halves swapped.\<close>

definition des3_crypt :: "32 word list \<Rightarrow> 8 word list \<Rightarrow> int \<Rightarrow> 8 word list \<Rightarrow> int \<Rightarrow> 8 word list option" where
  "des3_crypt SK input i out j = (if length SK < 96 then None else do {
     (X, Y) \<leftarrow> get_block input i;
     let (X, Y) = DES_IP X Y;
     let (X, Y) = des_rounds (take 32 SK) X Y;
     let (Y, X) = des_rounds (take 32 (drop 32 SK)) Y X;
     let (X, Y) = des_rounds (take 32 (drop 64 SK)) X Y;
     let (Y, X) = DES_FP Y X;
     put_block Y X out j
   })"

definition des3_encrypt :: "des3_context \<Rightarrow> 8 word list \<Rightarrow> int \<Rightarrow> 8 word list \<Rightarrow> int \<Rightarrow> 8 word list option" where
  "des3_encrypt ctx input i out j = des3_crypt (esk3 ctx) input i out j"

definition des3_decrypt :: "des3_context \<Rightarrow> 8 word list \<Rightarrow> int \<Rightarrow> 8 word list \<Rightarrow> int \<Rightarrow> 8 word list option" where
  "des3_decrypt ctx input i out j = des3_crypt (dsk3 ctx) input i out j"

text \<open>Buffers, eight bytes at a time. The index is an \<open>int\<close>; buffers are taken to be shorter than \<open>2 ^ 31\<close>.\<close>

function encrypt_loop :: "des3_context \<Rightarrow> 8 word list \<Rightarrow> 8 word list \<Rightarrow> int \<Rightarrow> int \<Rightarrow> 8 word list option" where
  "encrypt_loop ctx inb out i len =
     (if i < len then do { out \<leftarrow> des3_encrypt ctx inb i out i; encrypt_loop ctx inb out (i + 8) len } else Some out)"
  by pat_completeness auto
termination
  by (relation "measure (\<lambda>(ctx, inb, out, i, len). nat (len - i))") auto

function decrypt_loop :: "des3_context \<Rightarrow> 8 word list \<Rightarrow> 8 word list \<Rightarrow> int \<Rightarrow> int \<Rightarrow> 8 word list option" where
  "decrypt_loop ctx inb out i len =
     (if i < len then do { out \<leftarrow> des3_decrypt ctx inb i out i; decrypt_loop ctx inb out (i + 8) len } else Some out)"
  by pat_completeness auto
termination
  by (relation "measure (\<lambda>(ctx, inb, out, i, len). nat (len - i))") auto

declare encrypt_loop.simps [simp del] decrypt_loop.simps [simp del]

definition des3_encrypt_ex :: "des3_context \<Rightarrow> 8 word list \<Rightarrow> 8 word list \<Rightarrow> int \<Rightarrow> 8 word list option" where
  "des3_encrypt_ex ctx inb out len = encrypt_loop ctx inb out 0 len"

definition des3_decrypt_ex :: "des3_context \<Rightarrow> 8 word list \<Rightarrow> 8 word list \<Rightarrow> int \<Rightarrow> 8 word list option" where
  "des3_decrypt_ex ctx inb out len = decrypt_loop ctx inb out 0 len"

section \<open>The permutations\<close>

text \<open>The permutations are made of exchanges of the bits of a mask between two words, which undo themselves, and of rotations.\<close>

definition swap_bits :: "nat \<Rightarrow> 32 word \<Rightarrow> 32 word \<times> 32 word \<Rightarrow> 32 word \<times> 32 word" where
  "swap_bits n M ab = (case ab of (a, b) \<Rightarrow> (let T = (drop_bit n a XOR b) AND M in (a XOR push_bit n T, b XOR T)))"

lemma swap_bits_mask:
  fixes a b M :: "32 word"
  assumes "drop_bit n (push_bit n M) = M" and "T = (drop_bit n a XOR b) AND M"
  shows "(drop_bit n (a XOR push_bit n T) XOR (b XOR T)) AND M = T"
proof (rule bit_word_eqI)
  fix i assume i: "i < LENGTH(32)"
  have "bit M i \<Longrightarrow> i + n < LENGTH(32)"
    using arg_cong [OF assms(1), of "\<lambda>w. bit w i"] by (auto simp: bit_simps)
  then show "bit ((drop_bit n (a XOR push_bit n T) XOR (b XOR T)) AND M) i = bit T i"
    using i by (auto simp: assms(2) bit_simps add.commute)
qed

lemma swap_bits_twice:
  assumes "drop_bit n (push_bit n M) = M"
  shows "swap_bits n M (swap_bits n M ab) = ab"
proof (cases ab)
  case (Pair a b)
  define T where "T = (drop_bit n a XOR b) AND M"
  have "swap_bits n M (a, b) = (a XOR push_bit n T, b XOR T)" by (simp add: swap_bits_def T_def Let_def)
  moreover have "swap_bits n M (a XOR push_bit n T, b XOR T) = ((a XOR push_bit n T) XOR push_bit n T, (b XOR T) XOR T)"
    unfolding swap_bits_def prod.case swap_bits_mask [OF assms T_def] Let_def ..
  ultimately show ?thesis by (simp only: Pair xor.assoc xor_self_eq xor.right_neutral)
qed

lemma rotate_1_31: "(push_bit 1 ((push_bit 31 w OR drop_bit 1 w) AND 0xFFFFFFFF) OR drop_bit 31 ((push_bit 31 w OR drop_bit 1 w) AND 0xFFFFFFFF)) AND 0xFFFFFFFF = w"
  for w :: "32 word"
proof -
  have m: "(0xFFFFFFFF :: 32 word) = -1" by simp
  show ?thesis unfolding m and.right_neutral
  proof (rule bit_word_eqI)
    fix i assume "i < LENGTH(32)"
    then show "bit (push_bit 1 (push_bit 31 w OR drop_bit 1 w) OR drop_bit 31 (push_bit 31 w OR drop_bit 1 w)) i = bit w i"
      unfolding bit_or_iff bit_push_bit_iff bit_drop_bit_eq o_apply by (cases i) (auto dest: bit_imp_le_length)
  qed
qed

text \<open>The initial permutation undoes the final one.\<close>

definition rol1 :: "32 word \<Rightarrow> 32 word" where
  "rol1 w = (push_bit 1 w OR drop_bit 31 w) AND 0xFFFFFFFF"

definition ror1 :: "32 word \<Rightarrow> 32 word" where
  "ror1 w = (push_bit 31 w OR drop_bit 1 w) AND 0xFFFFFFFF"

lemma rol1_ror1 [simp]: "rol1 (ror1 w) = w"
  unfolding rol1_def ror1_def by (rule rotate_1_31)

lemma ror1_rol1 [simp]: "ror1 (rol1 w) = w"
proof -
  have m: "(0xFFFFFFFF :: 32 word) = -1" by simp
  show ?thesis unfolding rol1_def ror1_def m and.right_neutral
  proof (rule bit_word_eqI)
    fix i assume "i < LENGTH(32)"
    then show "bit (push_bit 31 (push_bit 1 w OR drop_bit 31 w) OR drop_bit 1 (push_bit 1 w OR drop_bit 31 w)) i = bit w i"
      unfolding bit_or_iff bit_push_bit_iff bit_drop_bit_eq o_apply by (cases "i = 31") (auto dest: bit_imp_le_length)
  qed
qed

definition flip :: "'a \<times> 'a \<Rightarrow> 'a \<times> 'a" where
  "flip ab = (snd ab, fst ab)"

lemma flip_flip [simp]: "flip (flip ab) = ab" "flip (a, b) = (b, a)"
  by (simp_all add: flip_def)

lemma DES_IP_steps:
  "DES_IP X Y = apfst rol1 (swap_bits 0 0xAAAAAAAA (apsnd rol1 (flip (swap_bits 8 0x00FF00FF
     (swap_bits 2 0x33333333 (flip (swap_bits 16 0x0000FFFF (swap_bits 4 0x0F0F0F0F (X, Y)))))))))"
  unfolding DES_IP_def swap_bits_def flip_def rol1_def Let_def by (simp only: prod.case fst_conv snd_conv apfst_conv apsnd_conv drop_bit_0 push_bit_0_id id_apply)

lemma DES_FP_steps:
  "DES_FP X Y = swap_bits 4 0x0F0F0F0F (swap_bits 16 0x0000FFFF (flip (swap_bits 2 0x33333333 (swap_bits 8 0x00FF00FF
     (flip (apsnd ror1 (swap_bits 0 0xAAAAAAAA (apfst ror1 (X, Y)))))))))"
  unfolding DES_FP_def swap_bits_def flip_def ror1_def Let_def by (simp only: prod.case fst_conv snd_conv apfst_conv apsnd_conv drop_bit_0 push_bit_0_id id_apply)

lemma apfst_apfst_id: "(\<And>x. f (g x) = x) \<Longrightarrow> apfst f (apfst g p) = p" "(\<And>x. f (g x) = x) \<Longrightarrow> apsnd f (apsnd g p) = p"
  by (cases p; simp)+

lemma swap_masks [simp]:
  "swap_bits 4 0x0F0F0F0F (swap_bits 4 0x0F0F0F0F p) = p" "swap_bits 16 0x0000FFFF (swap_bits 16 0x0000FFFF p) = p"
  "swap_bits 2 0x33333333 (swap_bits 2 0x33333333 p) = p" "swap_bits 8 0x00FF00FF (swap_bits 8 0x00FF00FF p) = p"
  "swap_bits 0 0xAAAAAAAA (swap_bits 0 0xAAAAAAAA p) = p"
  by (rule swap_bits_twice; simp add: push_bit_eq_mult drop_bit_eq_div)+

lemma DES_IP_FP: "DES_FP X Y = (X', Y') \<Longrightarrow> DES_IP X' Y' = (X, Y)"
proof -
  assume "DES_FP X Y = (X', Y')"
  then have "DES_IP X' Y' = (case DES_FP X Y of (a, b) \<Rightarrow> DES_IP a b)" by simp
  also have "\<dots> = (X, Y)" by (simp add: DES_IP_steps DES_FP_steps apfst_apfst_id del: apfst_conv apsnd_conv)
  finally show ?thesis .
qed

lemma DES_FP_IP: "DES_IP X Y = (X', Y') \<Longrightarrow> DES_FP X' Y' = (X, Y)"
proof -
  assume "DES_IP X Y = (X', Y')"
  then have "DES_FP X' Y' = (case DES_IP X Y of (a, b) \<Rightarrow> DES_FP a b)" by simp
  also have "\<dots> = (X, Y)" by (simp add: DES_IP_steps DES_FP_steps apfst_apfst_id del: apfst_conv apsnd_conv)
  finally show ?thesis .
qed

section \<open>The rounds\<close>

text \<open>The subkeys in reverse, a pair of words each.\<close>

fun rev_pairs :: "'a list \<Rightarrow> 'a list" where
  "rev_pairs (a # b # xs) = rev_pairs xs @ [a, b]"
| "rev_pairs xs = xs"

lemma DES_ROUND_twice [simp]: "DES_ROUND k1 k2 X (DES_ROUND k1 k2 X Y) = Y"
proof -
  have "\<exists>F G. \<forall>Y. DES_ROUND k1 k2 X Y = (Y XOR F) XOR G" unfolding DES_ROUND_def Let_def by blast
  then obtain F G where f: "\<And>Y. DES_ROUND k1 k2 X Y = (Y XOR F) XOR G" by blast
  show ?thesis unfolding f by (simp add: xor.assoc xor.left_commute xor.commute)
qed

lemma des_rounds_append: "4 dvd length ks \<Longrightarrow> des_rounds (ks @ ls) X Y = (case des_rounds ks X Y of (X', Y') \<Rightarrow> des_rounds ls X' Y')"
proof (induction ks X Y rule: des_rounds.induct)
  case (1 k1 k2 k3 k4 SK X Y)
  then have "4 dvd length SK" by (simp add: dvd_def) presburger
  then show ?case using 1 by (simp add: Let_def)
qed (auto dest: dvd_imp_le)

lemma length_rev_pairs [simp]: "length (rev_pairs xs) = length xs"
  by (induction xs rule: rev_pairs.induct) auto

lemma des_rounds_rev: "4 dvd length ks \<Longrightarrow> des_rounds ks X Y = (X', Y') \<Longrightarrow> des_rounds (rev_pairs ks) Y' X' = (Y, X)"
proof (induction ks X Y arbitrary: X' Y' rule: des_rounds.induct)
  case (1 k1 k2 k3 k4 SK X Y)
  let ?X = "DES_ROUND k1 k2 Y X" let ?Y = "DES_ROUND k3 k4 ?X Y"
  have d: "4 dvd length SK" using 1(2) by (simp add: dvd_def) presburger
  have "des_rounds (rev_pairs SK) Y' X' = (?Y, ?X)" using 1(1) [OF refl refl d] 1(3) by (simp add: Let_def)
  then show ?case using d by (simp add: des_rounds_append Let_def)
qed (auto dest: dvd_imp_le)

lemma rev_pairs_append: "even (length xs) \<Longrightarrow> rev_pairs (xs @ ys) = rev_pairs ys @ rev_pairs xs"
  by (induction xs rule: rev_pairs.induct) auto

lemma rev_pairs_rev_pairs: "even (length xs) \<Longrightarrow> rev_pairs (rev_pairs xs) = xs"
  by (induction xs rule: rev_pairs.induct) (auto simp: rev_pairs_append)

lemma rev_pairs_nth: "even (length xs) \<Longrightarrow> i < length xs \<Longrightarrow> rev_pairs xs ! i = xs ! (if even i then length xs - 2 - i else length xs - i)"
proof (induction xs arbitrary: i rule: rev_pairs.induct)
  case (1 a b xs)
  have e: "even (length xs)" using 1(2) by simp
  show ?case
  proof (cases "i < length xs")
    case True
    then have "length xs - 2 - i = length xs - Suc (Suc i)" "even i \<Longrightarrow> Suc (Suc i) \<le> length xs"
      using e by (auto simp: Suc_le_eq elim!: evenE oddE)
    then show ?thesis using 1(1) [OF e True] True by (auto simp: nth_append nth_Cons' elim!: oddE)
  next
    case False
    then have "i = length xs \<or> i = Suc (length xs)" using 1(3) by auto
    then show ?thesis using e by (auto simp: nth_append)
  qed
qed auto

section \<open>The key loops\<close>

lemma copy_pair_ok:
  assumes "f + 1 < length src" and "t + 1 < length dst"
  shows "copy_pair dst (int t) src (int f) = Some (dst[t := src ! f, Suc t := src ! Suc f])"
proof -
  have n: "int f + 1 = int (Suc f)" "int t + 1 = int (Suc t)" by simp_all
  show ?thesis using assms unfolding copy_pair_def n by (simp del: of_nat_Suc)
qed

text \<open>The words from position \<open>a\<close> on are the first \<open>n\<close> words of \<open>ys\<close>.\<close>

definition seg :: "'a list \<Rightarrow> nat \<Rightarrow> nat \<Rightarrow> 'a list \<Rightarrow> bool" where
  "seg xs a n ys \<longleftrightarrow> (\<forall>m<n. xs ! (a + m) = ys ! m)"

lemma seg_0 [simp]: "seg xs a 0 ys"
  by (simp add: seg_def)

lemma seg_other: "seg xs a n ys \<Longrightarrow> t' = Suc t \<Longrightarrow> Suc t < a \<or> a + n \<le> t \<Longrightarrow> seg (xs[t := x, t' := y]) a n ys"
  by (auto simp: seg_def)

lemma seg_next:
  assumes "seg xs a n ys" and "a + n + 1 < length xs" and "t = a + n" and "t' = Suc t" and "x = ys ! n" and "y = ys ! Suc n"
  shows "seg (xs[t := x, t' := y]) a (Suc (Suc n)) ys"
  using assms by (auto simp: seg_def nth_list_update less_Suc_eq)

lemma seg_nth: "seg xs a n ys \<Longrightarrow> m < n \<Longrightarrow> xs ! (a + m) = ys ! m"
  by (simp add: seg_def)

lemma seg_append3:
  assumes "length xs = 96" and "length a = 32" and "length b = 32" and "length c = 32" and "seg xs 0 32 a" and "seg xs 32 32 b" and "seg xs 64 32 c"
  shows "xs = a @ b @ c"
proof (rule nth_equalityI)
  show "length xs = length (a @ b @ c)" using assms by simp
  fix i assume "i < length xs"
  then consider "i < 32" | "32 \<le> i" "i < 64" | "64 \<le> i" "i < 96" using assms(1) by linarith
  then show "xs ! i = (a @ b @ c) ! i"
    using seg_nth [OF assms(5), of i] seg_nth [OF assms(6), of "i - 32"] seg_nth [OF assms(7), of "i - 64"] assms(2-4)
    by cases (auto simp: nth_append)
qed

lemma ks_steps_Cons: "j < 16 \<Longrightarrow> map (\<lambda>j. 2 * int j) [j..<16] = int (2 * j) # map (\<lambda>j. 2 * int j) [Suc j..<16]"
  by (simp add: upt_conv_Cons)

lemma rev_pairs_read:
  assumes "seg xs a 32 k" and "length k = 32" and "j < 16"
  shows "xs ! (a + (30 - 2 * j)) = rev_pairs k ! (2 * j)" and "xs ! (Suc (a + (30 - 2 * j))) = rev_pairs k ! Suc (2 * j)"
proof -
  show "xs ! (a + (30 - 2 * j)) = rev_pairs k ! (2 * j)" using seg_nth [OF assms(1), of "30 - 2 * j"] assms by (simp add: rev_pairs_nth)
  have "Suc (a + (30 - 2 * j)) = a + (31 - 2 * j)" using assms(3) by arith
  then show "xs ! (Suc (a + (30 - 2 * j))) = rev_pairs k ! Suc (2 * j)"
    using seg_nth [OF assms(1), of "31 - 2 * j"] assms by (simp add: rev_pairs_nth)
qed

lemma set2_loop_ok:
  assumes "length k1 = 32" and "length k2 = 32"
  shows "length e = 96 \<Longrightarrow> length d = 96 \<Longrightarrow> j \<le> 16 \<Longrightarrow> seg e 0 32 k1 \<Longrightarrow> seg d 32 32 k2 \<Longrightarrow> seg e 32 (2 * j) (rev_pairs k2)
    \<Longrightarrow> seg e 64 (2 * j) k1 \<Longrightarrow> seg d 0 (2 * j) (rev_pairs k1) \<Longrightarrow> seg d 64 (2 * j) (rev_pairs k1)
    \<Longrightarrow> set2_loop (map (\<lambda>j. 2 * int j) [j..<16]) e d = Some (k1 @ rev_pairs k2 @ k1, rev_pairs k1 @ k2 @ rev_pairs k1)"
proof (induction "16 - j" arbitrary: j e d)
  case 0
  then have "j = 16" by simp
  then show ?case using 0 assms seg_append3 [of e k1 "rev_pairs k2" k1] seg_append3 [of d "rev_pairs k1" k2 "rev_pairs k1"] by simp
next
  case (Suc x)
  note h = Suc.prems
  have j: "j < 16" using Suc.hyps(2) by simp
  have i: "int (2 * j) + 32 = int (2 * j + 32)" "int (2 * j) + 64 = int (2 * j + 64)" "30 - int (2 * j) = int (30 - 2 * j)" "62 - int (2 * j) = int (32 + (30 - 2 * j))"
    using j by auto
  define d1 where "d1 = d[2 * j := e ! (30 - 2 * j), Suc (2 * j) := e ! Suc (30 - 2 * j)]"
  have c1: "copy_pair d (int (2 * j)) e (30 - int (2 * j)) = Some d1" unfolding i d1_def by (rule copy_pair_ok) (use h j in auto)
  have d1: "length d1 = 96" "seg d1 32 32 k2" "seg d1 0 (2 * Suc j) (rev_pairs k1)" "seg d1 64 (2 * j) (rev_pairs k1)"
    using h j rev_pairs_read [OF h(4) assms(1) j] by (simp_all add: d1_def seg_other seg_next)
  define e1 where "e1 = e[2 * j + 32 := d1 ! (32 + (30 - 2 * j)), Suc (2 * j + 32) := d1 ! Suc (32 + (30 - 2 * j))]"
  have c2: "copy_pair e (int (2 * j) + 32) d1 (62 - int (2 * j)) = Some e1" unfolding i e1_def by (rule copy_pair_ok) (use h d1 j in auto)
  have e1: "length e1 = 96" "seg e1 0 32 k1" "seg e1 32 (2 * Suc j) (rev_pairs k2)" "seg e1 64 (2 * j) k1"
    using h j rev_pairs_read [OF d1(2) assms(2) j] by (simp_all add: e1_def seg_other seg_next)
  define e2 where "e2 = e1[2 * j + 64 := e1 ! (2 * j), Suc (2 * j + 64) := e1 ! Suc (2 * j)]"
  have c3: "copy_pair e1 (int (2 * j) + 64) e1 (int (2 * j)) = Some e2" unfolding i e2_def by (rule copy_pair_ok) (use e1 j in auto)
  have e2: "length e2 = 96" "seg e2 0 32 k1" "seg e2 32 (2 * Suc j) (rev_pairs k2)" "seg e2 64 (2 * Suc j) k1"
    using e1 j seg_nth [OF e1(2), of "2 * j"] seg_nth [OF e1(2), of "Suc (2 * j)"] by (simp_all add: e2_def seg_other seg_next)
  define d2 where "d2 = d1[2 * j + 64 := d1 ! (2 * j), Suc (2 * j + 64) := d1 ! Suc (2 * j)]"
  have c4: "copy_pair d1 (int (2 * j) + 64) d1 (int (2 * j)) = Some d2" unfolding i d2_def by (rule copy_pair_ok) (use d1 j in auto)
  have d2: "length d2 = 96" "seg d2 32 32 k2" "seg d2 0 (2 * Suc j) (rev_pairs k1)" "seg d2 64 (2 * Suc j) (rev_pairs k1)"
    using d1 j seg_nth [OF d1(3), of "2 * j"] seg_nth [OF d1(3), of "Suc (2 * j)"] by (simp_all add: d2_def seg_other seg_next)
  have "set2_loop (map (\<lambda>j. 2 * int j) [Suc j..<16]) e2 d2 = Some (k1 @ rev_pairs k2 @ k1, rev_pairs k1 @ k2 @ rev_pairs k1)"
    by (rule Suc.hyps(1)) (use Suc.hyps(2) e2 d2 in auto)
  then show ?case unfolding ks_steps_Cons [OF j] set2_loop.simps c1 bind.bind_lunit c2 c3 c4 .
qed

lemma set3_loop_ok:
  assumes "length k1 = 32" and "length k2 = 32" and "length k3 = 32"
  shows "length e = 96 \<Longrightarrow> length d = 96 \<Longrightarrow> j \<le> 16 \<Longrightarrow> seg e 0 32 k1 \<Longrightarrow> seg d 32 32 k2 \<Longrightarrow> seg e 64 32 k3 \<Longrightarrow> seg e 32 (2 * j) (rev_pairs k2)
    \<Longrightarrow> seg d 0 (2 * j) (rev_pairs k3) \<Longrightarrow> seg d 64 (2 * j) (rev_pairs k1)
    \<Longrightarrow> set3_loop (map (\<lambda>j. 2 * int j) [j..<16]) e d = Some (k1 @ rev_pairs k2 @ k3, rev_pairs k3 @ k2 @ rev_pairs k1)"
proof (induction "16 - j" arbitrary: j e d)
  case 0
  then have "j = 16" by simp
  then show ?case using 0 assms seg_append3 [of e k1 "rev_pairs k2" k3] seg_append3 [of d "rev_pairs k3" k2 "rev_pairs k1"] by simp
next
  case (Suc x)
  note h = Suc.prems
  have j: "j < 16" using Suc.hyps(2) by simp
  have i: "int (2 * j) + 32 = int (2 * j + 32)" "int (2 * j) + 64 = int (2 * j + 64)" "30 - int (2 * j) = int (30 - 2 * j)"
    "62 - int (2 * j) = int (32 + (30 - 2 * j))" "94 - int (2 * j) = int (64 + (30 - 2 * j))"
    using j by auto
  define d1 where "d1 = d[2 * j := e ! (64 + (30 - 2 * j)), Suc (2 * j) := e ! Suc (64 + (30 - 2 * j))]"
  have c1: "copy_pair d (int (2 * j)) e (94 - int (2 * j)) = Some d1" unfolding i d1_def by (rule copy_pair_ok) (use h j in auto)
  have d1: "length d1 = 96" "seg d1 32 32 k2" "seg d1 0 (2 * Suc j) (rev_pairs k3)" "seg d1 64 (2 * j) (rev_pairs k1)"
    using h j rev_pairs_read [OF h(6) assms(3) j] by (simp_all add: d1_def seg_other seg_next)
  define e1 where "e1 = e[2 * j + 32 := d1 ! (32 + (30 - 2 * j)), Suc (2 * j + 32) := d1 ! Suc (32 + (30 - 2 * j))]"
  have c2: "copy_pair e (int (2 * j) + 32) d1 (62 - int (2 * j)) = Some e1" unfolding i e1_def by (rule copy_pair_ok) (use h d1 j in auto)
  have e1: "length e1 = 96" "seg e1 0 32 k1" "seg e1 32 (2 * Suc j) (rev_pairs k2)" "seg e1 64 32 k3"
    using h j rev_pairs_read [OF d1(2) assms(2) j] by (simp_all add: e1_def seg_other seg_next)
  define d2 where "d2 = d1[2 * j + 64 := e1 ! (30 - 2 * j), Suc (2 * j + 64) := e1 ! Suc (30 - 2 * j)]"
  have c4: "copy_pair d1 (int (2 * j) + 64) e1 (30 - int (2 * j)) = Some d2" unfolding i d2_def by (rule copy_pair_ok) (use e1 d1 j in auto)
  have d2: "length d2 = 96" "seg d2 32 32 k2" "seg d2 0 (2 * Suc j) (rev_pairs k3)" "seg d2 64 (2 * Suc j) (rev_pairs k1)"
    using d1 j rev_pairs_read [OF e1(2) assms(1) j] by (simp_all add: d2_def seg_other seg_next)
  have "set3_loop (map (\<lambda>j. 2 * int j) [Suc j..<16]) e1 d2 = Some (k1 @ rev_pairs k2 @ k3, rev_pairs k3 @ k2 @ rev_pairs k1)"
    by (rule Suc.hyps(1)) (use Suc.hyps(2) e1 d2 in auto)
  then show ?case unfolding ks_steps_Cons [OF j] set3_loop.simps c1 bind.bind_lunit c2 c4 .
qed

lemma dsk_loop_ok:
  assumes "length k = 32"
  shows "length d = 32 \<Longrightarrow> j \<le> 16 \<Longrightarrow> seg d 0 (2 * j) (rev_pairs k) \<Longrightarrow> dsk_loop (map (\<lambda>j. 2 * int j) [j..<16]) k d = Some (rev_pairs k)"
proof (induction "16 - j" arbitrary: j d)
  case 0
  then have "j = 16" by simp
  then show ?case using 0 assms by (auto simp: seg_def intro: nth_equalityI)
next
  case (Suc x)
  have j: "j < 16" using Suc.hyps(2) by simp
  have i: "30 - int (2 * j) = int (30 - 2 * j)" using j by auto
  have k: "seg k 0 32 k" by (simp add: seg_def)
  define d1 where "d1 = d[2 * j := k ! (30 - 2 * j), Suc (2 * j) := k ! Suc (30 - 2 * j)]"
  have c1: "copy_pair d (int (2 * j)) k (30 - int (2 * j)) = Some d1" unfolding i d1_def by (rule copy_pair_ok) (use Suc.prems assms j in auto)
  have d1: "length d1 = 32" "seg d1 0 (2 * Suc j) (rev_pairs k)"
    using Suc.prems j rev_pairs_read [OF k assms j] by (simp_all add: d1_def seg_next)
  have "dsk_loop (map (\<lambda>j. 2 * int j) [Suc j..<16]) k d1 = Some (rev_pairs k)"
    by (rule Suc.hyps(1)) (use Suc.hyps(2) d1 in auto)
  then show ?case unfolding ks_steps_Cons [OF j] dsk_loop.simps c1 bind.bind_lunit .
qed

lemma length_ks_loop: "length (ks_loop is X Y) = 2 * length is"
  by (induction "is" X Y rule: ks_loop.induct) (auto simp: Let_def)

lemma GET_UINT32_ok: "0 \<le> i \<Longrightarrow> i + 4 \<le> int (length b) \<Longrightarrow> \<exists>w. GET_UINT32 b i = Some w"
  by (simp add: GET_UINT32_def rd_def)

lemma des_main_ks_ok: "0 \<le> i \<Longrightarrow> i + 8 \<le> int (length key) \<Longrightarrow> \<exists>ks. des_main_ks key i = Some ks \<and> length ks = 32"
  using GET_UINT32_ok [of i key] GET_UINT32_ok [of "i + 4" key] by (auto simp: des_main_ks_def length_ks_loop split: prod.splits)

text \<open>The keys a context holds for one direction are those for the other in reverse.\<close>

definition ctx_inverse :: "des3_context \<Rightarrow> bool" where
  "ctx_inverse ctx \<longleftrightarrow> length (esk3 ctx) = 96 \<and> dsk3 ctx = rev_pairs (esk3 ctx)"

lemma des3_setkey_inverse:
  assumes "length (esk3 ctx) = 96" and "length (dsk3 ctx) = 96" and "keylen = 16 \<or> keylen = 24" and "keylen \<le> int (length key)"
  shows "\<exists>ctx'. des3_setkey_ex ctx key keylen = Some ctx' \<and> ctx_inverse ctx'"
proof -
  obtain k1 where k1: "des_main_ks key 0 = Some k1" "length k1 = 32" using des_main_ks_ok [of 0 key] assms(3,4) by auto
  obtain k2 where k2: "des_main_ks key 8 = Some k2" "length k2 = 32" using des_main_ks_ok [of 8 key] assms(3,4) by auto
  have e: "wr_block (esk3 ctx) 0 k1 = Some (k1 @ drop 32 (esk3 ctx))" using k1(2) assms(1) by simp
  have d: "wr_block (dsk3 ctx) 32 k2 = Some (take 32 (dsk3 ctx) @ k2 @ drop 64 (dsk3 ctx))"
    using k2(2) assms(2) by (simp add: wr_block_def splice_def)
  have se: "seg (k1 @ drop 32 (esk3 ctx)) 0 32 k1" "seg (take 32 (dsk3 ctx) @ k2 @ drop 64 (dsk3 ctx)) 32 32 k2"
    using k1(2) k2(2) assms(2) by (simp_all add: seg_def nth_append)
  have len: "length (k1 @ drop 32 (esk3 ctx)) = 96" "length (take 32 (dsk3 ctx) @ k2 @ drop 64 (dsk3 ctx)) = 96"
    using k1(2) k2(2) assms(1,2) by simp_all
  consider "keylen = 16" | "keylen = 24" using assms(3) by blast
  then show ?thesis
  proof cases
    case 1
    have "set2_loop ks_steps (k1 @ drop 32 (esk3 ctx)) (take 32 (dsk3 ctx) @ k2 @ drop 64 (dsk3 ctx))
        = Some (k1 @ rev_pairs k2 @ k1, rev_pairs k1 @ k2 @ rev_pairs k1)"
      unfolding ks_steps_def by (rule set2_loop_ok) (use k1 k2 se len in auto)
    then show ?thesis using 1 k1 k2 e d
      by (auto simp: des3_setkey_ex_def des3_set_2keys_def ctx_inverse_def rev_pairs_append rev_pairs_rev_pairs)
  next
    case 2
    obtain k3 where k3: "des_main_ks key 16 = Some k3" "length k3 = 32" using des_main_ks_ok [of 16 key] assms(4) 2 by auto
    have e3: "wr_block (k1 @ drop 32 (esk3 ctx)) 64 k3 = Some (k1 @ take 32 (drop 32 (esk3 ctx)) @ k3)"
      using k1(2) k3(2) assms(1) by (simp add: wr_block_def splice_def)
    have "set3_loop ks_steps (k1 @ take 32 (drop 32 (esk3 ctx)) @ k3) (take 32 (dsk3 ctx) @ k2 @ drop 64 (dsk3 ctx))
        = Some (k1 @ rev_pairs k2 @ k3, rev_pairs k3 @ k2 @ rev_pairs k1)"
      unfolding ks_steps_def by (rule set3_loop_ok) (use k1(2) k2(2) k3(2) se(2) len(2) assms(1) in \<open>auto simp: seg_def nth_append\<close>)
    then show ?thesis using 2 k1 k2 k3 e d e3
      by (auto simp: des3_setkey_ex_def des3_set_3keys_def ctx_inverse_def rev_pairs_append rev_pairs_rev_pairs)
  qed
qed

section \<open>Words and bytes\<close>

definition word4 :: "8 word \<Rightarrow> 8 word \<Rightarrow> 8 word \<Rightarrow> 8 word \<Rightarrow> 32 word" where
  "word4 a b c d = push_bit 24 (ucast a) OR push_bit 16 (ucast b) OR push_bit 8 (ucast c) OR ucast d"

lemma bit_word4: "bit (word4 a b c d) i \<longleftrightarrow> (if i < 8 then bit d i else if i < 16 then bit c (i - 8) else if i < 24 then bit b (i - 16)
    else i < 32 \<and> bit a (i - 24))"
  by (auto simp: word4_def bit_simps dest: bit_imp_le_length)

lemma word4_bytes: "word4 (ucast (drop_bit 24 w)) (ucast (drop_bit 16 w)) (ucast (drop_bit 8 w)) (ucast w) = w"
  by (rule bit_word_eqI) (auto simp: bit_word4 bit_simps)

lemma word4_inject: "word4 a b c d = word4 a' b' c' d' \<longleftrightarrow> a = a' \<and> b = b' \<and> c = c' \<and> d = d'"
proof
  assume h: "word4 a b c d = word4 a' b' c' d'"
  have e: "bit (word4 a b c d) i = bit (word4 a' b' c' d') i" for i by (simp add: h)
  show "a = a' \<and> b = b' \<and> c = c' \<and> d = d'"
  proof (intro conjI; rule bit_word_eqI)
    fix i assume i: "i < LENGTH(8)"
    show "bit a i = bit a' i" using e [of "i + 24"] i by (simp add: bit_word4)
    show "bit b i = bit b' i" using e [of "i + 16"] i by (simp add: bit_word4)
    show "bit c i = bit c' i" using e [of "i + 8"] i by (simp add: bit_word4)
    show "bit d i = bit d' i" using e [of i] i by (simp add: bit_word4)
  qed
qed simp

lemma int_Suc_numerals: "int n + 1 = int (n + 1)" "int n + 2 = int (n + 2)" "int n + 3 = int (n + 3)" "int n + 4 = int (n + 4)"
  by simp_all

lemma GET_nat: "n + 4 \<le> length b \<Longrightarrow> GET_UINT32 b (int n) = Some (word4 (b ! n) (b ! (n + 1)) (b ! (n + 2)) (b ! (n + 3)))"
  by (simp add: GET_UINT32_def rd_def word4_def nat_add_distrib)

lemma PUT_nat: "n + 4 \<le> length b \<Longrightarrow> PUT_UINT32 w b (int n)
   = Some (b[n := ucast (drop_bit 24 w), n + 1 := ucast (drop_bit 16 w), n + 2 := ucast (drop_bit 8 w), n + 3 := ucast w])"
  by (simp add: PUT_UINT32_def wr_def nat_add_distrib)

text \<open>What a block holds after a write.\<close>

lemma put_block_ok:
  assumes "n + 8 \<le> length out"
  obtains out' where "put_block Y X out (int n) = Some out'" "length out' = length out" "get_block out' (int n) = Some (Y, X)"
    "\<And>k. k < n \<or> n + 8 \<le> k \<Longrightarrow> out' ! k = out ! k"
proof -
  let ?o = "out[n := ucast (drop_bit 24 Y), n + 1 := ucast (drop_bit 16 Y), n + 2 := ucast (drop_bit 8 Y), n + 3 := ucast Y]"
  let ?p = "?o[n + 4 := ucast (drop_bit 24 X), n + 4 + 1 := ucast (drop_bit 16 X), n + 4 + 2 := ucast (drop_bit 8 X), n + 4 + 3 := ucast X]"
  have p: "put_block Y X out (int n) = Some ?p"
    using assms unfolding put_block_def by (subst PUT_nat, simp, unfold bind.bind_lunit int_Suc_numerals, subst PUT_nat) simp_all
  have g: "get_block ?p (int n) = Some (Y, X)"
    using assms unfolding get_block_def int_Suc_numerals
    by (subst GET_nat, simp, unfold bind.bind_lunit, subst GET_nat, simp, unfold bind.bind_lunit) (simp add: word4_bytes)
  show ?thesis by (rule that [OF p _ g]) auto
qed

lemma get_block_cong: "(\<And>k. n \<le> k \<Longrightarrow> k < n + 8 \<Longrightarrow> b ! k = b' ! k) \<Longrightarrow> n + 8 \<le> length b \<Longrightarrow> length b = length b'
   \<Longrightarrow> get_block b (int n) = get_block b' (int n)"
  unfolding get_block_def int_Suc_numerals by (simp add: GET_nat del: of_nat_add)

lemma get_block_some: "n + 8 \<le> length b \<Longrightarrow> \<exists>X Y. get_block b (int n) = Some (X, Y)"
  unfolding get_block_def int_Suc_numerals by (simp add: GET_nat del: of_nat_add)

lemma get_block_bytes:
  assumes "get_block b (int n) = get_block b' (int n)" and "n + 8 \<le> length b" and "n + 8 \<le> length b'" and "n \<le> k" and "k < n + 8"
  shows "b ! k = b' ! k"
proof -
  have "b ! n = b' ! n \<and> b ! (n + 1) = b' ! (n + 1) \<and> b ! (n + 2) = b' ! (n + 2) \<and> b ! (n + 3) = b' ! (n + 3)
      \<and> b ! (n + 4) = b' ! (n + 4) \<and> b ! (n + 4 + 1) = b' ! (n + 4 + 1) \<and> b ! (n + 4 + 2) = b' ! (n + 4 + 2) \<and> b ! (n + 4 + 3) = b' ! (n + 4 + 3)"
    using assms(1-3) unfolding get_block_def int_Suc_numerals by (simp add: GET_nat word4_inject del: of_nat_add)
  moreover have "k = n \<or> k = n + 1 \<or> k = n + 2 \<or> k = n + 3 \<or> k = n + 4 \<or> k = n + 4 + 1 \<or> k = n + 4 + 2 \<or> k = n + 4 + 3"
    using assms(4,5) by arith
  ultimately show ?thesis by blast
qed

section \<open>Round trips\<close>

text \<open>A block through the cipher, as a pair of words.\<close>

definition des_pair :: "32 word list \<Rightarrow> 32 word \<times> 32 word \<Rightarrow> 32 word \<times> 32 word" where
  "des_pair SK XY = (case XY of (X, Y) \<Rightarrow> case DES_IP X Y of (X, Y) \<Rightarrow> case des_rounds SK X Y of (X, Y) \<Rightarrow> DES_FP Y X)"

definition des3_pair :: "32 word list \<Rightarrow> 32 word \<times> 32 word \<Rightarrow> 32 word \<times> 32 word" where
  "des3_pair SK XY = (case XY of (X, Y) \<Rightarrow> case DES_IP X Y of (X, Y) \<Rightarrow>
     case des_rounds (take 32 SK) X Y of (X, Y) \<Rightarrow> case des_rounds (take 32 (drop 32 SK)) Y X of (Y, X) \<Rightarrow>
     case des_rounds (take 32 (drop 64 SK)) X Y of (X, Y) \<Rightarrow> DES_FP Y X)"

lemma des_pair_inverse: "length ks = 32 \<Longrightarrow> des_pair (rev_pairs ks) (des_pair ks (X, Y)) = (X, Y)"
proof -
  assume l: "length ks = 32"
  obtain X1 Y1 where 1: "DES_IP X Y = (X1, Y1)" by fastforce
  obtain X2 Y2 where 2: "des_rounds ks X1 Y1 = (X2, Y2)" by fastforce
  obtain a b where 3: "DES_FP Y2 X2 = (a, b)" by fastforce
  show ?thesis using l by (simp add: des_pair_def 1 2 3 DES_IP_FP [OF 3] des_rounds_rev [OF _ 2] DES_FP_IP [OF 1])
qed

lemma des3_pair_inverse: "length ks = 96 \<Longrightarrow> des3_pair (rev_pairs ks) (des3_pair ks (X, Y)) = (X, Y)"
proof -
  assume l: "length ks = 96"
  let ?a = "take 32 ks" let ?b = "take 32 (drop 32 ks)" let ?c = "take 32 (drop 64 ks)"
  have "ks = ?a @ drop 32 ks" by simp
  moreover have "drop 32 ks = ?b @ drop 64 ks" using append_take_drop_id [of 32 "drop 32 ks"] by simp
  moreover have "drop 64 ks = ?c" using l by simp
  ultimately have "ks = ?a @ ?b @ ?c" by simp
  then have r: "rev_pairs ks = rev_pairs ?c @ rev_pairs ?b @ rev_pairs ?a"
    using l rev_pairs_append [of ?a "?b @ ?c"] rev_pairs_append [of ?b ?c] by simp
  have p: "take 32 (rev_pairs ks) = rev_pairs ?c" "take 32 (drop 32 (rev_pairs ks)) = rev_pairs ?b" "take 32 (drop 64 (rev_pairs ks)) = rev_pairs ?a"
    unfolding r using l by simp_all
  obtain X1 Y1 where 1: "DES_IP X Y = (X1, Y1)" by fastforce
  obtain X2 Y2 where 2: "des_rounds ?a X1 Y1 = (X2, Y2)" by fastforce
  obtain X3 Y3 where 3: "des_rounds ?b Y2 X2 = (Y3, X3)" by fastforce
  obtain X4 Y4 where 4: "des_rounds ?c X3 Y3 = (X4, Y4)" by fastforce
  obtain a b where 5: "DES_FP Y4 X4 = (a, b)" by fastforce
  have e: "des3_pair ks (X, Y) = (a, b)" by (simp add: des3_pair_def 1 2 3 4 5)
  have d: "4 dvd length ?a" "4 dvd length ?b" "4 dvd length ?c" using l by simp_all
  show ?thesis unfolding e unfolding des3_pair_def p
    by (simp add: DES_IP_FP [OF 5] des_rounds_rev [OF d(3) 4] des_rounds_rev [OF d(2) 3] des_rounds_rev [OF d(1) 2] DES_FP_IP [OF 1])
qed

lemma des_crypt_pair:
  "length SK = 32 \<Longrightarrow> get_block input i = Some XY \<Longrightarrow> des_crypt SK input i out j = (case des_pair SK XY of (Y, X) \<Rightarrow> put_block Y X out j)"
  by (cases XY) (simp add: des_crypt_def des_pair_def split: prod.splits)

lemma des3_crypt_pair:
  "length SK = 96 \<Longrightarrow> get_block input i = Some XY \<Longrightarrow> des3_crypt SK input i out j = (case des3_pair SK XY of (Y, X) \<Rightarrow> put_block Y X out j)"
  by (cases XY) (simp add: des3_crypt_def des3_pair_def split: prod.splits)

lemma encrypt_loop_ok:
  assumes "length (esk3 ctx) = 96"
  shows "a \<le> n \<Longrightarrow> 8 * n \<le> length inb \<Longrightarrow> 8 * n \<le> length out
    \<Longrightarrow> \<exists>out'. encrypt_loop ctx inb out (int (8 * a)) (int (8 * n)) = Some out' \<and> length out' = length out
      \<and> (\<forall>m. a \<le> m \<and> m < n \<longrightarrow> get_block out' (int (8 * m)) = map_option (des3_pair (esk3 ctx)) (get_block inb (int (8 * m))))
      \<and> (\<forall>k. k < 8 * a \<or> 8 * n \<le> k \<longrightarrow> out' ! k = out ! k)"
proof (induction "n - a" arbitrary: a out)
  case 0
  then show ?case by (subst encrypt_loop.simps) auto
next
  case (Suc x)
  have a: "a < n" using Suc.hyps(2) by simp
  obtain X Y where b: "get_block inb (int (8 * a)) = Some (X, Y)" using get_block_some [of "8 * a" inb] a Suc.prems by auto
  obtain Y' X' where p: "des3_pair (esk3 ctx) (X, Y) = (Y', X')" by fastforce
  obtain out1 where o: "put_block Y' X' out (int (8 * a)) = Some out1" "length out1 = length out" "get_block out1 (int (8 * a)) = Some (Y', X')"
    "\<And>k. k < 8 * a \<or> 8 * a + 8 \<le> k \<Longrightarrow> out1 ! k = out ! k"
    using put_block_ok [of "8 * a" out Y' X'] a Suc.prems by auto
  have e: "des3_encrypt ctx inb (int (8 * a)) out (int (8 * a)) = Some out1"
    using des3_crypt_pair [OF assms b] p o(1) by (simp add: des3_encrypt_def)
  have "x = n - Suc a" "Suc a \<le> n" "8 * n \<le> length out1" using Suc.hyps(2) a Suc.prems(3) o(2) by simp_all
  then obtain out2 where r: "encrypt_loop ctx inb out1 (int (8 * Suc a)) (int (8 * n)) = Some out2" "length out2 = length out1"
    "\<forall>m. Suc a \<le> m \<and> m < n \<longrightarrow> get_block out2 (int (8 * m)) = map_option (des3_pair (esk3 ctx)) (get_block inb (int (8 * m)))"
    "\<forall>k. k < 8 * Suc a \<or> 8 * n \<le> k \<longrightarrow> out2 ! k = out1 ! k"
    using Suc.hyps(1) [OF _ _ Suc.prems(2)] by blast
  have i: "int (8 * a) + 8 = int (8 * Suc a)" "int (8 * a) < int (8 * n)" using a by auto
  have l: "encrypt_loop ctx inb out (int (8 * a)) (int (8 * n)) = Some out2"
    by (subst encrypt_loop.simps) (simp only: i(2) if_True e bind.bind_lunit i(1) r(1))
  have g: "get_block out2 (int (8 * a)) = Some (Y', X')"
    using get_block_cong [of "8 * a" out2 out1] r(2,4) o(2,3) a Suc.prems(3) by auto
  have "get_block out2 (int (8 * m)) = map_option (des3_pair (esk3 ctx)) (get_block inb (int (8 * m)))" if "a \<le> m" "m < n" for m
    using r(3) g b p that by (cases "m = a") auto
  moreover have "out2 ! k = out ! k" if "k < 8 * a \<or> 8 * n \<le> k" for k using r(4) o(4) [of k] that a by auto
  ultimately show ?case using l r(2) o(2) by (intro exI [of _ out2]) auto
qed

lemma decrypt_loop_eq: "decrypt_loop ctx inb out i len = encrypt_loop (ctx\<lparr>esk3 := dsk3 ctx\<rparr>) inb out i len"
proof (induction ctx inb out i len rule: decrypt_loop.induct)
  case (1 ctx inb out i len)
  have d: "des3_decrypt ctx inb i out i = des3_encrypt (ctx\<lparr>esk3 := dsk3 ctx\<rparr>) inb i out i"
    by (simp add: des3_decrypt_def des3_encrypt_def)
  show ?case
    by (subst decrypt_loop.simps, subst encrypt_loop.simps) (use 1 d in \<open>auto simp: bind_eq_Some_conv intro!: bind_option_cong\<close>)
qed

text \<open>Whole blocks can be encrypted into any large enough buffer, and what is decrypted of the result, to the last block or not so far,
  is what was encrypted.\<close>

lemma encrypt_loop_some:
  assumes "length (esk3 ctx) = 96" and "8 * n \<le> length inb" and "8 * n \<le> length out"
  shows "\<exists>c. encrypt_loop ctx inb out 0 (int (8 * n)) = Some c \<and> length c = length out \<and> drop (8 * n) c = drop (8 * n) out"
proof -
  obtain c where c: "encrypt_loop ctx inb out 0 (int (8 * n)) = Some c" "length c = length out" "\<forall>k\<ge>8 * n. c ! k = out ! k"
    using encrypt_loop_ok [OF assms(1), of 0 n inb out] assms(2,3) by auto
  moreover have "drop (8 * n) c = drop (8 * n) out" using c(2,3) assms(3) by (intro nth_equalityI) auto
  ultimately show ?thesis by blast
qed

lemma blocks_eq:
  assumes "\<And>m. m < n \<Longrightarrow> get_block p (int (8 * m)) = get_block q (int (8 * m))" and "8 * n \<le> length p" and "8 * n \<le> length q"
  shows "take (8 * n) p = take (8 * n) q"
proof (rule nth_equalityI)
  fix k assume "k < length (take (8 * n) p)"
  then have k: "k < 8 * n" by simp
  have d: "k div 8 < n" "8 * (k div 8) \<le> k" "k < 8 * (k div 8) + 8" using k by presburger+
  have "8 * (k div 8) + 8 \<le> length p" "8 * (k div 8) + 8 \<le> length q" using d(1) assms(2,3) by linarith+
  then have "p ! k = q ! k" using get_block_bytes [OF assms(1) [OF d(1)]] d(2,3) by blast
  then show "take (8 * n) p ! k = take (8 * n) q ! k" using k by simp
qed (use assms in simp)

lemma decrypt_inverse:
  assumes "ctx_inverse ctx" and "encrypt_loop ctx inb out 0 (int (8 * n)) = Some c" and "8 * n \<le> length inb" and "8 * n \<le> length out"
    and "m \<le> n" and "take (8 * m) c' = take (8 * m) c" and "8 * m \<le> length c'" and "8 * m \<le> length plain"
  shows "\<exists>p. decrypt_loop ctx c' plain 0 (int (8 * m)) = Some p \<and> length p = length plain
    \<and> take (8 * m) p = take (8 * m) inb \<and> drop (8 * m) p = drop (8 * m) plain"
proof -
  have ctx: "length (esk3 ctx) = 96" "dsk3 ctx = rev_pairs (esk3 ctx)" using assms(1) by (simp_all add: ctx_inverse_def)
  have c: "length c = length out" "\<forall>j<n. get_block c (int (8 * j)) = map_option (des3_pair (esk3 ctx)) (get_block inb (int (8 * j)))"
    using encrypt_loop_ok [OF ctx(1), of 0 n inb out] assms(2-4) by auto
  let ?dc = "ctx\<lparr>esk3 := dsk3 ctx\<rparr>"
  have d: "length (esk3 ?dc) = 96" using ctx by simp
  obtain p where p: "encrypt_loop ?dc c' plain 0 (int (8 * m)) = Some p" "length p = length plain"
    "\<forall>j<m. get_block p (int (8 * j)) = map_option (des3_pair (esk3 ?dc)) (get_block c' (int (8 * j)))" "\<forall>k\<ge>8 * m. p ! k = plain ! k"
    using encrypt_loop_ok [OF d, of 0 m c' plain] assms(7,8) by auto
  have "take (8 * m) p = take (8 * m) inb"
  proof (rule blocks_eq)
    fix j assume j: "j < m"
    have l: "8 * j + 8 \<le> length inb" "8 * j + 8 \<le> 8 * m" using j assms(3,5) by linarith+
    then obtain X Y where b: "get_block inb (int (8 * j)) = Some (X, Y)" using get_block_some by blast
    have "c' ! k = c ! k" if "k < 8 * m" for k using arg_cong [OF assms(6), of "\<lambda>l. l ! k"] that by simp
    then have e: "GET_UINT32 c' (int (8 * j)) = GET_UINT32 c (int (8 * j))" "GET_UINT32 c' (int (8 * j + 4)) = GET_UINT32 c (int (8 * j + 4))"
      using l(2) assms(4,5,7) c(1) by (simp_all add: GET_nat del: of_nat_add of_nat_mult)
    then have "get_block c' (int (8 * j)) = get_block c (int (8 * j))" unfolding get_block_def int_Suc_numerals by simp
    then show "get_block p (int (8 * j)) = get_block inb (int (8 * j))"
      using p(3) c(2) j assms(5) des3_pair_inverse [OF ctx(1), of X Y] b ctx(2) by simp
  qed (use p(2) assms(3,5,8) in auto)
  moreover have "drop (8 * m) p = drop (8 * m) plain" using p(2,4) assms(8) by (intro nth_equalityI) auto
  ultimately show ?thesis using p by (auto simp: decrypt_loop_eq)
qed


text \<open>The same for single DES on one block.\<close>

theorem des_roundtrip:
  assumes "length (esk ctx0) = 32" and "length (dsk ctx0) = 32" and "8 \<le> length key" and "8 \<le> length inb" and "8 \<le> length out" and "8 \<le> length plain"
  shows "\<exists>ctx c p. des_set_key ctx0 key 0 = Some (0, ctx) \<and> des_encrypt ctx inb 0 out 0 = Some c \<and> des_decrypt ctx c 0 plain 0 = Some p
    \<and> take 8 p = take 8 inb"
proof -
  obtain k where k: "des_main_ks key 0 = Some k" "length k = 32" using des_main_ks_ok [of 0 key] assms(3) by auto
  have l: "dsk_loop ks_steps k (dsk ctx0) = Some (rev_pairs k)" unfolding ks_steps_def by (rule dsk_loop_ok) (use k assms(2) in auto)
  let ?ctx = "ctx0\<lparr>esk := k, dsk := rev_pairs k\<rparr>"
  have ctx: "des_set_key ctx0 key 0 = Some (0, ?ctx)" using k l assms(1) by (simp add: des_set_key_def)
  obtain X Y where b: "get_block inb 0 = Some (X, Y)" using get_block_some [of 0 inb] assms(4) by auto
  obtain Y' X' where p: "des_pair k (X, Y) = (Y', X')" by fastforce
  obtain c where c: "put_block Y' X' out 0 = Some c" "length c = length out" "get_block c 0 = Some (Y', X')"
    using put_block_ok [of 0 out Y' X'] assms(5) by auto
  obtain q where q: "put_block X Y plain 0 = Some q" "length q = length plain" "get_block q 0 = Some (X, Y)"
    using put_block_ok [of 0 plain X Y] assms(6) by auto
  have inv: "des_pair (rev_pairs k) (Y', X') = (X, Y)" using des_pair_inverse [OF k(2), of X Y] p by simp
  have "des_encrypt ?ctx inb 0 out 0 = Some c" using des_crypt_pair [OF _ b, of k out 0] k(2) p c(1) by (simp add: des_encrypt_def)
  moreover have "des_decrypt ?ctx c 0 plain 0 = Some q" using des_crypt_pair [OF _ c(3), of "rev_pairs k" plain 0] k(2) inv q(1) by (simp add: des_decrypt_def)
  moreover have "take 8 q = take 8 inb"
  proof (rule nth_equalityI)
    fix i assume "i < length (take 8 q)"
    then show "take 8 q ! i = take 8 inb ! i" using get_block_bytes [of q 0 inb i] q b assms by auto
  qed (use q assms in simp)
  ultimately show ?thesis using ctx by blast
qed

text \<open>What the buffer functions do not check: a key of any length but 16 and 24 bytes leaves the context as it was, with no sign
  of failure, and a buffer whose length is not a multiple of eight is read past its end.\<close>

theorem des3_unchecked_lengths:
  assumes "keylen \<noteq> 16" and "keylen \<noteq> 24" and "length (esk3 ctx) = 96" and "length inb = 8 * n + r" and "0 < r" and "r < 8" and "length inb \<le> length out"
  shows "des3_setkey_ex ctx key keylen = Some ctx \<and> des3_encrypt_ex ctx inb out (int (length inb)) = None"
proof
  show "des3_setkey_ex ctx key keylen = Some ctx" using assms(1,2) by (simp add: des3_setkey_ex_def)
  have g: "get_block inb (int (8 * n)) = None"
    using assms(4,6) by (auto simp: get_block_def GET_UINT32_def rd_def bind_eq_None_conv)
  have "encrypt_loop ctx inb out' (int (8 * a)) (int (length inb)) = None" if "a \<le> n" and "length out' = length out" for a out'
    using that
  proof (induction "n - a" arbitrary: a out')
    case 0
    then have "a = n" by simp
    then show ?case using g assms(4,5) by (subst encrypt_loop.simps) (simp add: des3_encrypt_def des3_crypt_def)
  next
    case (Suc x)
    have a: "a < n" using Suc.hyps(2) by simp
    have i: "int (8 * a) + 8 = int (8 * Suc a)" "int (8 * a) < int (length inb)" using a assms(4) by auto
    obtain X Y where b: "get_block inb (int (8 * a)) = Some (X, Y)" using get_block_some [of "8 * a" inb] a assms(4) by auto
    obtain Y' X' where p: "des3_pair (esk3 ctx) (X, Y) = (Y', X')" by fastforce
    obtain out1 where o: "put_block Y' X' out' (int (8 * a)) = Some out1" "length out1 = length out'"
      using put_block_ok [of "8 * a" out' Y' X'] a assms(4,7) Suc.prems(2) by auto
    have e: "des3_encrypt ctx inb (int (8 * a)) out' (int (8 * a)) = Some out1"
      using des3_crypt_pair [OF assms(3) b] p o(1) by (simp add: des3_encrypt_def)
    have "encrypt_loop ctx inb out1 (int (8 * Suc a)) (int (length inb)) = None"
      by (rule Suc.hyps(1)) (use Suc a o in auto)
    then show ?case by (subst encrypt_loop.simps) (simp only: i(2) if_True e bind.bind_lunit i(1))
  qed
  from this [of 0 out] show "des3_encrypt_ex ctx inb out (int (length inb)) = None" by (simp add: des3_encrypt_ex_def)
qed

section \<open>Witnesses\<close>


theorem des_roundtrip_witness:
  "\<exists>ctx c p. des_set_key \<lparr>esk = replicate 32 0, dsk = replicate 32 0\<rparr> (replicate 8 7) 0 = Some (0, ctx)
    \<and> des_encrypt ctx (replicate 8 65) 0 (replicate 8 0) 0 = Some c \<and> des_decrypt ctx c 0 (replicate 8 0) 0 = Some p \<and> take 8 p = replicate 8 65"
  using des_roundtrip [of "\<lparr>esk = replicate 32 0, dsk = replicate 32 0\<rparr>" "replicate 8 7" "replicate 8 65" "replicate 8 0" "replicate 8 0"]
  by auto

theorem des3_unchecked_lengths_witness:
  "des3_setkey_ex \<lparr>esk3 = replicate 96 0, dsk3 = replicate 96 0\<rparr> (replicate 8 7) 8 = Some \<lparr>esk3 = replicate 96 0, dsk3 = replicate 96 0\<rparr>
    \<and> des3_encrypt_ex \<lparr>esk3 = replicate 96 0, dsk3 = replicate 96 0\<rparr> (replicate 5 65) (replicate 5 0) 5 = None"
  using des3_unchecked_lengths [of 8 "\<lparr>esk3 = replicate 96 0, dsk3 = replicate 96 0\<rparr>" "replicate 5 65" 0 5 "replicate 5 0" "replicate 8 7"]
  by auto

end
