(* ===== verification/Crc.thy ===== *)
theory Crc
  imports Prelude
begin

unbundle bit_operations_syntax

text \<open>
  \<open>cal_crc\<close> of \<open>thirdparty/conhash/crc32.c\<close>: despite the file's name a 16-bit CRC (generator 0x1021, start 0, most significant bit first), from a table
  and in a 32-bit register that is never masked. The lemmas show that the lower half of the result is the CRC computed bit by bit.
\<close>

section \<open>The code\<close>

definition crc_ta :: "32 word list" where
  "crc_ta = [
     0x0000, 0x1021, 0x2042, 0x3063, 0x4084, 0x50a5, 0x60c6, 0x70e7, 0x8108, 0x9129, 0xa14a, 0xb16b, 0xc18c, 0xd1ad, 0xe1ce, 0xf1ef,
     0x1231, 0x0210, 0x3273, 0x2252, 0x52b5, 0x4294, 0x72f7, 0x62d6, 0x9339, 0x8318, 0xb37b, 0xa35a, 0xd3bd, 0xc39c, 0xf3ff, 0xe3de,
     0x2462, 0x3443, 0x0420, 0x1401, 0x64e6, 0x74c7, 0x44a4, 0x5485, 0xa56a, 0xb54b, 0x8528, 0x9509, 0xe5ee, 0xf5cf, 0xc5ac, 0xd58d,
     0x3653, 0x2672, 0x1611, 0x0630, 0x76d7, 0x66f6, 0x5695, 0x46b4, 0xb75b, 0xa77a, 0x9719, 0x8738, 0xf7df, 0xe7fe, 0xd79d, 0xc7bc,
     0x48c4, 0x58e5, 0x6886, 0x78a7, 0x0840, 0x1861, 0x2802, 0x3823, 0xc9cc, 0xd9ed, 0xe98e, 0xf9af, 0x8948, 0x9969, 0xa90a, 0xb92b,
     0x5af5, 0x4ad4, 0x7ab7, 0x6a96, 0x1a71, 0x0a50, 0x3a33, 0x2a12, 0xdbfd, 0xcbdc, 0xfbbf, 0xeb9e, 0x9b79, 0x8b58, 0xbb3b, 0xab1a,
     0x6ca6, 0x7c87, 0x4ce4, 0x5cc5, 0x2c22, 0x3c03, 0x0c60, 0x1c41, 0xedae, 0xfd8f, 0xcdec, 0xddcd, 0xad2a, 0xbd0b, 0x8d68, 0x9d49,
     0x7e97, 0x6eb6, 0x5ed5, 0x4ef4, 0x3e13, 0x2e32, 0x1e51, 0x0e70, 0xff9f, 0xefbe, 0xdfdd, 0xcffc, 0xbf1b, 0xaf3a, 0x9f59, 0x8f78,
     0x9188, 0x81a9, 0xb1ca, 0xa1eb, 0xd10c, 0xc12d, 0xf14e, 0xe16f, 0x1080, 0x00a1, 0x30c2, 0x20e3, 0x5004, 0x4025, 0x7046, 0x6067,
     0x83b9, 0x9398, 0xa3fb, 0xb3da, 0xc33d, 0xd31c, 0xe37f, 0xf35e, 0x02b1, 0x1290, 0x22f3, 0x32d2, 0x4235, 0x5214, 0x6277, 0x7256,
     0xb5ea, 0xa5cb, 0x95a8, 0x8589, 0xf56e, 0xe54f, 0xd52c, 0xc50d, 0x34e2, 0x24c3, 0x14a0, 0x0481, 0x7466, 0x6447, 0x5424, 0x4405,
     0xa7db, 0xb7fa, 0x8799, 0x97b8, 0xe75f, 0xf77e, 0xc71d, 0xd73c, 0x26d3, 0x36f2, 0x0691, 0x16b0, 0x6657, 0x7676, 0x4615, 0x5634,
     0xd94c, 0xc96d, 0xf90e, 0xe92f, 0x99c8, 0x89e9, 0xb98a, 0xa9ab, 0x5844, 0x4865, 0x7806, 0x6827, 0x18c0, 0x08e1, 0x3882, 0x28a3,
     0xcb7d, 0xdb5c, 0xeb3f, 0xfb1e, 0x8bf9, 0x9bd8, 0xabbb, 0xbb9a, 0x4a75, 0x5a54, 0x6a37, 0x7a16, 0x0af1, 0x1ad0, 0x2ab3, 0x3a92,
     0xfd2e, 0xed0f, 0xdd6c, 0xcd4d, 0xbdaa, 0xad8b, 0x9de8, 0x8dc9, 0x7c26, 0x6c07, 0x5c64, 0x4c45, 0x3ca2, 0x2c83, 0x1ce0, 0x0cc1,
     0xef1f, 0xff3e, 0xcf5d, 0xdf7c, 0xaf9b, 0xbfba, 0x8fd9, 0x9ff8, 0x6e17, 0x7e36, 0x4e55, 0x5e74, 0x2e93, 0x3eb2, 0x0ed1, 0x1ef0]"

text \<open>The loop runs \<open>len\<close> times; \<open>len\<close> is an \<open>unsigned char\<close>. The block is read at \<open>ptr\<close>.\<close>

fun cal_crc_loop :: "8 word list \<Rightarrow> int \<Rightarrow> nat \<Rightarrow> 32 word \<Rightarrow> 32 word option" where
  "cal_crc_loop m ptr 0 crc = Some crc"
| "cal_crc_loop m ptr (Suc len) crc = do {
     let da = (ucast (crc div 256) :: 8 word);
     let crc = push_bit 8 crc;
     b \<leftarrow> rd m ptr;
     t \<leftarrow> rd crc_ta (uint (da XOR b));
     cal_crc_loop m (ptr + 1) len (crc XOR t)
   }"

definition cal_crc :: "8 word list \<Rightarrow> int \<Rightarrow> 8 word \<Rightarrow> 32 word option" where
  "cal_crc m ptr len = cal_crc_loop m ptr (unat len) 0"

section \<open>The reference\<close>

definition crc_bit :: "16 word \<Rightarrow> 16 word" where
  "crc_bit c = (if bit c 15 then push_bit 1 c XOR 0x1021 else push_bit 1 c)"

definition crc_byte :: "16 word \<Rightarrow> 8 word \<Rightarrow> 16 word" where
  "crc_byte c b = (crc_bit ^^ 8) (c XOR push_bit 8 (ucast b))"

definition crc16 :: "8 word list \<Rightarrow> 16 word" where
  "crc16 bs = foldl crc_byte 0 bs"

section \<open>The table's step is eight steps of a bit\<close>

lemma crc_ta_length: "length crc_ta = 256"
  by (simp add: crc_ta_def)

text \<open>The table doubles: entry \<open>2 * i\<close> is one bit after entry \<open>i\<close>, and the odd entries differ by the generator.\<close>

fun doubled :: "16 word list \<Rightarrow> 16 word list \<Rightarrow> bool" where
  "doubled [] es = (es = [])"
| "doubled (t # ts) (e # f # es) = (crc_bit t = e \<and> e XOR 0x1021 = f \<and> doubled ts es)"
| "doubled _ _ = False"

definition crc_ta16 :: "16 word list" where
  "crc_ta16 = map ucast crc_ta"

lemma crc_ta_doubled: "doubled (take 128 crc_ta16) crc_ta16"
  by (simp add: crc_ta16_def crc_ta_def crc_bit_def)

lemma crc_bit_xor: "crc_bit (a XOR b) = crc_bit a XOR crc_bit b"
  by (auto simp: crc_bit_def bit_xor_iff push_bit_xor ac_simps)

lemma crc_bits_xor: "(crc_bit ^^ n) (a XOR b) = (crc_bit ^^ n) a XOR (crc_bit ^^ n) b"
  by (induction n) (simp_all add: crc_bit_xor)

lemma crc_bits8: "(crc_bit ^^ 8) c = crc_bit (crc_bit (crc_bit (crc_bit (crc_bit (crc_bit (crc_bit (crc_bit c)))))))"
  by (simp add: eval_nat_numeral)

lemma doubled_nth: "doubled ts es \<Longrightarrow> i < length ts \<Longrightarrow> es ! (2 * i) = crc_bit (ts ! i) \<and> es ! (2 * i + 1) = crc_bit (ts ! i) XOR 0x1021"
proof (induction ts es arbitrary: i rule: doubled.induct)
  case (2 t ts e f es)
  then show ?case by (cases i) auto
qed auto

lemma crc_bit_small:
  assumes "j < 128"
  shows "crc_bit (push_bit 8 (of_nat j)) = push_bit 8 (of_nat (2 * j))"
proof -
  have "\<not> bit j 7" using assms by (simp add: bit_iff_odd)
  then have "\<not> bit (push_bit 8 (of_nat j) :: 16 word) 15" by (simp add: bit_push_bit_iff bit_of_nat_iff)
  then show ?thesis by (simp add: crc_bit_def push_bit_eq_mult)
qed

lemma crc_ta_even:
  assumes "j < 128" and "crc_ta16 ! j = (crc_bit ^^ 8) (push_bit 8 (of_nat j))"
  shows "crc_ta16 ! (2 * j) = (crc_bit ^^ 8) (push_bit 8 (of_nat (2 * j)))"
proof -
  have "crc_ta16 ! (2 * j) = crc_bit (crc_ta16 ! j)"
    using doubled_nth [OF crc_ta_doubled, of j] assms(1) by (simp add: crc_ta16_def crc_ta_length)
  also have "\<dots> = (crc_bit ^^ 8) (crc_bit (push_bit 8 (of_nat j)))"
    unfolding assms(2) by (simp only: crc_bits8)
  finally show ?thesis by (simp only: crc_bit_small [OF assms(1)])
qed

lemma crc_ta_odd:
  assumes "j < 128" and "crc_ta16 ! (2 * j) = (crc_bit ^^ 8) (push_bit 8 (of_nat (2 * j)))"
  shows "crc_ta16 ! (2 * j + 1) = (crc_bit ^^ 8) (push_bit 8 (of_nat (2 * j + 1)))"
proof -
  have e: "push_bit 8 (of_nat (2 * j + 1) :: 16 word) = push_bit 8 (of_nat (2 * j)) XOR 0x100"
  proof -
    have "(of_nat (2 * j + 1) :: 16 word) = 1 + 2 * of_nat j" by simp
    also have "\<dots> = (2 * of_nat j) XOR 1" by (simp add: xor_one_eq)
    finally show ?thesis by (simp add: push_bit_xor)
  qed
  have g: "(crc_bit ^^ 8) 0x100 = 0x1021" by (simp add: crc_bits8 crc_bit_def)
  have "crc_ta16 ! (2 * j + 1) = crc_ta16 ! (2 * j) XOR 0x1021"
    using doubled_nth [OF crc_ta_doubled, of j] assms(1) by (simp add: crc_ta16_def crc_ta_length)
  then show ?thesis by (simp only: e crc_bits_xor g assms(2))
qed

lemma crc_ta16_entry: "i < 256 \<Longrightarrow> crc_ta16 ! i = (crc_bit ^^ 8) (push_bit 8 (of_nat i))"
proof (induction i rule: less_induct)
  case (less i)
  show ?case
  proof (cases "i = 0")
    case True
    have "(crc_bit ^^ 8) 0 = 0" by (simp only: crc_bits8) (simp add: crc_bit_def)
    then show ?thesis by (simp add: True crc_ta16_def crc_ta_def del: funpow.simps)
  next
    case False
    define j where "j = i div 2"
    have j: "j < 128" "j < i" using less.prems False by (auto simp: j_def)
    have e: "crc_ta16 ! (2 * j) = (crc_bit ^^ 8) (push_bit 8 (of_nat (2 * j)))"
      using crc_ta_even [OF j(1) less.IH [OF j(2)]] j by simp
    have "i = 2 * j \<or> i = 2 * j + 1" by (auto simp: j_def)
    then show ?thesis using e crc_ta_odd [OF j(1) e] by metis
  qed
qed

lemma crc_ta_entry: "i < 256 \<Longrightarrow> (ucast (crc_ta ! i) :: 16 word) = (crc_bit ^^ 8) (push_bit 8 (of_nat i))"
  using crc_ta16_entry [of i] by (simp add: crc_ta16_def crc_ta_length del: funpow.simps)

lemma crc_bits_low: "(\<forall>j<n. \<not> bit c (15 - j)) \<Longrightarrow> n \<le> 16 \<Longrightarrow> (crc_bit ^^ n) c = push_bit n c"
proof (induction n)
  case (Suc n)
  have "\<not> bit (push_bit n c) 15" using Suc.prems by (auto simp: bit_push_bit_iff)
  then show ?case using Suc by (simp add: crc_bit_def)
qed simp

lemma halves: "(c :: 16 word) = push_bit 8 (drop_bit 8 c) XOR take_bit 8 c"
  by (rule bit_word_eqI) (auto simp: bit_xor_iff bit_push_bit_iff bit_drop_bit_eq bit_take_bit_iff)

lemma crc_low: "(crc_bit ^^ 8) (take_bit 8 c) = push_bit 8 (c :: 16 word)"
proof -
  have "(crc_bit ^^ 8) (take_bit 8 c) = push_bit 8 (take_bit 8 c)"
    by (rule crc_bits_low) (auto simp: bit_take_bit_iff)
  also have "\<dots> = push_bit 8 c" by (rule bit_word_eqI) (auto simp: bit_push_bit_iff bit_take_bit_iff)
  finally show ?thesis .
qed

lemma crc_index:
  fixes crc :: "32 word"
  shows "(push_bit 8 (of_nat (unat (ucast (crc div 256) XOR b :: 8 word))) :: 16 word) = push_bit 8 (drop_bit 8 (ucast crc)) XOR push_bit 8 (ucast b)"
proof -
  have "crc div 256 = drop_bit 8 crc" by (simp add: drop_bit_eq_div)
  then show ?thesis
    by simp (rule bit_word_eqI, auto simp: bit_push_bit_iff bit_xor_iff bit_drop_bit_eq bit_ucast_iff)
qed

lemma crc_step:
  fixes crc :: "32 word"
  shows "(ucast (push_bit 8 crc XOR crc_ta ! unat (ucast (crc div 256) XOR b :: 8 word)) :: 16 word) = crc_byte (ucast crc) b"
proof -
  let ?i = "unat (ucast (crc div 256) XOR b :: 8 word)"
  let ?c = "ucast crc :: 16 word"
  have i: "?i < 256" using unsigned_less [of "ucast (crc div 256) XOR b :: 8 word"] by simp
  have "crc_byte ?c b = (crc_bit ^^ 8) ((push_bit 8 (drop_bit 8 ?c) XOR push_bit 8 (ucast b)) XOR take_bit 8 ?c)"
    unfolding crc_byte_def by (subst halves [of ?c]) (simp add: ac_simps del: funpow.simps)
  also have "\<dots> = ucast (crc_ta ! ?i) XOR push_bit 8 ?c"
    unfolding crc_ta_entry [OF i] crc_index crc_low [of ?c, symmetric] by (rule crc_bits_xor)
  also have "\<dots> = ucast (push_bit 8 crc XOR crc_ta ! ?i)"
    by (rule bit_word_eqI) (auto simp: bit_xor_iff bit_ucast_iff bit_push_bit_iff)
  finally show ?thesis by simp
qed

lemma cal_crc_loop_ok:
  "0 \<le> ptr \<Longrightarrow> ptr + int len \<le> int (length m) \<Longrightarrow>
   \<exists>r. cal_crc_loop m ptr len crc = Some r \<and> (ucast r :: 16 word) = foldl crc_byte (ucast crc) (take len (drop (nat ptr) m))"
proof (induction len arbitrary: ptr crc)
  case (Suc len)
  let ?b = "m ! nat ptr"
  let ?i = "ucast (crc div 256) XOR ?b :: 8 word"
  have b: "rd m ptr = Some ?b" "nat ptr < length m" using Suc.prems by (auto simp: rd_def)
  have "unat ?i < 256" using unsigned_less [of ?i] by simp
  then have "rd crc_ta (int (unat ?i)) = Some (crc_ta ! unat ?i)" by (simp only: rd_int crc_ta_length) simp
  moreover have "int (unat ?i) = uint ?i" by simp
  ultimately have t: "rd crc_ta (uint ?i) = Some (crc_ta ! unat ?i)" by (simp only:)
  have "0 \<le> ptr + 1" "ptr + 1 + int len \<le> int (length m)" using Suc.prems by auto
  from Suc.IH [OF this] obtain r where r: "cal_crc_loop m (ptr + 1) len (push_bit 8 crc XOR crc_ta ! unat ?i) = Some r"
    "(ucast r :: 16 word) = foldl crc_byte (ucast (push_bit 8 crc XOR crc_ta ! unat ?i)) (take len (drop (nat (ptr + 1)) m))"
    by blast
  have d: "take (Suc len) (drop (nat ptr) m) = ?b # take len (drop (nat (ptr + 1)) m)"
    using b(2) Suc.prems(1) by (simp add: Cons_nth_drop_Suc [symmetric] nat_add_distrib)
  have "cal_crc_loop m ptr (Suc len) crc = Some r" using b(1) t r(1) by (simp add: Let_def)
  then show ?case using r(2) by (simp only: d crc_step) simp
qed simp

section \<open>Property\<close>

text \<open>C36. The lower half of the result is the 16-bit CRC with generator 0x1021, computed bit by bit, of the \<open>len\<close> bytes at \<open>ptr\<close>; the read is inside the
  block when the bytes are, and a length above 255 does not exist.\<close>

theorem cal_crc_is_crc16:
  assumes "0 \<le> ptr" and "ptr + uint len \<le> int (length m)"
  shows "\<exists>r. cal_crc m ptr len = Some r \<and> (ucast r :: 16 word) = crc16 (take (unat len) (drop (nat ptr) m))"
proof -
  have "ptr + int (unat len) \<le> int (length m)" using assms(2) by simp
  from cal_crc_loop_ok [OF assms(1) this, of 0] show ?thesis by (simp add: cal_crc_def crc16_def)
qed

theorem cal_crc_is_crc16_witness:
  "\<exists>r. cal_crc [9, 1, 2] 1 2 = Some r \<and> (ucast r :: 16 word) = 0x1373"
proof -
  have "crc_byte 0 1 = 0x1021" unfolding crc_byte_def crc_bits8 by (simp add: crc_bit_def)
  moreover have "crc_byte 0x1021 2 = 0x1373" unfolding crc_byte_def crc_bits8 by (simp add: crc_bit_def)
  ultimately have "crc16 [1, 2] = 0x1373" by (simp add: crc16_def)
  then show ?thesis using cal_crc_is_crc16 [of 1 2 "[9, 1, 2]"] by simp
qed

end
