(* ===== verification/Md5.thy ===== *)
theory Md5
  imports Prelude
begin

text \<open>
  The MD5 digest of \<open>md5.c\<close>, which the repository carries twice, under \<open>thirdparty/conhash\<close> and \<open>thirdparty/crypt\<close>, byte for byte the same. The
  state is the bit count, the four words of the digest and a buffer of 64 bytes; \<open>md5_process\<close> mixes one block into the
  four words, \<open>md5_append\<close> takes bytes of any number, \<open>md5_finish\<close> pads. Words are 32 bits wide, bytes 8. The byte order of the
  machine does not show: both branches of the source read the block as sixteen words, the lowest byte first. The lemmas show that a message
  appended in pieces has the digest the padded message defines.
\<close>

section \<open>State and tables\<close>

type_synonym abcd = "32 word \<times> 32 word \<times> 32 word \<times> 32 word"

record md5_state =
  count0 :: "32 word"
  count1 :: "32 word"
  abcd_of :: abcd
  md5_buf :: "8 word list"

definition T_MASK :: "32 word" where "T_MASK = NOT 0"

definition T_table :: "32 word list" where
  "T_table = [
    T_MASK XOR 0x28955b87, T_MASK XOR 0x173848a9, 0x242070db, T_MASK XOR 0x3e423111,
    T_MASK XOR 0x0a83f050, 0x4787c62a, T_MASK XOR 0x57cfb9ec, T_MASK XOR 0x02b96afe,
    0x698098d8, T_MASK XOR 0x74bb0850, T_MASK XOR 0x0000a44e, T_MASK XOR 0x76a32841,
    0x6b901122, T_MASK XOR 0x02678e6c, T_MASK XOR 0x5986bc71, 0x49b40821,
    T_MASK XOR 0x09e1da9d, T_MASK XOR 0x3fbf4cbf, 0x265e5a51, T_MASK XOR 0x16493855,
    T_MASK XOR 0x29d0efa2, 0x02441453, T_MASK XOR 0x275e197e, T_MASK XOR 0x182c0437,
    0x21e1cde6, T_MASK XOR 0x3cc8f829, T_MASK XOR 0x0b2af278, 0x455a14ed,
    T_MASK XOR 0x561c16fa, T_MASK XOR 0x03105c07, 0x676f02d9, T_MASK XOR 0x72d5b375,
    T_MASK XOR 0x0005c6bd, T_MASK XOR 0x788e097e, 0x6d9d6122, T_MASK XOR 0x021ac7f3,
    T_MASK XOR 0x5b4115bb, 0x4bdecfa9, T_MASK XOR 0x0944b49f, T_MASK XOR 0x4140438f,
    0x289b7ec6, T_MASK XOR 0x155ed805, T_MASK XOR 0x2b10cf7a, 0x04881d05,
    T_MASK XOR 0x262b2fc6, T_MASK XOR 0x1924661a, 0x1fa27cf8, T_MASK XOR 0x3b53a99a,
    T_MASK XOR 0x0bd6ddbb, 0x432aff97, T_MASK XOR 0x546bdc58, T_MASK XOR 0x036c5fc6,
    0x655b59c3, T_MASK XOR 0x70f3336d, T_MASK XOR 0x00100b82, T_MASK XOR 0x7a7ba22e,
    0x6fa87e4f, T_MASK XOR 0x01d3191f, T_MASK XOR 0x5cfebceb, 0x4e0811a1,
    T_MASK XOR 0x08ac817d, T_MASK XOR 0x42c50dca, 0x2ad7d2bb, T_MASK XOR 0x14792c6e]"

definition T_const :: "nat \<Rightarrow> 32 word" where
  "T_const i = T_table ! (i - 1)"

section \<open>A block\<close>

definition ROTATE_LEFT :: "32 word \<Rightarrow> nat \<Rightarrow> 32 word" where
  "ROTATE_LEFT x n = push_bit n x OR drop_bit (32 - n) x"

definition md5_F :: "32 word \<Rightarrow> 32 word \<Rightarrow> 32 word \<Rightarrow> 32 word" where "md5_F x y z = (x AND y) OR (NOT x AND z)"
definition md5_G :: "32 word \<Rightarrow> 32 word \<Rightarrow> 32 word \<Rightarrow> 32 word" where "md5_G x y z = (x AND z) OR (y AND NOT z)"
definition md5_H :: "32 word \<Rightarrow> 32 word \<Rightarrow> 32 word \<Rightarrow> 32 word" where "md5_H x y z = x XOR y XOR z"
definition md5_I :: "32 word \<Rightarrow> 32 word \<Rightarrow> 32 word \<Rightarrow> 32 word" where "md5_I x y z = y XOR (x OR NOT z)"

text \<open>\<open>SET\<close>: the word written is the first of the four; the next step has the same four words, turned by one place.\<close>

definition md5_set :: "(32 word \<Rightarrow> 32 word \<Rightarrow> 32 word \<Rightarrow> 32 word) \<Rightarrow> 32 word list \<Rightarrow> nat \<times> nat \<times> 32 word \<Rightarrow> abcd \<Rightarrow> abcd" where
  "md5_set f X = (\<lambda>(k, s, Ti) (a, b, c, d).
     let t = a + f b c d + X ! k + Ti; a = ROTATE_LEFT t s + b in (d, a, b, c))"

definition md5_round1 :: "(nat \<times> nat \<times> 32 word) list" where
  "md5_round1 = [
    (0, 7, T_const 1), (1, 12, T_const 2), (2, 17, T_const 3), (3, 22, T_const 4),
    (4, 7, T_const 5), (5, 12, T_const 6), (6, 17, T_const 7), (7, 22, T_const 8),
    (8, 7, T_const 9), (9, 12, T_const 10), (10, 17, T_const 11), (11, 22, T_const 12),
    (12, 7, T_const 13), (13, 12, T_const 14), (14, 17, T_const 15), (15, 22, T_const 16)]"

definition md5_round2 :: "(nat \<times> nat \<times> 32 word) list" where
  "md5_round2 = [
    (1, 5, T_const 17), (6, 9, T_const 18), (11, 14, T_const 19), (0, 20, T_const 20),
    (5, 5, T_const 21), (10, 9, T_const 22), (15, 14, T_const 23), (4, 20, T_const 24),
    (9, 5, T_const 25), (14, 9, T_const 26), (3, 14, T_const 27), (8, 20, T_const 28),
    (13, 5, T_const 29), (2, 9, T_const 30), (7, 14, T_const 31), (12, 20, T_const 32)]"

definition md5_round3 :: "(nat \<times> nat \<times> 32 word) list" where
  "md5_round3 = [
    (5, 4, T_const 33), (8, 11, T_const 34), (11, 16, T_const 35), (14, 23, T_const 36),
    (1, 4, T_const 37), (4, 11, T_const 38), (7, 16, T_const 39), (10, 23, T_const 40),
    (13, 4, T_const 41), (0, 11, T_const 42), (3, 16, T_const 43), (6, 23, T_const 44),
    (9, 4, T_const 45), (12, 11, T_const 46), (15, 16, T_const 47), (2, 23, T_const 48)]"

definition md5_round4 :: "(nat \<times> nat \<times> 32 word) list" where
  "md5_round4 = [
    (0, 6, T_const 49), (7, 10, T_const 50), (14, 15, T_const 51), (5, 21, T_const 52),
    (12, 6, T_const 53), (3, 10, T_const 54), (10, 15, T_const 55), (1, 21, T_const 56),
    (8, 6, T_const 57), (15, 10, T_const 58), (6, 15, T_const 59), (13, 21, T_const 60),
    (4, 6, T_const 61), (11, 10, T_const 62), (2, 15, T_const 63), (9, 21, T_const 64)]"

text \<open>The sixteen words of a block of 64 bytes.\<close>

definition md5_words :: "8 word list \<Rightarrow> 32 word list" where
  "md5_words xp = map (\<lambda>i. ucast (xp ! (4 * i)) + push_bit 8 (ucast (xp ! (4 * i + 1)))
     + push_bit 16 (ucast (xp ! (4 * i + 2))) + push_bit 24 (ucast (xp ! (4 * i + 3)))) [0..<16]"

definition md5_process :: "abcd \<Rightarrow> 8 word list \<Rightarrow> abcd" where
  "md5_process = (\<lambda>(a0, b0, c0, d0) data.
     let X = md5_words data;
         v = fold (md5_set md5_F X) md5_round1 (a0, b0, c0, d0);
         v = fold (md5_set md5_G X) md5_round2 v;
         v = fold (md5_set md5_H X) md5_round3 v;
         (a, b, c, d) = fold (md5_set md5_I X) md5_round4 v
     in (a0 + a, b0 + b, c0 + c, d0 + d))"

section \<open>Operations\<close>

definition md5_init :: "8 word list \<Rightarrow> md5_state" where
  "md5_init buf = \<lparr>count0 = 0, count1 = 0, abcd_of = (0x67452301, T_MASK XOR 0x10325476, T_MASK XOR 0x67452301, 0x10325476), md5_buf = buf\<rparr>"

text \<open>The loop over the full blocks: what is left of the data, and the state after it.\<close>

function md5_blocks :: "abcd \<Rightarrow> 8 word list \<Rightarrow> int \<Rightarrow> int \<Rightarrow> (abcd \<times> int \<times> int) option" where
  "md5_blocks v data p left =
     (if 64 \<le> left then do { b \<leftarrow> rd_block data p 64; md5_blocks (md5_process v b) data (p + 64) (left - 64) }
      else Some (v, p, left))"
  by pat_completeness auto
termination
  by (relation "measure (\<lambda>(v, data, p, left). nat left)") auto

declare md5_blocks.simps [simp del]

text \<open>The tail of \<open>md5_append\<close>: the full blocks from a position on, then the rest into the buffer.\<close>

definition md5_rest :: "md5_state \<Rightarrow> abcd \<Rightarrow> 8 word list \<Rightarrow> int \<Rightarrow> int \<Rightarrow> md5_state option" where
  "md5_rest pms v data p left = do {
     (v, p, left) \<leftarrow> md5_blocks v data p left;
     let pms = pms\<lparr>abcd_of := v\<rparr>;
     if left \<noteq> 0 then do { buf \<leftarrow> memcpy (md5_buf pms) 0 data p left; Some (pms\<lparr>md5_buf := buf\<rparr>) } else Some pms
   }"

text \<open>The count is in bits; \<open>nbytes << 3\<close> is a shift of an \<open>int\<close>, undefined when it does not fit.\<close>

definition md5_append :: "md5_state \<Rightarrow> 8 word list \<Rightarrow> int \<Rightarrow> md5_state option" where
  "md5_append pms data nbytes =
     (let offset = sint ((drop_bit 3 (count0 pms)) AND 63) in
      if nbytes \<le> 0 then Some pms
      else do {
        n8 \<leftarrow> ck_int (nbytes * 8);
        let nbits = (word_of_int n8 :: 32 word);
        let c1 = count1 pms + word_of_int (nbytes div 2 ^ 29);
        let c0 = count0 pms + nbits;
        let c1 = (if c0 < nbits then c1 + 1 else c1);
        let pms = pms\<lparr>count0 := c0, count1 := c1\<rparr>;
        if offset \<noteq> 0 then do {
          let copy = (if offset + nbytes > 64 then 64 - offset else nbytes);
          buf \<leftarrow> memcpy (md5_buf pms) offset data 0 copy;
          let pms = pms\<lparr>md5_buf := buf\<rparr>;
          if offset + copy < 64 then Some pms
          else md5_rest pms (md5_process (abcd_of pms) buf) data copy (nbytes - copy)
        }
        else md5_rest pms (abcd_of pms) data 0 nbytes
      })"

definition md5_pad :: "8 word list" where
  "md5_pad = 0x80 # replicate 63 0"

text \<open>The bytes of a word, the lowest first; the bytes of the length and of the digest.\<close>

definition word_bytes :: "32 word \<Rightarrow> 8 word list" where
  "word_bytes w = map (\<lambda>i. ucast (drop_bit (8 * i) w)) [0..<4]"

definition md5_digest :: "abcd \<Rightarrow> 8 word list" where
  "md5_digest = (\<lambda>(a, b, c, d). word_bytes a @ word_bytes b @ word_bytes c @ word_bytes d)"

definition md5_finish :: "md5_state \<Rightarrow> (md5_state \<times> 8 word list) option" where
  "md5_finish pms = do {
     let data = word_bytes (count0 pms) @ word_bytes (count1 pms);
     pms \<leftarrow> md5_append pms md5_pad (sint ((55 - drop_bit 3 (count0 pms)) AND 63) + 1);
     pms \<leftarrow> md5_append pms data 8;
     Some (pms, md5_digest (abcd_of pms))
   }"

text \<open>\<open>conhash_md5_digest\<close>: one call for the whole digest; the state is a local variable, its buffer indeterminate.\<close>

definition conhash_md5_digest :: "8 word list \<Rightarrow> 8 word list \<Rightarrow> int \<Rightarrow> 8 word list option" where
  "conhash_md5_digest junk instr len = do {
     pms \<leftarrow> md5_append (md5_init junk) instr len;
     (pms, digest) \<leftarrow> md5_finish pms;
     Some digest
   }"

section \<open>The digest of a message\<close>

text \<open>The four words after the full blocks of some bytes, and the bytes left over.\<close>

function absorb :: "abcd \<Rightarrow> 8 word list \<Rightarrow> abcd" where
  "absorb v bs = (if length bs < 64 then v else absorb (md5_process v (take 64 bs)) (drop 64 bs))"
  by pat_completeness auto
termination
  by (relation "measure (\<lambda>(v, bs). length bs)") auto

declare absorb.simps [simp del]

definition rest64 :: "'a list \<Rightarrow> 'a list" where
  "rest64 bs = drop (64 * (length bs div 64)) bs"

definition md5_start :: abcd where
  "md5_start = (0x67452301, T_MASK XOR 0x10325476, T_MASK XOR 0x67452301, 0x10325476)"

text \<open>The padding of RFC 1321: a bit, zeros up to 56 bytes modulo 64, the length in bits as eight bytes.\<close>

definition md5_padding :: "nat \<Rightarrow> 8 word list" where
  "md5_padding n = 0x80 # replicate (nat ((55 - int n) mod 64)) 0 @ map (\<lambda>i. word_of_nat (8 * n div 2 ^ (8 * i))) [0..<8]"

definition md5_spec :: "8 word list \<Rightarrow> 8 word list" where
  "md5_spec msg = md5_digest (absorb md5_start (msg @ md5_padding (length msg)))"

lemma length_rest64 [simp]: "length (rest64 bs) = length bs mod 64"
  by (simp add: rest64_def minus_mult_div_eq_mod)

lemma rest64_short [simp]: "length bs < 64 \<Longrightarrow> rest64 bs = bs"
  by (simp add: rest64_def)

lemma absorb_short [simp]: "length bs < 64 \<Longrightarrow> absorb v bs = v"
  by (simp add: absorb.simps [of v bs])

lemma absorb_block: "length b = 64 \<Longrightarrow> absorb v (b @ bs) = absorb (md5_process v b) bs"
  by (simp add: absorb.simps [of v "b @ bs"])

lemma rest64_block: "length b = 64 \<Longrightarrow> rest64 (b @ bs) = rest64 bs"
proof -
  assume b: "length b = 64"
  have "64 * ((64 + length bs) div 64) - 64 = 64 * (length bs div 64)" by (simp add: div_add_self1)
  then show ?thesis using b by (simp add: rest64_def)
qed

lemma absorb_step: "64 \<le> length xs \<Longrightarrow> absorb v xs = absorb (md5_process v (take 64 xs)) (drop 64 xs)"
  by (simp add: absorb.simps [of v xs])

lemma rest64_drop: "64 \<le> length bs \<Longrightarrow> rest64 (drop 64 bs) = rest64 bs"
  using rest64_block [of "take 64 bs" "drop 64 bs"] by simp

lemma absorb_append: "absorb v (xs @ ys) = absorb (absorb v xs) (rest64 xs @ ys)"
proof (induction v xs rule: absorb.induct)
  case (1 v xs)
  show ?case
  proof (cases "length xs < 64")
    case False
    have "absorb v (xs @ ys) = absorb (md5_process v (take 64 xs)) (drop 64 xs @ ys)"
      using False by (subst absorb.simps) simp
    also have "\<dots> = absorb (absorb (md5_process v (take 64 xs)) (drop 64 xs)) (rest64 (drop 64 xs) @ ys)"
      using 1 [OF False] .
    also have "\<dots> = absorb (absorb v xs) (rest64 xs @ ys)"
      using False absorb_step [of xs v] rest64_drop [of xs] by simp
    finally show ?thesis .
  qed simp
qed

lemma rest64_append: "rest64 (xs @ ys) = rest64 (rest64 xs @ ys)"
proof (induction xs rule: length_induct)
  case (1 xs)
  show ?case
  proof (cases "length xs < 64")
    case False
    have "rest64 (take 64 xs @ (drop 64 xs @ ys)) = rest64 (drop 64 xs @ ys)" by (rule rest64_block) (use False in simp)
    moreover have "take 64 xs @ (drop 64 xs @ ys) = xs @ ys" by (simp only: append_assoc [symmetric] append_take_drop_id)
    moreover have "rest64 (drop 64 xs @ ys) = rest64 (rest64 (drop 64 xs) @ ys)"
      using 1 [rule_format, of "drop 64 xs"] False by simp
    ultimately show ?thesis using False rest64_drop [of xs] by simp
  qed simp
qed

text \<open>The loop over the full blocks absorbs them.\<close>

lemma md5_blocks_ok: "p + left \<le> length data
  \<Longrightarrow> md5_blocks v data (int p) (int left) = Some (absorb v (take left (drop p data)), int (p + 64 * (left div 64)), int (left mod 64))"
proof (induction left arbitrary: v p rule: less_induct)
  case (less left)
  show ?case
  proof (cases "64 \<le> left")
    case True
    have i: "int p + 64 = int (p + 64)" "int left - 64 = int (left - 64)" "64 \<le> int left" using True by auto
    have b: "rd_block data (int p) 64 = Some (take 64 (drop p data))" using less.prems True by (simp add: rd_block_def)
    have d: "take left (drop p data) = take 64 (drop p data) @ take (left - 64) (drop (p + 64) data)"
      using True take_add [of 64 "left - 64" "drop p data"] by (simp add: add.commute)
    have a: "absorb v (take left (drop p data)) = absorb (md5_process v (take 64 (drop p data))) (take (left - 64) (drop (p + 64) data))"
      unfolding d by (rule absorb_block) (use less.prems True in simp)
    have "md5_blocks (md5_process v (take 64 (drop p data))) data (int (p + 64)) (int (left - 64))
        = Some (absorb (md5_process v (take 64 (drop p data))) (take (left - 64) (drop (p + 64) data)), int (p + 64 + 64 * ((left - 64) div 64)), int ((left - 64) mod 64))"
      by (rule less.IH) (use True less.prems in auto)
    moreover have "p + 64 + 64 * ((left - 64) div 64) = p + 64 * (left div 64)" "(left - 64) mod 64 = left mod 64"
      using True by (auto simp: le_iff_add div_add_self1)
    ultimately show ?thesis unfolding a by (subst md5_blocks.simps) (simp only: i if_True b bind.bind_lunit)
  next
    case False
    then show ?thesis using less.prems by (subst md5_blocks.simps) simp
  qed
qed

section \<open>The state for a message\<close>

definition md5_rep :: "md5_state \<Rightarrow> 8 word list \<Rightarrow> bool" where
  "md5_rep st msg \<longleftrightarrow> abcd_of st = absorb md5_start msg \<and> length (md5_buf st) = 64
     \<and> take (length msg mod 64) (md5_buf st) = rest64 msg
     \<and> count0 st = word_of_nat (8 * length msg) \<and> count1 st = word_of_nat (8 * length msg div 2 ^ 32)"

lemma md5_rep_init: "length buf = 64 \<Longrightarrow> md5_rep (md5_init buf) []"
  by (simp add: md5_rep_def md5_init_def md5_start_def rest64_def)

text \<open>The position in the buffer is the message's length modulo 64.\<close>

lemma buf_offset: "sint (drop_bit 3 (word_of_nat (8 * n) :: 32 word) AND 63) = int (n mod 64)"
proof -
  have "drop_bit 3 (word_of_nat (8 * n) :: 32 word) AND 63 = take_bit 6 (drop_bit 3 (word_of_nat (8 * n)))"
    by (simp add: take_bit_eq_mask mask_eq_exp_minus_1)
  also have "\<dots> = word_of_nat (n mod 64)"
  proof (rule word_unat_eq_iff [THEN iffD2])
    have "unat (take_bit 6 (drop_bit 3 (word_of_nat (8 * n) :: 32 word))) = (8 * n mod 2 ^ 32) div 2 ^ 3 mod 2 ^ 6"
      unfolding unsigned_take_bit_eq unat_drop_bit_eq unat_of_nat by (simp add: take_bit_eq_mod drop_bit_eq_div)
    also have "\<dots> = n mod 2 ^ 29 mod 2 ^ 6"
      using mod_mult_mult1 [of 8 n "2 ^ 29"] by simp
    also have "\<dots> = n mod 64" by (simp add: mod_mod_cancel)
    finally show "unat (take_bit 6 (drop_bit 3 (word_of_nat (8 * n) :: 32 word))) = unat (word_of_nat (n mod 64) :: 32 word)"
      by (simp add: unat_of_nat)
  qed
  finally have e: "drop_bit 3 (word_of_nat (8 * n) :: 32 word) AND 63 = word_of_nat (n mod 64)" .
  show ?thesis unfolding e by (simp add: signed_of_nat signed_take_bit_int_eq_self)
qed

text \<open>The 64-bit count, with its carry.\<close>

lemma count_carry:
  fixes A B :: nat
  assumes "B < 2 ^ 32"
  shows "(word_of_nat A + word_of_nat B :: 32 word) < word_of_nat B \<longleftrightarrow> 2 ^ 32 \<le> A mod 2 ^ 32 + B"
    and "(A + B) div 2 ^ 32 = A div 2 ^ 32 + (if 2 ^ 32 \<le> A mod 2 ^ 32 + B then 1 else 0)"
proof -
  have s: "(A + B) mod 2 ^ 32 = (if 2 ^ 32 \<le> A mod 2 ^ 32 + B then A mod 2 ^ 32 + B - 2 ^ 32 else A mod 2 ^ 32 + B)"
    using assms mod_if [of "A mod 2 ^ 32 + B" "2 ^ 32"] by (auto simp: mod_add_left_eq le_mod_geq)
  have "(word_of_nat A + word_of_nat B :: 32 word) < word_of_nat B \<longleftrightarrow> (A + B) mod 2 ^ 32 < B mod 2 ^ 32"
    unfolding of_nat_add [symmetric] word_less_nat_alt unat_of_nat by simp
  then show "(word_of_nat A + word_of_nat B :: 32 word) < word_of_nat B \<longleftrightarrow> 2 ^ 32 \<le> A mod 2 ^ 32 + B"
    using s assms by (auto split: if_splits)
  have "(A + B) div 2 ^ 32 = A div 2 ^ 32 + (A mod 2 ^ 32 + B) div 2 ^ 32"
    using div_add1_eq [of A B "2 ^ 32"] assms by simp
  also have "(A mod 2 ^ 32 + B) div 2 ^ 32 = (if 2 ^ 32 \<le> A mod 2 ^ 32 + B then 1 else 0)"
    using assms by (auto simp: div_nat_eqI div_less)
  finally show "(A + B) div 2 ^ 32 = A div 2 ^ 32 + (if 2 ^ 32 \<le> A mod 2 ^ 32 + B then 1 else 0)" .
qed

lemma rd_block_nat: "k + m \<le> length b \<Longrightarrow> rd_block b (int k) (int m) = Some (take m (drop k b))"
  by (simp add: rd_block_def)

lemma md5_rest_ok:
  assumes "p + left \<le> length data" and "length (md5_buf pms) = 64"
  shows "\<exists>buf. md5_rest pms v data (int p) (int left) = Some (pms\<lparr>abcd_of := absorb v (take left (drop p data)), md5_buf := buf\<rparr>)
    \<and> length buf = 64 \<and> take (left mod 64) buf = rest64 (take left (drop p data))"
proof -
  let ?d = "take left (drop p data)"
  have r: "rest64 ?d = take (left mod 64) (drop (p + 64 * (left div 64)) data)"
    using assms(1) by (simp add: rest64_def drop_take minus_mult_div_eq_mod add.commute)
  have b: "md5_blocks v data (int p) (int left) = Some (absorb v ?d, int (p + 64 * (left div 64)), int (left mod 64))"
    by (rule md5_blocks_ok [OF assms(1)])
  show ?thesis
  proof (cases "left mod 64 = 0")
    case True
    then show ?thesis using assms(2) b r by (intro exI [of _ "md5_buf pms"]) (simp add: md5_rest_def)
  next
    case False
    have l: "64 * (left div 64) + left mod 64 = left" by simp
    have rd: "rd_block data (int (p + 64 * (left div 64))) (int (left mod 64)) = Some (rest64 ?d)"
      unfolding r by (rule rd_block_nat) (use assms(1) l in linarith)
    have "length (rest64 ?d) \<le> length (md5_buf pms)" using assms r by simp
    then have m: "memcpy (md5_buf pms) 0 data (int (p + 64 * (left div 64))) (int (left mod 64)) = Some (rest64 ?d @ drop (length (rest64 ?d)) (md5_buf pms))"
      unfolding memcpy_def rd bind.bind_lunit by (rule wr_block_0)
    have n: "int (left mod 64) \<noteq> 0" using False by simp
    have len: "length (rest64 ?d) = left mod 64" using assms(1) by simp
    show ?thesis
      by (intro exI [of _ "rest64 ?d @ drop (length (rest64 ?d)) (md5_buf pms)"])
        (use b m n len assms(2) in \<open>simp add: md5_rest_def del: of_nat_add length_rest64\<close>)
  qed
qed

text \<open>The two counters of bits after an append, with the carry between them.\<close>

definition counted :: "md5_state \<Rightarrow> int \<Rightarrow> md5_state" where
  "counted st n = (let c0 = count0 st + word_of_int (n * 8)
     in st\<lparr>count0 := c0, count1 := (if c0 < word_of_int (n * 8) then count1 st + word_of_int (n div 2 ^ 29) + 1 else count1 st + word_of_int (n div 2 ^ 29))\<rparr>)"

lemma counted_ok:
  assumes "md5_rep st msg" and "n \<le> length data" and "n < 2 ^ 28"
  shows "count0 (counted st (int n)) = word_of_nat (8 * length (msg @ take n data))"
    and "count1 (counted st (int n)) = word_of_nat (8 * length (msg @ take n data) div 2 ^ 32)"
    and "md5_buf (counted st (int n)) = md5_buf st" and "abcd_of (counted st (int n)) = abcd_of st"
proof -
  have b: "8 * n < 2 ^ 32" using assms(3) by simp
  have w: "word_of_int (int n * 8) = (word_of_nat (8 * n) :: 32 word)" by (simp add: mult.commute)
  have z: "int n div 2 ^ 29 = 0" using assms(3) by simp
  have cnt: "count0 st = word_of_nat (8 * length msg)" "count1 st = word_of_nat (8 * length msg div 2 ^ 32)" using assms(1) by (simp_all add: md5_rep_def)
  show "count0 (counted st (int n)) = word_of_nat (8 * length (msg @ take n data))"
    using cnt assms(2) by (simp add: counted_def Let_def w distrib_left)
  show "count1 (counted st (int n)) = word_of_nat (8 * length (msg @ take n data) div 2 ^ 32)"
    using count_carry [OF b, of "8 * length msg"] assms(2) unfolding counted_def Let_def w z cnt by (simp add: distrib_left)
qed (simp_all add: counted_def Let_def)

text \<open>The append on a state that stands for a message: the bytes that wait are filled up to a block first.\<close>

lemma md5_append_split:
  assumes rep: "md5_rep st msg" and n: "0 < n" "n < 2 ^ 28"
  shows "md5_append st data (int n) = (if int (length msg mod 64) \<noteq> 0 then do {
        let copy = (if int (length msg mod 64) + int n > 64 then 64 - int (length msg mod 64) else int n);
        buf \<leftarrow> memcpy (md5_buf (counted st (int n))) (int (length msg mod 64)) data 0 copy;
        let pms = (counted st (int n))\<lparr>md5_buf := buf\<rparr>;
        if int (length msg mod 64) + copy < 64 then Some pms
        else md5_rest pms (md5_process (abcd_of pms) buf) data copy (int n - copy)
      } else md5_rest (counted st (int n)) (abcd_of (counted st (int n))) data 0 (int n))"
proof -
  have ck: "ck_int (int n * 8) = Some (int n * 8)" using n(2) by (simp add: ck_int_def in_int_def INT_MAX_def)
  have "count0 st = word_of_nat (8 * length msg)" using rep by (simp add: md5_rep_def)
  then have off: "sint (drop_bit 3 (count0 st) AND 63) = int (length msg mod 64)" using buf_offset by simp
  show ?thesis using n(1) unfolding md5_append_def off ck counted_def Let_def by simp
qed

text \<open>When the bytes that wait are filled up: the block is processed and the rest follows, or all the new bytes wait too.\<close>

lemma md5_fill_ok:
  assumes st: "length (md5_buf st) = 64" "off < 64" and k: "k \<le> n" "off + k \<le> 64" and n: "n \<le> length data"
  defines "bf \<equiv> take off (md5_buf st) @ take k data @ drop (off + k) (md5_buf st)"
  shows "memcpy (md5_buf st) (int off) data 0 (int k) = Some bf" and "length bf = 64"
    and "off + k = 64 \<Longrightarrow> \<exists>b. md5_rest (st\<lparr>md5_buf := bf\<rparr>) (md5_process (abcd_of st) bf) data (int k) (int n - int k)
        = Some ((st\<lparr>md5_buf := bf\<rparr>)\<lparr>abcd_of := absorb (abcd_of st) (take off (md5_buf st) @ take n data), md5_buf := b\<rparr>)
      \<and> length b = 64 \<and> take ((off + n) mod 64) b = rest64 (take off (md5_buf st) @ take n data)"
proof -
  have kl: "length (take k data) = k" using k(1) n by simp
  show "memcpy (md5_buf st) (int off) data 0 (int k) = Some bf"
    using st k n kl rd_block_nat [of 0 k data] by (simp add: memcpy_def wr_block_def splice_def bf_def)
  show bl: "length bf = 64" using st k(2) kl by (simp add: bf_def)
  assume k64: "off + k = 64"
  then have bf: "take off (md5_buf st) @ take n data = bf @ take (n - k) (drop k data)"
    using st(1) k(1) take_add [of k "n - k" data] by (simp add: bf_def)
  have kd: "k + (n - k) \<le> length data" "length (md5_buf (st\<lparr>md5_buf := bf\<rparr>)) = 64" using k(1) n bl by simp_all
  have "(off + n) mod 64 = (n - k) mod 64" using k64 k(1) by (metis add.assoc le_add_diff_inverse mod_add_self1)
  then show "\<exists>b. md5_rest (st\<lparr>md5_buf := bf\<rparr>) (md5_process (abcd_of st) bf) data (int k) (int n - int k)
        = Some ((st\<lparr>md5_buf := bf\<rparr>)\<lparr>abcd_of := absorb (abcd_of st) (take off (md5_buf st) @ take n data), md5_buf := b\<rparr>)
      \<and> length b = 64 \<and> take ((off + n) mod 64) b = rest64 (take off (md5_buf st) @ take n data)"
    using md5_rest_ok [OF kd, of "md5_process (abcd_of st) bf"] k(1) unfolding bf absorb_block [OF bl] rest64_block [OF bl]
    by (auto simp: of_nat_diff)
qed

lemma md5_append_ok:
  assumes rep: "md5_rep st msg" and n: "0 < n" "n \<le> length data" "n < 2 ^ 28"
  shows "\<exists>st'. md5_append st data (int n) = Some st' \<and> md5_rep st' (msg @ take n data)"
proof -
  let ?off = "length msg mod 64" and ?d = "take n data" and ?st = "counted st (int n)"
  note c = counted_ok [OF rep n(2,3)] and app = md5_append_split [OF rep n(1,3), of data]
  have buf: "length (md5_buf st) = 64" "take ?off (md5_buf st) = rest64 msg" "abcd_of st = absorb md5_start msg" using rep by (simp_all add: md5_rep_def)
  have ab: "absorb md5_start (msg @ ?d) = absorb (abcd_of st) (rest64 msg @ ?d)" using absorb_append buf(3) by metis
  have mod: "length (msg @ ?d) mod 64 = (?off + n) mod 64" using n(2) by (simp add: mod_add_left_eq)
  have rep_if: "md5_rep st' (msg @ ?d)" if "count0 st' = count0 ?st" "count1 st' = count1 ?st" "abcd_of st' = absorb (abcd_of st) (rest64 msg @ ?d)"
      "length (md5_buf st') = 64" "take ((?off + n) mod 64) (md5_buf st') = rest64 (rest64 msg @ ?d)" for st'
    using that c(1,2) ab mod rest64_append [of msg ?d] by (simp add: md5_rep_def)
  show ?thesis
  proof (cases "?off = 0")
    case True
    then have r: "rest64 msg = []" by (metis length_0_conv length_rest64)
    obtain bf where "md5_rest ?st (abcd_of ?st) data (int 0) (int n) = Some (?st\<lparr>abcd_of := absorb (abcd_of ?st) (take n (drop 0 data)), md5_buf := bf\<rparr>)"
      "length bf = 64" "take (n mod 64) bf = rest64 (take n (drop 0 data))"
      using md5_rest_ok [of 0 n data ?st "abcd_of ?st"] n(2) buf(1) c(3) by auto
    then show ?thesis using app True r c(4) rep_if [of "?st\<lparr>abcd_of := absorb (abcd_of ?st) (take n (drop 0 data)), md5_buf := bf\<rparr>"] by simp
  next
    case off0: False
    define k where "k = (if ?off + n > 64 then 64 - ?off else n)"
    have k: "k \<le> n" "?off + k \<le> 64" "(if int ?off + int n > 64 then 64 - int ?off else int n) = int k" by (auto simp: k_def)
    have st: "length (md5_buf ?st) = 64" "?off < 64" using buf(1) c(3) by simp_all
    note fill = md5_fill_ok [OF st k(1,2) n(2), unfolded c(3,4) buf(2)]
    let ?bf = "rest64 msg @ take k data @ drop (?off + k) (md5_buf st)"
    have nz: "int ?off \<noteq> 0" using off0 by simp
    show ?thesis
    proof (cases "?off + k < 64")
      case True
      then have kn: "k = n" by (auto simp: k_def split: if_splits)
      have lt: "int ?off + int k < 64" using True by simp
      have "md5_append st data (int n) = Some (?st\<lparr>md5_buf := ?bf\<rparr>)"
        unfolding app Let_def k(3) c(3) fill(1) bind.bind_lunit if_P [OF nz] if_P [OF lt] ..
      moreover have "md5_rep (?st\<lparr>md5_buf := ?bf\<rparr>) (msg @ ?d)"
        by (rule rep_if) (use True fill(2) kn n(2) c(4) in simp_all)
      ultimately show ?thesis by blast
    next
      case False
      then have "?off + k = 64" "\<not> int ?off + int k < 64" using k(2) by simp_all
      note r = fill(3) [OF this(1)] and ge = this(2)
      obtain b where b: "md5_rest (?st\<lparr>md5_buf := ?bf\<rparr>) (md5_process (abcd_of st) ?bf) data (int k) (int n - int k)
          = Some ((?st\<lparr>md5_buf := ?bf\<rparr>)\<lparr>abcd_of := absorb (abcd_of st) (rest64 msg @ ?d), md5_buf := b\<rparr>)"
        "length b = 64" "take ((?off + n) mod 64) b = rest64 (rest64 msg @ ?d)" using r by blast
      have a1: "abcd_of (?st\<lparr>md5_buf := ?bf\<rparr>) = abcd_of st" using c(4) by simp
      have "md5_append st data (int n) = Some ((?st\<lparr>md5_buf := ?bf\<rparr>)\<lparr>abcd_of := absorb (abcd_of st) (rest64 msg @ ?d), md5_buf := b\<rparr>)"
        unfolding app Let_def k(3) c(3) fill(1) bind.bind_lunit if_P [OF nz] if_not_P [OF ge] a1 by (rule b(1))
      moreover have "md5_rep ((?st\<lparr>md5_buf := ?bf\<rparr>)\<lparr>abcd_of := absorb (abcd_of st) (rest64 msg @ ?d), md5_buf := b\<rparr>) (msg @ ?d)"
        by (rule rep_if) (use b(2,3) in simp_all)
      ultimately show ?thesis by blast
    qed
  qed
qed

text \<open>The length in bits, as bytes, and the number of bytes of padding.\<close>

lemma word_bytes_of_nat: "word_bytes (word_of_nat m) = map (\<lambda>i. word_of_nat (m div 2 ^ (8 * i))) [0..<4]"
proof -
  have "(ucast (drop_bit (8 * i) (word_of_nat m :: 32 word)) :: 8 word) = word_of_nat (m div 2 ^ (8 * i))" if "i < 4" for i
  proof (rule bit_word_eqI)
    fix k assume "k < LENGTH(8)"
    then show "bit (ucast (drop_bit (8 * i) (word_of_nat m :: 32 word)) :: 8 word) k = bit (word_of_nat (m div 2 ^ (8 * i)) :: 8 word) k"
      using that by (simp add: bit_simps drop_bit_eq_div [symmetric] add.commute)
  qed
  then show ?thesis by (simp add: word_bytes_def)
qed

lemma length_bytes: "word_bytes (word_of_nat m) @ word_bytes (word_of_nat (m div 2 ^ 32)) = map (\<lambda>i. word_of_nat (m div 2 ^ (8 * i))) [0..<8]"
proof -
  have "[0..<8] = [0..<4] @ map (\<lambda>i. i + 4) [0..<4]" by (simp add: upt_rec)
  moreover have "m div 2 ^ 32 div 2 ^ (8 * i) = m div 2 ^ (8 * (i + 4))" for i :: nat
    by (simp add: div_mult2_eq [symmetric] power_add mult.commute)
  ultimately show ?thesis by (simp add: word_bytes_of_nat o_def)
qed

lemma pad_count: "sint ((55 - drop_bit 3 (word_of_nat (8 * n) :: 32 word)) AND 63) = (55 - int n) mod 64"
proof -
  define w where "w = drop_bit 3 (word_of_nat (8 * n) :: 32 word)"
  have m: "(55 - w) AND 63 = take_bit 6 (55 - w)" by (simp add: take_bit_eq_mask mask_eq_exp_minus_1)
  have "uint w = (8 * int n) mod 2 ^ 32 div 2 ^ 3"
    unfolding w_def unsigned_drop_bit_eq unsigned_of_nat by (simp add: drop_bit_eq_div take_bit_eq_mod of_nat_mod)
  also have "\<dots> = int n mod 2 ^ 29" using mod_mult_mult1 [of 8 "int n" "2 ^ 29"] by simp
  finally have uw: "uint w = int n mod 2 ^ 29" .
  have "uint (take_bit 6 (55 - w)) = (55 - int n mod 2 ^ 29) mod 2 ^ 32 mod 2 ^ 6"
    unfolding unsigned_take_bit_eq by (simp add: uint_word_ariths uw take_bit_eq_mod)
  also have "\<dots> = (55 - int n mod 2 ^ 29) mod 2 ^ 6" by (rule mod_mod_cancel) simp
  also have "\<dots> = (55 - int n mod 2 ^ 29 mod 2 ^ 6) mod 2 ^ 6" by (rule mod_diff_right_eq [symmetric])
  also have "\<dots> = (55 - int n mod 2 ^ 6) mod 2 ^ 6" by (simp add: mod_mod_cancel)
  also have "\<dots> = (55 - int n) mod 64" by (simp add: mod_diff_right_eq)
  finally have u: "uint (take_bit 6 (55 - w)) = (55 - int n) mod 64" .
  have "(55 - int n) mod 64 < 64" "0 \<le> (55 - int n) mod 64" by simp_all
  then show ?thesis unfolding w_def [symmetric] m sint_uint u by (simp add: signed_take_bit_int_eq_self)
qed

lemma md5_finish_ok:
  assumes "md5_rep st msg"
  shows "\<exists>st'. md5_finish st = Some (st', md5_spec msg)"
proof -
  let ?n = "length msg"
  define k where "k = nat ((55 - int ?n) mod 64)"
  have k: "int (Suc k) = (55 - int ?n) mod 64 + 1" "k < 64" by (simp_all add: k_def nat_less_iff)
  let ?data = "word_bytes (count0 st) @ word_bytes (count1 st)"
  have cnt: "count0 st = word_of_nat (8 * ?n)" "count1 st = word_of_nat (8 * ?n div 2 ^ 32)" using assms by (simp_all add: md5_rep_def)
  have pc: "sint ((55 - drop_bit 3 (count0 st)) AND 63) + 1 = int (Suc k)" unfolding cnt(1) pad_count k(1) ..
  have dl: "length ?data = 8" by (simp add: word_bytes_def)
  obtain st1 where 1: "md5_append st md5_pad (int (Suc k)) = Some st1" "md5_rep st1 (msg @ take (Suc k) md5_pad)"
    using md5_append_ok [OF assms, of "Suc k" md5_pad] k(2) by (auto simp: md5_pad_def)
  obtain st2 where 2: "md5_append st1 ?data (int 8) = Some st2" "md5_rep st2 ((msg @ take (Suc k) md5_pad) @ take 8 ?data)"
    using md5_append_ok [OF 1(2), of 8 ?data] dl by auto
  have "take (Suc k) md5_pad = 0x80 # replicate k 0" using k(2) by (simp add: md5_pad_def)
  moreover have "take 8 ?data = map (\<lambda>i. word_of_nat (8 * ?n div 2 ^ (8 * i))) [0..<8]"
    using dl length_bytes [of "8 * ?n"] cnt by simp
  ultimately have p: "(msg @ take (Suc k) md5_pad) @ take 8 ?data = msg @ md5_padding ?n" by (simp add: md5_padding_def k_def)
  have "md5_finish st = Some (st2, md5_digest (abcd_of st2))"
    using 1(1) 2(1) unfolding md5_finish_def pc Let_def by simp
  then show ?thesis using 2(2) unfolding p by (simp add: md5_rep_def md5_spec_def)
qed

text \<open>Appending the pieces of a message one after the other.\<close>

fun md5_appends :: "md5_state \<Rightarrow> 8 word list list \<Rightarrow> md5_state option" where
  "md5_appends st [] = Some st"
| "md5_appends st (c # cs) = do { st \<leftarrow> md5_append st c (int (length c)); md5_appends st cs }"

lemma md5_appends_ok:
  "md5_rep st msg \<Longrightarrow> \<forall>c\<in>set cs. length c < 2 ^ 28 \<Longrightarrow> \<exists>st'. md5_appends st cs = Some st' \<and> md5_rep st' (msg @ concat cs)"
proof (induction cs arbitrary: st msg)
  case (Cons c cs)
  have "\<exists>st1. md5_append st c (int (length c)) = Some st1 \<and> md5_rep st1 (msg @ c)"
  proof (cases "c = []")
    case True
    then show ?thesis using Cons.prems(1) by (simp add: md5_append_def)
  next
    case False
    then show ?thesis using md5_append_ok [OF Cons.prems(1), of "length c" c] Cons.prems(2) by simp
  qed
  then obtain st1 where 1: "md5_append st c (int (length c)) = Some st1" "md5_rep st1 (msg @ c)" by blast
  then show ?case using Cons.IH [OF 1(2)] Cons.prems(2) by auto
qed auto

text \<open>C14. The incremental digest is the digest of the padded message: whatever the pieces a message is appended in, each shorter than
  \<open>2 ^ 28\<close> bytes, and whatever the state's buffer held before, the sixteen bytes \<open>md5_finish\<close> returns are those of the four words
  after all the blocks of the message followed by its padding, and no access is out of bounds.\<close>

theorem md5_incremental:
  assumes "length buf = 64" and "\<forall>c\<in>set pieces. length c < 2 ^ 28"
  shows "\<exists>st st'. md5_appends (md5_init buf) pieces = Some st \<and> md5_finish st = Some (st', md5_spec (concat pieces))"
  using md5_appends_ok [OF md5_rep_init [OF assms(1)] assms(2)] md5_finish_ok by auto

theorem md5_incremental_witness:
  "\<exists>st st'. md5_appends (md5_init (replicate 64 7)) [[1, 2], [], replicate 100 3] = Some st
    \<and> md5_finish st = Some (st', md5_spec ([1, 2] @ replicate 100 3))"
  using md5_incremental [of "replicate 64 7" "[[1, 2], [], replicate 100 3]"] by simp

text \<open>The one-call digest.\<close>

lemma conhash_md5_digest_spec: "length buf = 64 \<Longrightarrow> length msg < 2 ^ 28 \<Longrightarrow> conhash_md5_digest buf msg (int (length msg)) = Some (md5_spec msg)"
  using md5_appends_ok [OF md5_rep_init, of buf "[msg]"] md5_finish_ok [of _ msg]
  by (fastforce simp: conhash_md5_digest_def)

end
