(* ===== verification/EasyLua.thy ===== *)
theory EasyLua
  imports Des Md5 Cprintf
begin

text \<open>
  The functions on strings that \<open>easy_lua.c\<close> registers with Lua: triple DES, time tokens and MD5; the others are in \<open>LuaBindings\<close>.
  A function takes the arguments Lua passes it, \<open>lua_args\<close>, and gives the values it pushes, in order.

  The lemmas show that a time token that is decrypted gives the time, what is left of a string that is encrypted and decrypted,
  which strings overrun the local buffers, that a key of any length but 16 and 24 has no effect, and that the digest is that of \<open>Md5\<close>.
\<close>

section \<open>Lua's side\<close>

text \<open>What the interpreter answers on the arguments: \<open>lua_tostring\<close>, \<open>None\<close> for \<open>NULL\<close>; \<open>lua_tonumber\<close> without its fraction, \<open>None\<close> when that is not a number;
  \<open>lua_touserdata\<close>, an address or \<open>None\<close> for \<open>NULL\<close>; \<open>lua_isstring\<close>.\<close>

record lua_args =
  arg_string :: "nat \<Rightarrow> string option"
  arg_number :: "nat \<Rightarrow> int option"
  arg_userdata :: "nat \<Rightarrow> nat option"
  arg_isstring :: "nat \<Rightarrow> bool"

datatype lua_value = LNil | LNumber int | LString string | LUserdata "nat option"

text \<open>A number converted to \<open>int\<close> or to \<open>u_int\<close>: undefined when it does not fit.\<close>

definition arg_int :: "lua_args \<Rightarrow> nat \<Rightarrow> int option" where
  "arg_int args i = do { x \<leftarrow> arg_number args i; ck_int x }"

definition arg_uint :: "lua_args \<Rightarrow> nat \<Rightarrow> 32 word option" where
  "arg_uint args i = do { x \<leftarrow> arg_number args i; if 0 \<le> x \<and> x < 2 ^ 32 then Some (word_of_int x) else None }"

text \<open>A string argument as the block \<open>lua_tostring\<close> points to, and its length as an \<open>int\<close>.\<close>

definition arg_block :: "lua_args \<Rightarrow> nat \<Rightarrow> string option" where
  "arg_block args i = map_option (\<lambda>s. s @ [NUL]) (arg_string args i)"

definition int_strlen :: "string \<Rightarrow> int option" where
  "int_strlen m = map_option to_int (strlen m 0)"

text \<open>\<open>lua_pushstring\<close> of a block: undefined when it has no terminator; \<open>NULL\<close> pushes nil.\<close>

definition push_block :: "string \<Rightarrow> lua_value option" where
  "push_block m = (if NUL \<in> set m then Some (LString (cstr m 0)) else None)"

definition push_string :: "string option \<Rightarrow> lua_value" where
  "push_string s = (case s of None \<Rightarrow> LNil | Some t \<Rightarrow> LString (cstr (t @ [NUL]) 0))"

section \<open>Characters, bytes and numbers\<close>

definition bytes :: "string \<Rightarrow> 8 word list" where
  "bytes s = map of_char s"

definition chars :: "8 word list \<Rightarrow> string" where
  "chars bs = map (\<lambda>b. char_of (unat b)) bs"

definition ctoi :: "char \<Rightarrow> int" where
  "ctoi ch = (let c = (of_char ch :: int) in
     if c \<le> 57 \<and> 48 \<le> c then c - 48
     else if c \<le> 70 \<and> 65 \<le> c then c - 65 + 10
     else if c \<le> 102 \<and> 97 \<le> c then c - 97 + 10
     else -1)"

text \<open>The conversion \<open>%x\<close> of \<open>sprintf\<close>, and \<open>sprintf\<close> of a text into a block at an offset.\<close>

definition hex_digit :: "nat \<Rightarrow> char" where
  "hex_digit n = char_of (if n < 10 then 48 + n else 87 + n)"

fun show_hex :: "nat \<Rightarrow> string" where
  "show_hex n = (if n < 16 then [hex_digit n] else show_hex (n div 16) @ [hex_digit (n mod 16)])"

declare show_hex.simps [simp del]

definition put_text :: "string \<Rightarrow> int \<Rightarrow> string \<Rightarrow> string option" where
  "put_text m p s = wr_block m p (s @ [NUL])"

text \<open>\<open>strtoull (s, NULL, 16)\<close> of the standard library: blanks, a sign, a prefix and the hexadecimal digits, those of \<open>ctoi\<close>.\<close>

definition is_space :: "char \<Rightarrow> bool" where
  "is_space c \<longleftrightarrow> c = CHR '' '' \<or> (9 \<le> (of_char c :: nat) \<and> (of_char c :: nat) \<le> 13)"

definition is_xdigit :: "char \<Rightarrow> bool" where
  "is_xdigit c \<longleftrightarrow> ctoi c \<noteq> -1"

definition hex_value :: "string \<Rightarrow> nat" where
  "hex_value ds = foldl (\<lambda>a d. 16 * a + nat (ctoi d)) 0 ds"

definition skip_prefix :: "string \<Rightarrow> string" where
  "skip_prefix s = (case s of
      z # x # d # r \<Rightarrow> if z = CHR ''0'' \<and> (x = CHR ''x'' \<or> x = CHR ''X'') \<and> is_xdigit d then d # r else s
    | _ \<Rightarrow> s)"

definition strtoull16 :: "string \<Rightarrow> 64 word" where
  "strtoull16 s =
     (let s = dropWhile is_space s;
          neg = (case s of c # _ \<Rightarrow> c = CHR ''-'' | [] \<Rightarrow> False);
          s = (case s of c # r \<Rightarrow> if c = CHR ''-'' \<or> c = CHR ''+'' then r else s | [] \<Rightarrow> s);
          v = hex_value (takeWhile is_xdigit (skip_prefix s))
      in if 2 ^ 64 \<le> v then -1 else if neg then - of_nat v else of_nat v)"

text \<open>The bytes of an \<open>unsigned long long\<close>, least significant first.\<close>

definition ull_bytes :: "64 word \<Rightarrow> 8 word list" where
  "ull_bytes w = map (\<lambda>i. ucast (drop_bit (8 * i) w)) [0..<8]"

definition bytes_ull :: "8 word list \<Rightarrow> 64 word" where
  "bytes_ull bs = foldr (\<lambda>b w. push_bit 8 w OR ucast b) bs 0"

section \<open>Triple DES and MD5\<close>

text \<open>What the environment gives: the bytes of a block \<open>malloc\<close> answers with, or \<open>None\<close>, and what is in a local array.\<close>

record crypt_env =
  fresh :: "nat \<Rightarrow> 8 word list option"
  text_junk :: string
  buf_junk :: "8 word list"

text \<open>The cleared context with the key set: \<open>memset\<close> and the calls by the key's length.\<close>

definition lua_set_key :: "string \<Rightarrow> int \<Rightarrow> des3_context option" where
  "lua_set_key key key_len = (let g_dc = \<lparr>esk3 = replicate 96 0, dsk3 = replicate 96 0\<rparr> in
     if key_len = 8 then Some g_dc
     else if key_len = 16 then map_option snd (des3_set_2keys g_dc (bytes key) 0 (bytes key) 8)
     else if key_len = 24 then map_option snd (des3_set_3keys g_dc (bytes key) 0 (bytes key) 8 (bytes key) 16)
     else Some g_dc)"

text \<open>The loops over the blocks are those of \<open>des3_encrypt_ex\<close> and \<open>des3_decrypt_ex\<close>, from \<open>data\<close> to the block \<open>p\<close>, which is then copied back.\<close>

definition copy_back :: "string \<Rightarrow> 8 word list \<Rightarrow> int \<Rightarrow> string option" where
  "copy_back data p data_len = memcpy data 0 (chars p) 0 data_len"

function hex_parse :: "string \<Rightarrow> int \<Rightarrow> string \<Rightarrow> int \<Rightarrow> string option" where
  "hex_parse pdata pdata_len data i =
     (if i < pdata_len then do {
        c1 \<leftarrow> rd pdata i;
        c2 \<leftarrow> rd pdata (i + 1);
        let i1 = ctoi c1;
        let i2 = ctoi c2;
        data \<leftarrow> (if i1 < 0 then None else wr data (i div 2) (char_of ((push_bit 4 i1 OR i2) mod 256)));
        hex_parse pdata pdata_len data (i + 2)
      }
      else Some data)"
  by pat_completeness auto
termination
  by (relation "measure (\<lambda>(pdata, pdata_len, data, i). nat (pdata_len - i))") auto

declare hex_parse.simps [simp del]

definition lua_decrypt_des3 :: "crypt_env \<Rightarrow> lua_args \<Rightarrow> lua_value list option" where
  "lua_decrypt_des3 e args = do {
     pdata \<leftarrow> arg_block args 1;
     pdata_len \<leftarrow> int_strlen pdata;
     if 256 < pdata_len then Some [LNil]
     else do {
       data \<leftarrow> hex_parse pdata pdata_len (replicate 128 NUL) 0;
       key \<leftarrow> arg_block args 2;
       key_len \<leftarrow> int_strlen key;
       g_dc \<leftarrow> lua_set_key key key_len;
       n \<leftarrow> int_strlen data;
       let data_len = n sdiv 8 * 8;
       p \<leftarrow> fresh e (nat data_len);
       p \<leftarrow> decrypt_loop g_dc (bytes data) p 0 data_len;
       data \<leftarrow> copy_back data p data_len;
       v \<leftarrow> push_block data;
       Some [v]
     }
   }"

text \<open>The loop that prints bytes, for the indices given; that of \<open>lua_gen_md5\<close> is the same.\<close>

fun hex_print :: "string \<Rightarrow> int list \<Rightarrow> string \<Rightarrow> string option" where
  "hex_print data [] out = Some out"
| "hex_print data (i # is) out = do {
     c \<leftarrow> rd data i;
     out \<leftarrow> put_text out (2 * i) (pad True 2 (show_hex (of_char c)));
     hex_print data is out
   }"

definition lua_encrypt_des3 :: "crypt_env \<Rightarrow> lua_args \<Rightarrow> lua_value list option" where
  "lua_encrypt_des3 e args = do {
     key \<leftarrow> arg_block args 2;
     key_len \<leftarrow> int_strlen key;
     pdata \<leftarrow> arg_block args 1;
     n \<leftarrow> strlen pdata 0;
     data \<leftarrow> memcpy (replicate 128 NUL) 0 pdata 0 n;
     g_dc \<leftarrow> lua_set_key key key_len;
     n \<leftarrow> int_strlen data;
     let data_len = n sdiv 8 * 8;
     p \<leftarrow> fresh e (nat data_len);
     p \<leftarrow> encrypt_loop g_dc (bytes data) p 0 data_len;
     data \<leftarrow> copy_back data p data_len;
     encrypt_data \<leftarrow> hex_print data [0..data_len - 1] (replicate 128 NUL);
     v \<leftarrow> push_block encrypt_data;
     Some [v]
   }"

definition lua_decrypt_time_token_des3 :: "crypt_env \<Rightarrow> lua_args \<Rightarrow> lua_value list option" where
  "lua_decrypt_time_token_des3 e args = do {
     data \<leftarrow> arg_block args 1;
     let pdata = strtoull16 (cstr data 0);
     key \<leftarrow> arg_block args 2;
     key_len \<leftarrow> int_strlen key;
     g_dc \<leftarrow> lua_set_key key key_len;
     p \<leftarrow> fresh e 8;
     p \<leftarrow> decrypt_loop g_dc (ull_bytes pdata) p 0 8;
     pdata \<leftarrow> map_option bytes_ull (memcpy (ull_bytes pdata) 0 p 0 8);
     decrypt_data \<leftarrow> put_text (text_junk e) 0 (show_nat (unat pdata));
     v \<leftarrow> push_block decrypt_data;
     Some [v]
   }"

text \<open>\<open>now\<close> is the answer of \<open>time (NULL)\<close>.\<close>

definition lua_gen_time_token_des3 :: "crypt_env \<Rightarrow> 64 word \<Rightarrow> lua_args \<Rightarrow> lua_value list option" where
  "lua_gen_time_token_des3 e now args = do {
     let pdata = now;
     key \<leftarrow> arg_block args 1;
     key_len \<leftarrow> int_strlen key;
     g_dc \<leftarrow> lua_set_key key key_len;
     p \<leftarrow> fresh e 8;
     p \<leftarrow> encrypt_loop g_dc (ull_bytes pdata) p 0 8;
     pdata \<leftarrow> map_option bytes_ull (memcpy (ull_bytes pdata) 0 p 0 8);
     encrypt_data \<leftarrow> put_text (text_junk e) 0 (show_hex (unat pdata));
     v \<leftarrow> push_block encrypt_data;
     Some [v]
   }"

definition lua_gen_md5 :: "crypt_env \<Rightarrow> lua_args \<Rightarrow> lua_value list option" where
  "lua_gen_md5 e args = do {
     data \<leftarrow> arg_block args 1;
     n \<leftarrow> int_strlen data;
     md5 \<leftarrow> md5_append (md5_init (buf_junk e)) (bytes data) n;
     (md5, digest) \<leftarrow> md5_finish md5;
     md5_string \<leftarrow> hex_print (chars digest) [0..15] (replicate 34 NUL);
     v \<leftarrow> push_block md5_string;
     Some [v]
   }"

section \<open>Strings, bytes and numbers\<close>

lemma unat_of_char [simp]: "unat (of_char c :: 8 word) = of_char c"
proof -
  have "(of_char c :: 8 word) = of_nat (of_char c)" by (simp add: of_nat_of_char)
  then show ?thesis by (simp add: unat_of_nat)
qed

lemma int_of_char: "(of_char c :: int) = int (of_char c)"
  by (simp add: of_nat_of_char)

lemma chars_bytes [simp]: "chars (bytes s) = s"
  by (simp add: chars_def bytes_def o_def)

lemma bytes_chars [simp]: "bytes (chars bs) = bs"
proof -
  have "of_char (char_of (unat b)) = b" for b :: "8 word"
  proof -
    have "unat b < 2 ^ LENGTH(8)" by (rule unsigned_less)
    then show ?thesis by (intro word_unat_eq_iff [THEN iffD2]) (simp only: unat_of_char of_char_of, simp)
  qed
  then show ?thesis by (simp add: chars_def bytes_def o_def)
qed

lemma length_bytes_chars [simp]: "length (bytes s) = length s" "length (chars bs) = length bs"
  by (simp_all add: chars_def bytes_def)

lemma bytes_take: "bytes (take n s) = take n (bytes s)" "chars (take n bs) = take n (chars bs)"
  by (simp_all add: chars_def bytes_def take_map)

lemma bytes_inject: "bytes s = bytes t \<longleftrightarrow> s = t"
  by (metis chars_bytes)

lemma cstr_no_nul: "NUL \<notin> set s \<Longrightarrow> cstr (s @ NUL # t) 0 = s"
  using cstr_at [of s "[]" 0 t] by simp

lemma NUL_in_block: "NUL \<in> set (s @ NUL # t)"
  by simp

lemma int_strlen_at: "NUL \<notin> set s \<Longrightarrow> length s < 2 ^ 31 \<Longrightarrow> int_strlen (s @ NUL # t) = Some (int (length s))"
  using strlen_at [of s 0 "[]" t] by (simp add: int_strlen_def to_int_id in_int_def INT_MAX_def)

lemma ctoi_hex_digit: "n < 16 \<Longrightarrow> ctoi (hex_digit n) = int n"
  by (auto simp: ctoi_def hex_digit_def Let_def int_of_char)

lemma show_hex_digits: "set (show_hex n) \<subseteq> hex_digit ` {..<16}"
proof (induction n rule: show_hex.induct)
  case (1 n)
  then show ?case by (subst show_hex.simps) auto
qed

lemma show_hex_nonempty: "show_hex n \<noteq> []"
  by (subst show_hex.simps) simp

lemma hex_value_append: "hex_value (a @ [d]) = 16 * hex_value a + nat (ctoi d)"
  by (simp add: hex_value_def)

lemma hex_value_show: "hex_value (show_hex n) = n"
proof (induction n rule: show_hex.induct)
  case (1 n)
  show ?case
  proof (cases "n < 16")
    case True
    then show ?thesis by (simp add: show_hex.simps [of n] hex_value_def ctoi_hex_digit)
  next
    case False
    then show ?thesis using 1 by (subst show_hex.simps) (simp add: hex_value_append ctoi_hex_digit)
  qed
qed

lemma hex_digit_char: "n < 16 \<Longrightarrow> is_xdigit (hex_digit n) \<and> hex_digit n \<noteq> NUL \<and> hex_digit n \<noteq> CHR ''-'' \<and> hex_digit n \<noteq> CHR ''+''
   \<and> hex_digit n \<noteq> CHR ''x'' \<and> hex_digit n \<noteq> CHR ''X'' \<and> \<not> is_space (hex_digit n)"
proof (intro conjI)
  assume n: "n < 16"
  let ?c = "of_char (hex_digit n) :: nat"
  have c: "?c = (if n < 10 then 48 + n else 87 + n)" using n by (simp add: hex_digit_def)
  show "is_xdigit (hex_digit n)" using ctoi_hex_digit [OF n] by (simp add: is_xdigit_def)
  have "hex_digit n \<noteq> d" if "(of_char d :: nat) < 48 \<or> 57 < (of_char d :: nat) \<and> (of_char d :: nat) < 97 \<or> 102 < (of_char d :: nat)" for d
    using c n that by (auto split: if_splits)
  from this [of NUL] this [of "CHR ''-''"] this [of "CHR ''+''"] this [of "CHR ''x''"] this [of "CHR ''X''"]
  show "hex_digit n \<noteq> NUL" "hex_digit n \<noteq> CHR ''-''" "hex_digit n \<noteq> CHR ''+''" "hex_digit n \<noteq> CHR ''x''" "hex_digit n \<noteq> CHR ''X''"
    by simp_all
  have "hex_digit n \<noteq> CHR '' ''" using c n by (auto split: if_splits)
  then show "\<not> is_space (hex_digit n)" using c n by (auto simp: is_space_def split: if_splits)
qed

lemma show_hex_chars: "c \<in> set (show_hex n) \<Longrightarrow> is_xdigit c \<and> c \<noteq> NUL \<and> c \<noteq> CHR ''-'' \<and> c \<noteq> CHR ''+'' \<and> c \<noteq> CHR ''x'' \<and> c \<noteq> CHR ''X'' \<and> \<not> is_space c"
  using show_hex_digits [of n] hex_digit_char by fastforce

lemma skip_prefix_none: "CHR ''x'' \<notin> set s \<Longrightarrow> CHR ''X'' \<notin> set s \<Longrightarrow> skip_prefix s = s"
  by (auto simp: skip_prefix_def split: list.splits)

lemma strtoull_show: "strtoull16 (show_hex (unat w)) = w"
proof -
  let ?s = "show_hex (unat w)"
  have d: "dropWhile is_space ?s = ?s" using show_hex_chars [of "hd ?s" "unat w"] show_hex_nonempty [of "unat w"]
    by (simp add: dropWhile_eq_self_iff)
  have p: "skip_prefix ?s = ?s" using show_hex_chars [of _ "unat w"] by (intro skip_prefix_none) blast+
  have t: "takeWhile is_xdigit ?s = ?s" using show_hex_chars [of _ "unat w"] by (simp add: takeWhile_eq_all_conv)
  obtain c r where s: "?s = c # r" using show_hex_nonempty by (cases ?s) auto
  then have c: "c \<noteq> CHR ''-''" "c \<noteq> CHR ''+''" using show_hex_chars [of c "unat w"] by auto
  have v: "hex_value ?s < 2 ^ 64" using unsigned_less [of w] by (simp add: hex_value_show)
  have "(case ?s of [] \<Rightarrow> ?s | c # r \<Rightarrow> if c = CHR ''-'' \<or> c = CHR ''+'' then r else ?s) = ?s"
    "(case ?s of [] \<Rightarrow> False | c # _ \<Rightarrow> c = CHR ''-'') = False" using c by (simp_all add: s)
  moreover have "hex_value (takeWhile is_xdigit (skip_prefix ?s)) = unat w" by (simp only: p t hex_value_show)
  ultimately show ?thesis unfolding strtoull16_def Let_def d using v by (simp add: hex_value_show not_le)
qed

lemma ull_bytes_length [simp]: "length (ull_bytes w) = 8"
  by (simp add: ull_bytes_def)


lemma bytes_ull_nth:
  "bytes_ull (b # bs) = push_bit 8 (bytes_ull bs) OR ucast b" "bytes_ull [] = 0"
  by (simp_all add: bytes_ull_def)

lemma bit_bytes_ull: "i < 64 \<Longrightarrow> bit (bytes_ull bs) i \<longleftrightarrow> i div 8 < length bs \<and> bit (bs ! (i div 8)) (i mod 8)"
proof (induction bs arbitrary: i)
  case (Cons b bs)
  show ?case
  proof (cases "i < 8")
    case True
    then show ?thesis using Cons.prems by (simp add: bytes_ull_nth bit_or_iff bit_push_bit_iff bit_ucast_iff)
  next
    case False
    then have "\<not> bit (ucast b :: 64 word) i" by (auto simp: bit_ucast_iff dest: bit_imp_le_length)
    moreover have "i div 8 = Suc ((i - 8) div 8)" "i mod 8 = (i - 8) mod 8" using False le_div_geq [of 8 i] le_mod_geq [of 8 i] by auto
    ultimately show ?thesis using False Cons.prems Cons.IH [of "i - 8"] by (simp add: bytes_ull_nth bit_or_iff bit_push_bit_iff)
  qed
qed (simp add: bytes_ull_nth)

lemma bytes_ull_inverse [simp]: "bytes_ull (ull_bytes w) = w"
proof (rule bit_word_eqI)
  fix i assume "i < LENGTH(64)"
  then have i: "i < 64" by simp
  then have d: "i div 8 < 8" by simp
  then have "ull_bytes w ! (i div 8) = ucast (drop_bit (8 * (i div 8)) w)" unfolding ull_bytes_def by (subst nth_map) (simp_all del: upt_conv_Cons add: nth_upt)
  then show "bit (bytes_ull (ull_bytes w)) i = bit w i"
    using i d by (simp add: bit_bytes_ull bit_ucast_iff bit_drop_bit_eq)
qed

lemma ull_bytes_inverse: "length bs = 8 \<Longrightarrow> ull_bytes (bytes_ull bs) = bs"
proof (rule nth_equalityI)
  assume l: "length bs = 8"
  fix i assume i: "i < length (ull_bytes (bytes_ull bs))"
  show "ull_bytes (bytes_ull bs) ! i = bs ! i"
  proof (rule bit_word_eqI)
    fix j assume "j < LENGTH(8)"
    then have j: "j < 8" by simp
    then have "(8 * i + j) div 8 = i" "(8 * i + j) mod 8 = j" "8 * i + j < 64" using i by simp_all
    then show "bit (ull_bytes (bytes_ull bs) ! i) j = bit (bs ! i) j"
      using i j l by (simp add: ull_bytes_def bit_ucast_iff bit_drop_bit_eq bit_bytes_ull)
  qed
qed simp

section \<open>Keys\<close>

lemma lua_set_key_ex: "lua_set_key key n = des3_setkey_ex \<lparr>esk3 = replicate 96 0, dsk3 = replicate 96 0\<rparr> (bytes key) n"
  by (simp add: lua_set_key_def des3_setkey_ex_def Let_def)

lemma rev_pairs_zeros: "rev_pairs (replicate 96 (0 :: 32 word)) = replicate 96 0"
proof (rule nth_equalityI)
  fix i assume "i < length (rev_pairs (replicate 96 (0 :: 32 word)))"
  then show "rev_pairs (replicate 96 (0 :: 32 word)) ! i = replicate 96 0 ! i"
    using odd_pos [of i] by (simp add: rev_pairs_nth)
qed simp

text \<open>Whatever the length of the key, the context set can decrypt what it encrypts.\<close>

lemma lua_set_key_ok:
  assumes "NUL \<notin> set key"
  shows "\<exists>ctx. lua_set_key (key @ [NUL]) (int (length key)) = Some ctx \<and> ctx_inverse ctx"
proof (cases "length key = 16 \<or> length key = 24")
  case True
  then show ?thesis unfolding lua_set_key_ex by (intro des3_setkey_inverse) auto
qed (auto simp: lua_set_key_ex des3_setkey_ex_def ctx_inverse_def rev_pairs_zeros)

definition crypt_env_ok :: "crypt_env \<Rightarrow> bool" where
  "crypt_env_ok e \<longleftrightarrow> (\<forall>n. \<exists>b. fresh e n = Some b \<and> length b = n) \<and> length (text_junk e) = 128 \<and> length (buf_junk e) = 64"

text \<open>A C string argument: short enough for its length to be an \<open>int\<close>.\<close>

definition c_string :: "lua_args \<Rightarrow> nat \<Rightarrow> string \<Rightarrow> bool" where
  "c_string args i s \<longleftrightarrow> arg_string args i = Some s \<and> NUL \<notin> set s \<and> length s < 2 ^ 31"

lemma c_string_block:
  assumes "c_string args i s"
  shows "arg_block args i = Some (s @ [NUL])" "int_strlen (s @ [NUL]) = Some (int (length s))" "strlen (s @ [NUL]) 0 = Some (int (length s))"
    "cstr (s @ [NUL]) 0 = s"
  using assms strlen_at [of s 0 "[]" "[]"] by (simp_all add: c_string_def arg_block_def int_strlen_at cstr_no_nul)

lemma c_string_same: "c_string args i s \<Longrightarrow> arg_string args' j = Some s \<Longrightarrow> c_string args' j s"
  by (simp add: c_string_def)

lemma put_text_push:
  assumes "length m = 128" and "length s < 128" and "NUL \<notin> set s"
  shows "put_text m 0 s \<bind> (\<lambda>d. push_block d \<bind> (\<lambda>v. Some [v])) = Some [LString s]"
  using assms by (simp add: put_text_def push_block_def cstr_no_nul)

lemma memcpy_all: "length xs = n \<Longrightarrow> length ys = n \<Longrightarrow> memcpy xs 0 ys 0 (int n) = Some ys"
  by (simp add: memcpy_def rd_block_def)


section \<open>Time tokens\<close>

lemma show_nat_char: "c \<in> set (show_nat n) \<Longrightarrow> c \<noteq> NUL"
  using show_nat_digits [of n] by (auto simp: is_digit_def)

lemma length_show_hex: "n < 16 ^ k \<Longrightarrow> 0 < k \<Longrightarrow> length (show_hex n) \<le> k"
proof (induction k arbitrary: n)
  case (Suc k)
  show ?case
  proof (cases "n < 16")
    case False
    then have "0 < k" using Suc.prems by (cases k) auto
    moreover have "n div 16 < 16 ^ k" using Suc.prems by (simp add: less_mult_imp_div_less)
    ultimately show ?thesis using Suc.IH [of "n div 16"] False by (simp add: show_hex.simps [of n])
  qed (simp add: show_hex.simps [of n])
qed simp

lemma token_texts:
  fixes w :: "64 word"
  shows "length (show_hex (unat w)) \<le> 16" "length (show_nat (unat w)) \<le> 20" "NUL \<notin> set (show_hex (unat w))" "NUL \<notin> set (show_nat (unat w))"
proof -
  have u: "unat w < 2 ^ LENGTH(64)" by (rule unsigned_less)
  show "length (show_hex (unat w)) \<le> 16" using u by (intro length_show_hex) simp_all
  show "length (show_nat (unat w)) \<le> 20" using u by (intro length_show_nat) simp_all
  show "NUL \<notin> set (show_hex (unat w))" using show_hex_chars by blast
  show "NUL \<notin> set (show_nat (unat w))" using show_nat_char by blast
qed

lemma c_string_token: "arg_string args i = Some (show_hex (unat (w :: 64 word))) \<Longrightarrow> c_string args i (show_hex (unat w))"
  using token_texts [of w] by (simp add: c_string_def)

text \<open>One block with a key: the ciphertext, and that it decrypts.\<close>

lemma one_block:
  assumes "ctx_inverse ctx" and "length inb = 8"
  shows "\<exists>c. \<forall>p. length p = 8 \<longrightarrow> encrypt_loop ctx inb p 0 8 = Some c \<and> length c = 8 \<and> (\<forall>q. length q = 8 \<longrightarrow> decrypt_loop ctx c q 0 8 = Some inb)"
proof -
  have "length (esk3 ctx) = 96" using assms(1) by (simp add: ctx_inverse_def)
  then obtain c where c: "encrypt_loop ctx inb (replicate 8 0) 0 8 = Some c" "length c = 8"
    using encrypt_loop_some [of ctx 1 inb "replicate 8 0"] assms(2) by auto
  have d: "decrypt_loop ctx c' q 0 8 = Some inb" if "encrypt_loop ctx inb p 0 8 = Some c'" "length c' = 8" "length p = 8" "length q = 8" for c' p q
    using decrypt_inverse [OF assms(1), of inb p 1 c' 1 c' q] that assms(2) by auto
  have "encrypt_loop ctx inb p 0 8 = Some c" if p: "length p = 8" for p
  proof -
    obtain c' where c': "encrypt_loop ctx inb p 0 8 = Some c'" "length c' = 8"
      using encrypt_loop_some [of ctx 1 inb p] \<open>length (esk3 ctx) = 96\<close> assms(2) p by auto
    have e: "get_block c'' 0 = map_option (des3_pair (esk3 ctx)) (get_block inb 0)"
      if "encrypt_loop ctx inb p'' 0 8 = Some c''" "length p'' = 8" for p'' c''
      using encrypt_loop_ok [OF \<open>length (esk3 ctx) = 96\<close>, of 0 1 inb p''] that assms(2) by auto
    have "get_block c' 0 = get_block c 0" using e [OF c'(1) p] e [OF c(1)] by simp
    then have "take (8 * 1) c' = take (8 * 1) c" using c' c by (intro blocks_eq) auto
    then show ?thesis using c' c by simp
  qed
  then show ?thesis using c d by (intro exI [of _ c]) auto
qed

text \<open>C15. A time token that was made with a key and is decrypted with it gives the time in decimal, whatever the key and the clock.\<close>

theorem time_token_roundtrip:
  assumes "crypt_env_ok e" and "c_string gargs 1 key"
  shows "\<exists>token. lua_gen_time_token_des3 e now gargs = Some [LString token]
    \<and> (\<forall>dargs. arg_string dargs 1 = Some token \<and> arg_string dargs 2 = Some key
        \<longrightarrow> lua_decrypt_time_token_des3 e dargs = Some [LString (show_nat (unat now))])"
proof -
  obtain ctx where k: "lua_set_key (key @ [NUL]) (int (length key)) = Some ctx" "ctx_inverse ctx"
    using lua_set_key_ok assms(2) by (auto simp: c_string_def)
  obtain p where p: "fresh e 8 = Some p" "length p = 8" and j: "length (text_junk e) = 128" using assms(1) by (auto simp: crypt_env_ok_def)
  obtain c where c: "encrypt_loop ctx (ull_bytes now) p 0 8 = Some c" "length c = 8" "decrypt_loop ctx c p 0 8 = Some (ull_bytes now)"
    using one_block [OF k(2), of "ull_bytes now"] p by auto
  have m: "memcpy (ull_bytes w) 0 ys 0 8 = Some ys" if "length ys = 8" for w ys using memcpy_all [of "ull_bytes w" 8 ys] that by simp
  let ?w = "bytes_ull c"
  have g: "lua_gen_time_token_des3 e now gargs = Some [LString (show_hex (unat ?w))]"
    using c_string_block [OF assms(2)] k p c m token_texts [of ?w] j by (simp add: lua_gen_time_token_des3_def Let_def put_text_push)
  have "lua_decrypt_time_token_des3 e dargs = Some [LString (show_nat (unat now))]"
    if t: "arg_string dargs 1 = Some (show_hex (unat ?w))" and "arg_string dargs 2 = Some key" for dargs
    using c_string_block [OF c_string_same [OF assms(2) that(2)]] c_string_block [OF c_string_token [OF t]] k p c m memcpy_all [of c 8 "ull_bytes now"] token_texts [of now] j
    by (simp add: lua_decrypt_time_token_des3_def Let_def put_text_push strtoull_show ull_bytes_inverse)
  then show ?thesis using g by blast
qed


section \<open>Strings through triple DES\<close>

definition hex2 :: "char \<Rightarrow> string" where
  "hex2 c = pad True 2 (show_hex (of_char c))"

lemma hex_digit_0: "hex_digit 0 = CHR ''0''"
  by code_simp

lemma hex2_digits: "hex2 c = [hex_digit (of_char c div 16), hex_digit (of_char c mod 16)]"
proof -
  have c: "(of_char c :: nat) < 256" by (rule nat_of_char_less_256)
  show ?thesis
  proof (cases "(of_char c :: nat) < 16")
    case True
    then have "hex_digit (of_char c) \<noteq> CHR ''-''" using hex_digit_char by blast
    then show ?thesis using True by (simp add: hex2_def show_hex.simps [of "of_char c"] pad_def hex_digit_0)
  next
    case False
    then have d: "(of_char c :: nat) div 16 < 16" using c by (simp only: div_less_iff_less_mult)
    then have "hex_digit (of_char c div 16) \<noteq> CHR ''-''" using hex_digit_char by blast
    then show ?thesis using False d
      by (simp add: hex2_def show_hex.simps [of "of_char c"] show_hex.simps [of "of_char c div 16"] pad_def)
  qed
qed

definition hex_text :: "string \<Rightarrow> string" where
  "hex_text s = concat (map hex2 s)"

lemma hex_text_simps [simp]: "hex_text [] = []" "hex_text (c # s) = hex2 c @ hex_text s" "hex_text (s @ t) = hex_text s @ hex_text t"
  "length (hex2 c) = 2"
  by (simp_all add: hex_text_def hex2_digits)

lemma hex_text_length [simp]: "length (hex_text s) = 2 * length s"
  by (induction s) simp_all

lemma hex2_chars: "d \<in> set (hex2 c) \<Longrightarrow> is_xdigit d \<and> d \<noteq> NUL"
  using hex_digit_char [of "of_char c div 16"] hex_digit_char [of "of_char c mod 16"] by (auto simp: hex2_digits div_less_iff_less_mult)

lemma hex_text_chars: "d \<in> set (hex_text s) \<Longrightarrow> is_xdigit d \<and> d \<noteq> NUL"
  using hex2_chars by (auto simp: hex_text_def)

text \<open>Printing: the text so far is followed by a NUL.\<close>

lemma put_hex2:
  assumes "length h = 2 * a" and "2 < length r"
  shows "put_text (h @ r) (2 * int a) (hex2 c) = Some (h @ hex2 c @ NUL # drop 3 r)"
  using assms by (simp add: put_text_def wr_block_def splice_def nat_mult_distrib)

lemma hex_print_ok:
  "length h = 2 * a \<Longrightarrow> r \<noteq> [] \<Longrightarrow> hd r = NUL \<Longrightarrow> 2 * (n - a) < length r \<Longrightarrow> n \<le> length data
   \<Longrightarrow> \<exists>t. hex_print data (map int [a..<n]) (h @ r) = Some (h @ hex_text (drop a (take n data)) @ NUL # t)"
proof (induction "n - a" arbitrary: a h r)
  case 0
  then show ?case by (cases r) auto
next
  case (Suc x)
  have a: "a < n" using Suc.hyps(2) by simp
  have p: "put_text (h @ r) (2 * int a) (hex2 (data ! a)) = Some ((h @ hex2 (data ! a)) @ NUL # drop 3 r)"
    using put_hex2 [of h a r] Suc.prems a by simp
  have "\<exists>t. hex_print data (map int [Suc a..<n]) ((h @ hex2 (data ! a)) @ NUL # drop 3 r)
    = Some ((h @ hex2 (data ! a)) @ hex_text (drop (Suc a) (take n data)) @ NUL # t)"
    by (rule Suc.hyps(1)) (use Suc a in auto)
  moreover have "drop a (take n data) = data ! a # drop (Suc a) (take n data)" using a Suc.prems(5) by (simp add: Cons_nth_drop_Suc [symmetric])
  moreover have "map int [a..<n] = int a # map int [Suc a..<n]" using a by (simp add: upt_conv_Cons)
  ultimately show ?case using p a Suc.prems(5) by (simp add: hex2_def [symmetric])
qed

lemma ints_upto: "[0..int n - 1] = map int [0..<n]"
  by (induction n) (simp_all add: upto_rec2)

text \<open>Reading the text back.\<close>

lemma nibbles: "n < 256 \<Longrightarrow> push_bit 4 (int (n div 16)) OR int (n mod 16) = int n" for n :: nat
proof -
  have "push_bit 4 (n div 16) OR n mod 16 = n"
    by (rule bit_eqI) (auto simp: bit_simps div_push_bit_of_1_eq_drop_bit simp flip: drop_bit_eq_div [of 4 n, simplified] take_bit_eq_mod [of 4 n, simplified])
  then have "int (push_bit 4 (n div 16) OR n mod 16) = int n" by (rule arg_cong)
  then show ?thesis by (simp add: of_nat_or_eq of_nat_push_bit)
qed


lemma hex_parse_ok:
  "length d = a \<Longrightarrow> drop a s = r \<Longrightarrow> length r \<le> length z \<Longrightarrow> a \<le> length s
   \<Longrightarrow> hex_parse (hex_text s @ [NUL]) (int (2 * length s)) (d @ z) (2 * int a) = Some (d @ r @ drop (length r) z)"
proof (induction r arbitrary: a d z)
  case Nil
  then show ?case by (subst hex_parse.simps) auto
next
  case (Cons c r)
  obtain z0 z' where z: "z = z0 # z'" using Cons.prems(3) by (cases z) auto
  have a: "a < length s" using Cons.prems(2) by (cases "a < length s") auto
  have s: "s = take a s @ c # r" using Cons.prems(2) append_take_drop_id [of a s] by simp
  have t: "drop (Suc a) s = r" using Cons.prems(2) by (metis drop_Suc list.sel(3) tl_drop)
  let ?m = "hex_text s @ [NUL]" and ?u = "of_char c div 16 :: nat" and ?l = "of_char c mod 16 :: nat"
  have m: "?m = hex_text (take a s) @ hex_digit ?u # hex_digit ?l # hex_text r @ [NUL]" by (subst s) (simp add: hex2_digits)
  have r1: "rd ?m (2 * int a) = Some (hex_digit ?u)" unfolding m using a by (intro rd_mid) simp
  have "rd ((hex_text (take a s) @ [hex_digit ?u]) @ hex_digit ?l # hex_text r @ [NUL]) (2 * int a + 1) = Some (hex_digit ?l)"
    using a by (intro rd_mid) simp
  then have r2: "rd ?m (2 * int a + 1) = Some (hex_digit ?l)" unfolding m by simp
  have lt: "?u < 16" "?l < 16" "(of_char c :: nat) < 256" using nat_of_char_less_256 [of c] by (auto simp: div_less_iff_less_mult)
  have v: "char_of (push_bit 4 (int ?u) OR int ?l) = c" using lt(3) by (simp only: nibbles) (simp add: int_of_char [symmetric])
  have w: "(d @ z0 # z')[a := c] = d @ c # z'" "a < length (d @ z0 # z')" using Cons.prems(1) by auto
  have i: "2 * int a + 2 = 2 * int (Suc a)" by simp
  have "hex_parse ?m (int (2 * length s)) ((d @ [c]) @ z') (2 * int (Suc a)) = Some ((d @ [c]) @ r @ drop (length r) z')"
    by (rule Cons.IH) (use Cons.prems a z t in auto)
  then show ?case
    using a lt by (subst hex_parse.simps) (simp add: r1 r2 v w [simplified] i z ctoi_hex_digit Let_def del: of_nat_Suc)
qed


text \<open>Encryption up to the printing: the ciphertext of the whole blocks of the string stands where they were.\<close>

lemma encrypt_des3_cipher:
  assumes "crypt_env_ok e" and "c_string args 1 s" and "c_string args 2 key" and "length s < 128"
    and "lua_set_key (key @ [NUL]) (int (length key)) = Some ctx" and "ctx_inverse ctx" and n: "n = length s div 8"
  shows "\<exists>p c. encrypt_loop ctx (bytes (s @ replicate (128 - length s) NUL)) p 0 (int (8 * n)) = Some c
    \<and> length p = 8 * n \<and> length c = 8 * n
    \<and> lua_encrypt_des3 e args = (hex_print (chars c @ drop (8 * n) (s @ replicate (128 - length s) NUL)) (map int [0..<8 * n]) (replicate 128 NUL)
        \<bind> (\<lambda>d. push_block d \<bind> (\<lambda>v. Some [v])))"
proof -
  let ?data = "s @ replicate (128 - length s) NUL"
  have b: "NUL \<notin> set s" "length s < 2 ^ 31" using assms(2) by (simp_all add: c_string_def)
  have n8: "8 * n \<le> length s" unfolding n by simp
  have d: "memcpy (replicate 128 NUL) 0 (s @ [NUL]) 0 (int (length s)) = Some ?data"
    using assms(4) by (simp add: memcpy_def rd_block_prefix)
  have "128 - length s = Suc (127 - length s)" using assms(4) by simp
  then have l: "int_strlen ?data = Some (int (length s))" using int_strlen_at [OF b, of "replicate (127 - length s) NUL"] by simp
  have dl: "int (length s) sdiv 8 * 8 = int (8 * n)" unfolding n by (simp add: sdiv_nonneg zdiv_int)
  obtain p where p: "fresh e (8 * n) = Some p" "length p = 8 * n" using assms(1) unfolding crypt_env_ok_def by blast
  obtain c where c: "encrypt_loop ctx (bytes ?data) p 0 (int (8 * n)) = Some c" "length c = 8 * n"
    using encrypt_loop_some [of ctx n "bytes ?data" p] assms(6) n8 p(2) assms(4) by (auto simp: ctx_inverse_def)
  have cb: "copy_back ?data c (int (8 * n)) = Some (chars c @ drop (8 * n) ?data)"
    using c(2) n8 by (simp add: copy_back_def memcpy_def rd_block_def del: drop_append)
  show ?thesis
    using c_string_block [OF assms(2)] c_string_block [OF assms(3)] d l dl p c cb assms(5)
    by (intro exI [of _ p] exI [of _ c]) (simp add: lua_encrypt_des3_def Let_def ints_upto del: drop_append of_nat_mult)
qed

lemma encrypt_des3_text:
  assumes "crypt_env_ok e" and "c_string args 1 s" and "c_string args 2 key" and "length s < 64"
    and "lua_set_key (key @ [NUL]) (int (length key)) = Some ctx" and "ctx_inverse ctx" and n: "n = length s div 8"
  shows "\<exists>p c. encrypt_loop ctx (bytes (s @ replicate (128 - length s) NUL)) p 0 (int (8 * n)) = Some c
    \<and> length p = 8 * n \<and> length c = 8 * n \<and> lua_encrypt_des3 e args = Some [LString (hex_text (chars c))]"
proof -
  let ?rest = "drop (8 * n) (s @ replicate (128 - length s) NUL)"
  have "length s < 128" using assms(4) by simp
  from encrypt_des3_cipher [OF assms(1-3) this assms(5,6) n] obtain p c
    where c: "encrypt_loop ctx (bytes (s @ replicate (128 - length s) NUL)) p 0 (int (8 * n)) = Some c" "length p = 8 * n" "length c = 8 * n"
      "lua_encrypt_des3 e args = (hex_print (chars c @ ?rest) (map int [0..<8 * n]) (replicate 128 NUL) \<bind> (\<lambda>d. push_block d \<bind> (\<lambda>v. Some [v])))"
    by blast
  have n7: "8 * n < 64" using assms(4) unfolding n by simp
  have "NUL \<notin> set (hex_text (chars c))" using hex_text_chars by blast
  moreover obtain t where "hex_print (chars c @ ?rest) (map int [0..<8 * n]) (replicate 128 NUL) = Some (hex_text (chars c) @ NUL # t)"
    using hex_print_ok [of "[]" 0 "replicate 128 NUL" "8 * n" "chars c @ ?rest"] c(3) n7 by auto
  ultimately have "lua_encrypt_des3 e args = Some [LString (hex_text (chars c))]"
    using c(4) by (simp add: push_block_def cstr_no_nul)
  then show ?thesis using c by blast
qed

lemma takeWhile_block: "takeWhile P (xs @ y # ys) = takeWhile P xs" if "\<not> P y"
  using that by (induction xs) simp_all

lemma strlen_takeWhile:
  assumes "length m < 2 ^ 31"
  shows "int_strlen (m @ NUL # t) = Some (int (length (takeWhile (\<lambda>c. c \<noteq> NUL) m)))"
proof -
  let ?s = "takeWhile (\<lambda>c. c \<noteq> NUL) m"
  have n: "NUL \<notin> set ?s" using set_takeWhileD by fastforce
  have "length ?s < 2 ^ 31" using assms length_takeWhile_le [of "\<lambda>c. c \<noteq> NUL" m] by simp
  moreover have "\<exists>t'. m @ NUL # t = ?s @ NUL # t'"
  proof (cases "dropWhile (\<lambda>c. c \<noteq> NUL) m")
    case Nil
    then have "?s = m" using takeWhile_dropWhile_id [of "\<lambda>c. c \<noteq> NUL" m] by (simp only: append_Nil2)
    then show ?thesis by (intro exI [of _ t]) (simp only:)
  next
    case (Cons c r)
    then have "c = NUL" unfolding dropWhile_eq_Cons_conv by blast
    then have "m = ?s @ NUL # r" using takeWhile_dropWhile_id [of "\<lambda>c. c \<noteq> NUL" m] unfolding Cons by (simp only:)
    then show ?thesis by (metis append.assoc append_Cons)
  qed
  ultimately show ?thesis using int_strlen_at [OF n] by auto
qed


text \<open>Decryption of the text of a ciphertext: only the whole blocks before its first zero byte are decrypted.\<close>

lemma decrypt_des3_text:
  assumes "crypt_env_ok e" and "c_string args 1 (hex_text cs)" and "c_string args 2 key" and "length cs \<le> 120"
    and k: "lua_set_key (key @ [NUL]) (int (length key)) = Some ctx" and m: "m = length (takeWhile (\<lambda>c. c \<noteq> NUL) cs) div 8"
    and dec: "\<And>p. length p = 8 * m \<Longrightarrow> decrypt_loop ctx (bytes (cs @ replicate (128 - length cs) NUL)) p 0 (int (8 * m)) = Some (bytes q)"
    and q: "length q = 8 * m" "NUL \<notin> set q"
  shows "lua_decrypt_des3 e args = Some [LString (q @ takeWhile (\<lambda>c. c \<noteq> NUL) (drop (8 * m) cs))]"
proof -
  let ?data = "cs @ replicate (128 - length cs) NUL"
  have "128 - length cs = Suc (127 - length cs)" using assms(4) by simp
  then have z: "?data = cs @ NUL # replicate (127 - length cs) NUL" by simp
  have l: "int_strlen ?data = Some (int (length (takeWhile (\<lambda>c. c \<noteq> NUL) cs)))" unfolding z using assms(4) by (intro strlen_takeWhile) simp
  have dl: "int (length (takeWhile (\<lambda>c. c \<noteq> NUL) cs)) sdiv 8 * 8 = int (8 * m)" unfolding m by (simp add: sdiv_nonneg zdiv_int)
  have m8: "8 * m \<le> length cs" unfolding m using length_takeWhile_le [of "\<lambda>c. c \<noteq> NUL" cs] by (meson order_trans times_div_less_eq_dividend)
  obtain p where p: "fresh e (8 * m) = Some p" "length p = 8 * m" using assms(1) unfolding crypt_env_ok_def by blast
  have h: "hex_parse (hex_text cs @ [NUL]) (int (2 * length cs)) (replicate 128 NUL) 0 = Some ?data"
    using hex_parse_ok [of "[]" 0 cs cs "replicate 128 NUL"] assms(4) by simp
  have cb: "copy_back ?data (bytes q) (int (8 * m)) = Some (q @ drop (8 * m) ?data)"
    using q(1) m8 by (simp add: copy_back_def memcpy_def rd_block_def del: drop_append)
  have d: "drop (8 * m) ?data = drop (8 * m) cs @ NUL # replicate (127 - length cs) NUL" unfolding z using m8 by simp
  have v: "push_block (q @ drop (8 * m) ?data) = Some (LString (q @ takeWhile (\<lambda>c. c \<noteq> NUL) (drop (8 * m) cs)))"
  proof -
    have "takeWhile (\<lambda>c. c \<noteq> NUL) (q @ drop (8 * m) cs @ NUL # t) = q @ takeWhile (\<lambda>c. c \<noteq> NUL) (drop (8 * m) cs)" for t
      using q(2) by (subst takeWhile_append2) (auto simp: takeWhile_block)
    then show ?thesis unfolding d push_block_def cstr_def by simp
  qed
  have s: "\<not> 256 < int (length (hex_text cs))" using assms(4) by simp
  have h': "hex_parse (hex_text cs @ [NUL]) (int (length (hex_text cs))) (replicate 128 NUL) 0 = Some ?data" using h by simp
  show ?thesis
    unfolding lua_decrypt_des3_def Let_def c_string_block [OF assms(2)] c_string_block [OF assms(3)] bind.bind_lunit if_not_P [OF s] h' k l dl
      nat_int p(1) dec [OF p(2)] cb v ..
qed

text \<open>C16. A string shorter than 64 characters that is encrypted and decrypted with one key: what is encrypted are its whole blocks of eight characters,
  printed in hexadecimal; what comes back is the start of the string, up to the last whole block before the first zero byte of the ciphertext,
  followed by the ciphertext from there to the zero byte. So the blocks come back unchanged when the ciphertext has no zero byte.\<close>

theorem lua_des3_strings:
  assumes "crypt_env_ok e" and "c_string eargs 1 s" and "c_string eargs 2 key" and "length s < 64"
  shows "\<exists>cs. length cs = length s div 8 * 8 \<and> lua_encrypt_des3 e eargs = Some [LString (hex_text cs)]
    \<and> (\<forall>dargs. arg_string dargs 1 = Some (hex_text cs) \<and> arg_string dargs 2 = Some key \<longrightarrow>
        (let m = length (takeWhile (\<lambda>c. c \<noteq> NUL) cs) div 8 * 8
         in lua_decrypt_des3 e dargs = Some [LString (take m s @ takeWhile (\<lambda>c. c \<noteq> NUL) (drop m cs))])
      \<and> (NUL \<notin> set cs \<longrightarrow> lua_decrypt_des3 e dargs = Some [LString (take (length s div 8 * 8) s)]))"
proof -
  obtain ctx where k: "lua_set_key (key @ [NUL]) (int (length key)) = Some ctx" "ctx_inverse ctx"
    using lua_set_key_ok assms(3) by (auto simp: c_string_def)
  define n where "n = length s div 8"
  let ?data = "s @ replicate (128 - length s) NUL"
  obtain p c where c: "encrypt_loop ctx (bytes ?data) p 0 (int (8 * n)) = Some c" "length p = 8 * n" "length c = 8 * n"
    "lua_encrypt_des3 e eargs = Some [LString (hex_text (chars c))]"
    using encrypt_des3_text [OF assms k n_def] by blast
  define cs where "cs = chars c"
  have cs: "length cs = 8 * n" "bytes cs = c" using c(3) by (simp_all add: cs_def)
  have n8: "8 * n \<le> length s" "8 * n < 64" using assms(4) by (simp_all add: n_def)
  define m where "m = length (takeWhile (\<lambda>c. c \<noteq> NUL) cs) div 8"
  have m8: "8 * m \<le> 8 * n" unfolding m_def using length_takeWhile_le [of "\<lambda>c. c \<noteq> NUL" cs] cs(1) by (metis order_trans times_div_less_eq_dividend)
  then have mn: "m \<le> n" by simp
  have dec: "decrypt_loop ctx (bytes (cs @ replicate (128 - length cs) NUL)) q 0 (int (8 * m)) = Some (bytes (take (8 * m) s))" if q: "length q = 8 * m" for q
  proof -
    have "\<exists>r. decrypt_loop ctx (bytes (cs @ replicate (128 - length cs) NUL)) q 0 (int (8 * m)) = Some r \<and> length r = length q
        \<and> take (8 * m) r = take (8 * m) (bytes ?data) \<and> drop (8 * m) r = drop (8 * m) q"
      by (rule decrypt_inverse [OF k(2) c(1) _ _ mn]) (use c(2) cs q n8 m8 in \<open>auto simp: bytes_def\<close>)
    moreover have "take (8 * m) (bytes ?data) = bytes (take (8 * m) s)" using n8 m8 by (simp add: bytes_def take_map)
    ultimately show ?thesis using q by auto
  qed
  have tk: "length (take (8 * m) s) = 8 * m" "NUL \<notin> set (take (8 * m) s)"
    using n8 m8 assms(2) by (auto simp: c_string_def dest: in_set_takeD)
  have r: "lua_decrypt_des3 e dargs = Some [LString (take (8 * m) s @ takeWhile (\<lambda>c. c \<noteq> NUL) (drop (8 * m) cs))]"
    if a: "arg_string dargs 1 = Some (hex_text cs)" "arg_string dargs 2 = Some key" for dargs
  proof (rule decrypt_des3_text [OF assms(1) _ c_string_same [OF assms(3) a(2)] _ k(1) m_def dec tk])
    show "c_string dargs 1 (hex_text cs)" using a(1) hex_text_chars [of _ cs] cs(1) n8 by (auto simp: c_string_def)
  qed (use cs n8 in auto)
  have nz: "8 * m = 8 * n" "drop (8 * m) cs = []" if "NUL \<notin> set cs"
  proof -
    have "takeWhile (\<lambda>c. c \<noteq> NUL) cs = cs" using that by (auto simp: takeWhile_eq_all_conv)
    then show "8 * m = 8 * n" by (simp only: m_def cs(1)) simp
    then show "drop (8 * m) cs = []" using cs(1) by simp
  qed
  show ?thesis unfolding Let_def n_def [symmetric] m_def [symmetric]
  proof (rule exI [of _ cs], intro conjI allI impI)
    show "length cs = n * 8" using cs(1) by simp
    show "lua_encrypt_des3 e eargs = Some [LString (hex_text cs)]" using c(4) by (simp add: cs_def)
  qed (use r nz in \<open>simp_all add: m_def [symmetric] mult.commute\<close>)
qed


section \<open>Overruns\<close>

lemma strlen_unterminated: "NUL \<notin> set m \<Longrightarrow> strlen m p = None"
proof (induction m p rule: strlen.induct)
  case (1 m p)
  show ?case
  proof (cases "rd m p")
    case (Some c)
    then have "c \<in> set m" by (auto simp: rd_def split: if_splits)
    then have "c \<noteq> NUL" using 1(2) by blast
    then show ?thesis using 1 Some by (subst strlen.simps) simp
  qed (simp add: strlen.simps)
qed

lemma hex_print_overrun:
  "63 \<in> set is \<Longrightarrow> length out = 128 \<Longrightarrow> hex_print data is out = None"
proof (induction "is" arbitrary: out)
  case (Cons i "is")
  have t: "put_text out (2 * i) (hex2 c) = Some out' \<Longrightarrow> i \<noteq> 63 \<and> length out' = 128" for c out'
    using Cons.prems(2) wr_block_length [of out "2 * i" "hex2 c @ [NUL]" out'] by (auto simp: put_text_def wr_block_def split: if_splits)
  show ?case
  proof (cases "rd data i")
    case (Some c)
    show ?thesis
    proof (cases "put_text out (2 * i) (hex2 c)")
      case (Some out')
      then have "hex_print data is out' = None" using t [OF Some] Cons by auto
      then show ?thesis using Some \<open>rd data i = Some c\<close> by (simp add: hex2_def)
    qed (simp add: Some hex2_def)
  qed simp
qed simp

text \<open>C22. Encryption is defined exactly for strings shorter than 64 characters, whatever the key: longer ones overrun one of the two
  local arrays of 128 bytes, from 64 characters on the one the hexadecimal text is printed to.\<close>

theorem lua_encrypt_des3_bound:
  assumes "crypt_env_ok e" and "c_string args 1 s" and "c_string args 2 key"
  shows "lua_encrypt_des3 e args \<noteq> None \<longleftrightarrow> length s < 64"
proof -
  obtain ctx where k: "lua_set_key (key @ [NUL]) (int (length key)) = Some ctx" "ctx_inverse ctx"
    using lua_set_key_ok assms(3) by (auto simp: c_string_def)
  note b = c_string_block [OF assms(2)] c_string_block [OF assms(3)]
  consider "length s < 64" | "64 \<le> length s" "length s < 128" | "length s = 128" | "128 < length s" by linarith
  then show ?thesis
  proof cases
    case 1
    then show ?thesis using encrypt_des3_text [OF assms 1 k refl] by auto
  next
    case 2
    obtain d where "lua_encrypt_des3 e args = (hex_print d (map int [0..<8 * (length s div 8)]) (replicate 128 NUL) \<bind> (\<lambda>d. push_block d \<bind> (\<lambda>v. Some [v])))"
      using encrypt_des3_cipher [OF assms 2(2) k refl] by blast
    moreover have "63 \<in> set (map int [0..<8 * (length s div 8)])"
    proof -
      have "8 \<le> length s div 8" using 2(1) by simp
      then have "int 63 \<in> int ` {0..<8 * (length s div 8)}" by (intro imageI) simp
      then show ?thesis by simp
    qed
    ultimately show ?thesis using 2 by (simp add: hex_print_overrun)
  next
    case 3
    then have "memcpy (replicate 128 NUL) 0 (s @ [NUL]) 0 (int (length s)) = Some s"
      using rd_block_prefix [of s "[NUL]"] by (simp add: memcpy_def)
    moreover have "NUL \<notin> set s" using assms(2) by (simp add: c_string_def)
    ultimately show ?thesis using 3 b k by (simp add: lua_encrypt_des3_def int_strlen_def strlen_unterminated)
  next
    case 4
    then have "memcpy (replicate 128 NUL) 0 (s @ [NUL]) 0 (int (length s)) = None"
      by (simp add: memcpy_def rd_block_prefix wr_block_def)
    then show ?thesis using 4 b by (simp add: lua_encrypt_des3_def)
  qed
qed

text \<open>C23. A key of any length but 16 and 24 characters has no effect: with two such keys the tokens and the ciphertexts are the same, and what was made
  with one is read with the other.\<close>

theorem lua_des3_key_ignored:
  assumes "c_string g 1 key" and "c_string g' 1 key'" and "c_string a 2 key" and "c_string b 2 key'" and "length key \<notin> {16, 24}" and "length key' \<notin> {16, 24}"
    and "arg_string a 1 = arg_string b 1"
  shows "lua_gen_time_token_des3 e now g = lua_gen_time_token_des3 e now g' \<and> lua_encrypt_des3 e a = lua_encrypt_des3 e b
    \<and> lua_decrypt_des3 e a = lua_decrypt_des3 e b \<and> lua_decrypt_time_token_des3 e a = lua_decrypt_time_token_des3 e b"
proof -
  have "lua_set_key m (int (length k)) = Some \<lparr>esk3 = replicate 96 0, dsk3 = replicate 96 0\<rparr>" if "length k \<notin> {16, 24}" for m and k :: string
    using that by (auto simp: lua_set_key_def Let_def)
  note k = this [OF assms(5)] this [OF assms(6)]
  have "arg_block a 1 = arg_block b 1" using assms(7) by (simp add: arg_block_def)
  then show ?thesis
    unfolding lua_gen_time_token_des3_def lua_encrypt_des3_def lua_decrypt_des3_def lua_decrypt_time_token_des3_def
      c_string_block(1,2) [OF assms(1)] c_string_block(1,2) [OF assms(2)] c_string_block(1,2) [OF assms(3)] c_string_block(1,2) [OF assms(4)] bind.bind_lunit k by simp
qed


section \<open>MD5\<close>

lemma rd_block_append: "0 \<le> p \<Longrightarrow> p + n \<le> int (length xs) \<Longrightarrow> rd_block (xs @ ys) p n = rd_block xs p n"
  by (auto simp: rd_block_def)

lemma md5_blocks_append:
  "0 \<le> p \<Longrightarrow> p + left \<le> int (length xs) \<Longrightarrow> md5_blocks v (xs @ ys) p left = md5_blocks v xs p left
   \<and> (\<forall>v' p' left'. md5_blocks v xs p left = Some (v', p', left') \<longrightarrow> 0 \<le> p' \<and> p' + left' \<le> int (length xs))"
proof (induction v "xs @ ys" p left rule: md5_blocks.induct)
  case (1 v p left)
  show ?case
  proof (cases "64 \<le> left")
    case True
    have r: "rd_block (xs @ ys) p 64 = rd_block xs p 64" using True "1.prems" by (intro rd_block_append) simp_all
    obtain b where b: "rd_block xs p 64 = Some b" using True "1.prems" by (simp add: rd_block_def)
    have "md5_blocks (md5_process v b) (xs @ ys) (p + 64) (left - 64) = md5_blocks (md5_process v b) xs (p + 64) (left - 64)
      \<and> (\<forall>v' p' left'. md5_blocks (md5_process v b) xs (p + 64) (left - 64) = Some (v', p', left') \<longrightarrow> 0 \<le> p' \<and> p' + left' \<le> int (length xs))"
      using "1.prems" by (intro "1.hyps" True) (simp_all add: r b)
    then show ?thesis using True r b md5_blocks.simps [of v "xs @ ys" p left] md5_blocks.simps [of v xs p left] by simp
  next
    case False
    then show ?thesis using "1.prems" md5_blocks.simps [of v "xs @ ys" p left] md5_blocks.simps [of v xs p left] by simp
  qed
qed

lemma md5_append_block: "md5_append (md5_init buf) (xs @ ys) (int (length xs)) = md5_append (md5_init buf) xs (int (length xs))"
proof -
  have "md5_rest pms v (xs @ ys) 0 (int (length xs)) = md5_rest pms v xs 0 (int (length xs))" for pms v
    using md5_blocks_append [of 0 "int (length xs)" xs v ys]
    by (auto simp: md5_rest_def memcpy_def rd_block_append Let_def intro!: bind_option_cong split: prod.splits)
  then show ?thesis by (simp add: md5_append_def md5_init_def Let_def)
qed

lemma length_word_bytes [simp]: "length (word_bytes w) = 4"
  by (simp add: word_bytes_def)

lemma length_md5_digest [simp]: "length (md5_digest v) = 16"
  by (cases v) (simp add: md5_digest_def)

lemma print_digest:
  assumes "length d = 16"
  shows "hex_print (chars d) [0..15] (replicate 34 NUL) \<bind> (\<lambda>m. push_block m \<bind> (\<lambda>v. Some [v])) = Some [LString (hex_text (chars d))]"
proof -
  have i: "[0..15] = map int [0..<16]" using ints_upto [of 16] by simp
  have "NUL \<notin> set (hex_text (chars d))" using hex_text_chars by blast
  then show ?thesis using hex_print_ok [of "[]" 0 "replicate 34 NUL" 16 "chars d"] assms unfolding i by (auto simp: push_block_def cstr_no_nul)
qed

lemma gen_md5_value:
  assumes "crypt_env_ok e" and "c_string args 1 s" and "length s < 2 ^ 28"
  shows "lua_gen_md5 e args = Some [LString (hex_text (chars (md5_spec (bytes s))))]"
proof -
  have j: "length (buf_junk e) = 64" using assms(1) by (simp add: crypt_env_ok_def)
  have "conhash_md5_digest (buf_junk e) (bytes s) (int (length (bytes s))) = Some (md5_spec (bytes s))"
    using assms(3) by (intro conhash_md5_digest_spec j) simp
  then obtain m1 m2 where m: "md5_append (md5_init (buf_junk e)) (bytes s) (int (length s)) = Some m1" "md5_finish m1 = Some (m2, md5_spec (bytes s))"
    by (auto simp: conhash_md5_digest_def bind_eq_Some_conv)
  have b: "bytes (s @ [NUL]) = bytes s @ bytes [NUL]" by (simp add: bytes_def)
  have "md5_append (md5_init (buf_junk e)) (bytes (s @ [NUL])) (int (length s)) = Some m1"
    using m(1) md5_append_block [of "buf_junk e" "bytes s" "bytes [NUL]"] unfolding b by simp
  moreover have "length (md5_spec (bytes s)) = 16" by (simp add: md5_spec_def)
  ultimately show ?thesis using c_string_block [OF assms(2)] m(2) print_digest [of "md5_spec (bytes s)"] by (simp add: lua_gen_md5_def)
qed

text \<open>The digest of a string is the MD5 digest of its characters, as 32 hexadecimal digits.\<close>

theorem lua_gen_md5_digest:
  assumes "crypt_env_ok e" and "c_string args 1 s" and "length s < 2 ^ 28"
  shows "lua_gen_md5 e args = Some [LString (hex_text (chars (md5_spec (bytes s))))]"
  using assms by (rule gen_md5_value)

section \<open>What is pushed\<close>

definition lower_hex :: "string \<Rightarrow> bool" where
  "lower_hex t \<longleftrightarrow> set t \<subseteq> hex_digit ` {..<16}"

lemma lower_hex_text: "lower_hex (hex_text s)"
proof (induction s)
  case (Cons c s)
  have "(of_char c :: nat) div 16 < 16" "(of_char c :: nat) mod 16 < 16" using nat_of_char_less_256 [of c] by (simp_all only: div_less_iff_less_mult)
  then show ?case using Cons by (auto simp: lower_hex_def hex2_digits)
qed (simp add: lower_hex_def)

lemma push_text:
  assumes "put_text (text_junk e) 0 t = Some d" and "push_block d = Some v" and "NUL \<notin> set t"
  shows "v = LString t"
  using assms by (auto simp: put_text_def push_block_def wr_block_def splice_def cstr_no_nul split: if_splits)

lemma hex_parse_length: "hex_parse m n d i = Some d' \<Longrightarrow> length d' = length d"
proof (induction m n d i rule: hex_parse.induct)
  case (1 m n d i)
  show ?case
  proof (cases "i < n")
    case True
    then obtain c1 c2 d1 where "rd m i = Some c1" "rd m (i + 1) = Some c2"
      "wr d (i div 2) (char_of ((push_bit 4 (ctoi c1) OR ctoi c2) mod 256)) = Some d1" "\<not> ctoi c1 < 0" "hex_parse m n d1 (i + 2) = Some d'"
      using 1(2) by (subst (asm) hex_parse.simps) (auto simp: bind_eq_Some_conv Let_def split: if_splits)
    then show ?thesis using 1(1) [OF True, of c1 c2 _ _ d1] by (auto dest: wr_length)
  qed (use 1(2) in \<open>simp add: hex_parse.simps [of m n d i]\<close>)
qed

lemma push_block_type: "push_block d = Some v \<Longrightarrow> \<exists>t. v = LString t \<and> NUL \<notin> set t \<and> length t < length d"
proof -
  assume a: "push_block d = Some v"
  let ?t = "takeWhile (\<lambda>c. c \<noteq> NUL) d"
  have n: "NUL \<in> set d" "v = LString ?t" using a by (auto simp: push_block_def cstr_def split: if_splits)
  have "dropWhile (\<lambda>c. c \<noteq> NUL) d \<noteq> []" using n(1) unfolding dropWhile_eq_Nil_conv by blast
  then have "length ?t < length d" using arg_cong [OF takeWhile_dropWhile_id [of "\<lambda>c. c \<noteq> NUL" d], of length] by (cases "dropWhile (\<lambda>c. c \<noteq> NUL) d") auto
  moreover have "NUL \<notin> set ?t" using set_takeWhileD by fastforce
  ultimately show ?thesis using n(2) by blast
qed



section \<open>Witnesses\<close>

definition demo_crypt :: crypt_env where
  "demo_crypt = \<lparr>fresh = (\<lambda>n. Some (replicate n 0)), text_junk = replicate 128 (CHR ''x''), buf_junk = replicate 64 7\<rparr>"

definition demo_args :: "string list \<Rightarrow> lua_args" where
  "demo_args ss = \<lparr>arg_string = (\<lambda>i. if 1 \<le> i \<and> i \<le> length ss then Some (ss ! (i - 1)) else None),
     arg_number = (\<lambda>_. None), arg_userdata = (\<lambda>_. None), arg_isstring = (\<lambda>i. 1 \<le> i \<and> i \<le> length ss)\<rparr>"

lemma demo_crypt_ok: "crypt_env_ok demo_crypt"
  by (simp add: crypt_env_ok_def demo_crypt_def)

lemma demo_args_string [simp]: "arg_string (demo_args ss) i = (if 1 \<le> i \<and> i \<le> length ss then Some (ss ! (i - 1)) else None)"
  by (simp add: demo_args_def)

theorem time_token_roundtrip_witness:
  "\<exists>token. lua_gen_time_token_des3 demo_crypt 1700000000 (demo_args [''0123456789abcdef'']) = Some [LString token]
    \<and> lua_decrypt_time_token_des3 demo_crypt (demo_args [token, ''0123456789abcdef'']) = Some [LString ''1700000000'']"
proof -
  have "c_string (demo_args [''0123456789abcdef'']) 1 ''0123456789abcdef''" by (simp add: c_string_def)
  moreover have "show_nat (unat (1700000000 :: 64 word)) = ''1700000000''"
    by (simp add: show_nat.simps) (simp add: char_of_def bit_iff_odd)
  ultimately show ?thesis using time_token_roundtrip [OF demo_crypt_ok, of "demo_args [''0123456789abcdef'']" "''0123456789abcdef''" 1700000000] by auto
qed

theorem lua_des3_strings_witness:
  "\<exists>cs. length cs = 8 \<and> lua_encrypt_des3 demo_crypt (demo_args [''user=easy'', ''0123456789abcdef'']) = Some [LString (hex_text cs)]
    \<and> (NUL \<notin> set cs \<longrightarrow> lua_decrypt_des3 demo_crypt (demo_args [hex_text cs, ''0123456789abcdef'']) = Some [LString ''user=eas''])
    \<and> (cs ! 0 = NUL \<longrightarrow> lua_decrypt_des3 demo_crypt (demo_args [hex_text cs, ''0123456789abcdef'']) = Some [LString ''''])"
proof -
  have c: "c_string (demo_args [''user=easy'', ''0123456789abcdef'']) 1 ''user=easy''" "c_string (demo_args [''user=easy'', ''0123456789abcdef'']) 2 ''0123456789abcdef''"
    by (simp_all add: c_string_def)
  have d: "arg_string (demo_args [t, k]) 1 = Some t" "arg_string (demo_args [t, k]) 2 = Some k" for t k :: string by simp_all
  have l: "length ''user=easy'' div 8 * 8 = 8" "take 8 ''user=easy'' = ''user=eas''" by simp_all
  have "length ''user=easy'' < 64" by simp
  from lua_des3_strings [OF demo_crypt_ok c this] obtain cs where cs: "length cs = 8"
    "lua_encrypt_des3 demo_crypt (demo_args [''user=easy'', ''0123456789abcdef'']) = Some [LString (hex_text cs)]"
    "let m = length (takeWhile (\<lambda>c. c \<noteq> NUL) cs) div 8 * 8
     in lua_decrypt_des3 demo_crypt (demo_args [hex_text cs, ''0123456789abcdef'']) = Some [LString (take m ''user=easy'' @ takeWhile (\<lambda>c. c \<noteq> NUL) (drop m cs))]"
    "NUL \<notin> set cs \<longrightarrow> lua_decrypt_des3 demo_crypt (demo_args [hex_text cs, ''0123456789abcdef'']) = Some [LString ''user=eas'']"
    unfolding l using d by blast
  moreover have "takeWhile (\<lambda>c. c \<noteq> NUL) cs = []" if "cs ! 0 = NUL" using that cs(1) by (cases cs) auto
  ultimately show ?thesis by (intro exI [of _ cs]) auto
qed

theorem lua_encrypt_des3_bound_witness:
  "lua_encrypt_des3 demo_crypt (demo_args [replicate 64 (CHR ''a''), ''key'']) = None
   \<and> lua_encrypt_des3 demo_crypt (demo_args [replicate 63 (CHR ''a''), ''key'']) \<noteq> None"
proof -
  have c: "c_string (demo_args [replicate n (CHR ''a''), ''key'']) 1 (replicate n (CHR ''a''))" "c_string (demo_args [replicate n (CHR ''a''), ''key'']) 2 ''key''"
    if "n < 100" for n using that by (simp_all add: c_string_def)
  show ?thesis using lua_encrypt_des3_bound [OF demo_crypt_ok c(1) c(2), of 64] lua_encrypt_des3_bound [OF demo_crypt_ok c(1) c(2), of 63] by simp
qed

theorem lua_des3_key_ignored_witness:
  "lua_gen_time_token_des3 demo_crypt 1700000000 (demo_args [''12345678'']) = lua_gen_time_token_des3 demo_crypt 1700000000 (demo_args [''87654321''])"
proof -
  have "c_string (demo_args [k]) 1 k \<and> c_string (demo_args [t, k]) 2 k" if "k \<in> {''12345678'', ''87654321''}" for t k
    using that by (auto simp: c_string_def)
  then have c: "c_string (demo_args [''12345678'']) 1 ''12345678''" "c_string (demo_args [''87654321'']) 1 ''87654321''"
    "c_string (demo_args ['''', ''12345678'']) 2 ''12345678''" "c_string (demo_args ['''', ''87654321'']) 2 ''87654321''" by blast+
  show ?thesis using lua_des3_key_ignored [OF c, of demo_crypt 1700000000] by simp
qed

theorem lua_gen_md5_digest_witness:
  "lua_gen_md5 demo_crypt (demo_args [''abc'']) = Some [LString (hex_text (chars (md5_spec (bytes ''abc''))))]"
  using lua_gen_md5_digest [OF demo_crypt_ok, of "demo_args [''abc'']" "''abc''"] by (simp add: c_string_def)



end
