(* ===== verification/UtilRbtree.thy ===== *)
theory UtilRbtree
  imports Rbtree
begin

text \<open>
  The red-black tree of \<open>thirdparty/conhash/util_rbtree.c\<close>, keyed by a \<open>long\<close>. Trees and positions are those of \<open>Rbtree\<close>: the sentinel is
  the empty tree, which is black, and has no children, so that a step below it is \<open>None\<close>. The lemmas show that the two repairing
  loops do what those of \<open>rbtree.c\<close> do, so that insertion and removal keep the red-black invariant, and that the search and the
  lookup find the key and the next key in order.
\<close>

section \<open>State\<close>

record 'd util_node =
  ukey :: int
  udata :: 'd

record 'd util_rbtree =
  u_root :: "'d util_node rb_tree"
  u_size :: "32 word"

definition util_rbtree_init :: "'d util_rbtree" where
  "util_rbtree_init = \<lparr>u_root = RB_NULL, u_size = 0\<rparr>"

definition util_rbtree_isempty :: "'d util_rbtree \<Rightarrow> bool" where
  "util_rbtree_isempty t \<longleftrightarrow> u_root t = RB_NULL"

fun util_rbsubtree_min :: "'a rb_tree \<Rightarrow> 'a option" where
  "util_rbsubtree_min RB_NULL = None"
| "util_rbsubtree_min (RB_node c RB_NULL x r) = Some x"
| "util_rbsubtree_min (RB_node c l x r) = util_rbsubtree_min l"

fun util_rbsubtree_max :: "'a rb_tree \<Rightarrow> 'a option" where
  "util_rbsubtree_max RB_NULL = None"
| "util_rbsubtree_max (RB_node c l x RB_NULL) = Some x"
| "util_rbsubtree_max (RB_node c l x r) = util_rbsubtree_max r"

section \<open>Rotations\<close>

fun rbtree_left_rotate :: "'a rb_tree \<Rightarrow> 'a rb_tree option" where
  "rbtree_left_rotate (RB_node c l x (RB_node rc rclc y r)) = Some (RB_node rc (RB_node c l x rclc) y r)"
| "rbtree_left_rotate _ = None"

fun rbtree_right_rotate :: "'a rb_tree \<Rightarrow> 'a rb_tree option" where
  "rbtree_right_rotate (RB_node c (RB_node lc l y lcrc) x r) = Some (RB_node lc l y (RB_node c lcrc x r))"
| "rbtree_right_rotate _ = None"

section \<open>Insertion\<close>

text \<open>The loop ends at a black parent, the sentinel above the root among them; at the end the root is black.\<close>

fun rbtree_insert_fixup :: "'a rb_tree \<Rightarrow> 'a frame list \<Rightarrow> 'a rb_tree option" where
  "rbtree_insert_fixup node [] = Some (set_black node)"
| "rbtree_insert_fixup node [f] = (if frame_black f then Some (set_black (plug node [f])) else None)"
| "rbtree_insert_fixup node (In_left pc p r # In_left gc g u # fs) =
     (if pc = RB_BLACK then Some (set_black (plug node (In_left pc p r # In_left gc g u # fs)))
      else if red_node u then rbtree_insert_fixup (RB_node RB_RED (RB_node RB_BLACK node p r) g (set_black u)) fs
      else do {
        t \<leftarrow> rbtree_right_rotate (RB_node RB_RED (RB_node RB_BLACK node p r) g u);
        Some (set_black (plug t fs))
      })"
| "rbtree_insert_fixup node (In_right pc l p # In_left gc g u # fs) =
     (if pc = RB_BLACK then Some (set_black (plug node (In_right pc l p # In_left gc g u # fs)))
      else if red_node u then rbtree_insert_fixup (RB_node RB_RED (RB_node RB_BLACK l p node) g (set_black u)) fs
      else do {
        p' \<leftarrow> rbtree_left_rotate (RB_node pc l p node);
        t \<leftarrow> rbtree_right_rotate (RB_node RB_RED (set_black p') g u);
        Some (set_black (plug t fs))
      })"
| "rbtree_insert_fixup node (In_left pc p r # In_right gc u g # fs) =
     (if pc = RB_BLACK then Some (set_black (plug node (In_left pc p r # In_right gc u g # fs)))
      else if red_node u then rbtree_insert_fixup (RB_node RB_RED (set_black u) g (RB_node RB_BLACK node p r)) fs
      else do {
        p' \<leftarrow> rbtree_right_rotate (RB_node pc node p r);
        t \<leftarrow> rbtree_left_rotate (RB_node RB_RED u g (set_black p'));
        Some (set_black (plug t fs))
      })"
| "rbtree_insert_fixup node (In_right pc l p # In_right gc u g # fs) =
     (if pc = RB_BLACK then Some (set_black (plug node (In_right pc l p # In_right gc u g # fs)))
      else if red_node u then rbtree_insert_fixup (RB_node RB_RED (set_black u) g (RB_node RB_BLACK l p node)) fs
      else do {
        t \<leftarrow> rbtree_left_rotate (RB_node RB_RED u g (RB_node RB_BLACK l p node));
        Some (set_black (plug t fs))
      })"

text \<open>The search for the place of a new node.\<close>

fun insert_place :: "int \<Rightarrow> 'd util_node rb_tree \<Rightarrow> 'd util_node frame list \<Rightarrow> 'd util_node frame list" where
  "insert_place key RB_NULL fs = fs"
| "insert_place key (RB_node c l x r) fs =
     (if key < ukey x then insert_place key l (In_left c x r # fs) else insert_place key r (In_right c l x # fs))"

definition util_rbtree_insert :: "'d util_rbtree \<Rightarrow> 'd util_node \<Rightarrow> 'd util_rbtree option" where
  "util_rbtree_insert t node = do {
     root \<leftarrow> rbtree_insert_fixup (RB_node RB_RED RB_NULL node RB_NULL) (insert_place (ukey node) (u_root t) []);
     Some (t\<lparr>u_root := root, u_size := u_size t + 1\<rparr>)
   }"

section \<open>Removal\<close>

text \<open>The turn of the loop once the sibling \<open>w\<close> is black: \<open>Inl\<close> goes on at the parent, \<open>Inr\<close> ends the loop.\<close>

fun fix_left :: "rb_color \<Rightarrow> 'a rb_tree \<Rightarrow> 'a \<Rightarrow> 'a rb_tree \<Rightarrow> ('a rb_tree + 'a rb_tree) option" where
  "fix_left pc node p RB_NULL = None"
| "fix_left pc node p (RB_node wc wleft x wright) =
     (if \<not> red_node wleft \<and> \<not> red_node wright then Some (Inl (RB_node pc node p (RB_node RB_RED wleft x wright)))
      else do {
        w \<leftarrow> (if \<not> red_node wright then rbtree_right_rotate (RB_node RB_RED (set_black wleft) x wright) else Some (RB_node wc wleft x wright));
        case w of RB_NULL \<Rightarrow> None
        | RB_node _ wleft y wright \<Rightarrow> map_option Inr (rbtree_left_rotate (RB_node RB_BLACK node p (RB_node pc wleft y (set_black wright))))
      })"

fun fix_right :: "rb_color \<Rightarrow> 'a rb_tree \<Rightarrow> 'a \<Rightarrow> 'a rb_tree \<Rightarrow> ('a rb_tree + 'a rb_tree) option" where
  "fix_right pc RB_NULL p node = None"
| "fix_right pc (RB_node wc wleft x wright) p node =
     (if \<not> red_node wleft \<and> \<not> red_node wright then Some (Inl (RB_node pc (RB_node RB_RED wleft x wright) p node))
      else do {
        w \<leftarrow> (if \<not> red_node wleft then rbtree_left_rotate (RB_node RB_RED wleft x (set_black wright)) else Some (RB_node wc wleft x wright));
        case w of RB_NULL \<Rightarrow> None
        | RB_node _ wleft y wright \<Rightarrow> map_option Inr (rbtree_right_rotate (RB_node RB_BLACK (RB_node pc (set_black wleft) y wright) p node))
      })"

text \<open>After the rotation that makes a red sibling black the parent is red, so the loop ends there when it goes up one level.\<close>

fun rbtree_delete_fixup :: "'a rb_tree \<Rightarrow> 'a frame list \<Rightarrow> 'a rb_tree option" where
  "rbtree_delete_fixup node [] = Some (set_black node)"
| "rbtree_delete_fixup node (In_left pc p w # fs) =
     (if red_node node then Some (plug (set_black node) (In_left pc p w # fs))
      else if red_node w then do {
        g \<leftarrow> rbtree_left_rotate (RB_node RB_RED node p (set_black w));
        case g of
          RB_node gc (RB_node pc' node' p' w') x r \<Rightarrow> do {
            s \<leftarrow> fix_left pc' node' p' w';
            case s of
              Inl t \<Rightarrow> (if red_node t then Some (plug (set_black t) (In_left gc x r # fs)) else None)
            | Inr t \<Rightarrow> Some (set_black (plug t (In_left gc x r # fs)))
          }
        | _ \<Rightarrow> None
      }
      else do {
        s \<leftarrow> fix_left pc node p w;
        case s of Inl t \<Rightarrow> rbtree_delete_fixup t fs | Inr t \<Rightarrow> Some (set_black (plug t fs))
      })"
| "rbtree_delete_fixup node (In_right pc w p # fs) =
     (if red_node node then Some (plug (set_black node) (In_right pc w p # fs))
      else if red_node w then do {
        g \<leftarrow> rbtree_right_rotate (RB_node RB_RED (set_black w) p node);
        case g of
          RB_node gc l x (RB_node pc' w' p' node') \<Rightarrow> do {
            s \<leftarrow> fix_right pc' w' p' node';
            case s of
              Inl t \<Rightarrow> (if red_node t then Some (plug (set_black t) (In_right gc l x # fs)) else None)
            | Inr t \<Rightarrow> Some (set_black (plug t (In_right gc l x # fs)))
          }
        | _ \<Rightarrow> None
      }
      else do {
        s \<leftarrow> fix_right pc w p node;
        case s of Inl t \<Rightarrow> rbtree_delete_fixup t fs | Inr t \<Rightarrow> Some (set_black (plug t fs))
      })"

text \<open>\<open>temp\<close> is the node taken out of its place: the node itself, or the successor that takes over the node's place and color.\<close>

definition take_out :: "rb_color \<Rightarrow> 'a rb_tree \<Rightarrow> 'a frame list \<Rightarrow> 'a rb_tree option" where
  "take_out color subst fs =
     (if fs = [] then Some (set_black subst)
      else if color = RB_BLACK then rbtree_delete_fixup subst fs else Some (plug subst fs))"

fun util_rbtree_delete_at :: "'a rb_tree \<Rightarrow> 'a frame list \<Rightarrow> 'a rb_tree option" where
  "util_rbtree_delete_at RB_NULL fs = None"
| "util_rbtree_delete_at (RB_node c l x r) fs =
     (if l = RB_NULL then take_out c r fs
      else if r = RB_NULL then take_out c l fs
      else case rb_leftmost r [] of
          (RB_NULL, _) \<Rightarrow> None
        | (RB_node sc sl s sr, path) \<Rightarrow> take_out sc (if sl \<noteq> RB_NULL then sl else sr) (path @ In_right c l s # fs))"

text \<open>The node is a position, as \<open>util_rbtree_search\<close> returns it.\<close>

definition util_rbtree_delete :: "'d util_rbtree \<Rightarrow> 'd util_node rb_tree \<times> 'd util_node frame list \<Rightarrow> 'd util_rbtree option" where
  "util_rbtree_delete t node = do {
     root \<leftarrow> util_rbtree_delete_at (fst node) (snd node);
     Some (t\<lparr>u_root := root, u_size := u_size t - 1\<rparr>)
   }"

section \<open>Search and traversal\<close>

fun search_at :: "int \<Rightarrow> 'd util_node rb_tree \<Rightarrow> 'd util_node frame list \<Rightarrow> ('d util_node rb_tree \<times> 'd util_node frame list) option" where
  "search_at key RB_NULL fs = None"
| "search_at key (RB_node c l x r) fs =
     (if key < ukey x then search_at key l (In_left c x r # fs)
      else if key > ukey x then search_at key r (In_right c l x # fs)
      else Some (RB_node c l x r, fs))"

definition util_rbtree_search :: "'d util_rbtree option \<Rightarrow> int \<Rightarrow> ('d util_node rb_tree \<times> 'd util_node frame list) option" where
  "util_rbtree_search t key = (case t of None \<Rightarrow> None | Some t \<Rightarrow> search_at key (u_root t) [])"

text \<open>The loop keeps the last node whose key is not below the one looked up.\<close>

fun lookup_loop :: "int \<Rightarrow> 'd util_node rb_tree \<Rightarrow> 'd util_node option \<Rightarrow> 'd util_node option" where
  "lookup_loop key RB_NULL node = node"
| "lookup_loop key (RB_node c l x r) node = (if key \<le> ukey x then lookup_loop key l (Some x) else lookup_loop key r node)"

definition util_rbtree_lookup :: "'d util_rbtree option \<Rightarrow> int \<Rightarrow> 'd util_node option" where
  "util_rbtree_lookup t key = (case t of None \<Rightarrow> None
    | Some t \<Rightarrow> if util_rbtree_isempty t then None
        else (case lookup_loop key (u_root t) None of Some node \<Rightarrow> Some node | None \<Rightarrow> util_rbsubtree_min (u_root t)))"

text \<open>\<open>util_rbtree_check\<close>: the height found, the depth, the verdict. A node is red or black here, so verdict 2 does not occur.\<close>

record rbtree_check =
  rbh :: int
  maxd :: int
  fini :: int

definition check_rb_height :: "rbtree_check \<Rightarrow> int \<Rightarrow> int \<Rightarrow> rbtree_check" where
  "check_rb_height ck level curheight =
     (let ck = (if rbh ck = 0 then ck\<lparr>rbh := curheight\<rparr> else ck);
          ck = (if maxd ck < level then ck\<lparr>maxd := level\<rparr> else ck)
      in if rbh ck \<noteq> curheight then ck\<lparr>fini := 3\<rparr> else ck)"

text \<open>The test of a child: \<open>Inl\<close> is the verdict, \<open>Inr\<close> goes on below it.\<close>

fun root_key :: "'d util_node rb_tree \<Rightarrow> int" where
  "root_key RB_NULL = 0"
| "root_key (RB_node c l x r) = ukey x"

fun rbtree_check_subtree :: "'d util_node rb_tree \<Rightarrow> rbtree_check \<Rightarrow> int \<Rightarrow> int \<Rightarrow> rbtree_check" where
  "rbtree_check_subtree RB_NULL ck level curheight = ck"
| "rbtree_check_subtree (RB_node c l x r) ck level curheight =
     (if fini ck \<noteq> 0 then ck
      else let curheight = (if c = RB_BLACK then curheight + 1 else curheight) in
        if l = RB_NULL then check_rb_height ck level curheight
        else if c = RB_RED \<and> red_node l then ck\<lparr>fini := 4\<rparr>
        else if ukey x < root_key l then ck\<lparr>fini := 5\<rparr>
        else let ck = rbtree_check_subtree l ck (level + 1) curheight in
          if r = RB_NULL then check_rb_height ck level curheight
          else if c = RB_RED \<and> red_node r then ck\<lparr>fini := 4\<rparr>
          else if ukey x > root_key r then ck\<lparr>fini := 5\<rparr>
          else rbtree_check_subtree r ck (level + 1) curheight)"

text \<open>The verdict and what is stored at \<open>blackheight\<close> and \<open>maxdepth\<close>, if anything.\<close>

definition util_rbtree_check :: "'d util_rbtree \<Rightarrow> int \<times> (int \<times> int) option" where
  "util_rbtree_check t =
     (if u_root t = RB_NULL then (0, None)
      else if red_node (u_root t) then (1, None)
      else let ck = rbtree_check_subtree (u_root t) \<lparr>rbh = 0, maxd = 0, fini = 0\<rparr> 1 0 in (fini ck, Some (rbh ck, maxd ck)))"

fun rbtree_mid_travel :: "'a rb_tree \<Rightarrow> ('a \<Rightarrow> 's \<Rightarrow> 's) \<Rightarrow> 's \<Rightarrow> 's" where
  "rbtree_mid_travel RB_NULL opera s = s"
| "rbtree_mid_travel (RB_node c l x r) opera s =
     (let s = (if l \<noteq> RB_NULL then rbtree_mid_travel l opera s else s);
          s = opera x s
      in if r \<noteq> RB_NULL then rbtree_mid_travel r opera s else s)"

definition util_rbtree_mid_travel :: "'d util_rbtree option \<Rightarrow> ('d util_node \<Rightarrow> 's \<Rightarrow> 's) \<Rightarrow> 's \<Rightarrow> 's" where
  "util_rbtree_mid_travel t opera s = (case t of None \<Rightarrow> s
    | Some t \<Rightarrow> if util_rbtree_isempty t then s else rbtree_mid_travel (u_root t) opera s)"

section \<open>The two red-black trees agree\<close>

lemma left_rotate_eq: "rbtree_left_rotate t = rb_rotate_left t"
  by (cases t rule: rbtree_left_rotate.cases) auto

lemma right_rotate_eq: "rbtree_right_rotate t = rb_rotate_right t"
  by (cases t rule: rbtree_right_rotate.cases) auto

lemmas rotate_eq = left_rotate_eq right_rotate_eq

lemma rbtree_insert_fixup_eq: "rbtree_insert_fixup node fs = rb_insert_color node fs"
proof (induction node fs rule: rbtree_insert_fixup.induct)
  case (2 node f)
  then show ?case by (cases f; cases "frame_black f") (auto simp: not_black)
next
  case (3 node pc p r gc g u fs)
  then show ?case by (cases pc) (simp_all add: rotate_eq)
next
  case (4 node pc l p gc g u fs)
  then show ?case by (cases pc) (simp_all add: rotate_eq)
next
  case (5 node pc p r gc u g fs)
  then show ?case by (cases pc) (simp_all add: rotate_eq)
next
  case (6 node pc l p gc u g fs)
  then show ?case by (cases pc) (simp_all add: rotate_eq)
qed simp

lemma fix_eq: "fix_left pc node p w = erase_left pc node p w" "fix_right pc w p node = erase_right pc w p node"
  by (cases w; simp add: rotate_eq both_black_def)+

text \<open>On a real sibling; the other loop dereferences the missing one.\<close>

lemma rbtree_delete_fixup_eq: "rbtree_delete_fixup node fs = rb_erase_color node fs"
proof (induction node fs rule: rbtree_delete_fixup.induct)
  case (2 node pc p w fs)
  show ?case
  proof (cases w)
    case (RB_node wc wleft x wright)
    then show ?thesis using 2
      by (cases "red_node node"; cases "wc = RB_RED") (auto simp: rotate_eq fix_eq split: bind_split sum.split)
  qed (simp add: fix_eq)
next
  case (3 node pc w p fs)
  show ?case
  proof (cases w)
    case (RB_node wc wleft x wright)
    then show ?thesis using 3
      by (cases "red_node node"; cases "wc = RB_RED") (auto simp: rotate_eq fix_eq split: bind_split sum.split)
  qed (simp add: fix_eq)
qed simp

lemma take_out_eq: "(fs = [] \<Longrightarrow> c = RB_BLACK) \<Longrightarrow> take_out c child fs = erase_child c child fs"
  by (auto simp: take_out_def erase_child_def rbtree_delete_fixup_eq)

lemma util_rbtree_delete_at_eq:
  assumes "rb_ok (plug (RB_node c l x r) fs)"
  shows "util_rbtree_delete_at (RB_node c l x r) fs = rb_erase (RB_node c l x r) fs"
proof -
  have root: "fs = [] \<Longrightarrow> c = RB_BLACK" using assms by (cases c) (auto simp: rb_ok_def)
  show ?thesis
  proof (cases "l = RB_NULL \<or> r = RB_NULL")
    case True
    then show ?thesis using take_out_eq [of fs c, OF root] by (cases l; cases r) auto
  next
    case False
    then obtain lc ll lx lr rc rl rx rr where lr: "l = RB_node lc ll lx lr" "r = RB_node rc rl rx rr" by (meson rb_tree.exhaust)
    obtain sc s sr path where p: "rb_leftmost r [] = (RB_node sc RB_NULL s sr, path)"
      using leftmost_position [of r "[]"] False by auto
    have "take_out sc sr (path @ In_right c l s # fs) = erase_child sc sr (path @ In_right c l s # fs)"
      by (rule take_out_eq) simp
    then show ?thesis using p lr by simp
  qed
qed

section \<open>Keys in order\<close>

definition keys_sorted :: "'d util_node rb_tree \<Rightarrow> bool" where
  "keys_sorted t \<longleftrightarrow> sorted_wrt (<) (map ukey (inorder t))"

definition util_ok :: "'d util_rbtree \<Rightarrow> bool" where
  "util_ok t \<longleftrightarrow> rb_ok (u_root t) \<and> keys_sorted (u_root t)"

lemma keys_sorted_node: "keys_sorted (RB_node c l x r) \<longleftrightarrow> keys_sorted l \<and> keys_sorted r
    \<and> (\<forall>y\<in>set (inorder l). ukey y < ukey x) \<and> (\<forall>y\<in>set (inorder r). ukey x < ukey y)"
  by (auto simp: keys_sorted_def sorted_wrt_append) (meson order_less_trans)+

lemma insert_place_ok:
  "keys_sorted t \<Longrightarrow> key \<notin> ukey ` set (inorder t) \<Longrightarrow> lefts (insert_place key t fs) = lefts fs @ filter (\<lambda>x. ukey x < key) (inorder t)
    \<and> rights (insert_place key t fs) = filter (\<lambda>x. key < ukey x) (inorder t) @ rights fs \<and> plug RB_NULL (insert_place key t fs) = plug t fs"
proof (induction key t fs rule: insert_place.induct)
  case (2 key c l x r fs)
  have s: "keys_sorted l" "keys_sorted r" "\<forall>y\<in>set (inorder l). ukey y < ukey x" "\<forall>y\<in>set (inorder r). ukey x < ukey y"
    using 2(3) by (simp_all add: keys_sorted_node)
  have n: "key \<noteq> ukey x" "key \<notin> ukey ` set (inorder l)" "key \<notin> ukey ` set (inorder r)" using 2(4) by auto
  show ?case
  proof (cases "key < ukey x")
    case True
    then have "filter (\<lambda>x. ukey x < key) (inorder r) = []" "filter (\<lambda>x. key < ukey x) (inorder r) = inorder r"
      using s(4) by (auto simp: filter_empty_conv filter_id_conv)
    then show ?thesis using 2(1) True s n by auto
  next
    case False
    then have "filter (\<lambda>x. ukey x < key) (inorder l) = inorder l" "filter (\<lambda>x. key < ukey x) (inorder l) = []" "ukey x < key"
      using s(3) n(1) by (auto simp: filter_empty_conv filter_id_conv)
    then show ?thesis using 2(2) False s n by auto
  qed
qed auto

lemma util_rbtree_insert_ok:
  assumes "util_ok t" and "ukey node \<notin> ukey ` set (inorder (u_root t))"
  shows "\<exists>t'. util_rbtree_insert t node = Some t' \<and> util_ok t' \<and> u_size t' = u_size t + 1
    \<and> inorder (u_root t') = filter (\<lambda>x. ukey x < ukey node) (inorder (u_root t)) @ node # filter (\<lambda>x. ukey node < ukey x) (inorder (u_root t))"
proof -
  let ?fs = "insert_place (ukey node) (u_root t) []"
  have s: "keys_sorted (u_root t)" "rb_ok (u_root t)" using assms(1) by (simp_all add: util_ok_def)
  note p = insert_place_ok [OF s(1) assms(2), of "[]"]
  obtain r where r: "rb_insert_color (rb_link_node node) ?fs = Some r" "rb_ok r" "inorder r = lefts ?fs @ node # rights ?fs"
    using link_insert_ok [of ?fs node] p s(2) by auto
  have "keys_sorted r" using s(1) p r(3)
    by (auto simp: keys_sorted_def sorted_wrt_append sorted_wrt_map sorted_wrt_filter)
  then show ?thesis using r p by (auto simp: util_rbtree_insert_def rbtree_insert_fixup_eq rb_link_node_def util_ok_def)
qed

lemma search_at_ok:
  "keys_sorted t \<Longrightarrow> (case search_at key t fs of
      None \<Rightarrow> key \<notin> ukey ` set (inorder t)
    | Some (s, gs) \<Rightarrow> \<exists>c l x r. s = RB_node c l x r \<and> ukey x = key \<and> x \<in> set (inorder t) \<and> plug s gs = plug t fs)"
proof (induction key t fs rule: search_at.induct)
  case (2 key c l x r fs)
  have s: "keys_sorted l" "keys_sorted r" "\<forall>y\<in>set (inorder l). ukey y < ukey x" "\<forall>y\<in>set (inorder r). ukey x < ukey y"
    using 2(3) by (simp_all add: keys_sorted_node)
  consider "key < ukey x" | "ukey x < key" | "key = ukey x" by linarith
  then show ?case
  proof cases
    case 1
    then show ?thesis using 2(1) s by (fastforce split: option.splits)
  next
    case 2
    then show ?thesis using "2.IH"(2) s by (fastforce split: option.splits)
  qed auto
qed simp

lemma keys_split:
  assumes "sorted_wrt (<) (map ukey (xs @ x # ys))"
  shows "filter (\<lambda>y. ukey y \<noteq> ukey x) (xs @ x # ys) = xs @ ys"
proof -
  have "\<forall>y\<in>set xs. ukey y < ukey x" "\<forall>y\<in>set ys. ukey x < ukey y" using assms by (auto simp: sorted_wrt_append)
  then have "filter (\<lambda>y. ukey y \<noteq> ukey x) xs = xs" "filter (\<lambda>y. ukey y \<noteq> ukey x) ys = ys"
    by (auto simp: filter_id_conv)
  then show ?thesis by simp
qed

text \<open>Searching a key and removing the node found.\<close>

lemma util_rbtree_search_delete:
  assumes "util_ok t"
  shows "case util_rbtree_search (Some t) key of
      None \<Rightarrow> key \<notin> ukey ` set (inorder (u_root t))
    | Some p \<Rightarrow> \<exists>x. pos_elem p = Some x \<and> x \<in> set (inorder (u_root t)) \<and> ukey x = key
        \<and> (\<exists>t'. util_rbtree_delete t p = Some t' \<and> util_ok t' \<and> u_size t' = u_size t - 1
           \<and> inorder (u_root t') = filter (\<lambda>y. ukey y \<noteq> key) (inorder (u_root t)))"
proof (cases "search_at key (u_root t) []")
  case None
  then show ?thesis using search_at_ok [of "u_root t" key "[]"] assms by (simp add: util_rbtree_search_def util_ok_def)
next
  case (Some p)
  obtain s fs where p: "p = (s, fs)" by fastforce
  obtain c l x r where x: "s = RB_node c l x r" "ukey x = key" "x \<in> set (inorder (u_root t))" "plug s fs = u_root t"
    using search_at_ok [of "u_root t" key "[]"] assms Some p by (auto simp: util_ok_def)
  have ok: "rb_ok (plug (RB_node c l x r) fs)" using x assms by (simp add: util_ok_def)
  obtain q where q: "rb_erase (RB_node c l x r) fs = Some q" "rb_ok q" "inorder q = lefts fs @ inorder l @ inorder r @ rights fs"
    using erase_at_ok [OF ok] by blast
  have i: "inorder (u_root t) = (lefts fs @ inorder l) @ x # (inorder r @ rights fs)" using x(1,4) by (metis append.assoc append_Cons inorder.simps(2) inorder_plug)
  have so: "sorted_wrt (<) (map ukey ((lefts fs @ inorder l) @ x # (inorder r @ rights fs)))"
    using assms unfolding util_ok_def keys_sorted_def i by simp
  have f: "inorder q = filter (\<lambda>y. ukey y \<noteq> key) (inorder (u_root t))" using keys_split [OF so] q(3) i x(2) by simp
  have "keys_sorted q" using assms unfolding util_ok_def keys_sorted_def f by (simp add: sorted_wrt_map sorted_wrt_filter)
  then show ?thesis using Some p x q f util_rbtree_delete_at_eq [OF ok]
    by (simp add: util_rbtree_search_def util_rbtree_delete_def util_ok_def)
qed

text \<open>The next key, the first one again after the last.\<close>

definition ring_next :: "int \<Rightarrow> 'd util_node list \<Rightarrow> 'd util_node option" where
  "ring_next key xs = (case filter (\<lambda>x. key \<le> ukey x) xs of y # _ \<Rightarrow> Some y | [] \<Rightarrow> (case xs of [] \<Rightarrow> None | x # _ \<Rightarrow> Some x))"

lemma lookup_loop_ok:
  "keys_sorted t \<Longrightarrow> lookup_loop key t n = (case filter (\<lambda>x. key \<le> ukey x) (inorder t) of [] \<Rightarrow> n | y # _ \<Rightarrow> Some y)"
proof (induction key t n rule: lookup_loop.induct)
  case (2 key c l x r n)
  have s: "keys_sorted l" "keys_sorted r" "\<forall>y\<in>set (inorder l). ukey y < ukey x" "\<forall>y\<in>set (inorder r). ukey x < ukey y"
    using 2(3) by (simp_all add: keys_sorted_node)
  show ?case
  proof (cases "key \<le> ukey x")
    case True
    then show ?thesis using 2(1) s by (auto split: list.split)
  next
    case False
    then have "filter (\<lambda>x. key \<le> ukey x) (inorder l) = []" using s(3) by (auto simp: filter_empty_conv)
    then show ?thesis using 2(2) False s by simp
  qed
qed simp

lemma util_rbsubtree_min_ok: "util_rbsubtree_min t = (case inorder t of [] \<Rightarrow> None | x # _ \<Rightarrow> Some x)"
proof (induction t rule: util_rbsubtree_min.induct)
  case (3 c lc ll lx lr x r)
  then show ?case by (cases "inorder ll") auto
qed auto

lemma util_rbsubtree_max_ok: "util_rbsubtree_max t = (if inorder t = [] then None else Some (last (inorder t)))"
  by (induction t rule: util_rbsubtree_max.induct) auto

lemma util_rbtree_lookup_ok: "util_ok t \<Longrightarrow> util_rbtree_lookup (Some t) key = ring_next key (inorder (u_root t))"
  by (auto simp: util_rbtree_lookup_def util_rbtree_isempty_def lookup_loop_ok util_ok_def ring_next_def util_rbsubtree_min_ok
      inorder_Nil split: list.splits)

lemma mid_travel_ok: "rbtree_mid_travel t opera s = fold opera (inorder t) s"
  by (induction t opera s rule: rbtree_mid_travel.induct) (auto simp: Let_def)

lemma util_rbtree_mid_travel_ok: "util_rbtree_mid_travel (Some t) opera s = fold opera (inorder (u_root t)) s"
  by (auto simp: util_rbtree_mid_travel_def util_rbtree_isempty_def mid_travel_ok)

section \<open>The tree as an ordered map\<close>

text \<open>
  What a client of the tree relies on: entries in the order of distinct keys, a search that finds the entry of a key, a removal at the place found,
  an insertion of an absent key and the look-up of the next entry around the ring.
\<close>

definition entry_map :: "('e \<Rightarrow> int) \<Rightarrow> 'e list \<Rightarrow> int \<Rightarrow> 'e option" where
  "entry_map key xs = map_of (map (\<lambda>x. (key x, x)) xs)"

definition next_entry :: "('e \<Rightarrow> int) \<Rightarrow> int \<Rightarrow> 'e list \<Rightarrow> 'e option" where
  "next_entry key k xs = (case filter (\<lambda>x. k \<le> key x) xs of y # _ \<Rightarrow> Some y | [] \<Rightarrow> (case xs of [] \<Rightarrow> None | x # _ \<Rightarrow> Some x))"

text \<open>The key that owns \<open>h\<close> on a ring of keys: the least one not below \<open>h\<close>, or else the least one.\<close>

definition owner_key :: "int set \<Rightarrow> int \<Rightarrow> int" where
  "owner_key K h = (if \<exists>k\<in>K. h \<le> k then Min {k \<in> K. h \<le> k} else Min K)"

locale key_ring =
  fixes ok :: "'t \<Rightarrow> bool"
    and entries :: "'t \<Rightarrow> 'e list"
    and key :: "'e \<Rightarrow> int"
    and ins :: "'t \<Rightarrow> 'e \<Rightarrow> 't option"
    and find :: "'t \<Rightarrow> int \<Rightarrow> 'p option"
    and entry_at :: "'p \<Rightarrow> 'e option"
    and del :: "'t \<Rightarrow> 'p \<Rightarrow> 't option"
    and look :: "'t \<Rightarrow> int \<Rightarrow> 'e option"
  assumes keys_in_order: "ok t \<Longrightarrow> sorted_wrt (<) (map key (entries t))"
    and ins_absent: "ok t \<Longrightarrow> key x \<notin> key ` set (entries t) \<Longrightarrow> \<exists>t'. ins t x = Some t' \<and> ok t'
      \<and> entries t' = filter (\<lambda>y. key y < key x) (entries t) @ x # filter (\<lambda>y. key x < key y) (entries t)"
    and find_absent: "ok t \<Longrightarrow> find t k = None \<Longrightarrow> k \<notin> key ` set (entries t)"
    and find_present: "ok t \<Longrightarrow> find t k = Some p \<Longrightarrow> \<exists>x t'. entry_at p = Some x \<and> x \<in> set (entries t) \<and> key x = k
      \<and> del t p = Some t' \<and> ok t' \<and> entries t' = filter (\<lambda>y. key y \<noteq> k) (entries t)"
    and look_next: "ok t \<Longrightarrow> look t k = next_entry key k (entries t)"

lemma entry_map_Some:
  assumes "sorted_wrt (<) (map key xs)"
  shows "entry_map key xs k = Some x \<longleftrightarrow> x \<in> set xs \<and> key x = k"
proof -
  have d: "distinct (map fst (map (\<lambda>x. (key x, x)) xs))" using assms by (simp add: comp_def strict_sorted_iff)
  show ?thesis unfolding entry_map_def using map_of_eq_Some_iff [OF d, of k x] by auto
qed

lemma entry_map_None: "entry_map key xs k = None \<longleftrightarrow> k \<notin> key ` set xs"
  by (simp add: entry_map_def map_of_eq_None_iff image_image)

lemma entry_map_dom: "dom (entry_map key xs) = key ` set xs"
  by (simp add: entry_map_def dom_map_of_conv_image_fst image_image)

lemma entry_map_cong:
  assumes "sorted_wrt (<) (map key xs)" and "\<And>k x. entry_map key xs k = Some x \<longleftrightarrow> m k = Some x"
  shows "entry_map key xs = m"
  using assms(2) by (intro ext) (metis option.exhaust)

context key_ring begin

lemma ins_map:
  assumes "ok t" and "entry_map key (entries t) (key x) = None"
  shows "\<exists>t'. ins t x = Some t' \<and> ok t' \<and> entry_map key (entries t') = (entry_map key (entries t))(key x \<mapsto> x)
    \<and> length (entries t') = length (entries t) + 1"
proof -
  have n: "key x \<notin> key ` set (entries t)" using assms(2) by (simp add: entry_map_None)
  obtain t' where t': "ins t x = Some t'" "ok t'"
    "entries t' = filter (\<lambda>y. key y < key x) (entries t) @ x # filter (\<lambda>y. key x < key y) (entries t)"
    using ins_absent [OF assms(1) n] by blast
  have "\<And>y. y \<in> set (entries t) \<Longrightarrow> (\<not> key y < key x) = (key x < key y)" using n by (metis image_eqI linorder_less_linear order_less_asym)
  then have f: "filter (\<lambda>y. key x < key y) (entries t) = filter (\<lambda>y. \<not> key y < key x) (entries t)"
    by (intro filter_cong) auto
  have se: "set (entries t') = insert x (set (entries t))" by (auto simp: t'(3) f)
  have len: "length (entries t') = length (entries t) + 1"
    using sum_length_filter_compl [of "\<lambda>y. key y < key x" "entries t"] by (simp add: t'(3) f)
  have "entry_map key (entries t') = (entry_map key (entries t))(key x \<mapsto> x)"
  proof (rule entry_map_cong)
    fix k y
    show "(entry_map key (entries t') k = Some y) = (((entry_map key (entries t))(key x \<mapsto> x)) k = Some y)"
      unfolding fun_upd_apply entry_map_Some [OF keys_in_order [OF t'(2)]] se
      using n [unfolded image_iff] by (auto simp: entry_map_Some keys_in_order assms(1))
  qed (simp add: keys_in_order t'(2))
  then show ?thesis using t' len by blast
qed

lemma find_None_map: "ok t \<Longrightarrow> find t k = None \<Longrightarrow> entry_map key (entries t) k = None"
  by (simp add: entry_map_None find_absent)

lemma find_del_map:
  assumes "ok t" and "find t k = Some p"
  shows "\<exists>x t'. entry_at p = Some x \<and> entry_map key (entries t) k = Some x \<and> del t p = Some t' \<and> ok t'
    \<and> entry_map key (entries t') = (entry_map key (entries t))(k := None) \<and> length (entries t) = length (entries t') + 1"
proof -
  obtain x t' where x: "entry_at p = Some x" "x \<in> set (entries t)" "key x = k" "del t p = Some t'" "ok t'"
    "entries t' = filter (\<lambda>y. key y \<noteq> k) (entries t)" using find_present [OF assms] by blast
  have m: "entry_map key (entries t) k = Some x" using x by (simp add: entry_map_Some keys_in_order assms(1))
  have "\<And>y. y \<in> set (entries t) \<Longrightarrow> (\<not> key y \<noteq> k) = (y = x)"
    using m x(3) entry_map_Some [OF keys_in_order [OF assms(1)], of k] by (metis option.inject)
  then have "filter (\<lambda>y. \<not> key y \<noteq> k) (entries t) = filter (\<lambda>y. y = x) (entries t)" by (intro filter_cong) auto
  moreover have "distinct (entries t)" using keys_in_order [OF assms(1)] distinct_map strict_sorted_iff by blast
  then have "length (filter (\<lambda>y. y = x) (entries t)) = 1" using x(2) by (simp add: distinct_length_filter)
  ultimately have len: "length (entries t) = length (entries t') + 1"
    using sum_length_filter_compl [of "\<lambda>y. key y \<noteq> k" "entries t"] by (simp add: x(6))
  have "entry_map key (entries t') = (entry_map key (entries t))(k := None)"
    by (rule entry_map_cong) (auto simp: entry_map_Some keys_in_order assms(1) x(5), auto simp: x(6))
  then show ?thesis using x m len by blast
qed

lemma look_owner:
  assumes "ok t"
  shows "look t h = (if entries t = [] then None else entry_map key (entries t) (owner_key (dom (entry_map key (entries t))) h))"
proof -
  let ?K = "key ` set (entries t)"
  note s = keys_in_order [OF assms]
  have least: "Min {k \<in> ?K. P k} = key y \<and> y \<in> set (entries t)" if "filter (\<lambda>x. P (key x)) (entries t) = y # ys" for P y ys
  proof -
    have so: "sorted_wrt (<) (map key (y # ys))" using s that by (metis sorted_wrt_filter sorted_wrt_map)
    have "{k \<in> ?K. P k} = key ` set (filter (\<lambda>x. P (key x)) (entries t))" by auto
    then have e: "{k \<in> ?K. P k} = insert (key y) (key ` set ys)" by (simp only: that) simp
    have "y \<in> set (filter (\<lambda>x. P (key x)) (entries t))" by (simp only: that) simp
    moreover have "Min (insert (key y) (key ` set ys)) = key y" using so by (intro Min_eqI) auto
    ultimately show ?thesis by (simp add: e)
  qed
  show ?thesis
  proof (cases "filter (\<lambda>x. h \<le> key x) (entries t)")
    case Nil
    then have no: "\<not> (\<exists>k\<in>?K. h \<le> k)" by (auto simp: filter_empty_conv)
    show ?thesis
    proof (cases "entries t")
      case (Cons y ys)
      then have "filter (\<lambda>x. True) (entries t) = y # ys" by simp
      then have "Min {k \<in> ?K. True} = key y" using least [of "\<lambda>_. True"] by blast
      then have "Min ?K = key y" by (simp only: simp_thms Collect_mem_eq)
      then have "entry_map key (entries t) (owner_key ?K h) = Some y" using no Cons by (auto simp: owner_key_def entry_map_def)
      then show ?thesis using Nil Cons by (simp add: look_next assms next_entry_def entry_map_dom)
    qed (simp add: look_next assms next_entry_def)
  next
    case (Cons y ys)
    then have y: "Min {k \<in> ?K. h \<le> k} = key y" "y \<in> set (entries t)" using least [of "\<lambda>k. h \<le> k"] by auto
    have "y \<in> set (filter (\<lambda>x. h \<le> key x) (entries t))" using Cons by simp
    then have "\<exists>k\<in>?K. h \<le> k" by auto
    then have "entry_map key (entries t) (owner_key ?K h) = Some y" using y by (simp add: owner_key_def entry_map_Some [OF s])
    moreover have "entries t \<noteq> []" using y(2) by auto
    ultimately show ?thesis using Cons by (simp add: look_next assms next_entry_def entry_map_dom)
  qed
qed

end

interpretation kr: key_ring util_ok "\<lambda>t. inorder (u_root t)" ukey util_rbtree_insert "\<lambda>t. util_rbtree_search (Some t)"
  pos_elem util_rbtree_delete "\<lambda>t. util_rbtree_lookup (Some t)"
proof
  fix t :: "'a util_rbtree" and x :: "'a util_node" and k p
  show "util_ok t \<Longrightarrow> sorted_wrt (<) (map ukey (inorder (u_root t)))" by (simp add: util_ok_def keys_sorted_def)
  show "util_ok t \<Longrightarrow> ukey x \<notin> ukey ` set (inorder (u_root t)) \<Longrightarrow> \<exists>t'. util_rbtree_insert t x = Some t' \<and> util_ok t'
    \<and> inorder (u_root t') = filter (\<lambda>y. ukey y < ukey x) (inorder (u_root t)) @ x # filter (\<lambda>y. ukey x < ukey y) (inorder (u_root t))"
    using util_rbtree_insert_ok [of t x] by blast
  show "util_ok t \<Longrightarrow> util_rbtree_search (Some t) k = None \<Longrightarrow> k \<notin> ukey ` set (inorder (u_root t))"
    using util_rbtree_search_delete [of t k] by simp
  show "util_ok t \<Longrightarrow> util_rbtree_search (Some t) k = Some p \<Longrightarrow> \<exists>x t'. pos_elem p = Some x \<and> x \<in> set (inorder (u_root t)) \<and> ukey x = k
    \<and> util_rbtree_delete t p = Some t' \<and> util_ok t' \<and> inorder (u_root t') = filter (\<lambda>y. ukey y \<noteq> k) (inorder (u_root t))"
    using util_rbtree_search_delete [of t k] by auto
  show "util_ok t \<Longrightarrow> util_rbtree_lookup (Some t) k = next_entry ukey k (inorder (u_root t))"
    by (simp add: util_rbtree_lookup_ok ring_next_def next_entry_def)
qed

lemma util_rbtree_insert_size: "util_rbtree_insert t x = Some t' \<Longrightarrow> u_size t' = u_size t + 1"
  by (auto simp: util_rbtree_insert_def split: bind_splits)

lemma util_rbtree_delete_size: "util_rbtree_delete t p = Some t' \<Longrightarrow> u_size t' = u_size t - 1"
  by (auto simp: util_rbtree_delete_def split: bind_splits)

lemma owner_key_in:
  assumes "finite K'" and "K \<noteq> {}" and "K \<subseteq> K'"
  shows "owner_key K' h \<in> (if \<exists>k\<in>K'. h \<le> k then {k \<in> K'. h \<le> k} else K')"
proof (cases "\<exists>k\<in>K'. h \<le> k")
  case True
  have "Min {k \<in> K'. h \<le> k} \<in> {k \<in> K'. h \<le> k}" using assms(1) True by (intro Min_in) auto
  then show ?thesis using True by (simp add: owner_key_def)
next
  case False
  have "Min K' \<in> K'" using assms by (intro Min_in) auto
  then show ?thesis using False by (auto simp: owner_key_def)
qed

lemma owner_key_mono:
  assumes "finite K'" and "K \<noteq> {}" and "K \<subseteq> K'"
  shows "owner_key K' h = owner_key K h \<or> owner_key K' h \<in> K' - K"
proof (cases "owner_key K' h \<in> K")
  case True
  have f: "finite K" using assms finite_subset by blast
  have in': "owner_key K' h \<in> (if \<exists>k\<in>K'. h \<le> k then {k \<in> K'. h \<le> k} else K')"
    using assms by (rule owner_key_in)
  have least: "\<And>k. k \<in> K' \<Longrightarrow> (\<exists>k\<in>K'. h \<le> k) \<longrightarrow> h \<le> k \<Longrightarrow> owner_key K' h \<le> k"
    using assms(1) by (auto simp: owner_key_def)
  have ex: "(\<exists>k\<in>K. h \<le> k) = (\<exists>k\<in>K'. h \<le> k)" using in' True assms(3) by (auto split: if_splits)
  have "owner_key K h = owner_key K' h"
    unfolding owner_key_def [of K] using True in' least ex assms(3) f
    by (auto intro!: Min_eqI split: if_splits)
  then show ?thesis by simp
next
  case False
  have "owner_key K' h \<in> K'" using owner_key_in [OF assms, of h] by (auto split: if_splits)
  then show ?thesis using False by blast
qed

section \<open>The checker\<close>

lemma check_subtree_ok:
  "rb_wf t \<Longrightarrow> sorted_wrt (\<le>) (map ukey (inorder t)) \<Longrightarrow> t \<noteq> RB_NULL \<Longrightarrow> fini ck = 0 \<Longrightarrow> rbh ck = 0 \<or> rbh ck = ch + int (bh t) \<Longrightarrow> 0 < ch + int (bh t)
   \<Longrightarrow> 0 \<le> ch \<Longrightarrow> fini (rbtree_check_subtree t ck level ch) = 0 \<and> rbh (rbtree_check_subtree t ck level ch) = ch + int (bh t)"
proof (induction t ck level ch rule: rbtree_check_subtree.induct)
  case (2 c l x r ck level ch)
  define d where "d = (if c = RB_BLACK then ch + 1 else ch)"
  have w: "rb_wf l" "rb_wf r" "bh l = bh r" "c = RB_RED \<Longrightarrow> \<not> red_node l \<and> \<not> red_node r" using 2(3) by auto
  have so: "sorted_wrt (\<le>) (map ukey (inorder l))" "sorted_wrt (\<le>) (map ukey (inorder r))"
    "\<forall>y\<in>set (inorder l). ukey y \<le> ukey x" "\<forall>y\<in>set (inorder r). ukey x \<le> ukey y"
    using 2(4) by (auto simp: sorted_wrt_append)
  have k1: "l \<noteq> RB_NULL \<Longrightarrow> root_key l \<le> ukey x" using so(3) by (cases l) auto
  have k2: "r \<noteq> RB_NULL \<Longrightarrow> ukey x \<le> root_key r" using so(4) by (cases r) auto
  have h: "ch + int (bh (RB_node c l x r)) = d + int (bh l)" by (simp add: d_def)
  have d0: "0 \<le> d" using 2(9) by (simp add: d_def)
  have nz: "fini ck = 0" using 2(6) .
  have rb: "rbh ck = 0 \<or> rbh ck = d + int (bh l)" "0 < d + int (bh l)" using 2(7,8) unfolding h by blast+
  let ?ck = "rbtree_check_subtree l ck (level + 1) d"
  have run: "rbtree_check_subtree (RB_node c l x r) ck level ch =
      (if l = RB_NULL then check_rb_height ck level d
       else if r = RB_NULL then check_rb_height ?ck level d else rbtree_check_subtree r ?ck (level + 1) d)"
    using nz w(4) k1 k2 by (auto simp: Let_def d_def)
  show ?case
  proof (cases "l = RB_NULL")
    case True
    then have "bh l = 0" by simp
    then show ?thesis unfolding run h using True nz rb by (auto simp: check_rb_height_def Let_def)
  next
    case l: False
    have il: "fini ?ck = 0" "rbh ?ck = d + int (bh l)"
      using "2.IH"(1) [OF _ d_def l] nz l w k1 so rb d0 by auto
    show ?thesis
    proof (cases "r = RB_NULL")
      case True
      then have "bh l = 0" using w(3) by simp
      then show ?thesis unfolding run h using l True il rb by (auto simp: check_rb_height_def Let_def)
    next
      case r: False
      have "fini (rbtree_check_subtree r ?ck (level + 1) d) = 0 \<and> rbh (rbtree_check_subtree r ?ck (level + 1) d) = d + int (bh r)"
        by (rule "2.IH"(2) [OF _ d_def l _ _ refl r]) (use nz l r w k1 k2 so il rb d0 in auto)
      then show ?thesis unfolding run h using l r w(3) by simp
    qed
  qed
qed simp

text \<open>The checker accepts every red-black tree with its keys in order and finds its black height; it also accepts trees that are
  none: below a node without a left child it looks at nothing, so a black root with any subtree at all on its right passes.\<close>

theorem util_rbtree_check_verdict:
  shows "(rb_ok (u_root t) \<and> sorted_wrt (\<le>) (map ukey (inorder (u_root t))) \<and> u_root t \<noteq> RB_NULL
      \<longrightarrow> (\<exists>d. util_rbtree_check t = (0, Some (int (bh (u_root t)), d))))
    \<and> (u_root t = RB_node RB_BLACK RB_NULL x r \<longrightarrow> (\<exists>p. util_rbtree_check t = (0, p)))"
proof (intro conjI impI)
  assume a: "rb_ok (u_root t) \<and> sorted_wrt (\<le>) (map ukey (inorder (u_root t))) \<and> u_root t \<noteq> RB_NULL"
  have "0 < bh (u_root t)" using a by (cases "u_root t") (auto simp: rb_ok_def not_black [symmetric])
  then show "\<exists>d. util_rbtree_check t = (0, Some (int (bh (u_root t)), d))"
    using check_subtree_ok [of "u_root t" "\<lparr>rbh = 0, maxd = 0, fini = 0\<rparr>" 0 1] a by (auto simp: util_rbtree_check_def rb_ok_def Let_def)
qed (auto simp: util_rbtree_check_def check_rb_height_def Let_def)

definition bad_tree :: "unit util_rbtree" where
  "bad_tree = \<lparr>u_root = RB_node RB_BLACK RB_NULL \<lparr>ukey = 2, udata = ()\<rparr>
     (RB_node RB_RED (RB_node RB_RED RB_NULL \<lparr>ukey = 9, udata = ()\<rparr> RB_NULL) \<lparr>ukey = 1, udata = ()\<rparr> RB_NULL), u_size = 3\<rparr>"

theorem util_rbtree_check_verdict_witness:
  "fst (util_rbtree_check bad_tree) = 0 \<and> \<not> rb_ok (u_root bad_tree) \<and> \<not> keys_sorted (u_root bad_tree)"
proof -
  have "u_root bad_tree = RB_node RB_BLACK RB_NULL \<lparr>ukey = 2, udata = ()\<rparr>
     (RB_node RB_RED (RB_node RB_RED RB_NULL \<lparr>ukey = 9, udata = ()\<rparr> RB_NULL) \<lparr>ukey = 1, udata = ()\<rparr> RB_NULL)"
    by (simp add: bad_tree_def)
  then have "\<exists>p. util_rbtree_check bad_tree = (0, p)" using util_rbtree_check_verdict [of bad_tree] by blast
  then show ?thesis by (auto simp: bad_tree_def rb_ok_def keys_sorted_def)
qed

end
