(* ===== verification/Conhash.thy ===== *)
theory Conhash
  imports UtilRbtree Md5 Cprintf
begin

text \<open>
  Consistent hashing, as \<open>thirdparty/conhash\<close> has it (\<open>conhash.c\<close>, \<open>conhash_inter.c\<close>, \<open>conhash_util.c\<close>), on the red-black tree of \<open>UtilRbtree\<close> and the digest of
  \<open>Md5\<close>. A server is a node of the heap; it stands on the ring as one virtual node per replica, at the hash of its name and the replica's number,
  and an object belongs to the server of the first virtual node at or after the object's hash. Allocations that fail are arguments. The
  lemmas relate the tree to the map from hashes to servers, and show what consistent hashing promises: adding a server
  takes objects to it only, removing one moves its objects only.
\<close>

section \<open>State\<close>

definition NODE_FLAG_INIT :: "32 word" where "NODE_FLAG_INIT = 0x01"
definition NODE_FLAG_IN :: "32 word" where "NODE_FLAG_IN = 0x02"

record node_s =
  iden :: string
  replicas :: "32 word"
  node_index :: "32 word"
  flag :: "32 word"

record virtual_node_s =
  vhash :: int
  vnode :: nat

type_synonym node_heap = "nat \<Rightarrow> node_s option"

text \<open>A hash function gets the bytes and their number; \<open>None\<close> when it is undefined on them.\<close>

type_synonym hashfunc = "string \<Rightarrow> int \<Rightarrow> int option"

record conhash_s =
  vnode_tree :: "virtual_node_s util_rbtree"
  ivnodes :: "32 word"
  cb_hashfunc :: hashfunc

section \<open>Names and hashes\<close>

text \<open>The default hash: the digest read as four words, the lowest byte first, and summed in a \<open>long\<close>.\<close>

definition digest_word :: "8 word list \<Rightarrow> nat \<Rightarrow> int" where
  "digest_word d i = uint (d ! (i * 4 + 3)) * 2 ^ 24 + uint (d ! (i * 4 + 2)) * 2 ^ 16 + uint (d ! (i * 4 + 1)) * 2 ^ 8 + uint (d ! (i * 4))"

definition conhash_hash_def :: "8 word list \<Rightarrow> hashfunc" where
  "conhash_hash_def junk instr len = do {
     digest \<leftarrow> conhash_md5_digest junk (map of_char instr) len;
     Some (digest_word digest 0 + digest_word digest 1 + digest_word digest 2 + digest_word digest 3)
   }"

text \<open>\<open>node2string\<close>: \<open>"%s-%03d"\<close> into a buffer of 128 characters; the name's field must hold a terminator.\<close>

definition conhash_node2string :: "node_s \<Rightarrow> nat \<Rightarrow> string option" where
  "conhash_node2string node replica_idx = (if NUL \<notin> set (iden node) then None else do {
     (n, buf) \<leftarrow> snprintf (replicate 128 NUL) 0 127 ''%s-%03d'' [AStr (cstr (iden node) 0), AInt (sint (of_nat replica_idx :: 32 word))];
     Some (cstr buf 0)
   })"

section \<open>The ring\<close>

definition conhash_get_rbnode :: "bool \<Rightarrow> nat \<Rightarrow> int \<Rightarrow> virtual_node_s util_node option" where
  "conhash_get_rbnode alloc node hash = (if alloc then Some \<lparr>ukey = hash, udata = \<lparr>vhash = hash, vnode = node\<rparr>\<rparr> else None)"

fun conhash_add_replicas :: "(nat \<Rightarrow> bool) \<Rightarrow> nat list \<Rightarrow> conhash_s \<Rightarrow> nat \<Rightarrow> node_s \<Rightarrow> conhash_s option" where
  "conhash_add_replicas alloc [] conhash a node = Some conhash"
| "conhash_add_replicas alloc (i # is) conhash a node = do {
     buff \<leftarrow> conhash_node2string node i;
     hash \<leftarrow> cb_hashfunc conhash buff (int (length buff));
     conhash \<leftarrow> (case util_rbtree_search (Some (vnode_tree conhash)) hash of
         Some _ \<Rightarrow> Some conhash
       | None \<Rightarrow> (case conhash_get_rbnode (alloc i) a hash of
           None \<Rightarrow> Some conhash
         | Some rbnode \<Rightarrow> do {
             tree \<leftarrow> util_rbtree_insert (vnode_tree conhash) rbnode;
             Some (conhash\<lparr>vnode_tree := tree, ivnodes := ivnodes conhash + 1\<rparr>)
           }));
     conhash_add_replicas alloc is conhash a node
   }"

fun conhash_del_replicas :: "nat list \<Rightarrow> conhash_s \<Rightarrow> nat \<Rightarrow> node_s \<Rightarrow> conhash_s option" where
  "conhash_del_replicas [] conhash a node = Some conhash"
| "conhash_del_replicas (i # is) conhash a node = do {
     buff \<leftarrow> conhash_node2string node i;
     hash \<leftarrow> cb_hashfunc conhash buff (int (length buff));
     conhash \<leftarrow> (case util_rbtree_search (Some (vnode_tree conhash)) hash of
         None \<Rightarrow> Some conhash
       | Some rbnode \<Rightarrow> do {
           e \<leftarrow> pos_elem rbnode;
           if vhash (udata e) = hash \<and> vnode (udata e) = a then do {
             tree \<leftarrow> util_rbtree_delete (vnode_tree conhash) rbnode;
             Some (conhash\<lparr>vnode_tree := tree, ivnodes := ivnodes conhash - 1\<rparr>)
           }
           else Some conhash
         });
     conhash_del_replicas is conhash a node
   }"

section \<open>Operations\<close>

definition conhash_init :: "8 word list \<Rightarrow> bool \<Rightarrow> hashfunc option \<Rightarrow> conhash_s option" where
  "conhash_init junk calloc pfhash =
     (if \<not> calloc then None
      else Some \<lparr>vnode_tree = util_rbtree_init, ivnodes = 0,
        cb_hashfunc = (case pfhash of Some f \<Rightarrow> f | None \<Rightarrow> conhash_hash_def junk)\<rparr>)"

text \<open>The last character of the name's field is never written.\<close>

definition conhash_set_node :: "node_s \<Rightarrow> int \<Rightarrow> string \<Rightarrow> 32 word \<Rightarrow> node_s option" where
  "conhash_set_node node idx name replica = do {
     f \<leftarrow> strncpy (iden node) 0 (name @ [NUL]) 0 (int (length (iden node)) - 1);
     Some \<lparr>iden = f, replicas = replica, node_index = word_of_int idx, flag = NODE_FLAG_INIT\<rparr>
   }"

definition conhash_add_node ::
  "(nat \<Rightarrow> bool) \<Rightarrow> conhash_s option \<Rightarrow> nat option \<Rightarrow> node_heap \<Rightarrow> (int \<times> conhash_s option \<times> node_heap) option" where
  "conhash_add_node alloc conhash node h = (case (conhash, node) of
      (Some c, Some a) \<Rightarrow> do {
        n \<leftarrow> h a;
        if flag n AND NODE_FLAG_INIT = 0 \<or> flag n AND NODE_FLAG_IN \<noteq> 0 then Some (-1, conhash, h)
        else do {
          let n = n\<lparr>flag := flag n OR NODE_FLAG_IN\<rparr>;
          c \<leftarrow> conhash_add_replicas alloc [0..<unat (replicas n)] c a n;
          Some (0, Some c, h(a \<mapsto> n))
        }
      }
    | _ \<Rightarrow> Some (-1, conhash, h))"

definition conhash_del_node :: "conhash_s option \<Rightarrow> nat option \<Rightarrow> node_heap \<Rightarrow> (int \<times> conhash_s option \<times> node_heap) option" where
  "conhash_del_node conhash node h = (case (conhash, node) of
      (Some c, Some a) \<Rightarrow> do {
        n \<leftarrow> h a;
        if flag n AND NODE_FLAG_INIT = 0 \<or> flag n AND NODE_FLAG_IN = 0 then Some (-1, conhash, h)
        else do {
          let n = n\<lparr>flag := flag n AND NOT NODE_FLAG_IN\<rparr>;
          c \<leftarrow> conhash_del_replicas [0..<unat (replicas n)] c a n;
          Some (0, Some c, h(a := None))
        }
      }
    | _ \<Rightarrow> Some (-1, conhash, h))"

definition conhash_lookup :: "conhash_s option \<Rightarrow> string option \<Rightarrow> int \<Rightarrow> nat option option" where
  "conhash_lookup conhash object len = (case (conhash, object) of
      (Some c, Some obj) \<Rightarrow>
        if ivnodes c = 0 then Some None
        else do {
          hash \<leftarrow> cb_hashfunc c (take (nat len) obj) len;
          Some (map_option (\<lambda>e. vnode (udata e)) (util_rbtree_lookup (Some (vnode_tree c)) hash))
        }
    | _ \<Rightarrow> Some None)"

text \<open>\<open>conhash_fini\<close>: the nodes freed, in order, and the heap left; \<open>None\<close> also when the loop does not end.\<close>

partial_function (option) fini_loop :: "conhash_s \<Rightarrow> node_heap \<Rightarrow> (node_heap \<times> nat list) option" where
  "fini_loop c h = (case u_root (vnode_tree c) of
      RB_NULL \<Rightarrow> Some (h, [])
    | RB_node _ _ rbnode _ \<Rightarrow> do {
        (r, c', h') \<leftarrow> conhash_del_node (Some c) (Some (vnode (udata rbnode))) h;
        (case c' of None \<Rightarrow> None | Some c' \<Rightarrow> do {
          (h'', freed) \<leftarrow> fini_loop c' h';
          Some (h'', (if r = 0 then [vnode (udata rbnode)] else []) @ freed)
        })
      })"

definition conhash_fini :: "conhash_s option \<Rightarrow> node_heap \<Rightarrow> (node_heap \<times> nat list) option" where
  "conhash_fini conhash h = (case conhash of None \<Rightarrow> Some (h, []) | Some c \<Rightarrow> fini_loop c h)"

text \<open>\<open>conhash_get_vnodes\<close>: the hashes in order, as many as fit; the callback's state is the array and the position.\<close>

definition get_vnodes :: "int \<Rightarrow> virtual_node_s util_node \<Rightarrow> (int list \<times> int) option \<Rightarrow> (int list \<times> int) option" where
  "get_vnodes sz node s = do {
     (values, cur) \<leftarrow> s;
     if cur < sz then do { values \<leftarrow> wr values cur (ukey node); Some (values, cur + 1) } else Some (values, cur)
   }"

definition conhash_get_vnodes :: "conhash_s option \<Rightarrow> int list option \<Rightarrow> int \<Rightarrow> int list option option" where
  "conhash_get_vnodes conhash values sz = (case (conhash, values) of
      (Some c, Some vs) \<Rightarrow>
        if sz \<le> 0 then Some values
        else map_option (\<lambda>s. Some (fst s)) (util_rbtree_mid_travel (Some (vnode_tree c)) (get_vnodes sz) (Some (vs, 0)))
    | _ \<Rightarrow> Some values)"

definition conhash_get_vnodes_num :: "conhash_s option \<Rightarrow> 32 word" where
  "conhash_get_vnodes_num conhash = (case conhash of None \<Rightarrow> 0 | Some c \<Rightarrow> ivnodes c)"

section \<open>The ring as a map\<close>

text \<open>The key of a replica, the keys of a node, the entries of the ring by key and the server at a key.\<close>

definition replica_key :: "hashfunc \<Rightarrow> node_s \<Rightarrow> nat \<Rightarrow> int option" where
  "replica_key f n i = do { buff \<leftarrow> conhash_node2string n i; f buff (int (length buff)) }"

definition keys_of :: "hashfunc \<Rightarrow> node_s \<Rightarrow> nat list \<Rightarrow> int set" where
  "keys_of f n is = {k. \<exists>i\<in>set is. replica_key f n i = Some k}"

definition hashable :: "hashfunc \<Rightarrow> node_s \<Rightarrow> bool" where
  "hashable f n \<longleftrightarrow> (\<forall>i<unat (replicas n). replica_key f n i \<noteq> None)"

definition vnodes :: "conhash_s \<Rightarrow> int \<Rightarrow> virtual_node_s util_node option" where
  "vnodes c = entry_map ukey (inorder (u_root (vnode_tree c)))"

definition server_at :: "conhash_s \<Rightarrow> int \<Rightarrow> nat option" where
  "server_at c k = map_option (\<lambda>e. vnode (udata e)) (vnodes c k)"

definition ring_length :: "conhash_s \<Rightarrow> nat" where
  "ring_length c = length (inorder (u_root (vnode_tree c)))"

definition ring_ok :: "conhash_s \<Rightarrow> bool" where
  "ring_ok c \<longleftrightarrow> util_ok (vnode_tree c) \<and> ivnodes c = of_nat (ring_length c) \<and> (\<forall>k e. vnodes c k = Some e \<longrightarrow> vhash (udata e) = k)"

definition on_ring :: "node_s \<Rightarrow> bool" where
  "on_ring n \<longleftrightarrow> flag n AND NODE_FLAG_INIT \<noteq> 0 \<and> flag n AND NODE_FLAG_IN \<noteq> 0"

text \<open>Every virtual node stands at a key of its server, which is in the heap and marked as being on the ring.\<close>

definition conhash_inv :: "conhash_s \<Rightarrow> node_heap \<Rightarrow> bool" where
  "conhash_inv c h \<longleftrightarrow> ring_ok c \<and> ring_length c < 2 ^ 32 \<and> (\<forall>k a. server_at c k = Some a \<longrightarrow>
     (\<exists>n. h a = Some n \<and> on_ring n \<and> hashable (cb_hashfunc c) n \<and> k \<in> keys_of (cb_hashfunc c) n [0..<unat (replicas n)]))"

lemma replica_key_flag [simp]: "replica_key f (n\<lparr>flag := w\<rparr>) i = replica_key f n i" "hashable f (n\<lparr>flag := w\<rparr>) = hashable f n"
  "keys_of f (n\<lparr>flag := w\<rparr>) is = keys_of f n is"
  by (simp_all add: replica_key_def conhash_node2string_def hashable_def keys_of_def)

lemma keys_of_Cons: "keys_of f n (i # is) = (case replica_key f n i of None \<Rightarrow> {} | Some k \<Rightarrow> {k}) \<union> keys_of f n is"
  by (auto simp: keys_of_def split: option.splits)

lemma ring_length_0: "ring_length c = 0 \<longleftrightarrow> vnodes c = Map.empty"
  by (auto simp: ring_length_def vnodes_def entry_map_def)

text \<open>One replica of an addition.\<close>

lemma add_replica:
  assumes "ring_ok c" and "replica_key (cb_hashfunc c) n i = Some k"
  shows "\<exists>c'. conhash_add_replicas alloc (i # is) c a n = conhash_add_replicas alloc is c' a n \<and> ring_ok c' \<and> cb_hashfunc c' = cb_hashfunc c
    \<and> ring_length c' \<le> ring_length c + 1
    \<and> vnodes c' = (if vnodes c k = None \<and> alloc i then (vnodes c)(k \<mapsto> \<lparr>ukey = k, udata = \<lparr>vhash = k, vnode = a\<rparr>\<rparr>) else vnodes c)"
proof -
  obtain b where b: "conhash_node2string n i = Some b" "cb_hashfunc c b (int (length b)) = Some k"
    using assms(2) by (auto simp: replica_key_def split: bind_splits)
  have ok: "util_ok (vnode_tree c)" using assms(1) by (simp add: ring_ok_def)
  show ?thesis
  proof (cases "util_rbtree_search (Some (vnode_tree c)) k")
    case (Some p)
    then have "vnodes c k \<noteq> None" using kr.find_del_map [OF ok Some] by (auto simp: vnodes_def)
    then show ?thesis using Some b assms(1) by (intro exI [of _ c]) auto
  next
    case None
    have v: "vnodes c k = None" using kr.find_None_map [OF ok None] by (simp add: vnodes_def)
    show ?thesis
    proof (cases "alloc i")
      case True
      define x where "x = \<lparr>ukey = k, udata = \<lparr>vhash = k, vnode = a\<rparr>\<rparr>"
      have kx: "ukey x = k" "vhash (udata x) = k" by (simp_all add: x_def)
      obtain t' where t': "util_rbtree_insert (vnode_tree c) x = Some t'" "util_ok t'"
        "entry_map ukey (inorder (u_root t')) = (entry_map ukey (inorder (u_root (vnode_tree c))))(k \<mapsto> x)"
        "length (inorder (u_root t')) = length (inorder (u_root (vnode_tree c))) + 1"
        using kr.ins_map [OF ok, of x] v by (auto simp: vnodes_def kx)
      define c' where "c' = c\<lparr>vnode_tree := t', ivnodes := ivnodes c + 1\<rparr>"
      have f: "vnodes c' = (vnodes c)(k \<mapsto> x)" "ring_length c' = ring_length c + 1" "cb_hashfunc c' = cb_hashfunc c"
        "vnode_tree c' = t'" "ivnodes c' = ivnodes c + 1"
        using t'(3,4) by (simp_all add: c'_def vnodes_def ring_length_def)
      have "ring_ok c'" using assms(1) t'(2) by (auto simp: ring_ok_def f kx)
      moreover have "conhash_add_replicas alloc (i # is) c a n = conhash_add_replicas alloc is c' a n"
        using b None True t'(1) by (simp add: conhash_get_rbnode_def x_def [symmetric] c'_def)
      ultimately show ?thesis using v True f by (intro exI [of _ c']) (simp add: x_def)
    next
      case False
      then show ?thesis using None b assms(1) by (intro exI [of _ c]) (auto simp: conhash_get_rbnode_def)
    qed
  qed
qed

lemma add_replicas_ok:
  assumes "ring_ok c" and "\<forall>i\<in>set is. replica_key (cb_hashfunc c) n i \<noteq> None"
  shows "\<exists>c'. conhash_add_replicas alloc is c a n = Some c' \<and> ring_ok c' \<and> cb_hashfunc c' = cb_hashfunc c
    \<and> ring_length c' \<le> ring_length c + length is \<and> (\<forall>k b. server_at c k = Some b \<longrightarrow> server_at c' k = Some b)
    \<and> (\<forall>k b. server_at c' k = Some b \<longrightarrow> server_at c k = Some b \<or> b = a \<and> k \<in> keys_of (cb_hashfunc c) n is)
    \<and> ((\<forall>i. alloc i) \<longrightarrow> (\<forall>k\<in>keys_of (cb_hashfunc c) n is. server_at c' k \<noteq> None))"
  using assms
proof (induction "is" arbitrary: c)
  case (Cons i "is")
  obtain k where k: "replica_key (cb_hashfunc c) n i = Some k" using Cons.prems(2) by auto
  obtain c1 where c1: "conhash_add_replicas alloc (i # is) c a n = conhash_add_replicas alloc is c1 a n" "ring_ok c1"
    "cb_hashfunc c1 = cb_hashfunc c" "ring_length c1 \<le> ring_length c + 1"
    "vnodes c1 = (if vnodes c k = None \<and> alloc i then (vnodes c)(k \<mapsto> \<lparr>ukey = k, udata = \<lparr>vhash = k, vnode = a\<rparr>\<rparr>) else vnodes c)"
    using add_replica [OF Cons.prems(1) k] by blast
  have s: "server_at c1 = (if server_at c k = None \<and> alloc i then (server_at c)(k \<mapsto> a) else server_at c)"
    by (rule ext) (simp add: server_at_def c1(5))
  obtain c' where c': "conhash_add_replicas alloc is c1 a n = Some c'" "ring_ok c'" "cb_hashfunc c' = cb_hashfunc c"
    "ring_length c' \<le> ring_length c1 + length is" "\<forall>k b. server_at c1 k = Some b \<longrightarrow> server_at c' k = Some b"
    "\<forall>k b. server_at c' k = Some b \<longrightarrow> server_at c1 k = Some b \<or> b = a \<and> k \<in> keys_of (cb_hashfunc c) n is"
    "(\<forall>i. alloc i) \<longrightarrow> (\<forall>k\<in>keys_of (cb_hashfunc c) n is. server_at c' k \<noteq> None)"
    using Cons.IH [OF c1(2)] Cons.prems(2) c1(3) by auto
  have "\<forall>k b. server_at c k = Some b \<longrightarrow> server_at c1 k = Some b" by (auto simp: s)
  then have "\<forall>k b. server_at c k = Some b \<longrightarrow> server_at c' k = Some b" using c'(5) by blast
  moreover have "\<forall>k b. server_at c' k = Some b \<longrightarrow> server_at c k = Some b \<or> b = a \<and> k \<in> keys_of (cb_hashfunc c) n (i # is)"
    using c'(6) s k by (fastforce simp: keys_of_Cons split: if_splits)
  moreover have "(\<forall>i. alloc i) \<longrightarrow> server_at c1 k \<noteq> None" using s by auto
  then have "(\<forall>i. alloc i) \<longrightarrow> (\<forall>k\<in>keys_of (cb_hashfunc c) n (i # is). server_at c' k \<noteq> None)"
    using c'(5,7) k by (auto simp: keys_of_Cons)
  ultimately show ?case using c1(1,4) c'(1-4) by auto
qed (auto simp: keys_of_def)


text \<open>One replica of a removal.\<close>

lemma del_replica:
  assumes "ring_ok c" and "replica_key (cb_hashfunc c) n i = Some k"
  shows "\<exists>c'. conhash_del_replicas (i # is) c a n = conhash_del_replicas is c' a n \<and> ring_ok c' \<and> cb_hashfunc c' = cb_hashfunc c
    \<and> vnodes c' = (if server_at c k = Some a then (vnodes c)(k := None) else vnodes c)
    \<and> (if server_at c k = Some a then ring_length c = ring_length c' + 1 else ring_length c' = ring_length c)"
proof -
  obtain b where b: "conhash_node2string n i = Some b" "cb_hashfunc c b (int (length b)) = Some k"
    using assms(2) by (auto simp: replica_key_def split: bind_splits)
  have ok: "util_ok (vnode_tree c)" using assms(1) by (simp add: ring_ok_def)
  show ?thesis
  proof (cases "util_rbtree_search (Some (vnode_tree c)) k")
    case None
    then have "server_at c k = None" using kr.find_None_map [OF ok None] by (simp add: vnodes_def server_at_def)
    then show ?thesis using None b assms(1) by (intro exI [of _ c]) auto
  next
    case (Some p)
    obtain x t' where x: "pos_elem p = Some x" "vnodes c k = Some x" "util_rbtree_delete (vnode_tree c) p = Some t'" "util_ok t'"
      "entry_map ukey (inorder (u_root t')) = (vnodes c)(k := None)"
      "length (inorder (u_root (vnode_tree c))) = length (inorder (u_root t')) + 1"
      using kr.find_del_map [OF ok Some] by (auto simp: vnodes_def)
    have vh: "vhash (udata x) = k" using assms(1) x(2) by (auto simp: ring_ok_def)
    have s: "server_at c k = Some (vnode (udata x))" by (simp add: server_at_def x(2))
    show ?thesis
    proof (cases "vnode (udata x) = a")
      case True
      define c' where "c' = c\<lparr>vnode_tree := t', ivnodes := ivnodes c - 1\<rparr>"
      have f: "vnodes c' = (vnodes c)(k := None)" "ring_length c = ring_length c' + 1" "cb_hashfunc c' = cb_hashfunc c"
        "vnode_tree c' = t'" "ivnodes c' = ivnodes c - 1"
        using x(5,6) by (simp_all add: c'_def vnodes_def ring_length_def)
      have "ring_ok c'" using assms(1) x(4) by (auto simp: ring_ok_def f)
      moreover have "conhash_del_replicas (i # is) c a n = conhash_del_replicas is c' a n"
        using b Some x(1,3) True vh by (simp add: c'_def)
      ultimately show ?thesis using f s True by (intro exI [of _ c']) simp
    next
      case False
      then show ?thesis using Some b x(1) s assms(1) by (intro exI [of _ c]) auto
    qed
  qed
qed

lemma del_replicas_ok:
  assumes "ring_ok c" and "\<forall>i\<in>set is. replica_key (cb_hashfunc c) n i \<noteq> None"
  shows "\<exists>c'. conhash_del_replicas is c a n = Some c' \<and> ring_ok c' \<and> cb_hashfunc c' = cb_hashfunc c
    \<and> server_at c' = (\<lambda>k. if k \<in> keys_of (cb_hashfunc c) n is \<and> server_at c k = Some a then None else server_at c k)
    \<and> ring_length c' \<le> ring_length c \<and> ((\<exists>k\<in>keys_of (cb_hashfunc c) n is. server_at c k = Some a) \<longrightarrow> ring_length c' < ring_length c)"
  using assms
proof (induction "is" arbitrary: c)
  case (Cons i "is")
  obtain k where k: "replica_key (cb_hashfunc c) n i = Some k" using Cons.prems(2) by auto
  obtain c1 where c1: "conhash_del_replicas (i # is) c a n = conhash_del_replicas is c1 a n" "ring_ok c1" "cb_hashfunc c1 = cb_hashfunc c"
    "vnodes c1 = (if server_at c k = Some a then (vnodes c)(k := None) else vnodes c)"
    "if server_at c k = Some a then ring_length c = ring_length c1 + 1 else ring_length c1 = ring_length c"
    using del_replica [OF Cons.prems(1) k] by blast
  have s: "server_at c1 = (if server_at c k = Some a then (server_at c)(k := None) else server_at c)"
    by (rule ext) (auto simp: server_at_def c1(4))
  obtain c' where c': "conhash_del_replicas is c1 a n = Some c'" "ring_ok c'" "cb_hashfunc c' = cb_hashfunc c"
    "server_at c' = (\<lambda>k. if k \<in> keys_of (cb_hashfunc c) n is \<and> server_at c1 k = Some a then None else server_at c1 k)"
    "ring_length c' \<le> ring_length c1" "(\<exists>k\<in>keys_of (cb_hashfunc c) n is. server_at c1 k = Some a) \<longrightarrow> ring_length c' < ring_length c1"
    using Cons.IH [OF c1(2)] Cons.prems(2) c1(3) by auto
  have "server_at c' = (\<lambda>k. if k \<in> keys_of (cb_hashfunc c) n (i # is) \<and> server_at c k = Some a then None else server_at c k)"
    by (rule ext) (auto simp: c'(4) s keys_of_Cons k)
  moreover have "ring_length c' \<le> ring_length c" using c'(5) c1(5) by (auto split: if_splits)
  moreover have "(\<exists>k\<in>keys_of (cb_hashfunc c) n (i # is). server_at c k = Some a) \<longrightarrow> ring_length c' < ring_length c"
  proof (cases "server_at c k = Some a")
    case True
    then show ?thesis using c'(5) c1(5) by simp
  next
    case False
    then show ?thesis using c'(6) c1(5) s k by (auto simp: keys_of_Cons)
  qed
  ultimately show ?case using c1(1) c'(1-3) by auto
qed (auto simp: keys_of_def)

section \<open>The operations keep the invariant\<close>

lemma flag_in: "flag n AND NODE_FLAG_INIT \<noteq> 0 \<Longrightarrow> on_ring (n\<lparr>flag := flag n OR NODE_FLAG_IN\<rparr>)"
  by (simp add: on_ring_def NODE_FLAG_INIT_def NODE_FLAG_IN_def bit.conj_disj_distrib2 or_eq_0_iff)

lemma inv_server:
  assumes "conhash_inv c h" and "server_at c k = Some a" and "h a = Some n"
  shows "on_ring n \<and> hashable (cb_hashfunc c) n \<and> k \<in> keys_of (cb_hashfunc c) n [0..<unat (replicas n)]"
  using assms unfolding conhash_inv_def by (metis option.inject)

lemma keys_of_all: "hashable f n \<Longrightarrow> \<forall>i\<in>set [0..<unat (replicas n)]. replica_key f n i \<noteq> None"
  by (simp add: hashable_def)

lemma conhash_add_ok:
  assumes "conhash_inv c h" and "h a = Some n" and "flag n AND NODE_FLAG_INIT \<noteq> 0" and "flag n AND NODE_FLAG_IN = 0"
    and "hashable (cb_hashfunc c) n" and "ring_length c + unat (replicas n) < 2 ^ 32"
  shows "\<exists>c'. conhash_add_node alloc (Some c) (Some a) h = Some (0, Some c', h(a \<mapsto> n\<lparr>flag := flag n OR NODE_FLAG_IN\<rparr>))
    \<and> conhash_inv c' (h(a \<mapsto> n\<lparr>flag := flag n OR NODE_FLAG_IN\<rparr>)) \<and> cb_hashfunc c' = cb_hashfunc c
    \<and> ring_length c' \<le> ring_length c + unat (replicas n) \<and> (\<forall>k b. server_at c k = Some b \<longrightarrow> server_at c' k = Some b)
    \<and> (\<forall>k b. server_at c' k = Some b \<longrightarrow> server_at c k = Some b \<or> b = a)
    \<and> ((\<forall>i. alloc i) \<longrightarrow> (\<forall>k\<in>keys_of (cb_hashfunc c) n [0..<unat (replicas n)]. server_at c' k \<noteq> None))"
proof -
  let ?n = "n\<lparr>flag := flag n OR NODE_FLAG_IN\<rparr>"
  have ok: "ring_ok c" using assms(1) by (simp add: conhash_inv_def)
  obtain c' where c': "conhash_add_replicas alloc [0..<unat (replicas n)] c a ?n = Some c'" "ring_ok c'" "cb_hashfunc c' = cb_hashfunc c"
    "ring_length c' \<le> ring_length c + unat (replicas n)" "\<forall>k b. server_at c k = Some b \<longrightarrow> server_at c' k = Some b"
    "\<forall>k b. server_at c' k = Some b \<longrightarrow> server_at c k = Some b \<or> b = a \<and> k \<in> keys_of (cb_hashfunc c) n [0..<unat (replicas n)]"
    "(\<forall>i. alloc i) \<longrightarrow> (\<forall>k\<in>keys_of (cb_hashfunc c) n [0..<unat (replicas n)]. server_at c' k \<noteq> None)"
    using add_replicas_ok [OF ok, of "[0..<unat (replicas n)]" ?n alloc a] keys_of_all [OF assms(5)] by auto
  have free: "server_at c k \<noteq> Some a" for k
  proof
    assume "server_at c k = Some a"
    then have "on_ring n" using inv_server [OF assms(1) _ assms(2)] by blast
    then show False using assms(4) by (simp add: on_ring_def)
  qed
  have "conhash_inv c' (h(a \<mapsto> ?n))"
    unfolding conhash_inv_def
  proof (intro conjI allI impI)
    fix k b assume b: "server_at c' k = Some b"
    show "\<exists>n'. (h(a \<mapsto> ?n)) b = Some n' \<and> on_ring n' \<and> hashable (cb_hashfunc c') n' \<and> k \<in> keys_of (cb_hashfunc c') n' [0..<unat (replicas n')]"
    proof (cases "server_at c k = Some b")
      case True
      then show ?thesis using free [of k] assms(1) c'(3) by (auto simp: conhash_inv_def)
    next
      case False
      then show ?thesis using b c'(3,6) flag_in [OF assms(3)] assms(5) by auto
    qed
  qed (use c' assms(6) in auto)
  moreover have "conhash_add_node alloc (Some c) (Some a) h = Some (0, Some c', h(a \<mapsto> ?n))"
    using assms(2-4) c'(1) by (simp add: conhash_add_node_def)
  ultimately show ?thesis using c' by blast
qed

lemma conhash_del_ok:
  assumes "conhash_inv c h" and "h a = Some n" and "on_ring n" and "hashable (cb_hashfunc c) n"
  shows "\<exists>c'. conhash_del_node (Some c) (Some a) h = Some (0, Some c', h(a := None)) \<and> conhash_inv c' (h(a := None))
    \<and> cb_hashfunc c' = cb_hashfunc c \<and> server_at c' = (\<lambda>k. if server_at c k = Some a then None else server_at c k)
    \<and> ((\<exists>k. server_at c k = Some a) \<longrightarrow> ring_length c' < ring_length c)"
proof -
  let ?n = "n\<lparr>flag := flag n AND NOT NODE_FLAG_IN\<rparr>"
  have ok: "ring_ok c" using assms(1) by (simp add: conhash_inv_def)
  have own: "server_at c k = Some a \<Longrightarrow> k \<in> keys_of (cb_hashfunc c) n [0..<unat (replicas n)]" for k
    using inv_server [OF assms(1) _ assms(2)] by blast
  obtain c' where c': "conhash_del_replicas [0..<unat (replicas n)] c a ?n = Some c'" "ring_ok c'" "cb_hashfunc c' = cb_hashfunc c"
    "server_at c' = (\<lambda>k. if k \<in> keys_of (cb_hashfunc c) n [0..<unat (replicas n)] \<and> server_at c k = Some a then None else server_at c k)"
    "ring_length c' \<le> ring_length c"
    "(\<exists>k\<in>keys_of (cb_hashfunc c) n [0..<unat (replicas n)]. server_at c k = Some a) \<longrightarrow> ring_length c' < ring_length c"
    using del_replicas_ok [OF ok, of "[0..<unat (replicas n)]" ?n a] keys_of_all [OF assms(4)] by auto
  have s: "server_at c' = (\<lambda>k. if server_at c k = Some a then None else server_at c k)"
    unfolding c'(4) by (rule ext) (auto dest: own)
  have "conhash_inv c' (h(a := None))"
    unfolding conhash_inv_def
  proof (intro conjI allI impI)
    fix k b assume "server_at c' k = Some b"
    then have "server_at c k = Some b" "b \<noteq> a" by (auto simp: s split: if_splits)
    then show "\<exists>n'. (h(a := None)) b = Some n' \<and> on_ring n' \<and> hashable (cb_hashfunc c') n' \<and> k \<in> keys_of (cb_hashfunc c') n' [0..<unat (replicas n')]"
      using assms(1) c'(3) by (auto simp: conhash_inv_def)
  qed (use c' assms(1) in \<open>auto simp: conhash_inv_def\<close>)
  moreover have "conhash_del_node (Some c) (Some a) h = Some (0, Some c', h(a := None))"
    using assms(2,3) c'(1) by (simp add: conhash_del_node_def on_ring_def)
  ultimately show ?thesis using c' s own by blast
qed


section \<open>Look-up\<close>

definition owner :: "(int \<Rightarrow> nat option) \<Rightarrow> int \<Rightarrow> nat option" where
  "owner m h = (if m = Map.empty then None else m (owner_key (dom m) h))"

lemma dom_server_at: "dom (server_at c) = ukey ` set (inorder (u_root (vnode_tree c)))"
proof -
  have "dom (server_at c) = dom (vnodes c)" by (auto simp: server_at_def dom_def)
  then show ?thesis by (simp add: vnodes_def entry_map_dom)
qed

lemma finite_servers [simp]: "finite (dom (server_at c))"
  by (simp add: dom_server_at)

lemma server_at_empty: "server_at c = Map.empty \<longleftrightarrow> ring_length c = 0"
proof -
  have "server_at c = Map.empty \<longleftrightarrow> dom (server_at c) = {}" by simp
  then show ?thesis by (simp only: dom_server_at) (simp add: ring_length_def)
qed

lemma conhash_lookup_ok:
  assumes "conhash_inv c h" and "cb_hashfunc c (take (nat len) obj) len = Some k"
  shows "conhash_lookup (Some c) (Some obj) len = Some (owner (server_at c) k)"
proof -
  have ok: "util_ok (vnode_tree c)" "ivnodes c = of_nat (ring_length c)" "ring_length c < 2 ^ 32"
    using assms(1) by (auto simp: conhash_inv_def ring_ok_def)
  have iv: "ivnodes c = 0 \<longleftrightarrow> ring_length c = 0"
    using ok(2,3) nat_dvd_not_less [of "ring_length c" "2 ^ 32"] by (auto simp: word_of_nat_eq_0_iff)
  show ?thesis
  proof (cases "ring_length c = 0")
    case True
    then show ?thesis using iv by (simp add: conhash_lookup_def owner_def server_at_empty)
  next
    case False
    have d: "dom (server_at c) = dom (vnodes c)" by (auto simp: server_at_def dom_def)
    have "util_rbtree_lookup (Some (vnode_tree c)) k = vnodes c (owner_key (dom (vnodes c)) k)"
      using kr.look_owner [OF ok(1), of k] False by (auto simp: vnodes_def ring_length_def)
    moreover have "server_at c \<noteq> Map.empty" using False by (simp add: server_at_empty)
    ultimately show ?thesis using assms(2) iv False by (simp add: conhash_lookup_def owner_def d) (simp add: server_at_def)
  qed
qed

text \<open>A larger ring gives an object a new server only; a smaller one keeps the server unless it went.\<close>

lemma owner_key_dom: "finite (dom m) \<Longrightarrow> dom m \<noteq> {} \<Longrightarrow> owner_key (dom m) h \<in> dom m"
  using owner_key_in [of "dom m" "dom m" h] by (auto split: if_splits)

lemma owner_grow:
  assumes "finite (dom m')" and "\<And>k b. m k = Some b \<Longrightarrow> m' k = Some b" and "\<And>k b. m' k = Some b \<Longrightarrow> m k = Some b \<or> b = a"
  shows "owner m' h = owner m h \<or> owner m' h = Some a"
proof (cases "m = Map.empty")
  case True
  show ?thesis
  proof (cases "m' = Map.empty")
    case False
    then have "dom m' \<noteq> {}" by simp
    then have "owner_key (dom m') h \<in> dom m'" using owner_key_dom assms(1) by blast
    then show ?thesis using assms(3) True False by (auto simp: owner_def)
  qed (simp add: owner_def True)
next
  case False
  then have n: "dom m \<noteq> {}" "dom m \<subseteq> dom m'" using assms(2) by auto
  then have m': "m' \<noteq> Map.empty" by auto
  have i: "owner_key (dom m) h \<in> dom m"
    using owner_key_dom n(1) assms(1) finite_subset [OF n(2)] by blast
  from owner_key_mono [OF assms(1) n, of h] show ?thesis
  proof
    assume "owner_key (dom m') h = owner_key (dom m) h"
    then show ?thesis using i(1) assms(2) False m' by (auto simp: owner_def)
  next
    assume "owner_key (dom m') h \<in> dom m' - dom m"
    then obtain b where "m' (owner_key (dom m') h) = Some b" "m (owner_key (dom m') h) = None" by auto
    then show ?thesis using assms(3) m' by (force simp: owner_def)
  qed
qed

lemma owner_shrink:
  assumes "finite (dom m)"
  shows "owner (\<lambda>k. if m k = Some a then None else m k) h = owner m h \<or> owner m h = Some a"
proof -
  have "owner m h = owner (\<lambda>k. if m k = Some a then None else m k) h \<or> owner m h = Some a"
    by (rule owner_grow) (use assms in \<open>auto split: if_splits\<close>)
  then show ?thesis by metis
qed

lemma lookup_either:
  assumes "conhash_inv c h" and "conhash_inv c' h'" and "cb_hashfunc c' = cb_hashfunc c"
    and "\<And>k. owner (server_at c') k = owner (server_at c) k \<or> owner (server_at c') k = Some a"
  shows "\<forall>obj len. cb_hashfunc c (take (nat len) obj) len \<noteq> None \<longrightarrow>
          conhash_lookup (Some c') (Some obj) len = conhash_lookup (Some c) (Some obj) len
          \<or> conhash_lookup (Some c') (Some obj) len = Some (Some a)"
proof (intro allI impI)
  fix obj len assume "cb_hashfunc c (take (nat len) obj) len \<noteq> None"
  then obtain k where "cb_hashfunc c (take (nat len) obj) len = Some k" by auto
  then show "conhash_lookup (Some c') (Some obj) len = conhash_lookup (Some c) (Some obj) len
          \<or> conhash_lookup (Some c') (Some obj) len = Some (Some a)"
    using conhash_lookup_ok [OF assms(1)] conhash_lookup_ok [OF assms(2)] assms(3) assms(4) [of k] by simp
qed

lemma lookup_either2:
  assumes "conhash_inv c h" and "conhash_inv c' h'" and "cb_hashfunc c' = cb_hashfunc c"
    and "\<And>k. owner (server_at c') k = owner (server_at c) k \<or> owner (server_at c) k = Some a"
  shows "\<forall>obj len. cb_hashfunc c (take (nat len) obj) len \<noteq> None \<longrightarrow>
          conhash_lookup (Some c') (Some obj) len = conhash_lookup (Some c) (Some obj) len
          \<or> conhash_lookup (Some c) (Some obj) len = Some (Some a)"
  using lookup_either [OF assms(2,1) assms(3) [symmetric], of a] assms(4) unfolding assms(3) by metis

section \<open>What consistent hashing promises\<close>


text \<open>Putting a server on the ring and taking it off again leaves every object with the server it had.\<close>

theorem conhash_add_del_roundtrip:
  assumes "conhash_inv c h" and "h a = Some n" and "hashable (cb_hashfunc c) n" and "flag n AND NODE_FLAG_INIT \<noteq> 0"
    and "flag n AND NODE_FLAG_IN = 0" and "ring_length c + unat (replicas n) < 2 ^ 32"
  shows "\<exists>c' h' c''. conhash_add_node alloc (Some c) (Some a) h = Some (0, Some c', h')
    \<and> conhash_del_node (Some c') (Some a) h' = Some (0, Some c'', h(a := None)) \<and> server_at c'' = server_at c"
proof -
  let ?n = "n\<lparr>flag := flag n OR NODE_FLAG_IN\<rparr>"
  obtain c' where c': "conhash_add_node alloc (Some c) (Some a) h = Some (0, Some c', h(a \<mapsto> ?n))" "conhash_inv c' (h(a \<mapsto> ?n))"
    "cb_hashfunc c' = cb_hashfunc c"
    "\<forall>k b. server_at c k = Some b \<longrightarrow> server_at c' k = Some b" "\<forall>k b. server_at c' k = Some b \<longrightarrow> server_at c k = Some b \<or> b = a"
    using conhash_add_ok [OF assms(1,2,4,5,3,6), of alloc] by blast
  have free: "server_at c k \<noteq> Some a" for k
    using inv_server [OF assms(1) _ assms(2), of k] assms(5) by (auto simp: on_ring_def)
  obtain c'' where c'': "conhash_del_node (Some c') (Some a) (h(a \<mapsto> ?n)) = Some (0, Some c'', h(a := None))"
    "server_at c'' = (\<lambda>k. if server_at c' k = Some a then None else server_at c' k)"
    using conhash_del_ok [OF c'(2), of a ?n] flag_in [OF assms(4)] assms(3) c'(3) by auto
  have "server_at c'' k = server_at c k" for k
  proof (cases "server_at c k")
    case None
    then have "server_at c' k = None \<or> server_at c' k = Some a" using c'(5) by (metis option.exhaust option.distinct(1))
    then show ?thesis using None c''(2) by auto
  next
    case (Some b)
    then show ?thesis using c'(4) free [of k] c''(2) by simp
  qed
  then show ?thesis using c'(1) c''(1) by blast
qed


section \<open>The end of a ring\<close>

lemma fini_stuck:
  assumes "u_root (vnode_tree c) = RB_node col l x r" and "h (vnode (udata x)) = Some n"
    and "flag n AND NODE_FLAG_INIT = 0 \<or> flag n AND NODE_FLAG_IN = 0"
  shows "fini_loop c h = None"
proof (rule ccontr)
  assume "fini_loop c h \<noteq> None"
  then obtain p where "fini_loop c h = Some p" by auto
  then have "c \<noteq> c \<or> h \<noteq> h"
  proof (rule fini_loop.raw_induct [rotated, where P = "\<lambda>c' h' p. c' \<noteq> c \<or> h' \<noteq> h"], goal_cases)
    case (1 f c' h' p)
    show ?case
    proof (rule ccontr)
      assume "\<not> (c' \<noteq> c \<or> h' \<noteq> h)"
      then have e: "c' = c" "h' = h" by auto
      have "conhash_del_node (Some c) (Some (vnode (udata x))) h = Some (-1, Some c, h)"
        using assms(2,3) by (auto simp: conhash_del_node_def)
      then obtain q where "f c h = Some q" using 1(2) assms(1) by (auto simp: e split: bind_splits)
      then show False using 1(1) by blast
    qed
  qed
  then show False by blast
qed

lemma fini_loop_ok:
  "conhash_inv c h \<Longrightarrow> \<exists>h' freed. fini_loop c h = Some (h', freed) \<and> distinct freed \<and> set freed = ran (server_at c)
    \<and> h' = (\<lambda>a. if a \<in> set freed then None else h a)"
proof (induction "ring_length c" arbitrary: c h rule: less_induct)
  case less
  show ?case
  proof (cases "u_root (vnode_tree c)")
    case RB_NULL
    then have "server_at c = Map.empty" by (simp add: server_at_empty ring_length_def)
    then show ?thesis using RB_NULL by (simp add: fini_loop.simps)
  next
    case (RB_node col l x r)
    define a where "a = vnode (udata x)"
    have ok: "util_ok (vnode_tree c)" using less.prems by (simp add: conhash_inv_def ring_ok_def)
    have "vnodes c (ukey x) = Some x" unfolding vnodes_def
      by (subst entry_map_Some) (use ok RB_node in \<open>auto simp: util_ok_def keys_sorted_def\<close>)
    then have s: "server_at c (ukey x) = Some a" by (simp add: server_at_def a_def)
    then obtain n where n: "h a = Some n" using less.prems by (auto simp: conhash_inv_def)
    have on: "on_ring n" "hashable (cb_hashfunc c) n" using inv_server [OF less.prems s n] by auto
    obtain c' where c': "conhash_del_node (Some c) (Some a) h = Some (0, Some c', h(a := None))" "conhash_inv c' (h(a := None))"
      "server_at c' = (\<lambda>k. if server_at c k = Some a then None else server_at c k)"
      "(\<exists>k. server_at c k = Some a) \<longrightarrow> ring_length c' < ring_length c"
      using conhash_del_ok [OF less.prems n on] by blast
    have "ring_length c' < ring_length c" using c'(4) s by blast
    then obtain h' freed where f: "fini_loop c' (h(a := None)) = Some (h', freed)" "distinct freed" "set freed = ran (server_at c')"
      "h' = (\<lambda>b. if b \<in> set freed then None else (h(a := None)) b)" using less.hyps [OF _ c'(2)] by blast
    have "ran (server_at c') = ran (server_at c) - {a}"
      unfolding c'(3) ran_def by (auto split: if_splits) (metis option.inject)
    moreover have "a \<in> ran (server_at c)" using s by (auto simp: ran_def)
    ultimately have r: "a \<notin> set freed" "ran (server_at c) = insert a (set freed)" using f(3) by auto
    have "fini_loop c h = Some (h', a # freed)"
      by (subst fini_loop.simps) (simp add: RB_node a_def [symmetric] c'(1) f(1))
    then show ?thesis using f(2,4) r by (intro exI [of _ h'] exI [of _ "a # freed"]) (auto simp: fun_eq_iff)
  qed
qed

text \<open>C25. Closing a ring that satisfies the invariant ends, and frees each server that has a virtual node on the ring exactly once and nothing else; but
  when the server at the root of the tree has lost its flag (as \<open>conhash_set_node\<close> on it does) the step of the loop is refused and changes nothing,
  so the loop never ends.\<close>

theorem conhash_fini_frees:
  shows "(conhash_inv c h \<longrightarrow> (\<exists>h' freed. conhash_fini (Some c) h = Some (h', freed) \<and> distinct freed \<and> set freed = ran (server_at c)
      \<and> h' = (\<lambda>a. if a \<in> set freed then None else h a)))
    \<and> (u_root (vnode_tree c) = RB_node col l x r \<and> h (vnode (udata x)) = Some n \<and> conhash_set_node n' idx name replica = Some n
      \<longrightarrow> conhash_del_node (Some c) (Some (vnode (udata x))) h = Some (-1, Some c, h) \<and> conhash_fini (Some c) h = None)"
proof (intro conjI impI)
  assume "conhash_inv c h"
  from fini_loop_ok [OF this] show "\<exists>h' freed. conhash_fini (Some c) h = Some (h', freed) \<and> distinct freed \<and> set freed = ran (server_at c)
      \<and> h' = (\<lambda>a. if a \<in> set freed then None else h a)" by (simp add: conhash_fini_def)
next
  assume a: "u_root (vnode_tree c) = RB_node col l x r \<and> h (vnode (udata x)) = Some n \<and> conhash_set_node n' idx name replica = Some n"
  then have f: "flag n AND NODE_FLAG_IN = 0"
    by (auto simp: conhash_set_node_def NODE_FLAG_INIT_def NODE_FLAG_IN_def split: bind_splits)
  then show "conhash_fini (Some c) h = None" using fini_stuck [of c col l x r h n] a by (simp add: conhash_fini_def)
  show "conhash_del_node (Some c) (Some (vnode (udata x))) h = Some (-1, Some c, h)" using f a by (simp add: conhash_del_node_def)
qed

section \<open>A ring\<close>

definition demo_node :: node_s where
  "demo_node = \<lparr>iden = ''s1'' @ replicate 62 NUL, replicas = 2, node_index = 0, flag = NODE_FLAG_INIT\<rparr>"

definition demo_hash :: hashfunc where
  "demo_hash s len = Some (foldl (\<lambda>h ch. (h * 31 + of_char ch) mod 1000) 0 s)"

definition demo_ring :: conhash_s where
  "demo_ring = \<lparr>vnode_tree = util_rbtree_init, ivnodes = 0, cb_hashfunc = demo_hash\<rparr>"

lemma demo_strings: "conhash_node2string demo_node 0 = Some ''s1-000''" "conhash_node2string demo_node 1 = Some ''s1-001''"
  unfolding demo_node_def by code_simp+

lemma demo_hashable: "hashable (cb_hashfunc demo_ring) demo_node"
proof -
  have "replica_key demo_hash demo_node i \<noteq> None" if "i < 2" for i
    using that demo_strings by (auto simp: less_2_cases_iff replica_key_def demo_hash_def)
  moreover have "cb_hashfunc demo_ring = demo_hash" "unat (replicas demo_node) = 2" by (simp_all add: demo_ring_def demo_node_def)
  ultimately show ?thesis by (simp add: hashable_def)
qed

lemma demo_ring_inv: "conhash_inv demo_ring h"
  by (simp add: conhash_inv_def ring_ok_def util_ok_def keys_sorted_def demo_ring_def util_rbtree_init_def ring_length_def vnodes_def
      entry_map_def server_at_def rb_ok_def)

lemma demo_flags: "flag demo_node AND NODE_FLAG_INIT \<noteq> 0" "flag demo_node AND NODE_FLAG_IN = 0" "ring_length demo_ring + unat (replicas demo_node) < 2 ^ 32"
  by (simp_all add: demo_node_def NODE_FLAG_INIT_def NODE_FLAG_IN_def ring_length_def demo_ring_def util_rbtree_init_def)


theorem conhash_add_del_roundtrip_witness:
  "\<exists>c' h' c''. conhash_add_node (\<lambda>_. True) (Some demo_ring) (Some 7) [7 \<mapsto> demo_node] = Some (0, Some c', h')
    \<and> conhash_del_node (Some c') (Some 7) h' = Some (0, Some c'', Map.empty) \<and> server_at c'' = server_at demo_ring"
  using conhash_add_del_roundtrip [OF demo_ring_inv _ demo_hashable demo_flags, of "[7 \<mapsto> demo_node]" 7 "\<lambda>_. True"] by simp

definition demo_ring1 :: conhash_s where
  "demo_ring1 = demo_ring\<lparr>vnode_tree := \<lparr>u_root = RB_node RB_BLACK RB_NULL \<lparr>ukey = 5, udata = \<lparr>vhash = 5, vnode = 7\<rparr>\<rparr> RB_NULL, u_size = 1\<rparr>, ivnodes := 1\<rparr>"

theorem conhash_fini_frees_witness:
  "(\<exists>h' freed. conhash_fini (Some demo_ring) Map.empty = Some (h', freed) \<and> freed = []) \<and> conhash_fini (Some demo_ring1) [7 \<mapsto> demo_node] = None"
proof -
  have e: "ran (server_at demo_ring) = {}"
    by (simp add: server_at_def vnodes_def entry_map_def demo_ring_def util_rbtree_init_def ran_def)
  have "conhash_set_node demo_node 0 ''s1'' 2 = Some demo_node" unfolding demo_node_def by code_simp
  then show ?thesis
    using conhash_fini_frees [of demo_ring Map.empty] demo_ring_inv [of Map.empty] e
      conhash_fini_frees [of demo_ring1 "[7 \<mapsto> demo_node]" RB_BLACK RB_NULL "\<lparr>ukey = 5, udata = \<lparr>vhash = 5, vnode = 7\<rparr>\<rparr>" RB_NULL demo_node demo_node 0 "''s1''" 2]
    by (simp add: demo_ring1_def)
qed

end
