(* ===== verification/ServerConhash.thy ===== *)
theory ServerConhash
  imports Conhash Hashmap
begin

text \<open>
  The table of server groups of \<open>server_conhash.c\<close>: for every group a consistent hashing ring (\<open>Conhash\<close>) of its servers, kept in a hash map
  (\<open>Hashmap\<close>) by the group's number, and a second hash map from hash names to addresses. The groups come from a Lua script:
  the interpreter is the parameter \<open>lua_api\<close>. Blocks live at addresses of a \<open>world\<close>; allocations
  are numbered, and whether the one of a number succeeds is a function argument, as are the answers of \<open>rand\<close>.

  The lemmas show that a look-up in a table loaded from a script answers with the address of a server of that group, whatever collisions there
  are, and what happens on an empty group and when the script's \<open>load_data\<close> fails.
\<close>

section \<open>The Lua interpreter\<close>

text \<open>
  The interpreter's functions are parameters, on a state of its own type. \<open>lua_call\<close> stands for \<open>lua_getglobal\<close>, the pushes of the arguments and \<open>lua_pcall\<close>
  with a number of results; it and \<open>luaL_dofile\<close> say whether there was no error. \<open>lua_tonumber\<close> is followed by the conversion to \<open>int\<close>, \<open>None\<close> where that is
  undefined; \<open>lua_tostring\<close> is \<open>None\<close> for \<open>NULL\<close>; \<open>lua_pop\<close> is \<open>None\<close> where it is undefined.
\<close>

record 'l lua_api =
  lua_newstate :: "'l option"
  luaL_dofile :: "'l \<Rightarrow> string \<Rightarrow> bool \<times> 'l"
  lua_call :: "'l \<Rightarrow> string \<Rightarrow> int list \<Rightarrow> nat \<Rightarrow> bool \<times> 'l"
  lua_tonumber :: "'l \<Rightarrow> nat \<Rightarrow> int option"
  lua_tostring :: "'l \<Rightarrow> nat \<Rightarrow> string option"
  lua_pop :: "'l \<Rightarrow> nat \<Rightarrow> 'l option"

section \<open>Calls of the script\<close>

definition load_data :: "'l lua_api \<Rightarrow> 'l \<Rightarrow> 'l" where
  "load_data api L = snd (lua_call api L ''load_data'' [] 0)"

definition get_group_count :: "'l lua_api \<Rightarrow> 'l \<Rightarrow> (int \<times> 'l) option" where
  "get_group_count api L = do {
     let L = snd (lua_call api L ''get_group_count'' [] 1);
     n \<leftarrow> lua_tonumber api L 1;
     L \<leftarrow> lua_pop api L 1;
     Some (n, L)
   }"

definition get_group_id :: "'l lua_api \<Rightarrow> 'l \<Rightarrow> int \<Rightarrow> (int \<times> 'l) option" where
  "get_group_id api L i = do {
     let L = snd (lua_call api L ''get_group_id'' [i] 1);
     n \<leftarrow> lua_tonumber api L 1;
     L \<leftarrow> lua_pop api L 1;
     Some (n, L)
   }"

definition get_server_count_by_seq :: "'l lua_api \<Rightarrow> 'l \<Rightarrow> int \<Rightarrow> (int \<times> 'l) option" where
  "get_server_count_by_seq api L group_id = do {
     let L = snd (lua_call api L ''get_server_count_by_seq'' [group_id] 1);
     n \<leftarrow> lua_tonumber api L 1;
     L \<leftarrow> lua_pop api L 1;
     Some (n, L)
   }"

text \<open>The two buffers are filled; \<open>NULL\<close> for \<open>%s\<close> is undefined.\<close>

definition get_server_by_seq :: "'l lua_api \<Rightarrow> 'l \<Rightarrow> int \<Rightarrow> int \<Rightarrow> string \<Rightarrow> string \<Rightarrow> (string \<times> string \<times> 'l) option" where
  "get_server_by_seq api L i n ip hash_ip = do {
     let L = snd (lua_call api L ''get_server_by_seq'' [i, n] 2);
     s \<leftarrow> lua_tostring api L 1;
     t \<leftarrow> lua_tostring api L 2;
     (_, ip) \<leftarrow> snprintf ip 0 (int (length ip) - 1) ''%s'' [AStr s];
     (_, hash_ip) \<leftarrow> snprintf hash_ip 0 (int (length hash_ip) - 1) ''%s'' [AStr t];
     L \<leftarrow> lua_pop api L 2;
     Some (ip, hash_ip, L)
   }"

section \<open>State\<close>

record world =
  nodes :: node_heap
  rings :: "nat \<Rightarrow> conhash_s option"
  strs :: "nat \<Rightarrow> string option"
  next_addr :: nat
  tick :: nat

record server_conhash =
  conhashs :: "hashmap option"
  ips :: "hashmap option"

text \<open>What the environment answers: allocations and \<open>rand\<close> by number, the bytes of a new block and of a local array.\<close>

record sc_env =
  alloc :: "nat \<Rightarrow> bool"
  rands :: "nat \<Rightarrow> int"
  node_junk :: string
  md5_junk :: "8 word list"

definition malloc :: "sc_env \<Rightarrow> world \<Rightarrow> nat option \<times> world" where
  "malloc e w = (if alloc e (tick w) then (Some (next_addr w), w\<lparr>next_addr := next_addr w + 1, tick := tick w + 1\<rparr>)
                 else (None, w\<lparr>tick := tick w + 1\<rparr>))"

text \<open>\<open>hashmap_new (1024, 0, GH_COPYKEYS, f)\<close> and \<open>hashmap_add\<close> take their allocations from the same sequence.\<close>

definition new_map :: "sc_env \<Rightarrow> world \<Rightarrow> (hashmap option \<times> world) option" where
  "new_map e w = do {
     m \<leftarrow> hashmap_new (alloc e (tick w)) (alloc e (tick w + 1)) (alloc e (tick w + 2))
       (rands e (tick w)) (rands e (tick w + 1)) (rands e (tick w + 2)) (rands e (tick w + 3)) 1024 0 0 True;
     Some (m, w\<lparr>tick := tick w + 4\<rparr>)
   }"

definition put_map :: "sc_env \<Rightarrow> world \<Rightarrow> hashmap option \<Rightarrow> string \<Rightarrow> nat \<Rightarrow> (hashmap option \<times> world) option" where
  "put_map e w m key a = do {
     (r, m) \<leftarrow> hashmap_add (alloc e (tick w)) (alloc e (tick w + 1)) m key (At (int a));
     Some (m, w\<lparr>tick := tick w + 2\<rparr>)
   }"

section \<open>Loading\<close>

text \<open>\<open>conhash_init (NULL)\<close> and \<open>conhash_add_node\<close> on the ring at address \<open>c\<close>.\<close>

definition new_ring :: "sc_env \<Rightarrow> world \<Rightarrow> nat option \<times> world" where
  "new_ring e w = (case malloc e w of
      (None, w) \<Rightarrow> (None, w)
    | (Some c, w) \<Rightarrow> (Some c, w\<lparr>rings := (rings w)(c := conhash_init (md5_junk e) True None)\<rparr>))"

definition add_server :: "sc_env \<Rightarrow> world \<Rightarrow> nat \<Rightarrow> nat \<Rightarrow> world option" where
  "add_server e w c a = do {
     ring \<leftarrow> rings w c;
     n \<leftarrow> nodes w a;
     (_, ring, h) \<leftarrow> conhash_add_node (\<lambda>i. alloc e (tick w + i)) (Some ring) (Some a) (nodes w);
     Some (w\<lparr>rings := (rings w)(c := ring), nodes := h, tick := tick w + unat (replicas n)\<rparr>)
   }"

text \<open>The node at \<open>a\<close> named: its bytes are those of a new block.\<close>

definition name_server :: "sc_env \<Rightarrow> world \<Rightarrow> nat \<Rightarrow> int \<Rightarrow> string \<Rightarrow> world option" where
  "name_server e w a index name = do {
     n \<leftarrow> conhash_set_node \<lparr>iden = node_junk e, replicas = 0, node_index = 0, flag = 0\<rparr> index name 500;
     Some (w\<lparr>nodes := (nodes w)(a \<mapsto> n)\<rparr>)
   }"

text \<open>One turn of the loop of \<open>group_server_load\<close>; \<open>False\<close> is its failure.\<close>

definition load_server ::
  "'l lua_api \<Rightarrow> sc_env \<Rightarrow> 'l \<Rightarrow> world \<Rightarrow> server_conhash \<Rightarrow> nat \<Rightarrow> int \<Rightarrow> int \<Rightarrow> int
   \<Rightarrow> (bool \<times> 'l \<times> world \<times> server_conhash) option" where
  "load_server api e L w sc conhash seq gid j = do {
     ip \<leftarrow> bzero (replicate 32 NUL) 0 32;
     hash_ip \<leftarrow> bzero (replicate 32 NUL) 0 32;
     (ip, hash_ip, L) \<leftarrow> get_server_by_seq api L seq j ip hash_ip;
     (case malloc e w of
        (None, w) \<Rightarrow> Some (False, L, w, sc)
      | (Some node, w) \<Rightarrow>
          if cstr hash_ip 0 = [] then do {
            w \<leftarrow> name_server e w node (j - 1) (cstr ip 0);
            w \<leftarrow> add_server e w conhash node;
            Some (True, L, w, sc)
          }
          else (case malloc e w of
              (None, w) \<Rightarrow> Some (False, L, w, sc)
            | (Some ip', w) \<Rightarrow> do {
                let w = w\<lparr>strs := (strs w)(ip' \<mapsto> cstr ip 0)\<rparr>;
                w \<leftarrow> name_server e w node (j - 1) (cstr hash_ip 0);
                (_, ip_key) \<leftarrow> snprintf (replicate 64 NUL) 0 63 ''%d_%s'' [AInt gid, AStr (cstr hash_ip 0)];
                (m, w) \<leftarrow> put_map e w (ips sc) ip_key ip';
                w \<leftarrow> add_server e w conhash node;
                Some (True, L, w, sc\<lparr>ips := m\<rparr>)
              }))
   }"

fun server_loop ::
  "'l lua_api \<Rightarrow> sc_env \<Rightarrow> 'l \<Rightarrow> world \<Rightarrow> server_conhash \<Rightarrow> nat \<Rightarrow> int \<Rightarrow> int \<Rightarrow> int list
   \<Rightarrow> (bool \<times> 'l \<times> world \<times> server_conhash) option" where
  "server_loop api e L w sc conhash seq gid [] = Some (True, L, w, sc)"
| "server_loop api e L w sc conhash seq gid (j # js) = do {
     (ok, L, w, sc) \<leftarrow> load_server api e L w sc conhash seq gid j;
     if ok then server_loop api e L w sc conhash seq gid js else Some (False, L, w, sc)
   }"

definition group_server_load ::
  "'l lua_api \<Rightarrow> sc_env \<Rightarrow> 'l \<Rightarrow> world \<Rightarrow> server_conhash \<Rightarrow> nat \<Rightarrow> int \<Rightarrow> int
   \<Rightarrow> (bool \<times> 'l \<times> world \<times> server_conhash) option" where
  "group_server_load api e L w sc conhash seq gid = do {
     (n, L) \<leftarrow> get_server_count_by_seq api L seq;
     server_loop api e L w sc conhash seq gid [1..n]
   }"

definition load_group ::
  "'l lua_api \<Rightarrow> sc_env \<Rightarrow> 'l \<Rightarrow> world \<Rightarrow> server_conhash \<Rightarrow> int
   \<Rightarrow> (bool \<times> 'l \<times> world \<times> server_conhash) option" where
  "load_group api e L w sc i = (case new_ring e w of
      (None, w) \<Rightarrow> Some (False, L, w, sc)
    | (Some conhash, w) \<Rightarrow> do {
        (gid, L) \<leftarrow> get_group_id api L i;
        if gid = 0 then Some (False, L, w, sc)
        else do {
          (ok, L, w, sc) \<leftarrow> group_server_load api e L w sc conhash i gid;
          if \<not> ok then Some (False, L, w, sc)
          else do {
            str_id \<leftarrow> bzero (replicate 32 NUL) 0 32;
            (_, str_id) \<leftarrow> snprintf str_id 0 31 ''%d'' [AInt gid];
            (m, w) \<leftarrow> put_map e w (conhashs sc) str_id conhash;
            Some (True, L, w, sc\<lparr>conhashs := m\<rparr>)
          }
        }
      })"

fun group_loop ::
  "'l lua_api \<Rightarrow> sc_env \<Rightarrow> 'l \<Rightarrow> world \<Rightarrow> server_conhash \<Rightarrow> int list
   \<Rightarrow> (bool \<times> 'l \<times> world \<times> server_conhash) option" where
  "group_loop api e L w sc [] = Some (True, L, w, sc)"
| "group_loop api e L w sc (i # is) = do {
     (ok, L, w, sc) \<leftarrow> load_group api e L w sc i;
     if ok then group_loop api e L w sc is else Some (False, L, w, sc)
   }"

definition group_load ::
  "'l lua_api \<Rightarrow> sc_env \<Rightarrow> 'l \<Rightarrow> world \<Rightarrow> server_conhash
   \<Rightarrow> (bool \<times> 'l \<times> world \<times> server_conhash) option" where
  "group_load api e L w sc = do {
     (n, L) \<leftarrow> get_group_count api L;
     group_loop api e L w sc [1..n]
   }"

section \<open>Destruction\<close>

text \<open>The free functions of the two maps: closing a ring also frees its block.\<close>

definition group_conhash_free :: "ptr \<Rightarrow> world \<Rightarrow> world option" where
  "group_conhash_free data w = (case data of
      NULL \<Rightarrow> Some w
    | At i \<Rightarrow> do {
        c \<leftarrow> rings w (nat i);
        (h, _) \<leftarrow> conhash_fini (Some c) (nodes w);
        Some (w\<lparr>nodes := h, rings := (rings w)(nat i := None)\<rparr>)
      })"

definition ip_free :: "ptr \<Rightarrow> world \<Rightarrow> world option" where
  "ip_free data w = (case data of
      NULL \<Rightarrow> Some w
    | At i \<Rightarrow> if strs w (nat i) = None then None else Some (w\<lparr>strs := (strs w)(nat i := None)\<rparr>))"

fun free_all :: "(ptr \<Rightarrow> world \<Rightarrow> world option) \<Rightarrow> ptr list \<Rightarrow> world \<Rightarrow> world option" where
  "free_all f [] w = Some w"
| "free_all f (p # ps) w = do { w \<leftarrow> f p w; free_all f ps w }"

definition server_conhash_destroy :: "server_conhash option \<Rightarrow> world \<Rightarrow> world option" where
  "server_conhash_destroy sc w = (case sc of
      None \<Rightarrow> Some w
    | Some s \<Rightarrow> do {
        w \<leftarrow> (case conhashs s of None \<Rightarrow> Some w
          | m \<Rightarrow> do { (_, freed) \<leftarrow> hashmap_delete m; free_all group_conhash_free freed w });
        (case ips s of None \<Rightarrow> Some w
          | m \<Rightarrow> do { (_, freed) \<leftarrow> hashmap_delete m; free_all ip_free freed w })
      })"

section \<open>Creation and look-up\<close>

text \<open>The results: the table, the world and whether the interpreter was closed. Opening the libraries on, or closing, no interpreter is undefined.\<close>

definition create_error :: "'l option \<Rightarrow> server_conhash \<Rightarrow> world \<Rightarrow> (server_conhash option \<times> world \<times> bool) option" where
  "create_error L sc w = (if L = None then None else do {
     w \<leftarrow> server_conhash_destroy (Some sc) w;
     Some (None, w, True)
   })"

definition server_conhash_create ::
  "'l lua_api \<Rightarrow> sc_env \<Rightarrow> world \<Rightarrow> string \<Rightarrow> (server_conhash option \<times> world \<times> bool) option" where
  "server_conhash_create api e w lua_file = (case malloc e w of
      (None, w) \<Rightarrow> Some (None, w, False)
    | (Some _, w) \<Rightarrow> do {
        (m, w) \<leftarrow> new_map e w;
        if m = None then create_error (lua_newstate api) \<lparr>conhashs = None, ips = None\<rparr> w
        else do {
          (m', w) \<leftarrow> new_map e w;
          let sc = \<lparr>conhashs = m, ips = m'\<rparr>;
          if m' = None then create_error (lua_newstate api) sc w
          else (case lua_newstate api of
              None \<Rightarrow> None
            | Some l \<Rightarrow> (case luaL_dofile api l lua_file of
                (False, L) \<Rightarrow> create_error (lua_newstate api) sc w
              | (True, L) \<Rightarrow> do {
                  (ok, L, w, sc) \<leftarrow> group_load api e (load_data api L) w sc;
                  if ok then Some (Some sc, w, False) else create_error (lua_newstate api) sc w
                }))
        }
      })"

definition server_conhash_find :: "server_conhash option \<Rightarrow> world \<Rightarrow> int \<Rightarrow> string option \<Rightarrow> string option option" where
  "server_conhash_find sc w group_id url = (case (sc, url) of
      (Some s, Some u) \<Rightarrow>
        if conhashs s = None \<or> group_id < 0 \<or> u = [] then Some None
        else do {
          (_, str_id) \<leftarrow> snprintf (replicate 32 NUL) 0 31 ''%d'' [AInt group_id];
          (conhash, _) \<leftarrow> hashmap_find (conhashs s) str_id;
          (case conhash of NULL \<Rightarrow> Some None
           | At c \<Rightarrow> do {
               ring \<leftarrow> rings w (nat c);
               node \<leftarrow> conhash_lookup (Some ring) (Some u) (int (length u));
               a \<leftarrow> node;
               n \<leftarrow> nodes w a;
               name \<leftarrow> (if NUL \<in> set (iden n) then Some (cstr (iden n) 0) else None);
               (_, ip_key) \<leftarrow> snprintf (replicate 64 NUL) 0 63 ''%d_%s'' [AInt group_id, AStr name];
               (ip, _) \<leftarrow> hashmap_find (ips s) ip_key;
               (case ip of At p \<Rightarrow> map_option Some (strs w (nat p)) | NULL \<Rightarrow> Some (Some name))
             })
        }
    | _ \<Rightarrow> Some None)"


section \<open>Names, keys and hashes\<close>

text \<open>The keys of the two maps.\<close>

definition group_key :: "int \<Rightarrow> string" where
  "group_key gid = show_int gid @ [NUL]"

definition alias_key :: "int \<Rightarrow> string \<Rightarrow> string" where
  "alias_key gid name = show_int gid @ CHR ''_'' # name @ [NUL]"

text \<open>A server's address and hash name, and the name it has on the ring.\<close>

definition server_name :: "string \<times> string \<Rightarrow> string" where
  "server_name s = (if snd s = [] then fst s else snd s)"

definition server_ok :: "string \<times> string \<Rightarrow> bool" where
  "server_ok s \<longleftrightarrow> NUL \<notin> set (fst s) \<and> NUL \<notin> set (snd s) \<and> length (fst s) \<le> 30 \<and> length (snd s) \<le> 30"

lemma show_int_chars: "c \<in> set (show_int i) \<Longrightarrow> is_digit c \<or> c = CHR ''-''"
  using show_nat_digits by (auto simp: show_int_def split: if_splits)

lemma show_int_plain: "NUL \<notin> set (show_int i)" "CHR ''_'' \<notin> set (show_int i)"
  using show_int_chars [of NUL i] show_int_chars [of "CHR ''_''" i] by (auto simp: is_digit_def)

lemma length_show_int_le: "in_int i \<Longrightarrow> length (show_int i) \<le> 11"
proof -
  assume "in_int i"
  then have "length (show_nat (nat i)) \<le> 10" "length (show_nat (nat (- i))) \<le> 10"
    by (auto intro!: length_show_nat simp: in_int_def INT_MAX_def)
  then show ?thesis by (simp add: show_int_def)
qed

lemma decimal_value: "foldl (\<lambda>v c. v * 10 + (of_char c - 48)) 0 (show_nat n) = n"
proof (induction n rule: show_nat.induct)
  case (1 n)
  show ?case
  proof (cases "n < 10")
    case True
    then show ?thesis by (subst show_nat.simps) simp
  next
    case False
    have m: "(48 + n mod 10) mod 256 = 48 + n mod (10::nat)" by (rule mod_less) simp
    have "foldl (\<lambda>v c. v * 10 + (of_char c - 48)) 0 (show_nat n) = n div 10 * 10 + ((48 + n mod 10) mod 256 - 48)"
      using False 1 [OF False] by (subst show_nat.simps) (simp only: if_False foldl_append foldl.simps of_char_of)
    then show ?thesis by (simp only: m) simp
  qed
qed

lemma show_nat_inject: "show_nat n = show_nat m \<Longrightarrow> n = m"
  by (metis decimal_value)

lemma show_nat_no_minus: "show_nat n \<noteq> CHR ''-'' # s"
proof
  assume "show_nat n = CHR ''-'' # s"
  then have "CHR ''-'' \<in> set (show_nat n)" by simp
  then show False using show_nat_digits [of n] by (auto simp: is_digit_def)
qed

lemmas no_minus = show_nat_no_minus show_nat_no_minus [symmetric]

lemma show_int_inject: "show_int i = show_int j \<Longrightarrow> i = j"
proof -
  assume e: "show_int i = show_int j"
  show ?thesis
  proof (cases "i < 0")
    case True
    then have "j < 0" using e by (auto simp: no_minus show_int_def split: if_splits)
    then show ?thesis using e True show_nat_inject [of "nat (- i)" "nat (- j)"] by (simp add: show_int_def)
  next
    case False
    then have "\<not> j < 0" using e by (auto simp: no_minus show_int_def split: if_splits)
    then show ?thesis using e False show_nat_inject [of "nat i" "nat j"] by (simp add: show_int_def)
  qed
qed

lemma group_key_inject: "group_key i = group_key j \<longleftrightarrow> i = j"
  by (auto simp: group_key_def dest: show_int_inject)

lemma alias_key_inject: "alias_key i a = alias_key j b \<longleftrightarrow> i = j \<and> a = b"
proof
  assume e: "alias_key i a = alias_key j b"
  have "takeWhile (\<lambda>c. c \<noteq> CHR ''_'') (alias_key k x) = show_int k" for k x
    unfolding alias_key_def using show_int_plain(2) [of k] by (subst takeWhile_append2) auto
  then have "i = j" using e show_int_inject by metis
  then show "i = j \<and> a = b" using e by (simp add: alias_key_def)
qed simp

lemma valid_group_key: "valid_key 0 (group_key i)"
  by (simp add: valid_key_def group_key_def show_int_plain)

lemma valid_alias_key: "NUL \<notin> set a \<Longrightarrow> valid_key 0 (alias_key i a)"
  using show_int_plain(1) by (simp add: valid_key_def alias_key_def butlast_append)

lemma fmt_d: "vfmt None ''%d'' [AInt i] = Some (show_int i)"
  by (simp add: is_digit_def pad_def)

lemma fmt_d_s: "vfmt None ''%d_%s'' [AInt i, AStr a] = Some (show_int i @ CHR ''_'' # a)"
  by (simp add: is_digit_def pad_def)

lemma fmt_s: "vfmt None ''%s'' [AStr a] = Some a"
  by (simp add: is_digit_def pad_def)

lemma print_group_key:
  assumes "in_int i"
  shows "\<exists>b. snprintf (replicate 32 NUL) 0 31 ''%d'' [AInt i] = Some (int (length (show_int i)), group_key i @ b)"
  using snprintf_whole [OF fmt_d, of 0 31 i "replicate 32 NUL"] length_show_int_le [OF assms] by (auto simp: group_key_def splice_def)

lemma print_alias_key:
  assumes "in_int i" and "length a \<le> 30"
  shows "\<exists>n b. snprintf (replicate 64 NUL) 0 63 ''%d_%s'' [AInt i, AStr a] = Some (n, alias_key i a @ b)"
  using snprintf_whole [OF fmt_d_s, of 0 63 i a "replicate 64 NUL"] length_show_int_le [OF assms(1)] assms(2)
  by (auto simp: alias_key_def splice_def)

lemma print_name:
  assumes "NUL \<notin> set a" and "length a \<le> 30"
  shows "\<exists>n b. snprintf (replicate 32 NUL) 0 31 ''%s'' [AStr a] = Some (n, b) \<and> cstr b 0 = a"
  using snprintf_whole [OF fmt_s, of 0 31 a "replicate 32 NUL"] assms cstr_at [of a "[]" 0 "replicate (31 - length a) NUL"]
  by (auto simp: splice_def)

text \<open>The default hash is defined on every string short enough, and so are the keys of a named server.\<close>

lemma hash_def_total:
  assumes "length junk = 64" and "length s < 2 ^ 28"
  shows "\<exists>k. conhash_hash_def junk s (int (length s)) = Some k"
  using conhash_md5_digest_spec [OF assms(1), of "map of_char s"] assms(2) by (simp add: conhash_hash_def_def)

lemma node2string_total:
  assumes "NUL \<in> set (iden n)"
  shows "\<exists>b. conhash_node2string n i = Some b \<and> length b \<le> 128"
proof -
  have v: "\<exists>t. vfmt None ''%s-%03d'' [AStr a, AInt k] = Some t" for a k by (simp add: is_digit_def pad_def)
  obtain t where t: "vfmt None ''%s-%03d'' [AStr (cstr (iden n) 0), AInt (sint (of_nat i :: 32 word))] = Some t" using v by blast
  define b where "b = take 126 t @ [NUL] @ drop (Suc (min 126 (length t))) (replicate 128 NUL)"
  have "snprintf (replicate 128 NUL) 0 127 ''%s-%03d'' [AStr (cstr (iden n) 0), AInt (sint (of_nat i :: 32 word))] = Some (int (length t), b)"
    unfolding snprintf_def t by (simp add: b_def min.commute)
  moreover have "length (cstr b 0) \<le> length b" by (simp add: cstr_def length_takeWhile_le)
  moreover have "length b \<le> 128" by (simp add: b_def)
  ultimately show ?thesis using assms by (auto simp: conhash_node2string_def)
qed

lemma named_hashable: "NUL \<in> set (iden n) \<Longrightarrow> length junk = 64 \<Longrightarrow> hashable (conhash_hash_def junk) n"
proof -
  assume n: "NUL \<in> set (iden n)" and j: "length junk = 64"
  have "replica_key (conhash_hash_def junk) n i \<noteq> None" for i
  proof -
    obtain b where b: "conhash_node2string n i = Some b" "length b \<le> 128" using node2string_total [OF n] by blast
    obtain k where "conhash_hash_def junk b (int (length b)) = Some k" using hash_def_total [OF j, of b] b(2) by auto
    then show ?thesis using b(1) by (simp add: replica_key_def)
  qed
  then show ?thesis by (simp add: hashable_def)
qed

lemma set_node_named:
  assumes "length junk = 64" and "NUL \<notin> set name" and "length name \<le> 62"
  shows "\<exists>n. conhash_set_node \<lparr>iden = junk, replicas = 0, node_index = 0, flag = 0\<rparr> idx name r = Some n
    \<and> NUL \<in> set (iden n) \<and> cstr (iden n) 0 = name \<and> replicas n = r \<and> flag n = NODE_FLAG_INIT"
proof -
  have c: "cstr (name @ [NUL]) 0 = name" using assms(2) by (rule cstr_whole)
  have t: "take 63 (name @ replicate 63 NUL) = name @ replicate (63 - length name) NUL" using assms(3) by simp
  have "63 - length name \<noteq> 0" using assms(3) by simp
  then obtain m where m: "63 - length name = Suc m" by (meson not0_implies_Suc)
  have "cstr (name @ replicate (63 - length name) NUL @ drop 63 junk) 0 = name"
    unfolding m using cstr_at [OF assms(2), of "[]" 0 "replicate m NUL @ drop 63 junk"] by simp
  moreover have "strncpy junk 0 (name @ [NUL]) 0 (int (length junk) - 1) = Some (name @ replicate (63 - length name) NUL @ drop 63 junk)"
    using assms(1,3) by (simp add: strncpy_def c t Let_def)
  ultimately show ?thesis using m assms(1) by (simp add: conhash_set_node_def)
qed


section \<open>The invariant of a load\<close>

text \<open>
  \<open>S\<close> gives the servers of each group number, \<open>m\<close> is the map of aliases. Every virtual node of a group's ring stands for a server of the group,
  and a server that goes by its hash name has its alias.
\<close>

definition ring_of :: "8 word list \<Rightarrow> node_heap \<Rightarrow> (int \<Rightarrow> (string \<times> string) set) \<Rightarrow> (string \<rightharpoonup> ptr) \<Rightarrow> int \<Rightarrow> conhash_s \<Rightarrow> bool" where
  "ring_of J h S m gid c \<longleftrightarrow> conhash_inv c h \<and> cb_hashfunc c = conhash_hash_def J \<and> (\<forall>k b. server_at c k = Some b \<longrightarrow>
     (\<exists>n s. h b = Some n \<and> NUL \<in> set (iden n) \<and> s \<in> S gid \<and> cstr (iden n) 0 = server_name s
        \<and> (snd s \<noteq> [] \<longrightarrow> m (alias_key gid (snd s)) \<noteq> None)))"

definition world_ok :: "8 word list \<Rightarrow> world \<Rightarrow> (int \<Rightarrow> (string \<times> string) set) \<Rightarrow> (nat \<rightharpoonup> int) \<Rightarrow> (string \<rightharpoonup> ptr) \<Rightarrow> bool" where
  "world_ok J w S R m \<longleftrightarrow> (\<forall>a\<ge>next_addr w. nodes w a = None \<and> R a = None \<and> strs w a = None)
     \<and> (\<forall>a gid. R a = Some gid \<longrightarrow> (\<exists>c. rings w a = Some c \<and> ring_of J (nodes w) S m gid c))"

definition aliases_ok :: "world \<Rightarrow> (int \<Rightarrow> (string \<times> string) set) \<Rightarrow> (string \<rightharpoonup> ptr) \<Rightarrow> bool" where
  "aliases_ok w S m \<longleftrightarrow> (\<forall>k p. m k = Some p \<longrightarrow>
     (\<exists>gid s a. p = At (int a) \<and> k = alias_key gid (snd s) \<and> snd s \<noteq> [] \<and> s \<in> S gid \<and> a < next_addr w \<and> strs w a = Some (fst s)))"

definition env_ok :: "sc_env \<Rightarrow> bool" where
  "env_ok e \<longleftrightarrow> (\<forall>i. alloc e i) \<and> (\<forall>i. 0 \<le> rands e i \<and> rands e i < 40000) \<and> length (node_junk e) = 64 \<and> length (md5_junk e) = 64"

lemma ring_of_mono:
  assumes "ring_of J h S m gid c" and "h b = None" and "\<And>k. m k \<noteq> None \<Longrightarrow> m' k \<noteq> None"
  shows "ring_of J (h(b \<mapsto> n)) S m' gid c"
proof -
  have h: "h a = Some x \<Longrightarrow> (h(b \<mapsto> n)) a = Some x" for a x using assms(2) by auto
  have "conhash_inv c (h(b \<mapsto> n))" using assms(1) h unfolding ring_of_def conhash_inv_def by metis
  then show ?thesis using assms(1,3) h unfolding ring_of_def by metis
qed

lemma ring_of_aliases: "ring_of J h S m gid c \<Longrightarrow> (\<And>k. m k \<noteq> None \<Longrightarrow> m' k \<noteq> None) \<Longrightarrow> ring_of J h S m' gid c"
  unfolding ring_of_def by metis

lemma malloc_ok: "env_ok e \<Longrightarrow> malloc e w = (Some (next_addr w), w\<lparr>next_addr := next_addr w + 1, tick := tick w + 1\<rparr>)"
  by (simp add: malloc_def env_ok_def)

lemma put_ok:
  assumes "env_ok e" and "hm_keeps 0 t m" and "valid_key 0 k"
  shows "\<exists>t'. put_map e w (Some t) (k @ b) a = Some (Some t', w\<lparr>tick := tick w + 2\<rparr>) \<and> hm_keeps 0 t' (if m k = None then m(k \<mapsto> At (int a)) else m)"
proof -
  have r: "hm_rel t m" "keysize t = 0" "splay t \<le> 0" "alloc e (tick w)" "alloc e (tick w + 1)" using assms(1,2) by (simp_all add: hm_keeps_def env_ok_def)
  show ?thesis
  proof (cases "m k")
    case None
    obtain h where h: "hashmap_add True True (Some t) (k @ b) (At (int a)) = Some (HASHMAP_OK, Some (added_node t k h))"
      "hm_rel (added_node t k h) (m(k \<mapsto> At (int a)))" using add_new [OF r(1) _ None, of True b "At (int a)"] assms(3) r(2) by auto
    have "hm_keeps 0 (added_node t k h) (m(k \<mapsto> At (int a)))" using h(2) r by (simp add: hm_keeps_def added_node_def)
    then show ?thesis using h(1) r None by (simp add: put_map_def fun_upd_def)
  next
    case (Some v)
    then obtain x where "hashmap_add True True (Some t) (k @ b) (At (int a)) = Some (HASHMAP_INTABLE, Some (t\<lparr>cnode := Some x\<rparr>))"
      using add_old [OF r(1), of k True True b "At (int a)"] assms(3) r(2) by auto
    moreover have "hm_keeps 0 (t\<lparr>cnode := Some x\<rparr>) m" using r hm_rel_cnode [OF r(1)] by (simp add: hm_keeps_def)
    ultimately show ?thesis using r Some by (simp add: put_map_def)
  qed
qed

lemma name_ok:
  assumes "env_ok e" and "NUL \<notin> set name" and "length name \<le> 30"
  shows "\<exists>n. (\<forall>w. name_server e w a idx name = Some (w\<lparr>nodes := (nodes w)(a \<mapsto> n)\<rparr>)) \<and> NUL \<in> set (iden n) \<and> cstr (iden n) 0 = name
    \<and> replicas n = 500 \<and> flag n = NODE_FLAG_INIT"
  using set_node_named [of "node_junk e" name idx 500] assms by (auto simp: name_server_def env_ok_def)

lemma add_server_ok:
  assumes "env_ok e" and "rings w c = Some ring" and "nodes w a = Some n" and "NUL \<in> set (iden n)" and "s \<in> S gid"
    and "cstr (iden n) 0 = server_name s" and "snd s \<noteq> [] \<longrightarrow> m (alias_key gid (snd s)) \<noteq> None" and "replicas n = 500" and "flag n = NODE_FLAG_INIT"
    and "ring_of J (nodes w) S m gid ring" and "ring_length ring + 500 < 2 ^ 32" and "length J = 64"
  shows "\<exists>ring' n'. add_server e w c a = Some (w\<lparr>rings := (rings w)(c \<mapsto> ring'), nodes := (nodes w)(a \<mapsto> n'), tick := tick w + 500\<rparr>)
    \<and> ring_of J ((nodes w)(a \<mapsto> n')) S m gid ring' \<and> ring_length ring' \<le> ring_length ring + 500 \<and> server_at ring' \<noteq> Map.empty"
proof -
  define n' where "n' = n\<lparr>flag := flag n OR NODE_FLAG_IN\<rparr>"
  have inv: "conhash_inv ring (nodes w)" and cb: "cb_hashfunc ring = conhash_hash_def J" using assms(10) by (simp_all add: ring_of_def)
  have f: "flag n AND NODE_FLAG_INIT \<noteq> 0" "flag n AND NODE_FLAG_IN = 0" by (simp_all add: assms(9) NODE_FLAG_INIT_def NODE_FLAG_IN_def)
  have hs: "hashable (cb_hashfunc ring) n" unfolding cb by (rule named_hashable [OF assms(4,12)])
  have bound: "ring_length ring + unat (replicas n) < 2 ^ 32" using assms(8,11) by simp
  obtain c' where c': "conhash_add_node (\<lambda>i. alloc e (tick w + i)) (Some ring) (Some a) (nodes w) = Some (0, Some c', (nodes w)(a \<mapsto> n'))"
    "conhash_inv c' ((nodes w)(a \<mapsto> n'))" "cb_hashfunc c' = cb_hashfunc ring" "ring_length c' \<le> ring_length ring + unat (replicas n)"
    "\<forall>k b. server_at c' k = Some b \<longrightarrow> server_at ring k = Some b \<or> b = a"
    "(\<forall>i. alloc e (tick w + i)) \<longrightarrow> (\<forall>k\<in>keys_of (cb_hashfunc ring) n [0..<unat (replicas n)]. server_at c' k \<noteq> None)"
    using conhash_add_ok [OF inv assms(3) f hs bound, of "\<lambda>i. alloc e (tick w + i)"] unfolding n'_def by blast
  have "0 < unat (replicas n)" using assms(8) by simp
  then have "replica_key (cb_hashfunc ring) n 0 \<noteq> None" using hs unfolding hashable_def by blast
  then obtain k where "replica_key (cb_hashfunc ring) n 0 = Some k" by blast
  then have "k \<in> keys_of (cb_hashfunc ring) n [0..<unat (replicas n)]" using assms(8) by (auto simp: keys_of_def)
  then have "server_at c' k \<noteq> None" using c'(6) assms(1) by (simp add: env_ok_def)
  then have ne: "server_at c' \<noteq> Map.empty" by auto
  have "ring_of J ((nodes w)(a \<mapsto> n')) S m gid c'"
    unfolding ring_of_def
  proof (intro conjI allI impI)
    fix k b assume b: "server_at c' k = Some b"
    show "\<exists>n s. ((nodes w)(a \<mapsto> n')) b = Some n \<and> NUL \<in> set (iden n) \<and> s \<in> S gid \<and> cstr (iden n) 0 = server_name s
        \<and> (snd s \<noteq> [] \<longrightarrow> m (alias_key gid (snd s)) \<noteq> None)"
    proof (cases "b = a")
      case True
      then show ?thesis using assms(4-7) by (intro exI [of _ n'] exI [of _ s]) (simp add: n'_def)
    next
      case False
      then have "server_at ring k = Some b" using b c'(5) by blast
      then show ?thesis using assms(10) False by (auto simp: ring_of_def)
    qed
  qed (use c' cb in auto)
  moreover have "add_server e w c a = Some (w\<lparr>rings := (rings w)(c \<mapsto> c'), nodes := (nodes w)(a \<mapsto> n'), tick := tick w + 500\<rparr>)"
    using assms(2,3,8) c'(1) by (simp add: add_server_def)
  ultimately show ?thesis using ne c'(4) assms(8) by auto
qed


section \<open>What the script gives\<close>

text \<open>
  What is relied on of the interpreter, as its manual has it: a state has a stack of values; a call pushes as many results as asked for, or one error
  value; an index counts from the bottom, and where there is no value \<open>lua_tonumber\<close> is 0 and \<open>lua_tostring\<close> is \<open>NULL\<close>; \<open>lua_pop\<close> takes values off the top.
\<close>

record ('l, 'v) lua_view =
  stk :: "'l \<Rightarrow> 'v list"
  num :: "'v \<Rightarrow> int option"
  str :: "'v \<Rightarrow> string option"

definition lua_ok :: "'l lua_api \<Rightarrow> ('l, 'v) lua_view \<Rightarrow> bool" where
  "lua_ok api V \<longleftrightarrow> (\<forall>l. lua_newstate api = Some l \<longrightarrow> stk V l = [])
     \<and> (\<forall>L f args n. let (ok, L') = lua_call api L f args n in
          \<exists>vs. stk V L' = stk V L @ vs \<and> length vs = (if ok then n else 1))
     \<and> (\<forall>L i. 1 \<le> i \<longrightarrow> lua_tonumber api L i = (if i \<le> length (stk V L) then num V (stk V L ! (i - 1)) else Some 0)
          \<and> lua_tostring api L i = (if i \<le> length (stk V L) then str V (stk V L ! (i - 1)) else None))
     \<and> (\<forall>L n. n \<le> length (stk V L) \<longrightarrow> (\<exists>L'. lua_pop api L n = Some L' \<and> stk V L' = take (length (stk V L) - n) (stk V L)))"

definition gives_number :: "'l lua_api \<Rightarrow> ('l, 'v) lua_view \<Rightarrow> string \<Rightarrow> int list \<Rightarrow> int \<Rightarrow> bool" where
  "gives_number api V f args n \<longleftrightarrow> (\<forall>L. \<exists>L' v. lua_call api L f args 1 = (True, L') \<and> stk V L' = stk V L @ [v] \<and> num V v = Some n)"

definition gives_server :: "'l lua_api \<Rightarrow> ('l, 'v) lua_view \<Rightarrow> int \<Rightarrow> int \<Rightarrow> string \<times> string \<Rightarrow> bool" where
  "gives_server api V seq j s \<longleftrightarrow> (\<forall>L. \<exists>L' v u. lua_call api L ''get_server_by_seq'' [seq, j] 2 = (True, L') \<and> stk V L' = stk V L @ [v, u]
     \<and> str V v = Some (fst s) \<and> str V u = Some (snd s))"

lemma lua_at:
  assumes "lua_ok api V" and "stk V L = vs"
  shows "1 \<le> i \<Longrightarrow> lua_tonumber api L i = (if i \<le> length vs then num V (vs ! (i - 1)) else Some 0)"
    and "1 \<le> i \<Longrightarrow> lua_tostring api L i = (if i \<le> length vs then str V (vs ! (i - 1)) else None)"
    and "n \<le> length vs \<Longrightarrow> \<exists>L'. lua_pop api L n = Some L' \<and> stk V L' = take (length vs - n) vs"
proof -
  have a: "\<forall>L i. 1 \<le> i \<longrightarrow> lua_tonumber api L i = (if i \<le> length (stk V L) then num V (stk V L ! (i - 1)) else Some 0)
      \<and> lua_tostring api L i = (if i \<le> length (stk V L) then str V (stk V L ! (i - 1)) else None)"
    using assms(1) unfolding lua_ok_def by (elim conjE)
  have b: "\<forall>L n. n \<le> length (stk V L) \<longrightarrow> (\<exists>L'. lua_pop api L n = Some L' \<and> stk V L' = take (length (stk V L) - n) (stk V L))"
    using assms(1) unfolding lua_ok_def by (elim conjE)
  show "1 \<le> i \<Longrightarrow> lua_tonumber api L i = (if i \<le> length vs then num V (vs ! (i - 1)) else Some 0)"
    and "1 \<le> i \<Longrightarrow> lua_tostring api L i = (if i \<le> length vs then str V (vs ! (i - 1)) else None)"
    using a [rule_format, of i L] assms(2) by simp_all
  show "n \<le> length vs \<Longrightarrow> \<exists>L'. lua_pop api L n = Some L' \<and> stk V L' = take (length vs - n) vs"
    using b [rule_format, of n L] assms(2) by simp
qed

lemma lua_call_stack:
  assumes "lua_ok api V" and "lua_call api L f args n = (ok, L')" and "stk V L = xs"
  shows "\<exists>vs. stk V L' = xs @ vs \<and> length vs = (if ok then n else 1)"
proof -
  have "\<forall>L f args n. let (ok, L') = lua_call api L f args n in \<exists>vs. stk V L' = stk V L @ vs \<and> length vs = (if ok then n else 1)"
    using assms(1) unfolding lua_ok_def by (elim conjE)
  from this [rule_format, of L f args n] show ?thesis using assms(2,3) by simp
qed

lemma numbers:
  assumes "lua_ok api V" and "stk V L = []"
  shows "gives_number api V ''get_group_count'' [] n \<Longrightarrow> \<exists>L'. get_group_count api L = Some (n, L') \<and> stk V L' = []"
    and "gives_number api V ''get_group_id'' [i] n \<Longrightarrow> \<exists>L'. get_group_id api L i = Some (n, L') \<and> stk V L' = []"
    and "gives_number api V ''get_server_count_by_seq'' [i] n \<Longrightarrow> \<exists>L'. get_server_count_by_seq api L i = Some (n, L') \<and> stk V L' = []"
proof -
  have c: "\<exists>L2. lua_tonumber api (snd (lua_call api L f args 1)) 1 = Some n \<and> lua_pop api (snd (lua_call api L f args 1)) 1 = Some L2 \<and> stk V L2 = []"
    if g: "gives_number api V f args n" for f args
  proof -
    obtain L' v where L': "lua_call api L f args 1 = (True, L')" "stk V L' = [v]" "num V v = Some n"
      using g [unfolded gives_number_def, THEN spec, of L] assms(2) by auto
    obtain L2 where "lua_pop api L' 1 = Some L2" "stk V L2 = []" using lua_at(3) [OF assms(1) L'(2), of 1] by auto
    moreover have "lua_tonumber api L' 1 = Some n" using lua_at(1) [OF assms(1) L'(2), of 1] L'(3) by simp
    ultimately show ?thesis by (simp only: L'(1) snd_conv) blast
  qed
  show "gives_number api V ''get_group_count'' [] n \<Longrightarrow> \<exists>L'. get_group_count api L = Some (n, L') \<and> stk V L' = []"
    using c by (fastforce simp: get_group_count_def)
  show "gives_number api V ''get_group_id'' [i] n \<Longrightarrow> \<exists>L'. get_group_id api L i = Some (n, L') \<and> stk V L' = []"
    using c by (fastforce simp: get_group_id_def)
  show "gives_number api V ''get_server_count_by_seq'' [i] n \<Longrightarrow> \<exists>L'. get_server_count_by_seq api L i = Some (n, L') \<and> stk V L' = []"
    using c by (fastforce simp: get_server_count_by_seq_def)
qed

lemma server_strings:
  assumes "lua_ok api V" and "gives_server api V seq j s" and "server_ok s" and "stk V L = []"
  shows "\<exists>ip h L'. get_server_by_seq api L seq j (replicate 32 NUL) (replicate 32 NUL) = Some (ip, h, L') \<and> cstr ip 0 = fst s \<and> cstr h 0 = snd s
    \<and> stk V L' = []"
proof -
  obtain L1 v u where f: "lua_call api L ''get_server_by_seq'' [seq, j] 2 = (True, L1)" "stk V L1 = [v, u]"
    "str V v = Some (fst s)" "str V u = Some (snd s)" using assms(2) [unfolded gives_server_def, THEN spec, of L] assms(4) by auto
  have st: "lua_tostring api L1 1 = Some (fst s)" "lua_tostring api L1 2 = Some (snd s)"
    using lua_at(2) [OF assms(1) f(2), of 1] lua_at(2) [OF assms(1) f(2), of 2] f(3,4) by simp_all
  obtain L2 where L2: "lua_pop api L1 2 = Some L2" "stk V L2 = []" using lua_at(3) [OF assms(1) f(2), of 2] by auto
  obtain a ip where ip: "snprintf (replicate 32 NUL) 0 31 ''%s'' [AStr (fst s)] = Some (a, ip)" "cstr ip 0 = fst s"
    using print_name [of "fst s"] assms(3) by (auto simp: server_ok_def)
  obtain b h where h: "snprintf (replicate 32 NUL) 0 31 ''%s'' [AStr (snd s)] = Some (b, h)" "cstr h 0 = snd s"
    using print_name [of "snd s"] assms(3) by (auto simp: server_ok_def)
  have "get_server_by_seq api L seq j (replicate 32 NUL) (replicate 32 NUL) = Some (ip, h, L2)"
    using f(1) st L2(1) ip(1) h(1) by (simp add: get_server_by_seq_def)
  then show ?thesis using ip(2) h(2) L2(2) by (intro exI [of _ ip] exI [of _ h] exI [of _ L2]) simp
qed

section \<open>Loading keeps the invariant\<close>

lemma world_ok_ring:
  assumes "world_ok J w S R m" and "R a = Some gid"
  obtains c where "rings w a = Some c" and "ring_of J (nodes w) S m gid c"
  using assms unfolding world_ok_def by blast

text \<open>The world after a server was placed on the ring at \<open>c\<close>: its node is at a fresh address, and nothing else moved.\<close>

lemma placed_ok:
  assumes "world_ok J w S R m" and "nodes w a = None" and "a < b" and "next_addr w \<le> b" and "ring_of J ((nodes w)(a \<mapsto> n)) S m' gid ring"
    and "R c = Some gid" and "\<forall>k. m k \<noteq> None \<longrightarrow> m' k \<noteq> None"
    and "nodes w' = (nodes w)(a \<mapsto> n)" and "rings w' = (rings w)(c \<mapsto> ring)" and "next_addr w' = b" and "\<forall>x\<ge>b. strs w' x = None"
  shows "world_ok J w' S R m'"
  unfolding world_ok_def
proof (intro conjI allI impI)
  fix x assume x: "next_addr w' \<le> x"
  then show "nodes w' x = None" "R x = None" "strs w' x = None" using assms by (auto simp: world_ok_def)
next
  fix x g assume x: "R x = Some g"
  show "\<exists>c. rings w' x = Some c \<and> ring_of J (nodes w') S m' g c"
  proof (cases "x = c")
    case True
    then show ?thesis using assms x by auto
  next
    case False
    obtain r where "rings w x = Some r" "ring_of J (nodes w) S m g r" using world_ok_ring [OF assms(1) x] by blast
    then show ?thesis using ring_of_mono [of J "nodes w" S m g r a m' n] assms(2,7-9) False by auto
  qed
qed

lemma aliases_ok_mono:
  assumes "aliases_ok w S m" and "strs w' = strs w" and "next_addr w \<le> next_addr w'"
  shows "aliases_ok w' S m"
  using assms(1) unfolding aliases_ok_def assms(2) by (meson assms(3) order_less_le_trans)

text \<open>A server named and added to the ring at \<open>c\<close>, in any world that differs by other allocations only. Its node is at \<open>a\<close>; the aliases may have grown before.\<close>

lemma server_placed:
  assumes e: "env_ok e" and w: "world_ok (md5_junk e) w S R m" and a: "a = next_addr w" and c: "R c = Some gid" "rings w c = Some ring" "ring_length ring + 500 < 2 ^ 32"
    and s: "s \<in> S gid" "server_ok s" and m: "\<forall>k. m k \<noteq> None \<longrightarrow> m' k \<noteq> None" "snd s \<noteq> [] \<longrightarrow> m' (alias_key gid (snd s)) \<noteq> None"
  obtains n where "\<And>w1. nodes w1 = nodes w \<Longrightarrow> name_server e w1 a (j - 1) (server_name s) = Some (w1\<lparr>nodes := (nodes w)(a \<mapsto> n)\<rparr>)"
    and "\<And>w2. rings w2 = rings w \<Longrightarrow> nodes w2 = (nodes w)(a \<mapsto> n) \<Longrightarrow> a < next_addr w2 \<Longrightarrow> \<forall>x\<ge>next_addr w2. strs w2 x = None \<Longrightarrow>
      \<exists>w3 ring'. add_server e w2 c a = Some w3 \<and> world_ok (md5_junk e) w3 S R m' \<and> rings w3 = (rings w)(c \<mapsto> ring') \<and> next_addr w3 = next_addr w2
        \<and> strs w3 = strs w2 \<and> ring_length ring' \<le> ring_length ring + 500 \<and> server_at ring' \<noteq> Map.empty"
proof -
  let ?J = "md5_junk e"
  have J: "length ?J = 64" using e by (simp add: env_ok_def)
  have fresh: "nodes w a = None" using w a by (auto simp: world_ok_def)
  have ring: "ring_of ?J (nodes w) S m gid ring" using world_ok_ring [OF w c(1)] c(2) by auto
  have name: "NUL \<notin> set (server_name s)" "length (server_name s) \<le> 30" using s(2) by (auto simp: server_ok_def server_name_def)
  obtain n where n: "\<And>w1. nodes w1 = nodes w \<Longrightarrow> name_server e w1 a (j - 1) (server_name s) = Some (w1\<lparr>nodes := (nodes w)(a \<mapsto> n)\<rparr>)" "NUL \<in> set (iden n)"
    "cstr (iden n) 0 = server_name s" "replicas n = 500" "flag n = NODE_FLAG_INIT" using name_ok [OF e name, of a "j - 1"] by metis
  have "\<exists>w3 ring'. add_server e w2 c a = Some w3 \<and> world_ok ?J w3 S R m' \<and> rings w3 = (rings w)(c \<mapsto> ring') \<and> next_addr w3 = next_addr w2
      \<and> strs w3 = strs w2 \<and> ring_length ring' \<le> ring_length ring + 500 \<and> server_at ring' \<noteq> Map.empty"
    if w2: "rings w2 = rings w" "nodes w2 = (nodes w)(a \<mapsto> n)" "a < next_addr w2" "\<forall>x\<ge>next_addr w2. strs w2 x = None" for w2
  proof -
    obtain ring' n' where r: "add_server e w2 c a = Some (w2\<lparr>rings := (rings w2)(c \<mapsto> ring'), nodes := (nodes w2)(a \<mapsto> n'), tick := tick w2 + 500\<rparr>)"
      "ring_of ?J ((nodes w2)(a \<mapsto> n')) S m' gid ring'" "ring_length ring' \<le> ring_length ring + 500" "server_at ring' \<noteq> Map.empty"
      using add_server_ok [OF e, of w2 c ring a n s S gid m' ?J] w2(1,2) c(2,3) n s(1) J ring_of_mono [OF ring fresh(1), of m'] m by auto
    let ?w3 = "w2\<lparr>rings := (rings w2)(c \<mapsto> ring'), nodes := (nodes w2)(a \<mapsto> n'), tick := tick w2 + 500\<rparr>"
    have "world_ok ?J ?w3 S R m'"
      by (rule placed_ok [OF w fresh w2(3) _ _ c(1) m(1), of n' ring']) (use r(2) w2 a in auto)
    then show ?thesis using r w2(1) by (intro exI [of _ ?w3] exI [of _ ring']) simp
  qed
  then show thesis using that n(1) by blast
qed

text \<open>A new alias, unless its key has one.\<close>

lemma aliases_ok_add:
  assumes "aliases_ok w S m" and "strs w' = (strs w)(p \<mapsto> fst s)" and "next_addr w \<le> p" and "p < next_addr w'" and "snd s \<noteq> []" and "s \<in> S gid"
    and "m' = (if m (alias_key gid (snd s)) = None then m(alias_key gid (snd s) \<mapsto> At (int p)) else m)"
  shows "aliases_ok w' S m'"
  unfolding aliases_ok_def
proof (intro allI impI)
  fix k q assume q: "m' k = Some q"
  show "\<exists>gid s' x. q = At (int x) \<and> k = alias_key gid (snd s') \<and> snd s' \<noteq> [] \<and> s' \<in> S gid \<and> x < next_addr w' \<and> strs w' x = Some (fst s')"
  proof (cases "m k")
    case None
    then have "k = alias_key gid (snd s)" "q = At (int p)" using q assms(7) by (auto split: if_splits)
    then show ?thesis using assms(2,4-6) by (intro exI [of _ gid] exI [of _ s] exI [of _ p]) simp
  next
    case (Some z)
    then have "m k = Some q" using q assms(7) by (auto split: if_splits)
    then obtain g s' x where "q = At (int x)" "k = alias_key g (snd s')" "snd s' \<noteq> []" "s' \<in> S g" "x < next_addr w" "strs w x = Some (fst s')"
      using assms(1) unfolding aliases_ok_def by blast
    then show ?thesis using assms(2-4) by (intro exI [of _ g] exI [of _ s'] exI [of _ x]) simp
  qed
qed

lemma load_server_ok:
  assumes v: "lua_ok api V" and e: "env_ok e" and w: "world_ok (md5_junk e) w S R m" and al: "aliases_ok w S m" and t: "ips sc = Some t" "hm_keeps 0 t m"
    and c: "R c = Some gid" "rings w c = Some ring" "ring_length ring + 500 < 2 ^ 32" and s: "gives_server api V seq j s" "s \<in> S gid" "server_ok s"
    and i: "in_int gid" and L: "stk V L = []"
  shows "\<exists>L' w' t' m' ring'. load_server api e L w sc c seq gid j = Some (True, L', w', sc\<lparr>ips := Some t'\<rparr>) \<and> stk V L' = []
    \<and> world_ok (md5_junk e) w' S R m' \<and> aliases_ok w' S m' \<and> hm_keeps 0 t' m' \<and> rings w' = (rings w)(c \<mapsto> ring')
    \<and> ring_length ring' \<le> ring_length ring + 500 \<and> server_at ring' \<noteq> Map.empty \<and> next_addr w \<le> next_addr w'"
proof -
  obtain ip h L' where g: "get_server_by_seq api L seq j (replicate 32 NUL) (replicate 32 NUL) = Some (ip, h, L')" "cstr ip 0 = fst s" "cstr h 0 = snd s"
    "stk V L' = []" using server_strings [OF v s(1,3) L] by blast
  have b32: "bzero (replicate 32 NUL) 0 32 = Some (replicate 32 NUL)" by (simp add: bzero_all)
  define a where "a = next_addr w"
  have fresh: "\<forall>x\<ge>a. strs w x = None" using w by (auto simp: world_ok_def a_def)
  define wa where "wa = w\<lparr>next_addr := a + 1, tick := tick w + 1\<rparr>"
  have ma: "malloc e w = (Some a, wa)" by (simp add: malloc_ok [OF e] a_def wa_def)
  show ?thesis
  proof (cases "snd s = []")
    case True
    then have name: "server_name s = fst s" by (simp add: server_name_def)
    obtain n where n: "\<And>w1. nodes w1 = nodes w \<Longrightarrow> name_server e w1 a (j - 1) (fst s) = Some (w1\<lparr>nodes := (nodes w)(a \<mapsto> n)\<rparr>)"
      "\<And>w2. rings w2 = rings w \<Longrightarrow> nodes w2 = (nodes w)(a \<mapsto> n) \<Longrightarrow> a < next_addr w2 \<Longrightarrow> \<forall>x\<ge>next_addr w2. strs w2 x = None \<Longrightarrow>
        \<exists>w3 ring'. add_server e w2 c a = Some w3 \<and> world_ok (md5_junk e) w3 S R m \<and> rings w3 = (rings w)(c \<mapsto> ring') \<and> next_addr w3 = next_addr w2
          \<and> strs w3 = strs w2 \<and> ring_length ring' \<le> ring_length ring + 500 \<and> server_at ring' \<noteq> Map.empty"
      using server_placed [OF e w a_def c s(2,3), of m j, unfolded name] True by blast
    obtain w3 ring' where r: "add_server e (wa\<lparr>nodes := (nodes w)(a \<mapsto> n)\<rparr>) c a = Some w3" "world_ok (md5_junk e) w3 S R m" "rings w3 = (rings w)(c \<mapsto> ring')"
      "next_addr w3 = a + 1" "strs w3 = strs w" "ring_length ring' \<le> ring_length ring + 500" "server_at ring' \<noteq> Map.empty"
      using n(2) [of "wa\<lparr>nodes := (nodes w)(a \<mapsto> n)\<rparr>"] fresh by (auto simp: wa_def)
    have "load_server api e L w sc c seq gid j = Some (True, L', w3, sc)" using g True n(1) [of wa] r(1) ma by (simp add: load_server_def b32 wa_def)
    moreover have "sc = sc\<lparr>ips := Some t\<rparr>" using t(1) by (cases sc) simp
    moreover have "aliases_ok w3 S m" by (rule aliases_ok_mono [OF al r(5)]) (simp add: r(4) a_def)
    ultimately show ?thesis using g(4) t(2) r by (intro exI [of _ L'] exI [of _ w3] exI [of _ t] exI [of _ m] exI [of _ ring']) (simp add: a_def)
  next
    case False
    then have name: "server_name s = snd s" by (simp add: server_name_def)
    let ?k = "alias_key gid (snd s)"
    define m' where "m' = (if m ?k = None then m(?k \<mapsto> At (int (a + 1))) else m)"
    have mm: "\<forall>k. m k \<noteq> None \<longrightarrow> m' k \<noteq> None" "m' ?k \<noteq> None" by (auto simp: m'_def)
    obtain n where n: "\<And>w1. nodes w1 = nodes w \<Longrightarrow> name_server e w1 a (j - 1) (snd s) = Some (w1\<lparr>nodes := (nodes w)(a \<mapsto> n)\<rparr>)"
      "\<And>w2. rings w2 = rings w \<Longrightarrow> nodes w2 = (nodes w)(a \<mapsto> n) \<Longrightarrow> a < next_addr w2 \<Longrightarrow> \<forall>x\<ge>next_addr w2. strs w2 x = None \<Longrightarrow>
        \<exists>w3 ring'. add_server e w2 c a = Some w3 \<and> world_ok (md5_junk e) w3 S R m' \<and> rings w3 = (rings w)(c \<mapsto> ring') \<and> next_addr w3 = next_addr w2
          \<and> strs w3 = strs w2 \<and> ring_length ring' \<le> ring_length ring + 500 \<and> server_at ring' \<noteq> Map.empty"
      using server_placed [OF e w a_def c s(2,3) mm(1), of j, unfolded name] mm(2) by blast
    define w1 where "w1 = wa\<lparr>next_addr := a + 2, tick := tick w + 2, strs := (strs w)(a + 1 \<mapsto> fst s)\<rparr>"
    define w2 where "w2 = w1\<lparr>nodes := (nodes w)(a \<mapsto> n)\<rparr>"
    have w2: "rings w2 = rings w" "nodes w2 = (nodes w)(a \<mapsto> n)" "strs w2 = (strs w)(a + 1 \<mapsto> fst s)" "next_addr w2 = a + 2" by (simp_all add: w2_def w1_def wa_def)
    obtain x y where k: "snprintf (replicate 64 NUL) 0 63 ''%d_%s'' [AInt gid, AStr (snd s)] = Some (x, ?k @ y)"
      using print_alias_key [OF i, of "snd s"] s(3) by (auto simp: server_ok_def)
    have vk: "valid_key 0 ?k" using valid_alias_key s(3) by (simp add: server_ok_def)
    obtain t' where t': "put_map e w2 (Some t) (?k @ y) (a + 1) = Some (Some t', w2\<lparr>tick := tick w2 + 2\<rparr>)" "hm_keeps 0 t' m'"
      using put_ok [OF e t(2) vk, of w2 y "a + 1"] by (auto simp: m'_def)
    obtain w4 ring' where r: "add_server e (w2\<lparr>tick := tick w2 + 2\<rparr>) c a = Some w4" "world_ok (md5_junk e) w4 S R m'" "rings w4 = (rings w)(c \<mapsto> ring')"
      "next_addr w4 = a + 2" "strs w4 = (strs w)(a + 1 \<mapsto> fst s)" "ring_length ring' \<le> ring_length ring + 500" "server_at ring' \<noteq> Map.empty"
      using n(2) [of "w2\<lparr>tick := tick w2 + 2\<rparr>"] fresh by (auto simp: w2)
    have "aliases_ok w4 S m'" by (rule aliases_ok_add [OF al r(5) _ _ False s(2) m'_def]) (simp_all add: r(4) a_def)
    moreover have "malloc e wa = (Some (a + 1), wa\<lparr>next_addr := a + 2, tick := tick w + 2\<rparr>)" by (simp add: malloc_ok [OF e] wa_def)
    then have "load_server api e L w sc c seq gid j = Some (True, L', w4, sc\<lparr>ips := Some t'\<rparr>)"
      using g False n(1) [of w1] ma r(1) k t(1) t'(1) by (simp add: load_server_def b32 Let_def w1_def wa_def w2_def)
    ultimately show ?thesis using g(4) t'(2) r by (intro exI [of _ L'] exI [of _ w4] exI [of _ t'] exI [of _ m'] exI [of _ ring']) (simp add: a_def)
  qed
qed

lemma server_loop_ok:
  assumes v: "lua_ok api V" and e: "env_ok e" and i: "in_int gid"
  shows "\<lbrakk>world_ok (md5_junk e) w S R m; aliases_ok w S m; ips sc = Some t; hm_keeps 0 t m; R c = Some gid; rings w c = Some ring;
      ring_length ring + 500 * length js < 2 ^ 32; \<forall>j\<in>set js. \<exists>s\<in>S gid. gives_server api V seq j s \<and> server_ok s; stk V L = []\<rbrakk>
    \<Longrightarrow> \<exists>L' w' t' m' ring'. server_loop api e L w sc c seq gid js = Some (True, L', w', sc\<lparr>ips := Some t'\<rparr>) \<and> stk V L' = []
      \<and> world_ok (md5_junk e) w' S R m' \<and> aliases_ok w' S m' \<and> hm_keeps 0 t' m' \<and> rings w' = (rings w)(c \<mapsto> ring')
      \<and> (if js = [] then ring' = ring else server_at ring' \<noteq> Map.empty) \<and> next_addr w \<le> next_addr w'"
proof (induction js arbitrary: L w sc t m ring)
  case Nil
  have "sc = sc\<lparr>ips := Some t\<rparr>" using Nil.prems(3) by (cases sc) simp
  moreover have "rings w = (rings w)(c \<mapsto> ring)" using Nil.prems(6) by (simp add: fun_upd_idem)
  ultimately show ?case using Nil.prems
    by (intro exI [of _ L] exI [of _ w] exI [of _ t] exI [of _ m] exI [of _ ring]) simp
next
  case (Cons j js)
  obtain s where s: "s \<in> S gid" "gives_server api V seq j s" "server_ok s" using Cons.prems(8) by auto
  have b: "ring_length ring + 500 < 2 ^ 32" using Cons.prems(7) by simp
  obtain L1 w1 t1 m1 r1 where 1: "load_server api e L w sc c seq gid j = Some (True, L1, w1, sc\<lparr>ips := Some t1\<rparr>)" "stk V L1 = []"
    "world_ok (md5_junk e) w1 S R m1" "aliases_ok w1 S m1" "hm_keeps 0 t1 m1" "rings w1 = (rings w)(c \<mapsto> r1)"
    "ring_length r1 \<le> ring_length ring + 500" "server_at r1 \<noteq> Map.empty" "next_addr w \<le> next_addr w1"
    using load_server_ok [OF v e Cons.prems(1-6) b s(2,1,3) i Cons.prems(9)] by blast
  have js: "ring_length r1 + 500 * length js < 2 ^ 32" "\<forall>j\<in>set js. \<exists>s\<in>S gid. gives_server api V seq j s \<and> server_ok s"
    using Cons.prems(7,8) 1(7) by auto
  have r: "ips (sc\<lparr>ips := Some t1\<rparr>) = Some t1" "rings w1 c = Some r1" by (simp_all add: 1(6))
  obtain L2 w2 t2 m2 r2 where 2: "server_loop api e L1 w1 (sc\<lparr>ips := Some t1\<rparr>) c seq gid js = Some (True, L2, w2, sc\<lparr>ips := Some t1\<rparr>\<lparr>ips := Some t2\<rparr>)"
    "stk V L2 = []" "world_ok (md5_junk e) w2 S R m2" "aliases_ok w2 S m2" "hm_keeps 0 t2 m2" "rings w2 = (rings w1)(c \<mapsto> r2)"
    "if js = [] then r2 = r1 else server_at r2 \<noteq> Map.empty" "next_addr w1 \<le> next_addr w2"
    using Cons.IH [OF 1(3,4) r(1) 1(5) Cons.prems(5) r(2) js 1(2)] by blast
  have "server_at r2 \<noteq> Map.empty" using 2(7) 1(8) by (cases "js = []") auto
  moreover have "rings w2 = (rings w)(c \<mapsto> r2)" by (simp add: 2(6) 1(6))
  moreover have "server_loop api e L w sc c seq gid (j # js) = Some (True, L2, w2, sc\<lparr>ips := Some t2\<rparr>)" using 1(1) 2(1) by simp
  ultimately show ?case using 2(2-5,8) 1(9)
    by (intro exI [of _ L2] exI [of _ w2] exI [of _ t2] exI [of _ m2] exI [of _ r2]) simp
qed

section \<open>Groups\<close>

definition gives_group :: "'l lua_api \<Rightarrow> ('l, 'v) lua_view \<Rightarrow> int \<Rightarrow> int \<times> (string \<times> string) list \<Rightarrow> bool" where
  "gives_group api V i g \<longleftrightarrow> gives_number api V ''get_group_id'' [i] (fst g) \<and> gives_number api V ''get_server_count_by_seq'' [i] (int (length (snd g)))
     \<and> (\<forall>j<length (snd g). gives_server api V i (int j + 1) (snd g ! j))"

definition group_ok :: "int \<times> (string \<times> string) list \<Rightarrow> bool" where
  "group_ok g \<longleftrightarrow> fst g \<noteq> 0 \<and> in_int (fst g) \<and> length (snd g) \<le> 8000000 \<and> (\<forall>s\<in>set (snd g). server_ok s)"

text \<open>\<open>D\<close> holds the numbers of the groups.\<close>

definition groups_ok :: "int set \<Rightarrow> (string \<rightharpoonup> ptr) \<Rightarrow> world \<Rightarrow> (int \<Rightarrow> (string \<times> string) set) \<Rightarrow> (nat \<rightharpoonup> int) \<Rightarrow> bool" where
  "groups_ok D m w S R \<longleftrightarrow> (\<forall>k p. m k = Some p \<longrightarrow> (\<exists>gid a c. gid \<in> D \<and> p = At (int a) \<and> k = group_key gid \<and> R a = Some gid \<and> rings w a = Some c
     \<and> (server_at c = Map.empty \<longleftrightarrow> S gid = {})))"

definition table_ok :: "int set \<Rightarrow> 8 word list \<Rightarrow> server_conhash \<Rightarrow> world \<Rightarrow> (int \<Rightarrow> (string \<times> string) set) \<Rightarrow> (string \<rightharpoonup> ptr) \<Rightarrow> bool" where
  "table_ok D J sc w S m \<longleftrightarrow> (\<exists>t t' m' R. conhashs sc = Some t \<and> hm_keeps 0 t m \<and> ips sc = Some t' \<and> hm_keeps 0 t' m'
     \<and> world_ok J w S R m' \<and> aliases_ok w S m' \<and> groups_ok D m w S R)"

lemma new_ring_inv: "conhash_init J True None = Some c \<Longrightarrow> conhash_inv c h \<and> cb_hashfunc c = conhash_hash_def J \<and> server_at c = Map.empty \<and> ring_length c = 0"
  by (auto simp: conhash_init_def util_rbtree_init_def conhash_inv_def ring_ok_def util_ok_def keys_sorted_def ring_length_def vnodes_def
      entry_map_def server_at_def rb_ok_def)

text \<open>A new ring, a new entry of the table of groups, and the servers of a group the script gives.\<close>

lemma new_ring_ok:
  assumes e: "env_ok e" and w: "world_ok (md5_junk e) w S R m"
  obtains ring w' where "new_ring e w = (Some (next_addr w), w')" and "world_ok (md5_junk e) w' S (R(next_addr w \<mapsto> gid)) m"
    and "rings w' = (rings w)(next_addr w \<mapsto> ring)" and "strs w' = strs w" and "next_addr w' = Suc (next_addr w)"
    and "server_at ring = Map.empty" and "ring_length ring = 0"
proof -
  let ?J = "md5_junk e" and ?c = "next_addr w"
  obtain ring where init: "conhash_init ?J True None = Some ring" by (simp add: conhash_init_def)
  note ring = new_ring_inv [OF init]
  define w1 where "w1 = w\<lparr>next_addr := ?c + 1, tick := tick w + 1, rings := (rings w)(?c \<mapsto> ring)\<rparr>"
  have w1: "nodes w1 = nodes w" "rings w1 = (rings w)(?c \<mapsto> ring)" "strs w1 = strs w" "next_addr w1 = Suc ?c" by (simp_all add: w1_def)
  have "world_ok ?J w1 S (R(?c \<mapsto> gid)) m"
    unfolding world_ok_def
  proof (intro conjI allI impI)
    fix x assume "next_addr w1 \<le> x"
    then show "nodes w1 x = None" "(R(?c \<mapsto> gid)) x = None" "strs w1 x = None" using w by (auto simp: world_ok_def w1)
  next
    fix x h assume x: "(R(?c \<mapsto> gid)) x = Some h"
    show "\<exists>r. rings w1 x = Some r \<and> ring_of ?J (nodes w1) S m h r"
    proof (cases "x = ?c")
      case True
      then show ?thesis using x ring by (simp add: w1 ring_of_def)
    next
      case False
      then show ?thesis using x world_ok_ring [OF w, of x h] by (auto simp: w1)
    qed
  qed
  moreover have "new_ring e w = (Some ?c, w1)" by (simp add: new_ring_def malloc_ok [OF e] w1_def init)
  ultimately show thesis using that w1 ring by blast
qed

lemma groups_ok_add:
  assumes "groups_ok D m w S R" and "R c = None" and "rings w' = (rings w)(c \<mapsto> r)" and "server_at r = Map.empty \<longleftrightarrow> S gid = {}" and "gid \<in> D"
    and "m' = (if m (group_key gid) = None then m(group_key gid \<mapsto> At (int c)) else m)"
  shows "groups_ok D m' w' S (R(c \<mapsto> gid))"
  unfolding groups_ok_def
proof (intro allI impI)
  fix k p assume k: "m' k = Some p"
  show "\<exists>gid' a r. gid' \<in> D \<and> p = At (int a) \<and> k = group_key gid' \<and> (R(c \<mapsto> gid)) a = Some gid' \<and> rings w' a = Some r \<and> (server_at r = Map.empty \<longleftrightarrow> S gid' = {})"
  proof (cases "m k")
    case None
    then have "k = group_key gid" "p = At (int c)" using k assms(6) by (auto split: if_splits)
    then show ?thesis using assms(3-5) by (intro exI [of _ gid] exI [of _ c] exI [of _ r]) simp
  next
    case (Some q)
    then have "m k = Some p" using k assms(6) by (auto split: if_splits)
    then obtain h a r' where h: "h \<in> D" "p = At (int a)" "k = group_key h" "R a = Some h" "rings w a = Some r'" "server_at r' = Map.empty \<longleftrightarrow> S h = {}"
      using assms(1) unfolding groups_ok_def by blast
    then have "a \<noteq> c" using assms(2) by auto
    then show ?thesis using h assms(3) by (intro exI [of _ h] exI [of _ a] exI [of _ r']) simp
  qed
qed

lemma group_servers:
  assumes "gives_group api V i g" and "group_ok g" and "S (fst g) = set (snd g)"
  shows "\<forall>j\<in>set [1..int (length (snd g))]. \<exists>s\<in>S (fst g). gives_server api V i j s \<and> server_ok s"
proof
  fix j assume "j \<in> set [1..int (length (snd g))]"
  then have j: "nat (j - 1) < length (snd g)" "int (nat (j - 1)) + 1 = j" by auto
  then have "gives_server api V i j (snd g ! nat (j - 1))" using assms(1) unfolding gives_group_def by metis
  then show "\<exists>s\<in>S (fst g). gives_server api V i j s \<and> server_ok s" using j(1) assms(2,3) by (auto simp: group_ok_def)
qed

lemma load_group_ok:
  assumes v: "lua_ok api V" and e: "env_ok e" and t: "table_ok D (md5_junk e) sc w S m" and g: "gives_group api V i g" "group_ok g" "S (fst g) = set (snd g)" "fst g \<in> D"
    and L: "stk V L = []"
  shows "\<exists>L' w' sc' m'. load_group api e L w sc i = Some (True, L', w', sc') \<and> stk V L' = [] \<and> table_ok D (md5_junk e) sc' w' S m'
    \<and> (\<forall>k. m k \<noteq> None \<longrightarrow> m' k \<noteq> None) \<and> m' (group_key (fst g)) \<noteq> None"
proof -
  let ?J = "md5_junk e" and ?js = "[1..int (length (snd g))]"
  obtain t1 t2 m2 R where T: "conhashs sc = Some t1" "hm_keeps 0 t1 m" "ips sc = Some t2" "hm_keeps 0 t2 m2" "world_ok ?J w S R m2" "aliases_ok w S m2"
    "groups_ok D m w S R" using t unfolding table_ok_def by blast
  define gid where "gid = fst g"
  define c where "c = next_addr w"
  have ig: "in_int gid" "gid \<noteq> 0" using g(2) by (simp_all add: group_ok_def gid_def)
  obtain ring w1 where new: "new_ring e w = (Some c, w1)" and wok: "world_ok ?J w1 S (R(c \<mapsto> gid)) m2"
    and w1: "rings w1 = (rings w)(c \<mapsto> ring)" "strs w1 = strs w" "next_addr w1 = Suc c" and ring: "server_at ring = Map.empty" "ring_length ring = 0"
    using new_ring_ok [OF e T(5), of gid] unfolding c_def by metis
  have Rc: "R c = None" using T(5) by (simp add: world_ok_def c_def)
  have alok: "aliases_ok w1 S m2" by (rule aliases_ok_mono [OF T(6)]) (simp_all add: w1 c_def)
  obtain L1 where L1: "get_group_id api L i = Some (gid, L1)" "stk V L1 = []"
    using numbers(2) [OF v L] g(1) unfolding gives_group_def gid_def by blast
  obtain L2 where L2: "get_server_count_by_seq api L1 i = Some (int (length (snd g)), L2)" "stk V L2 = []"
    using numbers(3) [OF v L1(2)] g(1) unfolding gives_group_def by blast
  have len: "ring_length ring + 500 * length ?js < 2 ^ 32" using g(2) ring by (simp add: group_ok_def)
  have rc: "(R(c \<mapsto> gid)) c = Some gid" "rings w1 c = Some ring" by (simp_all add: w1)
  obtain L3 w3 t3 m3 r3 where 3: "server_loop api e L2 w1 sc c i gid ?js = Some (True, L3, w3, sc\<lparr>ips := Some t3\<rparr>)" "stk V L3 = []"
    "world_ok ?J w3 S (R(c \<mapsto> gid)) m3" "aliases_ok w3 S m3" "hm_keeps 0 t3 m3" "rings w3 = (rings w1)(c \<mapsto> r3)"
    "if ?js = [] then r3 = ring else server_at r3 \<noteq> Map.empty"
    using server_loop_ok [OF v e ig(1) wok alok T(3,4) rc len group_servers [of api V i g S, folded gid_def] L2(2)] g unfolding gid_def by blast
  have r3: "server_at r3 = Map.empty \<longleftrightarrow> S gid = {}" using 3(7) ring g(3) by (cases "snd g = []") (auto simp: gid_def)
  obtain b where b: "snprintf (replicate 32 NUL) 0 31 ''%d'' [AInt gid] = Some (int (length (show_int gid)), group_key gid @ b)"
    using print_group_key [OF ig(1)] by blast
  define m' where "m' = (if m (group_key gid) = None then m(group_key gid \<mapsto> At (int c)) else m)"
  obtain t' where t': "put_map e w3 (Some t1) (group_key gid @ b) c = Some (Some t', w3\<lparr>tick := tick w3 + 2\<rparr>)" "hm_keeps 0 t' m'"
    using put_ok [OF e T(2) valid_group_key, of w3 gid b c] by (auto simp: m'_def)
  let ?w4 = "w3\<lparr>tick := tick w3 + 2\<rparr>" and ?sc = "sc\<lparr>ips := Some t3, conhashs := Some t'\<rparr>"
  have "load_group api e L w sc i = Some (True, L3, ?w4, ?sc)"
    using new L1(1) L2(1) 3(1) ig(2) b t'(1) T(1) by (simp add: load_group_def group_server_load_def bzero_all)
  moreover have "groups_ok D m' ?w4 S (R(c \<mapsto> gid))" by (rule groups_ok_add [OF T(7) Rc _ r3 _ m'_def]) (use 3(6) w1(1) g(4) in \<open>simp_all add: gid_def\<close>)
  then have "table_ok D ?J ?sc ?w4 S m'"
    unfolding table_ok_def using t'(2) 3(3-5)
    by (intro exI [of _ t'] exI [of _ t3] exI [of _ m3] exI [of _ "R(c \<mapsto> gid)"]) (simp add: world_ok_def aliases_ok_def)
  moreover have "\<forall>k. m k \<noteq> None \<longrightarrow> m' k \<noteq> None" "m' (group_key (fst g)) \<noteq> None" by (auto simp: m'_def gid_def)
  ultimately show ?thesis using 3(2) by blast
qed

lemma group_loop_ok:
  assumes v: "lua_ok api V" and e: "env_ok e"
  shows "\<lbrakk>table_ok D (md5_junk e) sc w S m; stk V L = [];
      \<forall>i\<in>set is. gives_group api V i (G i) \<and> group_ok (G i) \<and> S (fst (G i)) = set (snd (G i)) \<and> fst (G i) \<in> D\<rbrakk>
    \<Longrightarrow> \<exists>L' w' sc' m'. group_loop api e L w sc is = Some (True, L', w', sc') \<and> table_ok D (md5_junk e) sc' w' S m'
      \<and> (\<forall>k. m k \<noteq> None \<longrightarrow> m' k \<noteq> None) \<and> (\<forall>i\<in>set is. m' (group_key (fst (G i))) \<noteq> None)"
proof (induction "is" arbitrary: L w sc m)
  case (Cons i "is")
  have g: "gives_group api V i (G i)" "group_ok (G i)" "S (fst (G i)) = set (snd (G i))" "fst (G i) \<in> D" using Cons.prems(3) by auto
  obtain L1 w1 sc1 m1 where 1: "load_group api e L w sc i = Some (True, L1, w1, sc1)" "stk V L1 = []" "table_ok D (md5_junk e) sc1 w1 S m1"
    "\<forall>k. m k \<noteq> None \<longrightarrow> m1 k \<noteq> None" "m1 (group_key (fst (G i))) \<noteq> None"
    using load_group_ok [OF v e Cons.prems(1) g Cons.prems(2)] by blast
  have rest: "\<forall>i\<in>set is. gives_group api V i (G i) \<and> group_ok (G i) \<and> S (fst (G i)) = set (snd (G i)) \<and> fst (G i) \<in> D" using Cons.prems(3) by simp
  obtain L2 w2 sc2 m2 where 2: "group_loop api e L1 w1 sc1 is = Some (True, L2, w2, sc2)" "table_ok D (md5_junk e) sc2 w2 S m2"
    "\<forall>k. m1 k \<noteq> None \<longrightarrow> m2 k \<noteq> None" "\<forall>i\<in>set is. m2 (group_key (fst (G i))) \<noteq> None"
    using Cons.IH [OF 1(3,2) rest] by blast
  have "group_loop api e L w sc (i # is) = Some (True, L2, w2, sc2)" using 1(1) 2(1) by simp
  moreover have "\<forall>k. m k \<noteq> None \<longrightarrow> m2 k \<noteq> None" using 1(4) 2(3) by blast
  moreover have "\<forall>j\<in>set (i # is). m2 (group_key (fst (G j))) \<noteq> None" using 1(5) 2(3,4) by simp
  ultimately show ?case using 2(2) by blast
qed auto

lemma new_map_ok:
  assumes "env_ok e"
  shows "\<exists>t. new_map e w = Some (Some t, w\<lparr>tick := tick w + 4\<rparr>) \<and> hm_keeps 0 t Map.empty"
proof -
  have p: "\<exists>p. nearest_prime 1024 = Some p \<and> 0 < p \<and> p < 2000" by (simp add: nearest_prime_def prime_table0_def rd_def)
  then obtain p where p: "nearest_prime 1024 = Some p" "0 < p" "p < 2000" by blast
  have r: "0 \<le> rands e i" "rands e i < 40000" for i using assms by (simp_all add: env_ok_def)
  have q: "\<exists>v. nearest_prime (rands e i smod p + k) = Some v" if "0 \<le> k" "k \<le> 4000" for i k
  proof -
    have "rands e i smod p = rands e i mod p" using r p(2) by (simp add: smod_nonneg)
    moreover have "0 \<le> rands e i mod p" "rands e i mod p < p" using p(2) by simp_all
    ultimately show ?thesis using nearest_prime_range [of "rands e i smod p + k"] p(3) that by (auto simp: INT_MAX_def)
  qed
  obtain v1 v2 where v: "nearest_prime (rands e (tick w) smod p + 3191) = Some v1" "nearest_prime (rands e (tick w + 1) smod p + 709) = Some v2"
    using q [of 3191] q [of 709] by fastforce
  define x where "x = rands e (tick w + 2) * rands e (tick w + 3)"
  have "x \<le> 40000 * 40000" unfolding x_def by (rule mult_mono) (use r in \<open>auto simp: less_imp_le\<close>)
  moreover have "0 \<le> x" unfolding x_def using r by simp
  ultimately have "0 \<le> x" "x \<le> 1600000000" by simp_all
  then have x: "ck_int x = Some x" "ck_int (x + 133824503) = Some (x + 133824503)" by (simp_all add: ck_int_def in_int_def INT_MAX_def)
  have "\<exists>f. hash_fcn_new True (rands e (tick w)) (rands e (tick w + 1)) (rands e (tick w + 2)) (rands e (tick w + 3)) p = Some (Some f)"
    using v x p(2) by (simp add: hash_fcn_new_def x_def)
  then obtain f where "hash_fcn_new True (rands e (tick w)) (rands e (tick w + 1)) (rands e (tick w + 2)) (rands e (tick w + 3)) p = Some (Some f)" by blast
  then obtain t where t: "hashmap_new True True True (rands e (tick w)) (rands e (tick w + 1)) (rands e (tick w + 2)) (rands e (tick w + 3)) 1024 0 0 True
      = Some (Some t)" using p by (simp add: hashmap_new_def in_int_def INT_MAX_def)
  then have "hm_keeps 0 t Map.empty" using new_keeps [OF t] by (simp add: in_int_def INT_MAX_def)
  then show ?thesis using t assms by (simp add: new_map_def env_ok_def)
qed

section \<open>Look-up in a loaded table\<close>

lemma find_in_table:
  assumes t: "table_ok D J sc w S m" and J: "length J = 64" and i: "0 \<le> gid" "in_int gid" and s: "\<forall>s\<in>S gid. server_ok s"
    and u: "u \<noteq> []" "length u < 2 ^ 28"
  shows "(m (group_key gid) = None \<longrightarrow> server_conhash_find (Some sc) w gid (Some u) = Some None)
    \<and> (m (group_key gid) \<noteq> None \<and> S gid = {} \<longrightarrow> server_conhash_find (Some sc) w gid (Some u) = None)
    \<and> (m (group_key gid) \<noteq> None \<and> S gid \<noteq> {} \<longrightarrow> (\<exists>s\<in>S gid. server_conhash_find (Some sc) w gid (Some u) = Some (Some (fst s))))"
proof -
  obtain t1 t2 m2 R where T: "conhashs sc = Some t1" "hm_keeps 0 t1 m" "ips sc = Some t2" "hm_keeps 0 t2 m2" "world_ok J w S R m2" "aliases_ok w S m2"
    "groups_ok D m w S R" using t unfolding table_ok_def by blast
  obtain x b where b: "snprintf (replicate 32 NUL) 0 31 ''%d'' [AInt gid] = Some (x, group_key gid @ b)" using print_group_key [OF i(2)] by blast
  have f: "hashmap_find (Some t1) (group_key gid @ b) = Some (case m (group_key gid) of None \<Rightarrow> NULL | Some v \<Rightarrow> v, Some t1)"
    using find_ok(1) [of t1 m "group_key gid" b] T(2) valid_group_key by (simp add: hm_keeps_def)
  show ?thesis
  proof (cases "m (group_key gid)")
    case None
    then show ?thesis using T(1) b f i(1) u(1) by (simp add: server_conhash_find_def)
  next
    case (Some p)
    from Some T(7) have "\<exists>h a c. p = At (int a) \<and> group_key gid = group_key h \<and> R a = Some h \<and> rings w a = Some c \<and> (server_at c = Map.empty \<longleftrightarrow> S h = {})"
      unfolding groups_ok_def by blast
    then obtain a c where a: "p = At (int a)" "R a = Some gid" "rings w a = Some c" "server_at c = Map.empty \<longleftrightarrow> S gid = {}"
      unfolding group_key_inject by blast
    have r: "ring_of J (nodes w) S m2 gid c" using world_ok_ring [OF T(5) a(2)] a(3) by auto
    then have inv: "conhash_inv c (nodes w)" "cb_hashfunc c = conhash_hash_def J" by (simp_all add: ring_of_def)
    obtain k where "cb_hashfunc c (take (nat (int (length u))) u) (int (length u)) = Some k" using hash_def_total [OF J u(2)] inv(2) by auto
    note l = conhash_lookup_ok [OF inv(1) this]
    show ?thesis
    proof (cases "server_at c = Map.empty")
      case True
      then show ?thesis using a Some T(1) b f i(1) u(1) l by (simp add: server_conhash_find_def owner_def)
    next
      case False
      then have "dom (server_at c) \<noteq> {}" by simp
      then have "owner_key (dom (server_at c)) k \<in> dom (server_at c)" by (rule owner_key_dom [OF finite_servers])
      then obtain v where v: "owner (server_at c) k = Some v" "server_at c (owner_key (dom (server_at c)) k) = Some v" using False by (auto simp: owner_def)
      obtain n sv where n: "nodes w v = Some n" "NUL \<in> set (iden n)" "sv \<in> S gid" "cstr (iden n) 0 = server_name sv"
        "snd sv \<noteq> [] \<longrightarrow> m2 (alias_key gid (snd sv)) \<noteq> None" using r v(2) unfolding ring_of_def by blast
      have ok: "NUL \<notin> set (server_name sv)" "length (server_name sv) \<le> 30" using s n(3) by (auto simp: server_ok_def server_name_def)
      obtain y z where y: "snprintf (replicate 64 NUL) 0 63 ''%d_%s'' [AInt gid, AStr (server_name sv)] = Some (y, alias_key gid (server_name sv) @ z)"
        using print_alias_key [OF i(2) ok(2)] by blast
      have g: "hashmap_find (Some t2) (alias_key gid (server_name sv) @ z) = Some (case m2 (alias_key gid (server_name sv)) of None \<Rightarrow> NULL | Some q \<Rightarrow> q, Some t2)"
        using find_ok(1) [of t2 m2 "alias_key gid (server_name sv)" z] T(4) valid_alias_key [OF ok(1)] by (simp add: hm_keeps_def)
      have run: "server_conhash_find (Some sc) w gid (Some u) = (case m2 (alias_key gid (server_name sv)) of
          None \<Rightarrow> Some (Some (server_name sv)) | Some q \<Rightarrow> (case q of At p \<Rightarrow> map_option Some (strs w (nat p)) | NULL \<Rightarrow> Some (Some (server_name sv))))"
        using a Some T(1,3) b f i(1) u(1) l v(1) n y g by (simp add: server_conhash_find_def split: option.split ptr.split)
      show ?thesis
      proof (cases "m2 (alias_key gid (server_name sv))")
        case None
        have "snd sv = []"
        proof (rule ccontr)
          assume "snd sv \<noteq> []"
          then show False using None n(5) by (simp add: server_name_def)
        qed
        then show ?thesis using None run n(3) Some a(4) by (auto simp: server_name_def)
      next
        case (Some q)
        from Some T(6) have "\<exists>h s' d. q = At (int d) \<and> alias_key gid (server_name sv) = alias_key h (snd s') \<and> s' \<in> S h \<and> strs w d = Some (fst s')"
          unfolding aliases_ok_def by blast
        then obtain s' d where "q = At (int d)" "s' \<in> S gid" "strs w d = Some (fst s')" unfolding alias_key_inject by blast
        then show ?thesis using Some run n(3) \<open>m (group_key gid) = Some p\<close> a(4) by auto
      qed
    qed
  qed
qed

text \<open>A script that loads, and whose functions give the groups in the list, the one with the number \<open>i\<close> at place \<open>i - 1\<close>.\<close>

definition script_gives :: "'l lua_api \<Rightarrow> ('l, 'v) lua_view \<Rightarrow> string \<Rightarrow> (int \<times> (string \<times> string) list) list \<Rightarrow> bool" where
  "script_gives api V lua_file gs \<longleftrightarrow> lua_newstate api \<noteq> None \<and> (\<forall>L. \<exists>L'. luaL_dofile api L lua_file = (True, L') \<and> stk V L' = stk V L)
     \<and> (\<forall>L. fst (lua_call api L ''load_data'' [] 0)) \<and> gives_number api V ''get_group_count'' [] (int (length gs))
     \<and> (\<forall>i<length gs. gives_group api V (int i + 1) (gs ! i))"

text \<open>The creation up to the groups: when memory suffices there are two empty tables, and the result is that of loading the groups into them.\<close>

lemma create_tables:
  assumes "env_ok e" and "\<forall>a\<ge>next_addr w. nodes w a = None \<and> strs w a = None"
  obtains sc w0 where "\<And>D S. table_ok D (md5_junk e) sc w0 S Map.empty"
    and "\<And>api l l1 lua_file L w' sc'. lua_newstate api = Some l \<Longrightarrow> luaL_dofile api l lua_file = (True, l1)
      \<Longrightarrow> group_load api e (load_data api l1) w0 sc = Some (True, L, w', sc') \<Longrightarrow> server_conhash_create api e w lua_file = Some (Some sc', w', False)"
proof -
  define w1 where "w1 = w\<lparr>next_addr := next_addr w + 1, tick := tick w + 1\<rparr>"
  have m1: "malloc e w = (Some (next_addr w), w1)" by (simp add: malloc_ok [OF assms(1)] w1_def)
  obtain t where t: "new_map e w1 = Some (Some t, w1\<lparr>tick := tick w1 + 4\<rparr>)" "hm_keeps 0 t Map.empty" using new_map_ok [OF assms(1)] by blast
  define w2 where "w2 = w1\<lparr>tick := tick w1 + 4\<rparr>"
  obtain t' where t': "new_map e w2 = Some (Some t', w2\<lparr>tick := tick w2 + 4\<rparr>)" "hm_keeps 0 t' Map.empty" using new_map_ok [OF assms(1)] by blast
  define w3 where "w3 = w2\<lparr>tick := tick w2 + 4\<rparr>"
  define sc where "sc = \<lparr>conhashs = Some t, ips = Some t'\<rparr>"
  have "world_ok (md5_junk e) w3 S Map.empty Map.empty" for S using assms(2) by (simp add: world_ok_def w3_def w2_def w1_def)
  then have "table_ok D (md5_junk e) sc w3 S Map.empty" for D S
    unfolding table_ok_def using t(2) t'(2) by (intro exI [of _ t] exI [of _ t'] exI [of _ Map.empty]) (auto simp: sc_def aliases_ok_def groups_ok_def)
  then show thesis
    by (rule that) (use m1 t(1) t'(1) in \<open>simp add: server_conhash_create_def w2_def [symmetric] w3_def [symmetric] sc_def [symmetric]\<close>)
qed

text \<open>The servers of a group, and the state of the script after it has been loaded.\<close>

definition servers_of :: "(int \<times> (string \<times> string) list) list \<Rightarrow> int \<Rightarrow> (string \<times> string) set" where
  "servers_of gs gid = (case map_of gs gid of None \<Rightarrow> {} | Some servers \<Rightarrow> set servers)"

lemma servers_of_group: "distinct (map fst gs) \<Longrightarrow> g \<in> set gs \<Longrightarrow> servers_of gs (fst g) = set (snd g)"
  by (simp add: servers_of_def map_of_is_SomeI [of gs "fst g" "snd g"])

lemma script_loaded:
  assumes "lua_ok api V" and "script_gives api V lua_file gs"
  obtains l l1 L where "lua_newstate api = Some l" and "luaL_dofile api l lua_file = (True, l1)"
    and "get_group_count api (load_data api l1) = Some (int (length gs), L)" and "stk V L = []"
proof -
  obtain l where l: "lua_newstate api = Some l" "stk V l = []" using assms by (auto simp: script_gives_def lua_ok_def)
  obtain l1 where l1: "luaL_dofile api l lua_file = (True, l1)" "stk V l1 = []" using assms(2) l(2) unfolding script_gives_def by metis
  obtain l2 where l2: "lua_call api l1 ''load_data'' [] 0 = (True, l2)" using assms(2) unfolding script_gives_def by (metis prod.collapse)
  then have "stk V l2 = []" using lua_call_stack [OF assms(1) l2 l1(2)] by simp
  then obtain L where "get_group_count api l2 = Some (int (length gs), L)" "stk V L = []"
    using numbers(1) [OF assms(1), of l2 "int (length gs)"] assms(2) unfolding script_gives_def by auto
  moreover have "load_data api l1 = l2" by (simp add: load_data_def l2)
  ultimately show thesis using that l(1) l1(1) by simp
qed

text \<open>Loading a script that gives groups makes a table of rings for exactly those groups.\<close>

lemma create_groups:
  assumes "env_ok e" and "lua_ok api V" and "script_gives api V lua_file gs" and "\<forall>g\<in>set gs. group_ok g" and "distinct (map fst gs)"
    and "\<forall>a\<ge>next_addr w. nodes w a = None \<and> strs w a = None"
  obtains sc w' m where "server_conhash_create api e w lua_file = Some (Some sc, w', False)"
    and "table_ok (fst ` set gs) (md5_junk e) sc w' (servers_of gs) m" and "\<And>gid. m (group_key gid) \<noteq> None \<longleftrightarrow> gid \<in> fst ` set gs"
proof -
  let ?J = "md5_junk e" and ?S = "servers_of gs" and ?D = "fst ` set gs" and ?G = "\<lambda>i. gs ! nat (i - 1)" and ?is = "[1..int (length gs)]"
  obtain l l1 L where L: "lua_newstate api = Some l" "luaL_dofile api l lua_file = (True, l1)"
    "get_group_count api (load_data api l1) = Some (int (length gs), L)" "stk V L = []" using script_loaded [OF assms(2,3)] by blast
  obtain sc w0 where c: "\<And>D S. table_ok D ?J sc w0 S Map.empty"
    "\<And>L w' sc'. group_load api e (load_data api l1) w0 sc = Some (True, L, w', sc') \<Longrightarrow> server_conhash_create api e w lua_file = Some (Some sc', w', False)"
    using create_tables [OF assms(1,6)] L(1,2) by metis
  have G: "\<forall>i\<in>set ?is. gives_group api V i (?G i) \<and> group_ok (?G i) \<and> ?S (fst (?G i)) = set (snd (?G i)) \<and> fst (?G i) \<in> ?D"
  proof
    fix i assume "i \<in> set ?is"
    then have i: "nat (i - 1) < length gs" "int (nat (i - 1)) + 1 = i" by auto
    then have "gives_group api V i (?G i)" using assms(3) unfolding script_gives_def by metis
    then show "gives_group api V i (?G i) \<and> group_ok (?G i) \<and> ?S (fst (?G i)) = set (snd (?G i)) \<and> fst (?G i) \<in> ?D"
      using assms(4) servers_of_group [OF assms(5)] i(1) by simp
  qed
  obtain L' w' sc' m where fin: "group_loop api e L w0 sc ?is = Some (True, L', w', sc')" "table_ok ?D ?J sc' w' ?S m"
    "\<forall>i\<in>set ?is. m (group_key (fst (?G i))) \<noteq> None" using group_loop_ok [OF assms(2,1) c(1) L(4) G] by blast
  show thesis
  proof (rule that)
    show "server_conhash_create api e w lua_file = Some (Some sc', w', False)" by (rule c(2)) (use L(3) fin(1) in \<open>simp add: group_load_def\<close>)
    show "table_ok ?D ?J sc' w' ?S m" by (rule fin(2))
    show "m (group_key gid) \<noteq> None \<longleftrightarrow> gid \<in> ?D" for gid
    proof
      assume "m (group_key gid) \<noteq> None"
      then show "gid \<in> ?D" using fin(2) unfolding table_ok_def groups_ok_def by (metis not_None_eq group_key_inject)
    next
      assume "gid \<in> ?D"
      then obtain j where j: "j < length gs" "fst (gs ! j) = gid" by (auto simp: in_set_conv_nth)
      then show "m (group_key gid) \<noteq> None" using bspec [OF fin(3), of "int j + 1"] by simp
    qed
  qed
qed




section \<open>A script\<close>

text \<open>An interpreter whose state is its stack, for a script given by the results of its functions; \<open>None\<close> is an error, which pushes the empty string.\<close>

definition stack_lua :: "(string \<Rightarrow> int list \<Rightarrow> (int + string) list option) \<Rightarrow> (int + string) list lua_api" where
  "stack_lua f = \<lparr>lua_newstate = Some [], luaL_dofile = (\<lambda>L name. (True, L)),
     lua_call = (\<lambda>L name args n. case f name args of None \<Rightarrow> (False, L @ [Inr '''']) | Some rs \<Rightarrow> (True, L @ take n (rs @ replicate n (Inl 0)))),
     lua_tonumber = (\<lambda>L i. if i \<le> length L then (case L ! (i - 1) of Inl n \<Rightarrow> Some n | Inr s \<Rightarrow> Some 0) else Some 0),
     lua_tostring = (\<lambda>L i. if i \<le> length L then (case L ! (i - 1) of Inl n \<Rightarrow> None | Inr s \<Rightarrow> Some s) else None),
     lua_pop = (\<lambda>L n. if n \<le> length L then Some (take (length L - n) L) else None)\<rparr>"

definition stack_view :: "((int + string) list, int + string) lua_view" where
  "stack_view = \<lparr>stk = (\<lambda>L. L), num = (\<lambda>v. case v of Inl n \<Rightarrow> Some n | Inr s \<Rightarrow> Some 0), str = (\<lambda>v. case v of Inl n \<Rightarrow> None | Inr s \<Rightarrow> Some s)\<rparr>"

lemma stack_lua_ok: "lua_ok (stack_lua f) stack_view"
  by (auto simp: lua_ok_def stack_lua_def stack_view_def Let_def split: option.split)

definition table_script :: "(int \<times> (string \<times> string) list) list \<Rightarrow> string \<Rightarrow> int list \<Rightarrow> (int + string) list option" where
  "table_script gs f args = Some (let g = gs ! nat (args ! 0 - 1); s = snd g ! nat (args ! 1 - 1) in
     if f = ''load_data'' then [] else if f = ''get_group_count'' then [Inl (int (length gs))] else if f = ''get_group_id'' then [Inl (fst g)]
     else if f = ''get_server_count_by_seq'' then [Inl (int (length (snd g)))] else [Inr (fst s), Inr (snd s)])"

lemma table_script_gives: "script_gives (stack_lua (table_script gs)) stack_view lua_file gs"
  by (auto simp: script_gives_def gives_group_def gives_number_def gives_server_def table_script_def stack_lua_def stack_view_def Let_def)

definition demo_groups :: "(int \<times> (string \<times> string) list) list" where
  "demo_groups = [(7, [(''10.0.0.1'', ''''), (''10.0.0.2'', ''b'')]), (8, [])]"

definition demo_env :: sc_env where
  "demo_env = \<lparr>alloc = (\<lambda>_. True), rands = (\<lambda>_. 5), node_junk = replicate 64 CHR ''x'', md5_junk = replicate 64 0\<rparr>"

definition demo_world :: world where
  "demo_world = \<lparr>nodes = Map.empty, rings = Map.empty, strs = Map.empty, next_addr = 0, tick = 0\<rparr>"

lemma demo_ok: "env_ok demo_env" "\<forall>g\<in>set demo_groups. group_ok g" "distinct (map fst demo_groups)"
  "\<forall>a\<ge>next_addr demo_world. nodes demo_world a = None \<and> strs demo_world a = None"
  by (simp_all add: env_ok_def demo_env_def demo_groups_def group_ok_def server_ok_def in_int_def INT_MAX_def demo_world_def)


definition broken_script :: "string \<Rightarrow> int list \<Rightarrow> (int + string) list option" where
  "broken_script f args = (if f = ''load_data'' then None else Some [Inl 2])"


end
