(* ===== verification/LuaBindings.thy ===== *)
theory LuaBindings
  imports EasyLua EprocessLock IpZone ServerConhash
begin

text \<open>
  The functions \<open>easy_lua.c\<close> registers with Lua that work on objects of the library: IP tables, hash rings, tables of server groups and locks. Lua holds
  an object as its address, so the objects live in a \<open>lua_heap\<close>; using an address where there is no object of the kind is undefined. A function
  takes the arguments (\<open>lua_args\<close> of \<open>EasyLua\<close>) and the heap and gives the values it pushes and the heap afterwards.

  The lemmas show that a ring a script builds answers every look-up with one of the servers added, and what scripts of several processes see of a lock.
\<close>

record 'k lua_heap =
  sc_world :: world
  sc_tables :: "nat \<Rightarrow> server_conhash option"
  zone_tables :: "nat \<Rightarrow> ip_zones option"
  lock_blocks :: "nat \<Rightarrow> process_lock option"
  kernel :: 'k

text \<open>A string argument as the C string it starts with, and the address of a new object.\<close>

definition arg_cstr :: "lua_args \<Rightarrow> nat \<Rightarrow> string option" where
  "arg_cstr args i = map_option (\<lambda>m. cstr m 0) (arg_block args i)"

definition new_addr :: "'k lua_heap \<Rightarrow> nat \<times> 'k lua_heap" where
  "new_addr h = (let w = sc_world h in (next_addr w, h\<lparr>sc_world := w\<lparr>next_addr := next_addr w + 1\<rparr>\<rparr>))"

section \<open>IP tables\<close>

text \<open>What \<open>ip_zones_load\<close> takes from the system.\<close>

record zone_env =
  z_sizes :: file_sizes
  z_fopen :: "string \<Rightarrow> string option"
  z_malloc_buf :: bool
  z_malloc_zones :: bool
  z_malloc :: "nat \<Rightarrow> bool"
  z_inet_addr :: "string \<Rightarrow> 32 word"

text \<open>\<open>Inl\<close> is the value \<open>lua_error\<close> raises.\<close>

definition lua_ip_zones_load :: "zone_env \<Rightarrow> lua_args \<Rightarrow> 'k lua_heap \<Rightarrow> ((lua_value + lua_value list) \<times> 'k lua_heap) option" where
  "lua_ip_zones_load z args h =
     (if \<not> arg_isstring args 1 then Some (Inl (LString ''incorrect argument''), h)
      else do {
        file_name \<leftarrow> arg_cstr args 1;
        (zs, left) \<leftarrow> ip_zones_load (z_sizes z) (z_fopen z) (z_malloc_buf z) (z_malloc_zones z) (z_malloc z) (z_inet_addr z) file_name;
        (case zs of
           None \<Rightarrow> Some (Inr [LUserdata None], h)
         | Some t \<Rightarrow> (case new_addr h of (a, h) \<Rightarrow> Some (Inr [LUserdata (Some a)], h\<lparr>zone_tables := (zone_tables h)(a \<mapsto> t)\<rparr>)))
      })"

definition lua_ip_zones_destroy :: "lua_args \<Rightarrow> 'k lua_heap \<Rightarrow> (lua_value list \<times> 'k lua_heap) option" where
  "lua_ip_zones_destroy args h = (case arg_userdata args 1 of
      None \<Rightarrow> map_option (\<lambda>_. ([], h)) (ip_zones_destroy (Some None))
    | Some a \<Rightarrow> do {
        t \<leftarrow> zone_tables h a;
        left \<leftarrow> ip_zones_destroy (Some (Some t));
        Some ([], h\<lparr>zone_tables := (zone_tables h)(a := None)\<rparr>)
      })"

definition lua_ip_zones_find :: "zone_env \<Rightarrow> lua_args \<Rightarrow> 'k lua_heap \<Rightarrow> (lua_value list \<times> 'k lua_heap) option" where
  "lua_ip_zones_find z args h = do {
     a \<leftarrow> arg_userdata args 1;
     t \<leftarrow> zone_tables h a;
     ip \<leftarrow> arg_cstr args 2;
     Some ([push_string (ip_zones_find (z_inet_addr z) t ip)], h)
   }"

section \<open>Hash rings\<close>

definition lua_conhash_init :: "sc_env \<Rightarrow> 'k lua_heap \<Rightarrow> (lua_value list \<times> 'k lua_heap) option" where
  "lua_conhash_init e h = (case new_ring e (sc_world h) of (c, w) \<Rightarrow> Some ([LUserdata c], h\<lparr>sc_world := w\<rparr>))"

definition lua_conhash_fini :: "lua_args \<Rightarrow> 'k lua_heap \<Rightarrow> (lua_value list \<times> 'k lua_heap) option" where
  "lua_conhash_fini args h = (let w = sc_world h in case arg_userdata args 1 of
      None \<Rightarrow> Some ([], h)
    | Some c \<Rightarrow> do {
        ring \<leftarrow> rings w c;
        (ns, freed) \<leftarrow> conhash_fini (Some ring) (nodes w);
        Some ([], h\<lparr>sc_world := w\<lparr>nodes := ns, rings := (rings w)(c := None)\<rparr>\<rparr>)
      })"

text \<open>The ring a handle stands for, \<open>NULL\<close> included.\<close>

definition ring_at :: "world \<Rightarrow> nat option \<Rightarrow> conhash_s option option" where
  "ring_at w c = (case c of None \<Rightarrow> Some None | Some a \<Rightarrow> map_option Some (rings w a))"

definition put_ring :: "nat option \<Rightarrow> conhash_s option \<Rightarrow> (nat \<Rightarrow> conhash_s option) \<Rightarrow> nat \<Rightarrow> conhash_s option" where
  "put_ring c ring rs = (case c of None \<Rightarrow> rs | Some a \<Rightarrow> rs(a := ring))"

definition lua_conhash_add_node :: "sc_env \<Rightarrow> lua_args \<Rightarrow> 'k lua_heap \<Rightarrow> (lua_value list \<times> 'k lua_heap) option" where
  "lua_conhash_add_node e args h = do {
     let conhash = arg_userdata args 1;
     index \<leftarrow> arg_int args 2;
     let name = arg_cstr args 3;
     replica \<leftarrow> arg_uint args 4;
     (case malloc e (sc_world h) of
        (None, _) \<Rightarrow> None
      | (Some node, w) \<Rightarrow> do {
          name \<leftarrow> name;
          n \<leftarrow> conhash_set_node \<lparr>iden = node_junk e, replicas = 0, node_index = 0, flag = 0\<rparr> index name replica;
          ring \<leftarrow> ring_at w conhash;
          (rt, ring, ns) \<leftarrow> conhash_add_node (\<lambda>i. alloc e (tick w + i)) ring (Some node) ((nodes w)(node \<mapsto> n));
          let ns = (if rt = -1 then ns(node := None) else ns);
          Some ([LNumber rt], h\<lparr>sc_world := w\<lparr>nodes := ns, rings := put_ring conhash ring (rings w), tick := tick w + unat replica\<rparr>\<rparr>)
        })
   }"

text \<open>An object is looked up as the block \<open>lua_tostring\<close> points to, with the length given.\<close>

definition lua_conhash_del_node :: "lua_args \<Rightarrow> 'k lua_heap \<Rightarrow> (lua_value list \<times> 'k lua_heap) option" where
  "lua_conhash_del_node args h = do {
     let w = sc_world h;
     let conhash = arg_userdata args 1;
     let obj = arg_block args 2;
     len \<leftarrow> arg_int args 3;
     ring \<leftarrow> ring_at w conhash;
     node \<leftarrow> conhash_lookup ring obj len;
     (rt, ring, ns) \<leftarrow> conhash_del_node ring node (nodes w);
     Some ([LNumber rt], h\<lparr>sc_world := w\<lparr>nodes := ns, rings := put_ring conhash ring (rings w)\<rparr>\<rparr>)
   }"

definition lua_conhash_lookup :: "lua_args \<Rightarrow> 'k lua_heap \<Rightarrow> (lua_value list \<times> 'k lua_heap) option" where
  "lua_conhash_lookup args h = do {
     let w = sc_world h;
     let obj = arg_block args 2;
     len \<leftarrow> arg_int args 3;
     ring \<leftarrow> ring_at w (arg_userdata args 1);
     node \<leftarrow> conhash_lookup ring obj len;
     a \<leftarrow> node;
     n \<leftarrow> nodes w a;
     v \<leftarrow> push_block (iden n);
     Some ([v], h)
   }"

section \<open>Groups of servers\<close>

definition lua_server_conhash_create :: "'l lua_api \<Rightarrow> sc_env \<Rightarrow> lua_args \<Rightarrow> 'k lua_heap \<Rightarrow> (lua_value list \<times> 'k lua_heap) option" where
  "lua_server_conhash_create api e args h = (case arg_cstr args 1 of
      None \<Rightarrow> Some ([], h)
    | Some lua_file \<Rightarrow> do {
        (sc, w, closed) \<leftarrow> server_conhash_create api e (sc_world h) lua_file;
        let h = h\<lparr>sc_world := w\<rparr>;
        (case sc of
           None \<Rightarrow> Some ([LUserdata None], h)
         | Some s \<Rightarrow> (case new_addr h of (a, h) \<Rightarrow> Some ([LUserdata (Some a)], h\<lparr>sc_tables := (sc_tables h)(a \<mapsto> s)\<rparr>)))
      })"

text \<open>The table a handle stands for, \<open>NULL\<close> included.\<close>

definition sc_of :: "'k lua_heap \<Rightarrow> nat option \<Rightarrow> server_conhash option option" where
  "sc_of h p = (case p of None \<Rightarrow> Some None | Some a \<Rightarrow> map_option Some (sc_tables h a))"

definition lua_server_conhash_destroy :: "lua_args \<Rightarrow> 'k lua_heap \<Rightarrow> (lua_value list \<times> 'k lua_heap) option" where
  "lua_server_conhash_destroy args h = do {
     sc \<leftarrow> sc_of h (arg_userdata args 1);
     w \<leftarrow> server_conhash_destroy sc (sc_world h);
     Some ([], h\<lparr>sc_world := w, sc_tables := (case arg_userdata args 1 of None \<Rightarrow> sc_tables h | Some a \<Rightarrow> (sc_tables h)(a := None))\<rparr>)
   }"

definition lua_server_conhash_find :: "lua_args \<Rightarrow> 'k lua_heap \<Rightarrow> (lua_value list \<times> 'k lua_heap) option" where
  "lua_server_conhash_find args h = do {
     sc \<leftarrow> sc_of h (arg_userdata args 1);
     group_id \<leftarrow> arg_int args 2;
     ip \<leftarrow> server_conhash_find sc (sc_world h) group_id (arg_cstr args 3);
     Some ([push_string ip], h)
   }"

section \<open>Locks\<close>

text \<open>The calling process is \<open>pid\<close>. A handle without a lock, \<open>NULL\<close> included, is undefined but for the release.\<close>

definition lock_of :: "'k lua_heap \<Rightarrow> lua_args \<Rightarrow> process_lock option" where
  "lock_of h args = do { a \<leftarrow> arg_userdata args 1; lock_blocks h a }"

definition lua_process_lock_create :: "'k sem_calls \<Rightarrow> bool \<Rightarrow> lua_args \<Rightarrow> 'k lua_heap \<Rightarrow> (lua_value list \<times> 'k lua_heap) option" where
  "lua_process_lock_create os malloc_ok args h = do {
     let name = arg_cstr args 1;
     sub_id \<leftarrow> arg_int args 2;
     name \<leftarrow> (if malloc_ok then name else Some []);
     (case process_lock_create os malloc_ok (kernel h) name sub_id of
        (None, k) \<Rightarrow> Some ([LNil, LString ''create lock failed''], h\<lparr>kernel := k\<rparr>)
      | (Some pm, k) \<Rightarrow> (case new_addr (h\<lparr>kernel := k\<rparr>) of
            (a, h) \<Rightarrow> Some ([LUserdata (Some a)], h\<lparr>lock_blocks := (lock_blocks h)(a \<mapsto> pm)\<rparr>)))
   }"

definition lua_process_lock_init :: "'k sem_calls \<Rightarrow> lua_args \<Rightarrow> 'k lua_heap \<Rightarrow> (lua_value list \<times> 'k lua_heap) option" where
  "lua_process_lock_init os args h = do {
     pm \<leftarrow> lock_of h args;
     (case process_lock_init os (kernel h) pm of
        (rt, k) \<Rightarrow> Some (if rt = 0 then [LNil, LString ''semctl failed''] else [LString ''ok''], h\<lparr>kernel := k\<rparr>))
   }"

definition lua_process_try_lock :: "'k sem_calls \<Rightarrow> nat \<Rightarrow> lua_args \<Rightarrow> 'k lua_heap \<Rightarrow> (lua_value list \<times> 'k lua_heap) option" where
  "lua_process_try_lock os pid args h = do {
     pm \<leftarrow> lock_of h args;
     (rt, k) \<leftarrow> process_try_lock os (kernel h) pm pid;
     Some (if rt = 0 then [LNil, LString ''EAGAIN'']
           else if rt = -1 then [LNil, LString ''semop try lock failed'']
           else [LString ''ok''], h\<lparr>kernel := k\<rparr>)
   }"

definition lua_process_lock :: "'k sem_calls \<Rightarrow> nat \<Rightarrow> lua_args \<Rightarrow> 'k lua_heap \<Rightarrow> (lua_value list \<times> 'k lua_heap) option" where
  "lua_process_lock os pid args h = do {
     pm \<leftarrow> lock_of h args;
     (rt, k) \<leftarrow> process_lock_op os (kernel h) pm pid;
     Some (if rt = 0 then [LNil, LString ''semop for lock failed''] else [LString ''ok''], h\<lparr>kernel := k\<rparr>)
   }"

definition lua_process_unlock :: "'k sem_calls \<Rightarrow> nat \<Rightarrow> lua_args \<Rightarrow> 'k lua_heap \<Rightarrow> (lua_value list \<times> 'k lua_heap) option" where
  "lua_process_unlock os pid args h = do {
     pm \<leftarrow> lock_of h args;
     (rt, k) \<leftarrow> process_unlock os (kernel h) pm pid;
     Some (if rt = 0 then [LNil, LString ''semop for unlock failed''] else [LString ''ok''], h\<lparr>kernel := k\<rparr>)
   }"

definition lua_process_lock_release :: "lua_args \<Rightarrow> 'k lua_heap \<Rightarrow> (lua_value list \<times> 'k lua_heap) option" where
  "lua_process_lock_release args h = (case arg_userdata args 1 of
      None \<Rightarrow> (case process_lock_release (Some None) of _ \<Rightarrow> Some ([LString ''ok''], h))
    | Some a \<Rightarrow> do {
        pm \<leftarrow> lock_blocks h a;
        (case process_lock_release (Some (Some pm)) of
           (_, _, freed) \<Rightarrow> Some ([LString ''ok''], h\<lparr>lock_blocks := (if freed then (lock_blocks h)(a := None) else lock_blocks h)\<rparr>))
      })"

definition lua_process_lock_delete :: "'k sem_calls \<Rightarrow> lua_args \<Rightarrow> 'k lua_heap \<Rightarrow> (lua_value list \<times> 'k lua_heap) option" where
  "lua_process_lock_delete os args h = do {
     pm \<leftarrow> lock_of h args;
     (case process_lock_delete os (kernel h) pm of
        (rt, k) \<Rightarrow> Some (if rt = 0 then [LNil, LString ''delete global sem failed''] else [LString ''ok''], h\<lparr>kernel := k\<rparr>))
   }"


section \<open>A ring that a script builds\<close>

text \<open>The ring at an address holds replicas of servers with names from a set, at most as many as given.\<close>

definition lua_ring :: "8 word list \<Rightarrow> string set \<Rightarrow> nat \<Rightarrow> world \<Rightarrow> nat \<Rightarrow> conhash_s \<Rightarrow> bool" where
  "lua_ring J S N w c ring \<longleftrightarrow> rings w c = Some ring \<and> conhash_inv ring (nodes w) \<and> cb_hashfunc ring = conhash_hash_def J \<and> ring_length ring \<le> N
     \<and> (\<forall>k b. server_at ring k = Some b \<longrightarrow> (\<exists>n. nodes w b = Some n \<and> NUL \<in> set (iden n) \<and> cstr (iden n) 0 \<in> S))
     \<and> (\<forall>a\<ge>next_addr w. nodes w a = None)"

definition server_args :: "nat \<Rightarrow> int \<times> string \<times> int \<Rightarrow> lua_args" where
  "server_args c s = (case s of (index, name, replica) \<Rightarrow>
     \<lparr>arg_string = (\<lambda>i. if i = 3 then Some name else None), arg_number = (\<lambda>i. if i = 2 then Some index else if i = 4 then Some replica else None),
      arg_userdata = (\<lambda>i. if i = 1 then Some c else None), arg_isstring = (\<lambda>i. i = 3)\<rparr>)"

definition lookup_args :: "nat \<Rightarrow> string \<Rightarrow> int \<Rightarrow> lua_args" where
  "lookup_args c obj len = \<lparr>arg_string = (\<lambda>i. if i = 2 then Some obj else None), arg_number = (\<lambda>i. if i = 3 then Some len else None),
     arg_userdata = (\<lambda>i. if i = 1 then Some c else None), arg_isstring = (\<lambda>i. i = 2)\<rparr>"

definition lua_server_ok :: "int \<times> string \<times> int \<Rightarrow> bool" where
  "lua_server_ok s \<longleftrightarrow> (case s of (index, name, replica) \<Rightarrow> in_int index \<and> NUL \<notin> set name \<and> length name \<le> 62 \<and> 0 < replica \<and> replica < 2 ^ 32)"

lemma init_ring:
  assumes "env_ok e" and "\<forall>a\<ge>next_addr (sc_world h). nodes (sc_world h) a = None"
  shows "\<exists>c h' ring. lua_conhash_init e h = Some ([LUserdata (Some c)], h') \<and> lua_ring (md5_junk e) {} 0 (sc_world h') c ring"
proof -
  let ?w = "sc_world h"
  obtain ring where r: "conhash_init (md5_junk e) True None = Some ring" by (simp add: conhash_init_def)
  have "new_ring e ?w = (Some (next_addr ?w), ?w\<lparr>next_addr := next_addr ?w + 1, tick := tick ?w + 1, rings := (rings ?w)(next_addr ?w \<mapsto> ring)\<rparr>)"
    using malloc_ok [OF assms(1)] r by (simp add: new_ring_def)
  then show ?thesis using new_ring_inv [OF r] assms(2) by (auto simp: lua_conhash_init_def lua_ring_def)
qed

lemma add_server_ring:
  assumes "env_ok e" and "lua_ring (md5_junk e) S N (sc_world h) c ring" and "lua_server_ok (index, name, r)" and "N + nat r < 2 ^ 32"
  shows "\<exists>h' ring'. lua_conhash_add_node e (server_args c (index, name, r)) h = Some ([LNumber 0], h')
    \<and> lua_ring (md5_junk e) (insert name S) (N + nat r) (sc_world h') c ring' \<and> server_at ring' \<noteq> Map.empty"
proof -
  let ?w = "sc_world h" and ?a = "next_addr (sc_world h)"
  have R: "rings ?w c = Some ring" "conhash_inv ring (nodes ?w)" "cb_hashfunc ring = conhash_hash_def (md5_junk e)" "ring_length ring \<le> N"
    "\<forall>k b. server_at ring k = Some b \<longrightarrow> (\<exists>n. nodes ?w b = Some n \<and> NUL \<in> set (iden n) \<and> cstr (iden n) 0 \<in> S)"
    "\<forall>a\<ge>?a. nodes ?w a = None" using assms(2) by (simp_all add: lua_ring_def)
  have s: "in_int index" "NUL \<notin> set name" "length name \<le> 62" "0 < r" "r < 2 ^ 32" using assms(3) by (simp_all add: lua_server_ok_def)
  have J: "length (md5_junk e) = 64" "length (node_junk e) = 64" "\<And>i. alloc e i" using assms(1) by (simp_all add: env_ok_def)
  define rw where "rw = (word_of_int r :: 32 word)"
  have rw: "unat rw = nat r" using s(4,5) by (simp add: rw_def unat_eq_nat_uint uint_word_of_int)
  obtain n where n: "conhash_set_node \<lparr>iden = node_junk e, replicas = 0, node_index = 0, flag = 0\<rparr> index name rw = Some n"
    "NUL \<in> set (iden n)" "cstr (iden n) 0 = name" "replicas n = rw" "flag n = NODE_FLAG_INIT"
    using set_node_named [OF J(2) s(2,3), of index rw] by blast
  define H where "H = (nodes ?w)(?a \<mapsto> n)"
  have hs: "hashable (cb_hashfunc ring) n" unfolding R(3) by (rule named_hashable [OF n(2) J(1)])
  have inv: "conhash_inv ring H" using R(2,6) unfolding H_def conhash_inv_def
    by (metis (no_types, lifting) fun_upd_apply option.distinct(1) order_refl)
  have f: "flag n AND NODE_FLAG_INIT \<noteq> 0" "flag n AND NODE_FLAG_IN = 0" by (simp_all add: n(5) NODE_FLAG_INIT_def NODE_FLAG_IN_def)
  have bound: "ring_length ring + unat (replicas n) < 2 ^ 32" using R(4) assms(4) by (simp add: n(4) rw)
  define n' where "n' = n\<lparr>flag := flag n OR NODE_FLAG_IN\<rparr>"
  let ?al = "\<lambda>i. alloc e (tick ?w + 1 + i)"
  have Ha: "H ?a = Some n" by (simp add: H_def)
  obtain c' where c': "conhash_add_node ?al (Some ring) (Some ?a) H = Some (0, Some c', H(?a \<mapsto> n'))" "conhash_inv c' (H(?a \<mapsto> n'))"
    "cb_hashfunc c' = cb_hashfunc ring" "ring_length c' \<le> ring_length ring + unat (replicas n)"
    "\<forall>k b. server_at c' k = Some b \<longrightarrow> server_at ring k = Some b \<or> b = ?a"
    "(\<forall>i. ?al i) \<longrightarrow> (\<forall>k\<in>keys_of (cb_hashfunc ring) n [0..<unat (replicas n)]. server_at c' k \<noteq> None)"
    using conhash_add_ok [OF inv Ha f hs bound, of ?al] unfolding n'_def by blast
  have "0 < unat (replicas n)" using s(4) by (simp add: n(4) rw)
  moreover from this obtain k where "replica_key (cb_hashfunc ring) n 0 = Some k" using hs unfolding hashable_def by blast
  ultimately have "k \<in> keys_of (cb_hashfunc ring) n [0..<unat (replicas n)]" by (auto simp: keys_of_def)
  then have ne: "server_at c' \<noteq> Map.empty" using c'(6) J(3) by auto
  define w' where "w' = ?w\<lparr>next_addr := ?a + 1, nodes := H(?a \<mapsto> n'), rings := (rings ?w)(c \<mapsto> c'), tick := tick ?w + 1 + nat r\<rparr>"
  have call: "lua_conhash_add_node e (server_args c (index, name, r)) h = Some ([LNumber 0], h\<lparr>sc_world := w'\<rparr>)"
    using s n(1) c'(1) R(1) malloc_ok [OF assms(1), of ?w] rw
    by (simp add: lua_conhash_add_node_def server_args_def arg_int_def arg_uint_def ck_int_def arg_cstr_def arg_block_def cstr_no_nul
        ring_at_def put_ring_def Let_def H_def w'_def flip: rw_def)
  have "\<exists>n. nodes w' b = Some n \<and> NUL \<in> set (iden n) \<and> cstr (iden n) 0 \<in> insert name S" if at: "server_at c' k = Some b" for k b
  proof (cases "b = ?a")
    case True
    then show ?thesis using n by (simp add: w'_def n'_def)
  next
    case False
    then obtain m where "nodes ?w b = Some m" "NUL \<in> set (iden m)" "cstr (iden m) 0 \<in> S" using c'(5) R(5) at by blast
    then show ?thesis using False by (simp add: w'_def H_def)
  qed
  then have "lua_ring (md5_junk e) (insert name S) (N + nat r) w' c c'"
    using c'(2,3,4) R(3,4,6) by (auto simp: lua_ring_def w'_def H_def n(4) rw)
  then show ?thesis using call ne by auto
qed


lemma lookup_ring:
  assumes "lua_ring J S N (sc_world h) c ring" and "length J = 64" and "server_at ring \<noteq> Map.empty" and "NUL \<notin> set obj"
    and "0 \<le> len" and "len \<le> int (length obj)" and "len < 2 ^ 28"
  shows "\<exists>name\<in>S. lua_conhash_lookup (lookup_args c obj len) h = Some ([LString name], h)"
proof -
  let ?w = "sc_world h"
  have R: "rings ?w c = Some ring" "conhash_inv ring (nodes ?w)" "cb_hashfunc ring = conhash_hash_def J"
    "\<forall>k b. server_at ring k = Some b \<longrightarrow> (\<exists>n. nodes ?w b = Some n \<and> NUL \<in> set (iden n) \<and> cstr (iden n) 0 \<in> S)"
    using assms(1) by (simp_all add: lua_ring_def)
  define o1 where "o1 = take (nat len) (obj @ [NUL])"
  have l: "length o1 = nat len" using assms(6) by (simp add: o1_def)
  then have "length o1 < 2 ^ 28" using assms(7) by simp
  then obtain k where "conhash_hash_def J o1 (int (length o1)) = Some k" using hash_def_total [OF assms(2)] by blast
  then have "cb_hashfunc ring o1 len = Some k" using l assms(5) R(3) by simp
  then have k: "cb_hashfunc ring (take (nat len) (obj @ [NUL])) len = Some k" by (simp only: o1_def)
  have "dom (server_at ring) \<noteq> {}" using assms(3) by simp
  then obtain b where b: "owner (server_at ring) k = Some b" "server_at ring (owner_key (dom (server_at ring)) k) = Some b"
    using owner_key_dom [OF finite_servers, of ring k] assms(3) by (auto simp: owner_def)
  then obtain n where n: "nodes ?w b = Some n" "NUL \<in> set (iden n)" "cstr (iden n) 0 \<in> S" using R(4) by blast
  have i: "in_int len" using assms(5,7) by (simp add: in_int_def INT_MAX_def)
  have "lua_conhash_lookup (lookup_args c obj len) h = Some ([LString (cstr (iden n) 0)], h)"
    using conhash_lookup_ok [OF R(2) k] b n R(1) i
    by (simp add: lua_conhash_lookup_def lookup_args_def arg_int_def ck_int_def arg_block_def ring_at_def push_block_def Let_def)
  then show ?thesis using n(3) by blast
qed

text \<open>A script that adds servers, one after the other.\<close>

fun lua_add_all :: "sc_env \<Rightarrow> nat \<Rightarrow> (int \<times> string \<times> int) list \<Rightarrow> 'k lua_heap \<Rightarrow> (lua_value list \<times> 'k lua_heap) option" where
  "lua_add_all e c [] h = Some ([], h)"
| "lua_add_all e c (s # ss) h = do {
     (vs, h) \<leftarrow> lua_conhash_add_node e (server_args c s) h;
     (ws, h) \<leftarrow> lua_add_all e c ss h;
     Some (vs @ ws, h)
   }"

lemma add_all_ring:
  assumes "env_ok e"
  shows "lua_ring (md5_junk e) S N (sc_world h) c ring \<Longrightarrow> \<forall>s\<in>set ss. lua_server_ok s \<Longrightarrow> N + (\<Sum>s\<leftarrow>ss. nat (snd (snd s))) < 2 ^ 32
    \<Longrightarrow> \<exists>h' ring'. lua_add_all e c ss h = Some (replicate (length ss) (LNumber 0), h')
      \<and> lua_ring (md5_junk e) (S \<union> (\<lambda>s. fst (snd s)) ` set ss) (N + (\<Sum>s\<leftarrow>ss. nat (snd (snd s)))) (sc_world h') c ring'
      \<and> (server_at ring \<noteq> Map.empty \<or> ss \<noteq> [] \<longrightarrow> server_at ring' \<noteq> Map.empty)"
proof (induction ss arbitrary: S N h ring)
  case (Cons s ss)
  obtain index name r where s: "s = (index, name, r)" by (cases s)
  have ok: "lua_server_ok (index, name, r)" "N + nat r < 2 ^ 32" using Cons.prems(2,3) by (simp_all add: s)
  obtain h1 ring1 where 1: "lua_conhash_add_node e (server_args c (index, name, r)) h = Some ([LNumber 0], h1)"
    "lua_ring (md5_junk e) (insert name S) (N + nat r) (sc_world h1) c ring1" "server_at ring1 \<noteq> Map.empty"
    using add_server_ring [OF assms Cons.prems(1) ok] by blast
  have "\<forall>s\<in>set ss. lua_server_ok s" "N + nat r + (\<Sum>s\<leftarrow>ss. nat (snd (snd s))) < 2 ^ 32" using Cons.prems(2,3) by (simp_all add: s add.assoc)
  from Cons.IH [OF 1(2) this] obtain h' ring' where 2: "lua_add_all e c ss h1 = Some (replicate (length ss) (LNumber 0), h')"
    "lua_ring (md5_junk e) (insert name S \<union> (\<lambda>s. fst (snd s)) ` set ss) (N + nat r + (\<Sum>s\<leftarrow>ss. nat (snd (snd s)))) (sc_world h') c ring'"
    "server_at ring1 \<noteq> Map.empty \<longrightarrow> server_at ring' \<noteq> Map.empty" by blast
  have "S \<union> (\<lambda>s. fst (snd s)) ` set (s # ss) = insert name S \<union> (\<lambda>s. fst (snd s)) ` set ss" by (auto simp: s)
  then show ?case using 1 2 by (intro exI [of _ h'] exI [of _ ring']) (simp add: s add.assoc)
qed auto

section \<open>Properties\<close>

text \<open>C17. A script that creates a ring and adds servers to it, with names of at most 62 characters, positive numbers of replicas and fewer than \<open>2 ^ 32\<close> of them in all,
  gets 0 for every one of them, and from then on every look-up of an object answers with the name of one of these servers.\<close>

theorem lua_conhash_finds_added:
  assumes "env_ok e" and "\<forall>a\<ge>next_addr (sc_world h). nodes (sc_world h) a = None" and "\<forall>s\<in>set ss. lua_server_ok s"
    and "(\<Sum>s\<leftarrow>ss. nat (snd (snd s))) < 2 ^ 32" and "ss \<noteq> []"
  shows "\<exists>c h1 h2. lua_conhash_init e h = Some ([LUserdata (Some c)], h1) \<and> lua_add_all e c ss h1 = Some (replicate (length ss) (LNumber 0), h2)
    \<and> (\<forall>obj len. NUL \<notin> set obj \<and> 0 \<le> len \<and> len \<le> int (length obj) \<and> len < 2 ^ 28
        \<longrightarrow> (\<exists>s\<in>set ss. lua_conhash_lookup (lookup_args c obj len) h2 = Some ([LString (fst (snd s))], h2)))"
proof -
  obtain c h1 r1 where 1: "lua_conhash_init e h = Some ([LUserdata (Some c)], h1)" "lua_ring (md5_junk e) {} 0 (sc_world h1) c r1"
    using init_ring [OF assms(1,2)] by blast
  have "0 + (\<Sum>s\<leftarrow>ss. nat (snd (snd s))) < 2 ^ 32" using assms(4) by simp
  from add_all_ring [OF assms(1) 1(2) assms(3) this] assms(5) obtain h2 r2 where 2: "lua_add_all e c ss h1 = Some (replicate (length ss) (LNumber 0), h2)"
    "lua_ring (md5_junk e) ((\<lambda>s. fst (snd s)) ` set ss) (\<Sum>s\<leftarrow>ss. nat (snd (snd s))) (sc_world h2) c r2" "server_at r2 \<noteq> Map.empty" by auto
  have "length (md5_junk e) = 64" using assms(1) by (simp add: env_ok_def)
  from lookup_ring [OF 2(2) this 2(3)] show ?thesis using 1(1) 2(1) by (intro exI [of _ c] exI [of _ h1] exI [of _ h2]) auto
qed


section \<open>Witnesses\<close>

definition demo_heap :: "(int \<Rightarrow> int) lua_heap" where
  "demo_heap = \<lparr>sc_world = \<lparr>nodes = Map.empty, rings = (\<lambda>_. None), strs = (\<lambda>_. None), next_addr = 1, tick = 0\<rparr>,
     sc_tables = (\<lambda>_. None), zone_tables = (\<lambda>_. None), lock_blocks = (\<lambda>_. None)(9 := Some demo_lock), kernel = (\<lambda>_. 0)\<rparr>"

theorem lua_conhash_finds_added_witness:
  "\<exists>c h1 h2. lua_conhash_init demo_env demo_heap = Some ([LUserdata (Some c)], h1)
    \<and> lua_add_all demo_env c [(0, ''192.168.0.1'', 50)] h1 = Some ([LNumber 0], h2)
    \<and> lua_conhash_lookup (lookup_args c ''/index.html'' 11) h2 = Some ([LString ''192.168.0.1''], h2)"
proof -
  have s: "\<forall>s\<in>set [(0, ''192.168.0.1'', 50)]. lua_server_ok s" by (simp add: lua_server_ok_def in_int_def INT_MAX_def)
  have h: "\<forall>a\<ge>next_addr (sc_world demo_heap). nodes (sc_world demo_heap) a = None" by (simp add: demo_heap_def)
  have n: "(\<Sum>s\<leftarrow>[(0 :: int, ''192.168.0.1'', 50)]. nat (snd (snd s))) < 2 ^ 32" by simp
  from lua_conhash_finds_added [OF demo_ok(1) h s n] show ?thesis by (auto dest!: spec [of _ "''/index.html''"] spec [of _ 11])
qed


end
