(* ===== verification/Spec2Isabelle.thy ===== *)
theory Spec2Isabelle
  imports Estring Equeue EmemPool Ebuffer Etime Eproperty Elog Eother Enetwork Eshm EprocessLock EthreadPool Rbtree RbAugment IpZone Hashmap TcpServer TcpClient Udp Des Crc LuaBindings
begin

text \<open>
  libeasy is a C library for servers: strings, queues, memory, logging and threads (\<open>src/lib/base\<close>; \<open>v1.0.0/src/core\<close> is the same code), and on top of
  it, in \<open>v1.0.0\<close>, network code, a table of IP ranges, consistent hashing of servers and a binding to Lua, with the data structures and ciphers they use in
  \<open>v1.0.0/thirdparty\<close>. This development models its functions and proves what they do. This theory only imports the others; every definition, property and
  witness stands in the theory of its component.

  \<^bold>\<open>Conventions\<close> (\<open>Prelude\<close>). A function of the source is a definition of its name on explicit state, in the order of the source's statements; where the name
  is taken in HOL or by another file, or for a loop or a macro, the name says what it is. A result \<open>None\<close> of an option is undefined
  behaviour: an access outside a block, a \<open>NULL\<close> dereference, a signed overflow, the use of an indeterminate value; in the few functions that need not end
  (\<open>partial_function\<close>) it is also the loop that does not end, and in the lock the call that blocks. A block of memory is a list with checked accesses
  (\<open>rd\<close>, \<open>wr\<close>, \<open>rd_block\<close>, \<open>wr_block\<close>), a pointer into it an offset; objects that are linked or shared live in a heap, a partial function from addresses.
  Unsigned integers are words of their width; an \<open>int\<close> is an integer with its overflow checked (\<open>ck_int\<close>) or, where the source converts, taken modulo.
  What the system answers (allocations, system calls, the clock, \<open>rand\<close>) is an argument, so that a theorem for all arguments covers every failure; what
  is relied on of it is a named predicate, and the properties' witnesses give an instance. Log lines are left out except in the logger.

  \<^bold>\<open>The base library.\<close>
  \<^item> \<open>Estring\<close> (\<open>estring.c\<close>): comments, trimming, splitting a URL, comparison, in place on blocks.
  \<^item> \<open>Equeue\<close> (\<open>equeue.c\<close>): the ring buffer and its growth; it refines a list. Its interface is the locale \<open>fifo\<close>, interpreted on \<open>queue_push\<close> and \<open>queue_pop\<close>.
  \<^item> \<open>EthreadPool\<close> (\<open>ethread_pool.c\<close>): the pool of threads on that interface; every task goes to one worker, in order, over any interleaving.
  \<^item> \<open>EmemPool\<close> (\<open>emem_pool.c\<close>): the pool of pages; what it hands out is aligned and disjoint over any history. \<open>Ebuffer\<close> (\<open>ebuffer.c\<close>): the growing buffer, a byte stream.
  \<^item> \<open>Etime\<close> (\<open>etime.c\<close>), \<open>Eproperty\<close> (\<open>eproperty.c\<close>, on \<open>Estring\<close>), \<open>Cprintf\<close> (the part of \<open>printf\<close> in use), \<open>Esyslog\<close> (\<open>esyslog.c\<close>) and \<open>Elog\<close> (\<open>elog.c\<close>, on
    \<open>Esyslog\<close>): the line that is written, byte by byte, and its bounds.
  \<^item> \<open>EprocessLock\<close> (\<open>eprocess_lock.c\<close>): the lock between processes, with a step relation of the processes that share it; \<open>Eshm\<close> (\<open>eshm.c\<close>), \<open>Enetwork\<close>
    (\<open>enetwork.c\<close>), \<open>Eother\<close> (\<open>eother.c\<close>): shared memory, sockets, files and directories, with what every path of failure leaves behind.

  \<^bold>\<open>Data structures.\<close>
  \<^item> \<open>Rbtree\<close> (\<open>rbtree.c\<close>): the red-black tree. A tree is a datatype and a position in it a path of \<open>frame\<close>s, which stand for the parent pointers; insertion and removal keep
    order, colours and balance; the source's two halves of every case are mirror images, and the lemmas are proved for one. \<open>RbAugment\<close> (the rest of \<open>rbtree.c\<close>): the calls that
    keep data of subtrees up to date, with the callback as an argument.
  \<^item> \<open>Links\<close>: doubly linked lists in a heap, the locale \<open>links\<close>, interpreted on the nodes of \<open>Hashmap\<close> and the streams of \<open>TcpServer\<close> and \<open>TcpClient\<close>.
  \<^item> \<open>PrimeTable\<close> (\<open>prime_table.c\<close>) and \<open>Hashmap\<close> (\<open>hash_fcn.c\<close>, \<open>hashmap.c\<close>): the hash map refines a finite map; its interface is the locale \<open>map_store\<close>, interpreted
    on the map's functions.
  \<^item> \<open>UtilRbtree\<close> (\<open>util_rbtree.c\<close>): the second red-black tree, on the first one's trees; its interface to the ring, look-up of the next key around a circle, is the
    locale \<open>key_ring\<close>, interpreted on its functions.

  \<^bold>\<open>Services.\<close>
  \<^item> \<open>IpZone\<close> (\<open>ip_zone.c\<close>, on \<open>Rbtree\<close>): the file of networks and the look-up of addresses.
  \<^item> \<open>Md5\<close> (\<open>md5.c\<close>), \<open>Des\<close> (\<open>3des.c\<close>), \<open>Crc\<close> (\<open>crc32.c\<close>): the algorithms as written, with all tables. MD5 equals a definition block by block, the ciphers invert themselves, the
    CRC equals its bitwise definition.
  \<^item> \<open>Conhash\<close> (\<open>conhash.c\<close> and its parts, on \<open>UtilRbtree\<close> and \<open>Md5\<close>): the ring of servers, and what consistent hashing promises. \<open>ServerConhash\<close> (\<open>server_conhash.c\<close>, on
    \<open>Conhash\<close> and \<open>Hashmap\<close>): the table of groups a Lua script describes; the interpreter is a parameter (\<open>lua_api\<close>) under the hypothesis \<open>lua_ok\<close>, which is what its manual says of the stack.
  \<^item> \<open>Udp\<close> (\<open>udp.c\<close>, \<open>network_util.c\<close>), \<open>TcpServer\<close> (\<open>tcp_server.c\<close>): sockets and the event loop; the callbacks of the user are a parameter. \<open>TcpClient\<close> (\<open>tcp_client.c\<close>): the
    part of the file that is a program.
  \<^item> \<open>EasyLua\<close> and \<open>LuaBindings\<close> (\<open>easy_lua.c\<close>): the functions for Lua, on \<open>Des\<close>, \<open>Md5\<close>, \<open>Conhash\<close>, \<open>ServerConhash\<close>, \<open>IpZone\<close> and \<open>EprocessLock\<close>.

  \<^bold>\<open>What the properties show.\<close> Invariants over any history: the memory pool, the trees and the data of their subtrees, the streams of the server, the lock, the ring. Refinements: the queue of a
  list, the hash map of a finite map, the buffer of a byte stream. Equivalences: MD5, CRC, the string order. Round trips: triple DES, time tokens, the dump of the IP table. Ends
  of loops: the iteration and deletion of the hash map, the destruction of the IP table, the closing of a ring. Functions on every
  branch, and errors: what fails, when, and what is left allocated or open. Some properties state what the code does where it does what nobody wants: a server that never
  accepts, a key that has no effect, a look-up that is undefined on an empty group.

  \<^bold>\<open>Bounds and fuel.\<close> No function has fuel. The event loop and the threads run over a list of the answers the system gives; the theorems hold for every list. Loops
  with a measure are total; \<open>load_loop\<close> and \<open>destroy_loop\<close> of \<open>IpZone\<close>, \<open>fini_loop\<close> of \<open>Conhash\<close>, \<open>delete_row\<close> of \<open>Hashmap\<close> and the other \<open>partial_function\<close>s are proved to
  return under the hypotheses of their theorems. Lengths in hypotheses (\<open>2 ^ 28\<close> bytes for a digest, \<open>2 ^ 32\<close> replicas) are where an \<open>int\<close> or a counter would overflow.

  \<^bold>\<open>Not modelled.\<close> \<open>ememory.c\<close> (a traced \<open>malloc\<close>); the copies \<open>v1.0.0/src/core\<close>, \<open>v1.0.0/include\<close> and \<open>thirdparty/crypt/md5.c\<close>, which equal modelled files; the functions of \<open>tcp_client.c\<close> that do
  not compile; the registration table of \<open>easy_lua.c\<close> and its commented-out UUID; the file and chain fields of \<open>ebuffer.h\<close>, which no function uses; mutexes
  inside one process, whose calls are taken as atomic; the programs under \<open>test\<close>, the Lua scripts and the build files.
\<close>

end
